(* ===== verification/Prelude.thy ===== *)
theory Prelude
  imports Main "HOL-Library.Word" "HOL-Library.AList" "HOL-Library.Multiset"
    "HOL-Library.Product_Lexorder"
begin

text \<open>
  Shared vocabulary of the development.

  \<^item> Rust's machine integers: \<open>u32\<close>, \<open>u64\<close> are words; \<open>i64\<close> is a 64-bit word read with
    \<open>sint\<close>, so the casts \<open>as u64\<close> / \<open>as i64\<close> are the identity on bits and \<open>as u32\<close> is
    \<open>ucast\<close>.  \<open>usize\<close> counts are \<open>nat\<close>.
  \<^item> the shift-and-mask test \<open>(value >> bit) & 1 == 1\<close> of the sort layers, with the shift
    amount reduced modulo the width as the release build does;
  \<^item> hash maps and hash sets as association lists and lists: the list order stands for the
    unspecified iteration order, so a statement for every list is a statement for every
    order;
  \<^item> an ordered map (\<open>BTreeMap\<close>) as a key-sorted association list;
  \<^item> sorting with a comparison function, and strict total orders, with the facts that make a
    sorted list unique.
\<close>

unbundle bit_operations_syntax

section \<open>Machine integers\<close>

type_synonym u8 = "8 word"
type_synonym u32 = "32 word"
type_synonym u64 = "64 word"
type_synonym i64 = "64 word"
type_synonym usize = nat

definition u32_MAX :: u32 where
  "u32_MAX = - 1"

definition u64_MAX :: u64 where
  "u64_MAX = - 1"

text \<open>\<open>saturating_sub\<close> on words, and the test of one bit of a \<open>u32\<close> by shift and mask.\<close>

definition saturating_sub :: "'a::len word \<Rightarrow> 'a word \<Rightarrow> 'a word" where
  "saturating_sub a b = (if a < b then 0 else a - b)"

definition u32_bit :: "u32 \<Rightarrow> nat \<Rightarrow> bool" where
  "u32_bit value k \<longleftrightarrow> (drop_bit (k mod 32) value) AND 1 = 1"

definition u32_shl1 :: "nat \<Rightarrow> u32" where
  "u32_shl1 k = push_bit (k mod 32) 1"

lemma u32_bit_iff: "k < 32 \<Longrightarrow> u32_bit v k \<longleftrightarrow> bit v k"
  by (simp add: u32_bit_def bit_iff_and_drop_bit_eq_1)

lemma u32_shl1_eq: "k < 32 \<Longrightarrow> u32_shl1 k = push_bit k 1"
  by (simp add: u32_shl1_def)

lemma bit_u32_shl1: "k < 32 \<Longrightarrow> bit (u32_shl1 k) n \<longleftrightarrow> n = k"
  unfolding u32_shl1_eq by (subst bit_push_bit_iff) (auto simp: bit_1_iff)

lemma le_u32_MAX [simp]: "x \<le> u32_MAX"
  by (simp add: u32_MAX_def)

lemma less_u32_succ: "x \<noteq> u32_MAX \<Longrightarrow> y < x + 1 \<longleftrightarrow> y \<le> x"
  using inc_less_eq_iff [of x y] by (auto simp: u32_MAX_def not_le)

text \<open>Comparing two words whose high parts agree is comparing their next bit.\<close>

lemma word_eq_drop_bit_Suc:
  fixes a b :: "'a::len word"
  assumes "drop_bit (Suc k) a = drop_bit (Suc k) b" and "bit a k = bit b k"
  shows "drop_bit k a = drop_bit k b"
proof (rule bit_word_eqI)
  fix n assume "n < LENGTH('a)"
  show "bit (drop_bit k a) n = bit (drop_bit k b) n"
  proof (cases n)
    case 0
    with assms(2) show ?thesis by (simp add: bit_drop_bit_eq)
  next
    case (Suc m)
    have "bit (drop_bit (Suc k) a) m = bit (drop_bit (Suc k) b) m"
      using assms(1) by simp
    with Suc show ?thesis by (simp add: bit_drop_bit_eq)
  qed
qed

lemma nat_drop_bit_Suc: "drop_bit k (n::nat) = 2 * drop_bit (Suc k) n + of_bool (bit n k)"
proof -
  have "drop_bit (Suc k) n = drop_bit k n div 2"
    unfolding drop_bit_eq_div by (simp add: mult.commute flip: div_mult2_eq)
  moreover have "bit n k \<longleftrightarrow> odd (drop_bit k n)"
    by (rule bit_iff_odd_drop_bit)
  ultimately show ?thesis
    by (simp add: of_bool_odd_eq_mod_2)
qed

lemma unat_drop_bit_Suc:
  fixes a :: "'a::len word"
  shows "unat (drop_bit k a) = 2 * unat (drop_bit (Suc k) a) + of_bool (bit a k)"
  unfolding unat_drop_bit_eq by (subst nat_drop_bit_Suc) (simp add: bit_unsigned_iff)

lemma drop_bit_Suc_less:
  fixes a b :: "'a::len word"
  assumes "drop_bit (Suc k) a < drop_bit (Suc k) b"
  shows "drop_bit k a < drop_bit k b"
  using assms unfolding word_less_nat_alt unat_drop_bit_Suc [of k]
  by (simp add: of_bool_def)

lemma drop_bit_less_imp_less:
  fixes a b :: "'a::len word"
  assumes "drop_bit k a < drop_bit k b"
  shows "a < b"
  using assms
proof (induction k)
  case 0
  then show ?case by simp
next
  case (Suc k)
  from drop_bit_Suc_less [OF Suc.prems] show ?case by (rule Suc.IH)
qed

lemma bit_split_less:
  fixes a b :: "'a::len word"
  assumes "drop_bit (Suc k) a = drop_bit (Suc k) b" and "bit a k" and "\<not> bit b k"
  shows "drop_bit k b < drop_bit k a"
  unfolding word_less_nat_alt unat_drop_bit_Suc [of k] using assms by simp

lemma drop_bit_eq_step:
  fixes a b :: "'a::len word"
  shows "drop_bit k a = drop_bit k b \<longleftrightarrow> drop_bit (Suc k) a = drop_bit (Suc k) b \<and> bit a k = bit b k"
proof -
  have "unat (drop_bit k a) = unat (drop_bit k b) \<longleftrightarrow>
      unat (drop_bit (Suc k) a) = unat (drop_bit (Suc k) b) \<and> bit a k = bit b k"
    unfolding unat_drop_bit_Suc [of k] by (cases "bit a k"; cases "bit b k"; simp; presburger)
  then show ?thesis by (simp only: word_unat_eq_iff)
qed

lemma drop_bit_less_step:
  fixes a b :: "'a::len word"
  shows "drop_bit k a < drop_bit k b \<longleftrightarrow> drop_bit (Suc k) a < drop_bit (Suc k) b \<or>
    drop_bit (Suc k) a = drop_bit (Suc k) b \<and> \<not> bit a k \<and> bit b k"
proof -
  have "unat (drop_bit k a) < unat (drop_bit k b) \<longleftrightarrow>
      unat (drop_bit (Suc k) a) < unat (drop_bit (Suc k) b) \<or>
      unat (drop_bit (Suc k) a) = unat (drop_bit (Suc k) b) \<and> \<not> bit a k \<and> bit b k"
    unfolding unat_drop_bit_Suc [of k] by (cases "bit a k"; cases "bit b k"; simp; presburger)
  then show ?thesis by (simp only: word_unat_eq_iff word_less_nat_alt)
qed

lemma drop_bit_all_u32 [simp]: "drop_bit 32 (v::u32) = 0"
  by (rule bit_word_eqI) (auto simp: bit_drop_bit_eq dest: bit_imp_le_length)

lemma drop_bit_eq_0_mono:
  fixes v :: "'a::len word"
  assumes "drop_bit k v = 0" and "k \<le> m"
  shows "drop_bit m v = 0"
proof -
  from assms(2) have "drop_bit m v = drop_bit (m - k) (drop_bit k v)" by simp
  with assms(1) show ?thesis by simp
qed


section \<open>Floating point\<close>

text \<open>
  An \<open>f64\<close> is kept as its bit pattern.  Comparison is IEEE comparison: a NaN compares false
  with everything, and the magnitude bits read as an integer order the rest, so that the two
  zeros are equal.
\<close>

type_synonym f64 = "64 word"

definition f64_is_nan :: "f64 \<Rightarrow> bool" where
  "f64_is_nan x \<longleftrightarrow> take_bit 63 x > 0x7FF0000000000000"

definition f64_key :: "f64 \<Rightarrow> int" where
  "f64_key x = (if bit x 63 then - uint (take_bit 63 x) else uint (take_bit 63 x))"

definition f64_eq :: "f64 \<Rightarrow> f64 \<Rightarrow> bool" where
  "f64_eq a b \<longleftrightarrow> \<not> f64_is_nan a \<and> \<not> f64_is_nan b \<and> f64_key a = f64_key b"

definition f64_lt :: "f64 \<Rightarrow> f64 \<Rightarrow> bool" where
  "f64_lt a b \<longleftrightarrow> \<not> f64_is_nan a \<and> \<not> f64_is_nan b \<and> f64_key a < f64_key b"

definition f64_le :: "f64 \<Rightarrow> f64 \<Rightarrow> bool" where
  "f64_le a b \<longleftrightarrow> \<not> f64_is_nan a \<and> \<not> f64_is_nan b \<and> f64_key a \<le> f64_key b"

definition f64_zero :: f64 where "f64_zero = 0"

definition f64_one :: f64 where "f64_one = 0x3FF0000000000000"


section \<open>Decimal printing\<close>

definition digit_char :: "nat \<Rightarrow> char" where
  "digit_char d = char_of (48 + d)"

fun show_nat :: "nat \<Rightarrow> string" where
  "show_nat n = (if n < 10 then [digit_char n] else show_nat (n div 10) @ [digit_char (n mod 10)])"

declare show_nat.simps [simp del]


section \<open>Hash maps, hash sets and ordered maps\<close>

type_synonym ('k, 'v) hashmap = "('k \<times> 'v) list"

abbreviation hm_get :: "('k, 'v) hashmap \<Rightarrow> 'k \<rightharpoonup> 'v" where
  "hm_get \<equiv> map_of"

abbreviation hm_insert :: "'k \<Rightarrow> 'v \<Rightarrow> ('k, 'v) hashmap \<Rightarrow> ('k, 'v) hashmap" where
  "hm_insert \<equiv> AList.update"

abbreviation hm_remove :: "'k \<Rightarrow> ('k, 'v) hashmap \<Rightarrow> ('k, 'v) hashmap" where
  "hm_remove \<equiv> AList.delete"

text \<open>\<open>map.entry(k).or_insert_with(d)\<close> followed by a mutation \<open>f\<close> of the entry, and a
  mutation of every value (\<open>values_mut\<close>).\<close>

definition hm_upsert :: "'k \<Rightarrow> 'v \<Rightarrow> ('v \<Rightarrow> 'v) \<Rightarrow> ('k, 'v) hashmap \<Rightarrow> ('k, 'v) hashmap" where
  "hm_upsert k d f m = AList.update k (f (case map_of m k of None \<Rightarrow> d | Some v \<Rightarrow> v)) m"

definition hm_map :: "('v \<Rightarrow> 'w) \<Rightarrow> ('k, 'v) hashmap \<Rightarrow> ('k, 'w) hashmap" where
  "hm_map f m = map (\<lambda>(k, v). (k, f v)) m"

definition hm_ok :: "('k, 'v) hashmap \<Rightarrow> bool" where
  "hm_ok m \<longleftrightarrow> distinct (map fst m)"

lemma hm_get_insert [simp]: "hm_get (hm_insert k v m) = (hm_get m)(k \<mapsto> v)"
  by (rule update_conv')

lemma hm_get_remove [simp]: "hm_get (hm_remove k m) = (hm_get m)(k := None)"
  by (rule delete_conv')

lemma hm_get_upsert [simp]:
  "hm_get (hm_upsert k d f m) =
     (hm_get m)(k \<mapsto> f (case hm_get m k of None \<Rightarrow> d | Some v \<Rightarrow> v))"
  by (simp add: hm_upsert_def)

lemma hm_get_map [simp]: "hm_get (hm_map f m) k = map_option f (hm_get m k)"
  by (induction m) (auto simp: hm_map_def)

lemma hm_ok_Nil [simp]: "hm_ok []"
  by (simp add: hm_ok_def)

lemma hm_ok_insert [simp]: "hm_ok m \<Longrightarrow> hm_ok (hm_insert k v m)"
  by (simp add: hm_ok_def distinct_update)

lemma hm_ok_remove [simp]: "hm_ok m \<Longrightarrow> hm_ok (hm_remove k m)"
  by (simp add: hm_ok_def distinct_delete)

lemma hm_ok_upsert [simp]: "hm_ok m \<Longrightarrow> hm_ok (hm_upsert k d f m)"
  by (simp add: hm_upsert_def)

lemma hm_ok_map [simp]: "hm_ok (hm_map f m) = hm_ok m"
  by (simp add: hm_ok_def hm_map_def comp_def case_prod_beta)

lemma hm_get_in: "hm_ok m \<Longrightarrow> (k, v) \<in> set m \<longleftrightarrow> hm_get m k = Some v"
  by (simp add: hm_ok_def)

lemma map_eqI_Some: "(\<And>x y. m x = Some y \<longleftrightarrow> m' x = Some y) \<Longrightarrow> m = m'"
  by (rule ext) (metis option.exhaust)

text \<open>A \<open>BTreeMap\<close>: keys strictly ascending.  \<open>bt_entry k f m\<close> replaces the value under \<open>k\<close>
  by \<open>f\<close> of what is there.\<close>

definition bt_ok :: "('k::linorder \<times> 'v) list \<Rightarrow> bool" where
  "bt_ok m \<longleftrightarrow> sorted_wrt (<) (map fst m)"

fun bt_entry :: "'k::linorder \<Rightarrow> ('v option \<Rightarrow> 'v) \<Rightarrow> ('k \<times> 'v) list \<Rightarrow> ('k \<times> 'v) list" where
  "bt_entry k f [] = [(k, f None)]"
| "bt_entry k f ((k', v) # m) =
     (if k < k' then (k, f None) # (k', v) # m
      else if k = k' then (k, f (Some v)) # m
      else (k', v) # bt_entry k f m)"

lemma keys_bt_entry [simp]: "fst ` set (bt_entry k f m) = insert k (fst ` set m)"
  by (induction k f m rule: bt_entry.induct) (auto simp: image_iff)

lemma bt_ok_Nil [simp]: "bt_ok []"
  by (simp add: bt_ok_def)

lemma bt_ok_Cons [simp]: "bt_ok ((k, v) # m) \<longleftrightarrow> (\<forall>k' \<in> fst ` set m. k < k') \<and> bt_ok m"
  by (auto simp: bt_ok_def)

lemma bt_ok_entry [simp]: "bt_ok m \<Longrightarrow> bt_ok (bt_entry k f m)"
  by (induction k f m rule: bt_entry.induct) auto

lemma bt_ok_distinct: "bt_ok m \<Longrightarrow> distinct (map fst m)"
  by (simp add: bt_ok_def strict_sorted_iff)

lemma bt_get_notin: "bt_ok m \<Longrightarrow> \<forall>k' \<in> fst ` set m. k < k' \<Longrightarrow> map_of m k = None"
  by (auto simp: map_of_eq_None_iff)

lemma bt_get_entry:
  "bt_ok m \<Longrightarrow> map_of (bt_entry k f m) = (map_of m)(k \<mapsto> f (map_of m k))"
proof (induction k f m rule: bt_entry.induct)
  case (1 k f)
  then show ?case by simp
next
  case (2 k f k' v m)
  have none: "map_of m k = None" if "k < k'"
    using that 2 by (intro bt_get_notin) auto
  show ?case
    using 2 none by (auto simp: fun_eq_iff)
qed

lemma bt_ok_filter [simp]: "bt_ok m \<Longrightarrow> bt_ok (filter P m)"
  by (auto simp: bt_ok_def sorted_wrt_map sorted_wrt_filter)

lemma bt_ok_map_values: "bt_ok (map (\<lambda>(k, v). (k, f k v)) m) \<longleftrightarrow> bt_ok m"
  by (simp add: bt_ok_def comp_def case_prod_beta)


section \<open>Lists\<close>

lemma in_map_filter: "y \<in> set (List.map_filter h xs) \<longleftrightarrow> (\<exists>x \<in> set xs. h x = Some y)"
  by (induction xs) (auto simp: List.map_filter_def)

lemma concat_map_filter:
  "concat (map g (List.map_filter h xs)) = concat (map (\<lambda>x. case h x of None \<Rightarrow> [] | Some y \<Rightarrow> g y) xs)"
  by (induction xs) (auto simp: List.map_filter_def split: option.splits)

lemma map_filter_cong: "(\<And>x. x \<in> set xs \<Longrightarrow> f x = g x) \<Longrightarrow> List.map_filter f xs = List.map_filter g xs"
  by (induction xs) (auto simp: List.map_filter_def)

lemma fold_keeps: "(\<And>x s. P (g x s) = P s) \<Longrightarrow> P (fold g xs s) = P s"
  by (induction xs arbitrary: s) simp_all

lemma fold_inv: "(\<And>x s. P s \<Longrightarrow> P (g x s)) \<Longrightarrow> P s \<Longrightarrow> P (fold g xs s)"
  by (induction xs arbitrary: s) simp_all

lemma enumerate_eq_map: "enumerate 0 xs = map (\<lambda>i. (i, xs ! i)) [0..<length xs]"
  by (rule nth_equalityI) (simp_all add: nth_enumerate_eq)

lemma sorted_wrt_take_rest:
  assumes "sorted_wrt P xs" and "a \<in> set (take n xs)" and "b \<in> set xs - set (take n xs)"
  shows "P a b"
proof -
  have "b \<in> set (drop n xs)"
    using assms(3) by (metis DiffE Un_iff append_take_drop_id set_append)
  moreover have "sorted_wrt P (take n xs @ drop n xs)" using assms(1) by simp
  ultimately show ?thesis using assms(2) by (meson sorted_wrt_append)
qed


section \<open>Sorting with a comparison, strict total orders\<close>

text \<open>
  \<open>sort_unstable_by\<close>: insertion by a comparison \<open>le\<close> (true when the first argument may come
  first).  Where \<open>le\<close> is total and antisymmetric on the elements the result does not depend
  on the algorithm, which is what \<open>sort_by_unique\<close> below says.
\<close>

fun insort_by :: "('a \<Rightarrow> 'a \<Rightarrow> bool) \<Rightarrow> 'a \<Rightarrow> 'a list \<Rightarrow> 'a list" where
  "insort_by le x [] = [x]"
| "insort_by le x (y # ys) = (if le x y then x # y # ys else y # insort_by le x ys)"

definition sort_by :: "('a \<Rightarrow> 'a \<Rightarrow> bool) \<Rightarrow> 'a list \<Rightarrow> 'a list" where
  "sort_by le xs = foldr (insort_by le) xs []"

lemma mset_insort_by [simp]: "mset (insort_by le x xs) = add_mset x (mset xs)"
  by (induction xs) auto

lemma mset_sort_by [simp]: "mset (sort_by le xs) = mset xs"
  unfolding sort_by_def by (induction xs) auto

lemma set_sort_by [simp]: "set (sort_by le xs) = set xs"
  by (metis mset_sort_by set_mset_mset)

lemma length_sort_by [simp]: "length (sort_by le xs) = length xs"
  by (metis mset_sort_by size_mset)

lemma distinct_sort_by [simp]: "distinct (sort_by le xs) = distinct xs"
  by (metis mset_sort_by mset_eq_imp_distinct_iff)

text \<open>The interface between a sorted page and what is built on it: a strict total order.\<close>

locale strict_total =
  fixes lt :: "'a \<Rightarrow> 'a \<Rightarrow> bool"
  assumes lt_irrefl: "\<not> lt x x"
    and lt_trans: "lt x y \<Longrightarrow> lt y z \<Longrightarrow> lt x z"
    and lt_total: "x \<noteq> y \<Longrightarrow> lt x y \<or> lt y x"
begin

lemma lt_asym: "lt x y \<Longrightarrow> \<not> lt y x"
  using lt_irrefl lt_trans by blast

lemma le_trans: "\<not> lt y x \<Longrightarrow> lt y z \<Longrightarrow> lt x z"
  by (cases "x = y") (auto dest: lt_total intro: lt_trans)

lemma sorted_insort_by:
  assumes "sorted_wrt lt xs" and "x \<notin> set xs"
  shows "sorted_wrt lt (insort_by (\<lambda>a b. \<not> lt b a) x xs)"
  using assms
proof (induction xs)
  case Nil
  then show ?case by simp
next
  case (Cons y ys)
  have mem: "set (insort_by (\<lambda>a b. \<not> lt b a) x ys) = insert x (set ys)"
    by (metis mset_insort_by set_mset_add_mset_insert set_mset_mset)
  from Cons show ?case
    using lt_total [of x y] by (auto simp: mem intro: lt_trans dest: lt_asym)
qed

lemma sorted_sort_by: "distinct xs \<Longrightarrow> sorted_wrt lt (sort_by (\<lambda>a b. \<not> lt b a) xs)"
proof (induction xs)
  case Nil
  then show ?case by (simp add: sort_by_def)
next
  case (Cons x xs)
  have "sort_by (\<lambda>a b. \<not> lt b a) (x # xs) =
      insort_by (\<lambda>a b. \<not> lt b a) x (sort_by (\<lambda>a b. \<not> lt b a) xs)"
    by (simp add: sort_by_def)
  with Cons show ?case by (auto intro: sorted_insort_by)
qed

lemma sorted_distinct: "sorted_wrt lt xs \<Longrightarrow> distinct xs"
  by (induction xs) (auto simp: lt_irrefl)

lemma sorted_unique:
  assumes "sorted_wrt lt xs" and "sorted_wrt lt ys" and "set xs = set ys"
  shows "xs = ys"
  using assms
proof (induction xs arbitrary: ys)
  case Nil
  then show ?case by simp
next
  case (Cons x xs)
  then obtain y ys' where ys: "ys = y # ys'" by (cases ys) auto
  have "x = y"
  proof (rule ccontr)
    assume "x \<noteq> y"
    with Cons.prems ys have "y \<in> set xs" "x \<in> set ys'" by auto
    with Cons.prems ys have "lt x y" "lt y x" by auto
    then show False using lt_asym by blast
  qed
  moreover have "x \<notin> set xs" "y \<notin> set ys'"
    using Cons.prems ys lt_irrefl by auto
  ultimately have "set xs = set ys'" using Cons.prems ys by auto
  with Cons ys \<open>x = y\<close> show ?case by auto
qed

lemma sort_by_unique:
  assumes "distinct xs" and "sorted_wrt lt ys" and "set ys = set xs"
  shows "sort_by (\<lambda>a b. \<not> lt b a) xs = ys"
  using assms by (intro sorted_unique sorted_sort_by) auto

text \<open>The first \<open>n\<close> of a sorted list are the \<open>n\<close> elements before all others.\<close>

lemma take_sorted_eq:
  assumes "sorted_wrt lt xs" and "sorted_wrt lt ts" and "set ts \<subseteq> set xs"
    and "\<And>t x. t \<in> set ts \<Longrightarrow> x \<in> set xs - set ts \<Longrightarrow> lt t x"
  shows "ts = take (length ts) xs"
proof -
  let ?rest = "filter (\<lambda>x. x \<notin> set ts) xs"
  have "sorted_wrt lt (ts @ ?rest)"
    using assms by (auto simp: sorted_wrt_append sorted_wrt_filter)
  moreover have "set (ts @ ?rest) = set xs" using assms(3) by auto
  ultimately have "xs = ts @ ?rest" using assms(1) by (intro sorted_unique) auto
  then show ?thesis by (metis append_eq_conv_conj)
qed

text \<open>Keyset pagination: what lies after the last element of a page is the rest.\<close>

lemma filter_after_last:
  assumes "sorted_wrt lt xs" and "0 < n" and "n \<le> length xs"
  shows "filter (lt (last (take n xs))) xs = drop n xs"
proof -
  obtain m where n: "n = Suc m" using assms(2) by (cases n) auto
  have lst: "last (take n xs) = xs ! m"
    using assms(3) n by (simp add: take_Suc_conv_app_nth)
  have "filter (lt (xs ! m)) (take n xs) = []"
  proof -
    have "\<not> lt (xs ! m) y" if "y \<in> set (take n xs)" for y
    proof -
      from that assms(3) n obtain i where i: "i \<le> m" "y = xs ! i"
        by (auto simp: in_set_conv_nth less_Suc_eq_le)
      show ?thesis
      proof (cases "i = m")
        case True
        with i lt_irrefl show ?thesis by simp
      next
        case False
        with i assms n have "lt y (xs ! m)"
          by (auto simp: sorted_wrt_iff_nth_less)
        then show ?thesis by (rule lt_asym)
      qed
    qed
    then show ?thesis by (simp add: filter_empty_conv)
  qed
  moreover have "filter (lt (xs ! m)) (drop n xs) = drop n xs"
  proof -
    have "lt (xs ! m) y" if y: "y \<in> set (drop n xs)" for y
    proof -
      from y obtain i where i: "n \<le> i" "i < length xs" "y = xs ! i"
        by (auto simp: in_set_conv_nth)
           (metis add.commute le_add1 less_diff_conv)
      with assms n show ?thesis by (auto simp: sorted_wrt_iff_nth_less)
    qed
    then show ?thesis by simp
  qed
  ultimately show ?thesis
    using lst filter_append [of "lt (xs ! m)" "take n xs" "drop n xs"] by simp
qed

end

end
