(* ===== verification/Roaring.thy ===== *)
theory Roaring
  imports Prelude
begin

text \<open>
  The interface of the \<open>roaring\<close> crate (\<open>RoaringBitmap\<close>), which is not part of the
  repository.  The development takes it as a parameter: a record \<open>R\<close> of the operations the
  code calls, over an arbitrary type \<open>'b\<close> of bitmaps.  The locale \<open>roaring\<close> states what the
  crate documents of them, a set of \<open>u32\<close> values iterated in ascending order, and nothing
  else is used.

  \<open>set_roaring\<close> is the instance on \<open>u32 set\<close> with which concrete evaluations are made.
\<close>

record 'b roaring_ops =
  rb_new :: 'b
  rb_insert :: "'b \<Rightarrow> u32 \<Rightarrow> 'b"
  rb_remove :: "'b \<Rightarrow> u32 \<Rightarrow> 'b"
  rb_contains :: "'b \<Rightarrow> u32 \<Rightarrow> bool"
  rb_or :: "'b \<Rightarrow> 'b \<Rightarrow> 'b"
  rb_and :: "'b \<Rightarrow> 'b \<Rightarrow> 'b"
  rb_sub :: "'b \<Rightarrow> 'b \<Rightarrow> 'b"
  rb_is_empty :: "'b \<Rightarrow> bool"
  rb_len :: "'b \<Rightarrow> nat"
  rb_iter :: "'b \<Rightarrow> u32 list"
  rb_min :: "'b \<Rightarrow> u32 option"
  rb_max :: "'b \<Rightarrow> u32 option"
  rb_remove_range :: "'b \<Rightarrow> u32 \<Rightarrow> u32 \<Rightarrow> 'b"

text \<open>The set of values in a bitmap: the abstraction every statement is about.\<close>

definition bits :: "'b roaring_ops \<Rightarrow> 'b \<Rightarrow> u32 set" where
  "bits R b = {x. rb_contains R b x}"

locale roaring =
  fixes R :: "'b roaring_ops"
  assumes contains_new: "\<not> rb_contains R (rb_new R) x"
    and contains_insert: "rb_contains R (rb_insert R b x) y \<longleftrightarrow> y = x \<or> rb_contains R b y"
    and contains_remove: "rb_contains R (rb_remove R b x) y \<longleftrightarrow> y \<noteq> x \<and> rb_contains R b y"
    and contains_or: "rb_contains R (rb_or R a b) y \<longleftrightarrow> rb_contains R a y \<or> rb_contains R b y"
    and contains_and: "rb_contains R (rb_and R a b) y \<longleftrightarrow> rb_contains R a y \<and> rb_contains R b y"
    and contains_sub: "rb_contains R (rb_sub R a b) y \<longleftrightarrow> rb_contains R a y \<and> \<not> rb_contains R b y"
    and is_empty_iff: "rb_is_empty R b \<longleftrightarrow> (\<forall>x. \<not> rb_contains R b x)"
    and iter_set: "set (rb_iter R b) = {x. rb_contains R b x}"
    and iter_sorted: "sorted_wrt (<) (rb_iter R b)"
    and len_iter: "rb_len R b = length (rb_iter R b)"
    and min_eq: "rb_min R b = (case rb_iter R b of [] \<Rightarrow> None | x # _ \<Rightarrow> Some x)"
    and max_eq: "rb_max R b = (if rb_iter R b = [] then None else Some (last (rb_iter R b)))"
    and contains_remove_range: "rb_contains R (rb_remove_range R b lo hi) y \<longleftrightarrow>
        rb_contains R b y \<and> \<not> (lo \<le> y \<and> y \<le> hi)"
begin

lemma contains_bits: "rb_contains R b x \<longleftrightarrow> x \<in> bits R b"
  by (simp add: bits_def)

lemma bits_new [simp]: "bits R (rb_new R) = {}"
  by (simp add: bits_def contains_new)

lemma bits_insert [simp]: "bits R (rb_insert R b x) = insert x (bits R b)"
  by (auto simp: bits_def contains_insert)

lemma bits_remove [simp]: "bits R (rb_remove R b x) = bits R b - {x}"
  by (auto simp: bits_def contains_remove)

lemma bits_or [simp]: "bits R (rb_or R a b) = bits R a \<union> bits R b"
  by (auto simp: bits_def contains_or)

lemma bits_and [simp]: "bits R (rb_and R a b) = bits R a \<inter> bits R b"
  by (auto simp: bits_def contains_and)

lemma bits_sub [simp]: "bits R (rb_sub R a b) = bits R a - bits R b"
  by (auto simp: bits_def contains_sub)

lemma is_empty_bits [simp]: "rb_is_empty R b \<longleftrightarrow> bits R b = {}"
  by (auto simp: bits_def is_empty_iff)

lemma set_iter [simp]: "set (rb_iter R b) = bits R b"
  by (simp add: bits_def iter_set)

lemma distinct_iter [simp]: "distinct (rb_iter R b)"
  using iter_sorted [of b] by (simp add: strict_sorted_iff)

lemma sorted_iter [simp]: "sorted (rb_iter R b)"
  using iter_sorted [of b] by (simp add: strict_sorted_iff)

lemma iter_eq: "rb_iter R b = sorted_list_of_set (bits R b)"
  by (rule sorted_distinct_set_unique) auto

lemma len_bits: "rb_len R b = card (bits R b)"
  by (metis len_iter distinct_card distinct_iter set_iter)

lemma min_bits: "rb_min R b = (if bits R b = {} then None else Some (Min (bits R b)))"
proof (cases "rb_iter R b")
  case Nil
  then have "bits R b = {}" using set_iter [of b] by simp
  with Nil show ?thesis by (simp add: min_eq)
next
  case (Cons x xs)
  then have "bits R b = insert x (set xs)" using set_iter [of b] by simp
  moreover have "Min (insert x (set xs)) = x"
    using sorted_iter [of b] Cons by (intro Min_eqI) auto
  ultimately show ?thesis using Cons by (simp add: min_eq)
qed

lemma max_bits: "rb_max R b = (if bits R b = {} then None else Some (Max (bits R b)))"
proof (cases "rb_iter R b" rule: rev_cases)
  case Nil
  then have "bits R b = {}" using set_iter [of b] by simp
  with Nil show ?thesis by (simp add: max_eq)
next
  case (snoc xs x)
  then have "bits R b = insert x (set xs)" using set_iter [of b] by simp
  moreover have "Max (insert x (set xs)) = x"
    using sorted_iter [of b] snoc by (intro Max_eqI) (auto simp: sorted_append)
  ultimately show ?thesis using snoc by (simp add: max_eq)
qed

lemma min_in: "rb_min R b = Some m \<Longrightarrow> m \<in> bits R b"
  using Min_in [of "bits R b"] by (cases "bits R b = {}") (simp_all add: min_bits)

lemma max_in: "rb_max R b = Some m \<Longrightarrow> m \<in> bits R b"
  using Max_in [of "bits R b"] by (cases "bits R b = {}") (simp_all add: max_bits)

lemma bits_remove_range [simp]:
  "bits R (rb_remove_range R b lo hi) = {x \<in> bits R b. \<not> (lo \<le> x \<and> x \<le> hi)}"
  by (auto simp: bits_def contains_remove_range)

lemma bits_fold_insert [simp]:
  "bits R (fold (\<lambda>x b. rb_insert R b x) xs b) = set xs \<union> bits R b"
  by (induction xs arbitrary: b) auto

lemma bits_fold_remove [simp]:
  "bits R (fold (\<lambda>x b. rb_remove R b x) xs b) = bits R b - set xs"
  by (induction xs arbitrary: b) auto

end

text \<open>The instance on sets of \<open>u32\<close> values.\<close>

definition set_roaring :: "u32 set roaring_ops" where
  "set_roaring = \<lparr>
     rb_new = {},
     rb_insert = (\<lambda>b x. insert x b),
     rb_remove = (\<lambda>b x. b - {x}),
     rb_contains = (\<lambda>b x. x \<in> b),
     rb_or = (\<union>),
     rb_and = (\<inter>),
     rb_sub = (-),
     rb_is_empty = (\<lambda>b. b = {}),
     rb_len = card,
     rb_iter = sorted_list_of_set,
     rb_min = (\<lambda>b. if b = {} then None else Some (Min b)),
     rb_max = (\<lambda>b. if b = {} then None else Some (Max b)),
     rb_remove_range = (\<lambda>b lo hi. Set.filter (\<lambda>x. \<not> (lo \<le> x \<and> x \<le> hi)) b)\<rparr>"

lemma set_roaring_simps [simp]:
  "rb_new set_roaring = {}"
  "rb_insert set_roaring b x = insert x b"
  "rb_remove set_roaring b x = b - {x}"
  "rb_contains set_roaring b x \<longleftrightarrow> x \<in> b"
  "rb_or set_roaring b c = b \<union> c"
  "rb_and set_roaring b c = b \<inter> c"
  "rb_sub set_roaring b c = b - c"
  "rb_is_empty set_roaring b \<longleftrightarrow> b = {}"
  "rb_len set_roaring b = card b"
  "rb_iter set_roaring b = sorted_list_of_set b"
  "rb_min set_roaring b = (if b = {} then None else Some (Min b))"
  "rb_max set_roaring b = (if b = {} then None else Some (Max b))"
  "rb_remove_range set_roaring b lo hi = Set.filter (\<lambda>x. \<not> (lo \<le> x \<and> x \<le> hi)) b"
  "bits set_roaring b = b"
  by (simp_all add: set_roaring_def bits_def)

lemma sorted_list_of_set_last:
  assumes "finite (A :: 'a::linorder set)" and "A \<noteq> {}"
  shows "last (sorted_list_of_set A) = Max A"
proof -
  obtain xs l where xs: "sorted_list_of_set A = xs @ [l]"
    using assms by (metis rev_exhaust sorted_list_of_set_eq_Nil_iff)
  have srt: "sorted (xs @ [l])"
    using xs sorted_sorted_list_of_set [of A] by simp
  have "A = set (xs @ [l])"
    using xs assms(1) by (metis set_sorted_list_of_set)
  then have "Max A = l"
    using srt by (intro Max_eqI) (auto simp: sorted_append)
  with xs show ?thesis by simp
qed

interpretation sr: roaring set_roaring
proof
  fix b :: "u32 set"
  show "rb_min set_roaring b = (case rb_iter set_roaring b of [] \<Rightarrow> None | x # _ \<Rightarrow> Some x)"
    by (cases "b = {}") (simp_all add: sorted_list_of_set_nonempty)
  show "rb_max set_roaring b =
      (if rb_iter set_roaring b = [] then None else Some (last (rb_iter set_roaring b)))"
    by (simp add: sorted_list_of_set_last)
qed auto

end
