(* ===== verification/Versioned_Bitmap.thy ===== *)
theory Versioned_Bitmap
  imports Roaring
begin

text \<open>
  \<open>src/src/versioned_bitmap.rs\<close>: a base bitmap plus a diff of pending sets and clears.

  \<open>Arc\<close> is erased: \<open>Arc::make_mut\<close> copies on write, so a shared value is never seen to
  change.  \<open>fused\<close>, \<open>fused_cow\<close> and \<open>fused_arc\<close> differ only in ownership and are one value
  each here.  The byte-size estimators are not modelled.

  The abstraction is \<open>vb_bits\<close>, the logical content \<open>(base \<union> sets) - clears\<close>; the invariant
  \<open>vb_wf\<close> is the one the source states, sets and clears never overlap.
\<close>

record 'b bitmap_diff =
  bd_sets :: 'b
  bd_clears :: 'b

record 'b versioned_bitmap =
  vb_base :: 'b
  vb_diff :: "'b bitmap_diff"
  vb_generation :: u64
  vb_loaded :: bool

section \<open>The diff\<close>

definition bd_new :: "'b roaring_ops \<Rightarrow> 'b bitmap_diff" where
  "bd_new R = \<lparr>bd_sets = rb_new R, bd_clears = rb_new R\<rparr>"

definition bd_is_empty :: "'b roaring_ops \<Rightarrow> 'b bitmap_diff \<Rightarrow> bool" where
  "bd_is_empty R d \<longleftrightarrow> rb_is_empty R (bd_sets d) \<and> rb_is_empty R (bd_clears d)"

definition bd_insert :: "'b roaring_ops \<Rightarrow> 'b bitmap_diff \<Rightarrow> u32 \<Rightarrow> 'b bitmap_diff" where
  "bd_insert R d x =
     (let d' = d\<lparr>bd_clears := rb_remove R (bd_clears d) x\<rparr>
      in d'\<lparr>bd_sets := rb_insert R (bd_sets d') x\<rparr>)"

definition bd_remove :: "'b roaring_ops \<Rightarrow> 'b bitmap_diff \<Rightarrow> u32 \<Rightarrow> 'b bitmap_diff" where
  "bd_remove R d x =
     (let d' = d\<lparr>bd_sets := rb_remove R (bd_sets d) x\<rparr>
      in d'\<lparr>bd_clears := rb_insert R (bd_clears d') x\<rparr>)"

definition bd_clear :: "'b roaring_ops \<Rightarrow> 'b bitmap_diff \<Rightarrow> 'b bitmap_diff" where
  "bd_clear R d = d\<lparr>bd_sets := rb_new R, bd_clears := rb_new R\<rparr>"


section \<open>The versioned bitmap\<close>

definition vb_new :: "'b roaring_ops \<Rightarrow> 'b \<Rightarrow> 'b versioned_bitmap" where
  "vb_new R base =
     \<lparr>vb_base = base, vb_diff = bd_new R, vb_generation = 0, vb_loaded = True\<rparr>"

definition vb_new_empty :: "'b roaring_ops \<Rightarrow> 'b versioned_bitmap" where
  "vb_new_empty R = vb_new R (rb_new R)"

definition vb_new_unloaded :: "'b roaring_ops \<Rightarrow> 'b versioned_bitmap" where
  "vb_new_unloaded R =
     \<lparr>vb_base = rb_new R, vb_diff = bd_new R, vb_generation = 0, vb_loaded = False\<rparr>"

definition vb_from_arc :: "'b roaring_ops \<Rightarrow> 'b \<Rightarrow> 'b versioned_bitmap" where
  "vb_from_arc R base =
     \<lparr>vb_base = base, vb_diff = bd_new R, vb_generation = 0, vb_loaded = True\<rparr>"

definition vb_insert :: "'b roaring_ops \<Rightarrow> 'b versioned_bitmap \<Rightarrow> u32 \<Rightarrow> 'b versioned_bitmap" where
  "vb_insert R v x = v\<lparr>vb_diff := bd_insert R (vb_diff v) x\<rparr>"

definition vb_remove :: "'b roaring_ops \<Rightarrow> 'b versioned_bitmap \<Rightarrow> u32 \<Rightarrow> 'b versioned_bitmap" where
  "vb_remove R v x = v\<lparr>vb_diff := bd_remove R (vb_diff v) x\<rparr>"

definition vb_contains :: "'b roaring_ops \<Rightarrow> 'b versioned_bitmap \<Rightarrow> u32 \<Rightarrow> bool" where
  "vb_contains R v x =
     (if rb_contains R (bd_sets (vb_diff v)) x then True
      else rb_contains R (vb_base v) x \<and> \<not> rb_contains R (bd_clears (vb_diff v)) x)"

definition vb_apply_diff :: "'b roaring_ops \<Rightarrow> 'b versioned_bitmap \<Rightarrow> 'b \<Rightarrow> 'b" where
  "vb_apply_diff R v candidates =
     (let result = rb_and R candidates (vb_base v);
          result = rb_or R result (rb_and R candidates (bd_sets (vb_diff v)))
      in rb_sub R result (bd_clears (vb_diff v)))"

definition vb_fused :: "'b roaring_ops \<Rightarrow> 'b versioned_bitmap \<Rightarrow> 'b" where
  "vb_fused R v =
     (if bd_is_empty R (vb_diff v) then vb_base v
      else let result = rb_or R (vb_base v) (bd_sets (vb_diff v))
           in rb_sub R result (bd_clears (vb_diff v)))"

definition vb_fused_cow :: "'b roaring_ops \<Rightarrow> 'b versioned_bitmap \<Rightarrow> 'b" where
  "vb_fused_cow R v =
     (if bd_is_empty R (vb_diff v) then vb_base v
      else let result = rb_or R (vb_base v) (bd_sets (vb_diff v))
           in rb_sub R result (bd_clears (vb_diff v)))"

definition vb_fused_arc :: "'b roaring_ops \<Rightarrow> 'b versioned_bitmap \<Rightarrow> 'b" where
  "vb_fused_arc R v =
     (if bd_is_empty R (vb_diff v) then vb_base v
      else let result = rb_or R (vb_base v) (bd_sets (vb_diff v))
           in rb_sub R result (bd_clears (vb_diff v)))"

definition vb_base_len :: "'b roaring_ops \<Rightarrow> 'b versioned_bitmap \<Rightarrow> nat" where
  "vb_base_len R v = rb_len R (vb_base v)"

definition vb_fused_len :: "'b roaring_ops \<Rightarrow> 'b versioned_bitmap \<Rightarrow> nat" where
  "vb_fused_len R v =
     (if bd_is_empty R (vb_diff v) then rb_len R (vb_base v)
      else rb_len R (vb_fused_cow R v))"

definition vb_is_dirty :: "'b roaring_ops \<Rightarrow> 'b versioned_bitmap \<Rightarrow> bool" where
  "vb_is_dirty R v \<longleftrightarrow> \<not> bd_is_empty R (vb_diff v)"

definition vb_merge :: "'b roaring_ops \<Rightarrow> 'b versioned_bitmap \<Rightarrow> 'b versioned_bitmap" where
  "vb_merge R v =
     (if bd_is_empty R (vb_diff v) \<or> \<not> vb_loaded v then v
      else let base = rb_or R (vb_base v) (bd_sets (vb_diff v));
               base = rb_sub R base (bd_clears (vb_diff v))
           in v\<lparr>vb_base := base, vb_diff := bd_new R, vb_generation := vb_generation v + 1\<rparr>)"

definition vb_fused_contains :: "'b roaring_ops \<Rightarrow> 'b versioned_bitmap \<Rightarrow> u32 \<Rightarrow> bool" where
  "vb_fused_contains R v slot =
     (if bd_is_empty R (vb_diff v) then rb_contains R (vb_base v) slot
      else if rb_contains R (bd_sets (vb_diff v)) slot then True
      else if rb_contains R (bd_clears (vb_diff v)) slot then False
      else rb_contains R (vb_base v) slot)"

text \<open>\<open>merge_with_timing\<close>: the state change of \<open>merge\<close>, the timings left out.\<close>

definition vb_merge_with_timing ::
    "'b roaring_ops \<Rightarrow> 'b versioned_bitmap \<Rightarrow> 'b versioned_bitmap" where
  "vb_merge_with_timing R v =
     (if bd_is_empty R (vb_diff v) \<or> \<not> vb_loaded v then v
      else let base = rb_or R (vb_base v) (bd_sets (vb_diff v));
               base = rb_sub R base (bd_clears (vb_diff v))
           in v\<lparr>vb_base := base, vb_diff := bd_new R, vb_generation := vb_generation v + 1\<rparr>)"

definition vb_insert_bulk ::
    "'b roaring_ops \<Rightarrow> 'b versioned_bitmap \<Rightarrow> u32 list \<Rightarrow> 'b versioned_bitmap" where
  "vb_insert_bulk R v xs =
     v\<lparr>vb_diff := fold (\<lambda>x d.
         (let d' = d\<lparr>bd_clears := rb_remove R (bd_clears d) x\<rparr>
          in d'\<lparr>bd_sets := rb_insert R (bd_sets d') x\<rparr>)) xs (vb_diff v)\<rparr>"

definition vb_or_into_base :: "'b roaring_ops \<Rightarrow> 'b versioned_bitmap \<Rightarrow> 'b \<Rightarrow> 'b versioned_bitmap" where
  "vb_or_into_base R v b = v\<lparr>vb_base := rb_or R (vb_base v) b\<rparr>"

definition vb_clear_base_and_unload ::
    "'b roaring_ops \<Rightarrow> 'b versioned_bitmap \<Rightarrow> 'b versioned_bitmap" where
  "vb_clear_base_and_unload R v = v\<lparr>vb_base := rb_new R, vb_loaded := False\<rparr>"

definition vb_clone_diff_only :: "'b roaring_ops \<Rightarrow> 'b versioned_bitmap \<Rightarrow> 'b versioned_bitmap" where
  "vb_clone_diff_only R v =
     \<lparr>vb_base = rb_new R, vb_diff = vb_diff v, vb_generation = vb_generation v,
      vb_loaded = False\<rparr>"

definition vb_load_base :: "'b roaring_ops \<Rightarrow> 'b versioned_bitmap \<Rightarrow> 'b \<Rightarrow> 'b versioned_bitmap" where
  "vb_load_base R v b = v\<lparr>vb_base := rb_or R (vb_base v) b, vb_loaded := True\<rparr>"

definition vb_mark_loaded :: "'b versioned_bitmap \<Rightarrow> 'b versioned_bitmap" where
  "vb_mark_loaded v = v\<lparr>vb_loaded := True\<rparr>"

definition vb_swap_diff :: "'b versioned_bitmap \<Rightarrow> 'b bitmap_diff \<Rightarrow> 'b versioned_bitmap" where
  "vb_swap_diff v d = v\<lparr>vb_diff := d\<rparr>"

definition vb_replace_base_preserve_diff ::
    "'b roaring_ops \<Rightarrow> 'b versioned_bitmap \<Rightarrow> 'b \<Rightarrow> 'b versioned_bitmap" where
  "vb_replace_base_preserve_diff R v b =
     (if vb_loaded v \<and> \<not> rb_is_empty R (vb_base v) then v
      else v\<lparr>vb_base := b, vb_loaded := True\<rparr>)"


section \<open>Abstraction and invariant\<close>

definition bd_wf :: "'b roaring_ops \<Rightarrow> 'b bitmap_diff \<Rightarrow> bool" where
  "bd_wf R d \<longleftrightarrow> bits R (bd_sets d) \<inter> bits R (bd_clears d) = {}"

definition vb_wf :: "'b roaring_ops \<Rightarrow> 'b versioned_bitmap \<Rightarrow> bool" where
  "vb_wf R v \<longleftrightarrow> bd_wf R (vb_diff v)"

definition vb_bits :: "'b roaring_ops \<Rightarrow> 'b versioned_bitmap \<Rightarrow> u32 set" where
  "vb_bits R v = (bits R (vb_base v) \<union> bits R (bd_sets (vb_diff v))) - bits R (bd_clears (vb_diff v))"

lemmas bd_defs = bd_new_def bd_is_empty_def bd_insert_def bd_remove_def bd_clear_def

lemmas vb_defs = vb_new_def vb_new_empty_def vb_new_unloaded_def vb_from_arc_def vb_insert_def
  vb_remove_def vb_insert_bulk_def vb_or_into_base_def vb_clear_base_and_unload_def
  vb_clone_diff_only_def vb_load_base_def vb_mark_loaded_def vb_swap_diff_def
  vb_replace_base_preserve_diff_def

context roaring
begin

lemma bd_insert_bits [simp]:
  "bits R (bd_sets (bd_insert R d x)) = insert x (bits R (bd_sets d))"
  "bits R (bd_clears (bd_insert R d x)) = bits R (bd_clears d) - {x}"
  by (simp_all add: bd_insert_def Let_def)

lemma bd_remove_bits [simp]:
  "bits R (bd_sets (bd_remove R d x)) = bits R (bd_sets d) - {x}"
  "bits R (bd_clears (bd_remove R d x)) = insert x (bits R (bd_clears d))"
  by (simp_all add: bd_remove_def Let_def)

lemma bd_new_bits [simp]:
  "bits R (bd_sets (bd_new R)) = {}"
  "bits R (bd_clears (bd_new R)) = {}"
  "bd_is_empty R (bd_new R)"
  by (simp_all add: bd_new_def bd_is_empty_def)

lemma vb_insert_bulk_eq: "vb_insert_bulk R v xs = fold (\<lambda>x v. vb_insert R v x) xs v"
proof -
  have "fold (\<lambda>x v. vb_insert R v x) xs v = v\<lparr>vb_diff := fold (\<lambda>x d. bd_insert R d x) xs (vb_diff v)\<rparr>"
    by (induction xs arbitrary: v) (simp_all add: vb_insert_def)
  then show ?thesis by (simp add: vb_insert_bulk_def bd_insert_def)
qed

text \<open>What every constructor and operation does to the content.\<close>

lemma vb_bits_new [simp]: "vb_bits R (vb_new R b) = bits R b"
  by (simp add: vb_bits_def vb_new_def)

lemma vb_bits_new_empty [simp]: "vb_bits R (vb_new_empty R) = {}"
  by (simp add: vb_new_empty_def)

lemma vb_bits_new_unloaded [simp]: "vb_bits R (vb_new_unloaded R) = {}"
  by (simp add: vb_bits_def vb_new_unloaded_def)

lemma vb_bits_insert [simp]: "vb_bits R (vb_insert R v x) = insert x (vb_bits R v)"
  by (auto simp: vb_bits_def vb_insert_def)

lemma vb_bits_remove [simp]: "vb_bits R (vb_remove R v x) = vb_bits R v - {x}"
  by (auto simp: vb_bits_def vb_remove_def)

lemma vb_bits_insert_bulk [simp]: "vb_bits R (vb_insert_bulk R v xs) = set xs \<union> vb_bits R v"
  unfolding vb_insert_bulk_eq by (induction xs arbitrary: v) auto

lemma vb_bits_fold_remove [simp]:
  "vb_bits R (fold (\<lambda>x v. vb_remove R v x) xs v) = vb_bits R v - set xs"
  by (induction xs arbitrary: v) auto

lemma vb_bits_or_into_base:
  "vb_bits R (vb_or_into_base R v b) = vb_bits R v \<union> (bits R b - bits R (bd_clears (vb_diff v)))"
  by (auto simp: vb_bits_def vb_or_into_base_def)

text \<open>The four readers of the content agree with it.\<close>

lemma vb_fused_bits [simp]: "bits R (vb_fused R v) = vb_bits R v"
  by (auto simp: vb_fused_def vb_bits_def bd_is_empty_def Let_def)

lemma vb_fused_cow_bits [simp]: "bits R (vb_fused_cow R v) = vb_bits R v"
  by (auto simp: vb_fused_cow_def vb_bits_def bd_is_empty_def Let_def)

lemma vb_fused_arc_bits [simp]: "bits R (vb_fused_arc R v) = vb_bits R v"
  by (auto simp: vb_fused_arc_def vb_bits_def bd_is_empty_def Let_def)

lemma vb_apply_diff_bits [simp]:
  "vb_wf R v \<Longrightarrow> bits R (vb_apply_diff R v c) = bits R c \<inter> vb_bits R v"
  by (auto simp: vb_apply_diff_def vb_bits_def Let_def)

lemma vb_contains_iff: "vb_wf R v \<Longrightarrow> vb_contains R v x \<longleftrightarrow> x \<in> vb_bits R v"
  by (auto simp: vb_contains_def vb_bits_def vb_wf_def bd_wf_def contains_bits)

lemma vb_fused_contains_iff: "vb_wf R v \<Longrightarrow> vb_fused_contains R v x \<longleftrightarrow> x \<in> vb_bits R v"
  by (auto simp: vb_fused_contains_def vb_bits_def vb_wf_def bd_wf_def bd_is_empty_def contains_bits)

lemma vb_fused_len_card [simp]: "vb_fused_len R v = card (vb_bits R v)"
proof (cases "bd_is_empty R (vb_diff v)")
  case True
  then have "vb_bits R v = bits R (vb_base v)" by (auto simp: vb_bits_def bd_is_empty_def)
  with True show ?thesis by (simp add: vb_fused_len_def len_bits)
next
  case False
  then show ?thesis by (simp add: vb_fused_len_def len_bits)
qed

lemma clean_vb_bits: "\<not> vb_is_dirty R v \<Longrightarrow> vb_bits R v = bits R (vb_base v)"
  by (auto simp: vb_is_dirty_def bd_is_empty_def vb_bits_def)

text \<open>Merging.\<close>

lemma vb_merge_with_timing_eq: "vb_merge_with_timing R v = vb_merge R v"
  by (simp add: vb_merge_with_timing_def vb_merge_def)

lemma vb_bits_merge [simp]: "vb_bits R (vb_merge R v) = vb_bits R v"
  by (auto simp: vb_merge_def vb_bits_def Let_def)

lemma vb_loaded_merge [simp]: "vb_loaded (vb_merge R v) = vb_loaded v"
  by (simp add: vb_merge_def Let_def)

lemma vb_merge_clean: "vb_loaded v \<Longrightarrow> \<not> vb_is_dirty R (vb_merge R v)"
  by (auto simp: vb_merge_def vb_is_dirty_def Let_def)

lemma vb_base_merge: "vb_loaded v \<Longrightarrow> bits R (vb_base (vb_merge R v)) = vb_bits R v"
  using clean_vb_bits [OF vb_merge_clean] by simp

text \<open>The invariant.\<close>

lemma vb_wf_new [simp]: "vb_wf R (vb_new R b)" "vb_wf R (vb_new_empty R)" "vb_wf R (vb_new_unloaded R)"
    "vb_wf R (vb_from_arc R b)"
  by (simp_all add: vb_wf_def bd_wf_def vb_defs)

lemma vb_wf_insert [simp]: "vb_wf R v \<Longrightarrow> vb_wf R (vb_insert R v x)"
  by (auto simp: vb_wf_def bd_wf_def vb_insert_def)

lemma vb_wf_remove [simp]: "vb_wf R v \<Longrightarrow> vb_wf R (vb_remove R v x)"
  by (auto simp: vb_wf_def bd_wf_def vb_remove_def)

lemma vb_wf_insert_bulk [simp]: "vb_wf R v \<Longrightarrow> vb_wf R (vb_insert_bulk R v xs)"
  unfolding vb_insert_bulk_eq by (induction xs arbitrary: v) auto

lemma vb_wf_fold_remove [simp]: "vb_wf R v \<Longrightarrow> vb_wf R (fold (\<lambda>x v. vb_remove R v x) xs v)"
  by (induction xs arbitrary: v) auto

lemma vb_wf_merge [simp]: "vb_wf R v \<Longrightarrow> vb_wf R (vb_merge R v)"
  by (auto simp: vb_wf_def bd_wf_def vb_merge_def Let_def)

lemma vb_wf_base [simp]:
  "vb_wf R (vb_or_into_base R v b) = vb_wf R v"
  "vb_wf R (vb_clear_base_and_unload R v) = vb_wf R v"
  "vb_wf R (vb_clone_diff_only R v) = vb_wf R v"
  "vb_wf R (vb_load_base R v b) = vb_wf R v"
  "vb_wf R (vb_mark_loaded v) = vb_wf R v"
  "vb_wf R (vb_replace_base_preserve_diff R v b) = vb_wf R v"
  by (simp_all add: vb_wf_def vb_defs)

end


section \<open>Histories of a bitmap that is unloaded and reloaded\<close>

text \<open>
  What happens to one bitmap between two saves: single writes, bulk writes and merge cycles.
  \<open>vb_run\<close> plays a history on a bitmap.
\<close>

datatype vb_op = VInsert u32 | VRemove u32 | VInsertBulk "u32 list" | VMerge

fun vb_step :: "'b roaring_ops \<Rightarrow> vb_op \<Rightarrow> 'b versioned_bitmap \<Rightarrow> 'b versioned_bitmap" where
  "vb_step R (VInsert x) v = vb_insert R v x"
| "vb_step R (VRemove x) v = vb_remove R v x"
| "vb_step R (VInsertBulk xs) v = vb_insert_bulk R v xs"
| "vb_step R VMerge v = vb_merge R v"

definition vb_run :: "'b roaring_ops \<Rightarrow> vb_op list \<Rightarrow> 'b versioned_bitmap \<Rightarrow> 'b versioned_bitmap" where
  "vb_run R ops v = fold (vb_step R) ops v"

text \<open>The simulation: an unloaded copy \<open>u\<close> of \<open>v\<close> whose base is on disk as \<open>saved\<close>.\<close>

definition vb_shadow :: "'b roaring_ops \<Rightarrow> 'b \<Rightarrow> 'b versioned_bitmap \<Rightarrow> 'b versioned_bitmap \<Rightarrow> bool" where
  "vb_shadow R saved u v \<longleftrightarrow>
     \<not> vb_loaded u \<and> bits R (vb_base u) = {} \<and>
     (bits R saved \<union> bits R (bd_sets (vb_diff u))) - bits R (bd_clears (vb_diff u)) = vb_bits R v"

context roaring
begin

lemma vb_shadow_insert: "vb_shadow R saved u v \<Longrightarrow> vb_shadow R saved (vb_insert R u x) (vb_insert R v x)"
  by (auto simp: vb_shadow_def vb_insert_def vb_bits_def)

lemma vb_shadow_step: "vb_shadow R saved u v \<Longrightarrow> vb_shadow R saved (vb_step R op u) (vb_step R op v)"
proof (induction op)
  case (VInsert x)
  then show ?case by (simp add: vb_shadow_insert)
next
  case (VRemove x)
  then show ?case by (auto simp: vb_shadow_def vb_remove_def vb_bits_def)
next
  case (VInsertBulk xs)
  then have "vb_shadow R saved (fold (\<lambda>x v. vb_insert R v x) xs u) (fold (\<lambda>x v. vb_insert R v x) xs v)"
    by (induction xs arbitrary: u v) (auto simp: vb_shadow_insert)
  then show ?case by (simp add: vb_insert_bulk_eq)
next
  case VMerge
  then show ?case by (simp add: vb_shadow_def) (simp add: vb_merge_def vb_shadow_def)
qed

lemma vb_shadow_run: "vb_shadow R saved u v \<Longrightarrow> vb_shadow R saved (vb_run R ops u) (vb_run R ops v)"
  unfolding vb_run_def by (induction ops arbitrary: u v) (auto simp: vb_shadow_step)

lemma vb_shadow_unload:
  "bits R saved = vb_bits R v \<Longrightarrow> vb_shadow R saved (vb_clear_base_and_unload R v) v"
  "bits R saved = vb_bits R v \<Longrightarrow> vb_shadow R saved (vb_clone_diff_only R v) v"
  by (auto simp: vb_shadow_def vb_clear_base_and_unload_def vb_clone_diff_only_def vb_bits_def)

lemma vb_shadow_reload:
  "vb_shadow R saved u v \<Longrightarrow> vb_bits R (vb_load_base R u saved) = vb_bits R v"
  "vb_shadow R saved u v \<Longrightarrow> vb_bits R (vb_replace_base_preserve_diff R u saved) = vb_bits R v"
  by (simp_all add: vb_shadow_def vb_load_base_def vb_replace_base_preserve_diff_def vb_bits_def)

end


section \<open>Properties\<close>

text \<open>
  Merging a bitmap never changes its logical content.  On a loaded bitmap the diff is
  empty afterwards and the base alone is the content; on an unloaded one, whose base is a
  placeholder, nothing is touched.
\<close>

theorem merge_sound:
  assumes "roaring R"
  shows "vb_bits R (vb_merge R v) = vb_bits R v \<and>
    (if vb_loaded v
     then \<not> vb_is_dirty R (vb_merge R v) \<and> bits R (vb_base (vb_merge R v)) = vb_bits R v
     else vb_merge R v = v)"
proof -
  have unl: "vb_merge R v = v" if "\<not> vb_loaded v"
    using that by (simp add: vb_merge_def)
  show ?thesis
    using unl roaring.vb_bits_merge [OF assms, of v]
      roaring.vb_merge_clean [OF assms, of v] roaring.vb_base_merge [OF assms, of v] by simp
qed

theorem merge_sound_witness:
  "(let v = vb_remove set_roaring (vb_insert set_roaring (vb_new set_roaring {1, 2}) 3) 1
    in vb_bits set_roaring (vb_merge set_roaring v) = {2, 3} \<and>
       \<not> vb_is_dirty set_roaring (vb_merge set_roaring v))"
proof -
  let ?v = "vb_remove set_roaring (vb_insert set_roaring (vb_new set_roaring {1, 2}) 3) 1"
  have "vb_loaded ?v" by (simp add: vb_defs)
  then show ?thesis
    using merge_sound [OF sr.roaring_axioms, of ?v] by (simp add: Let_def insert_commute)
qed

text \<open>
  As long as a bit is never in both halves of the diff, every way the code reads a
  bitmap gives the same set: the point tests \<open>contains\<close> and \<open>fused_contains\<close>, the three
  fused copies, the length, and \<open>apply_diff\<close>, which is the intersection with the candidates.
\<close>

theorem readers_agree:
  assumes "roaring R" and "vb_wf R v"
  shows "vb_contains R v x = (x \<in> vb_bits R v) \<and>
    vb_fused_contains R v x = (x \<in> vb_bits R v) \<and>
    bits R (vb_fused R v) = vb_bits R v \<and>
    bits R (vb_fused_cow R v) = vb_bits R v \<and>
    bits R (vb_fused_arc R v) = vb_bits R v \<and>
    vb_fused_len R v = card (vb_bits R v) \<and>
    bits R (vb_apply_diff R v c) = bits R c \<inter> vb_bits R v"
  using assms
  by (simp add: roaring.vb_contains_iff roaring.vb_fused_contains_iff roaring.vb_fused_bits
      roaring.vb_fused_cow_bits roaring.vb_fused_arc_bits roaring.vb_fused_len_card
      roaring.vb_apply_diff_bits)

theorem readers_agree_witness:
  "(let v = vb_remove set_roaring (vb_insert set_roaring (vb_new set_roaring {1, 2}) 3) 1
    in vb_contains set_roaring v 3 \<and> \<not> vb_fused_contains set_roaring v 1 \<and>
       bits set_roaring (vb_apply_diff set_roaring v {1, 3, 7}) = {3})"
proof -
  let ?v = "vb_remove set_roaring (vb_insert set_roaring (vb_new set_roaring {1, 2}) 3) 1"
  have "vb_wf set_roaring ?v" by simp
  from readers_agree [OF sr.roaring_axioms this, of 3 "{1, 3, 7}"]
    readers_agree [OF sr.roaring_axioms this, of 1 "{}"]
  show ?thesis by (auto simp: Let_def)
qed

text \<open>
  The invariant behind the readers, that no bit is pending both as a set and as a
  clear, holds of every new bitmap and is kept by every operation that changes one.
\<close>

theorem diff_invariant:
  assumes "roaring R" and "vb_wf R v"
  shows "vb_wf R (vb_new R b) \<and> vb_wf R (vb_new_empty R) \<and> vb_wf R (vb_new_unloaded R) \<and>
    vb_wf R (vb_insert R v x) \<and> vb_wf R (vb_remove R v x) \<and>
    vb_wf R (vb_insert_bulk R v xs) \<and> vb_wf R (vb_merge R v) \<and>
    vb_wf R (vb_merge_with_timing R v) \<and> vb_wf R (vb_or_into_base R v b) \<and>
    vb_wf R (vb_clear_base_and_unload R v) \<and> vb_wf R (vb_clone_diff_only R v) \<and>
    vb_wf R (vb_load_base R v b) \<and> vb_wf R (vb_replace_base_preserve_diff R v b)"
  using assms
  by (simp add: roaring.vb_wf_new roaring.vb_wf_insert roaring.vb_wf_remove
      roaring.vb_wf_insert_bulk roaring.vb_wf_merge roaring.vb_wf_base
      roaring.vb_merge_with_timing_eq)

theorem diff_invariant_witness:
  "vb_wf set_roaring (vb_remove set_roaring (vb_insert set_roaring (vb_new set_roaring {1, 2}) 2) 2)"
proof -
  have "vb_wf set_roaring (vb_insert set_roaring (vb_new set_roaring {1, 2}) 2)"
    by simp
  from diff_invariant [OF sr.roaring_axioms this, of "{}" 2 "[]"] show ?thesis by blast
qed

text \<open>
  Unloading a bitmap loses nothing.  A copy of the bitmap is unloaded while its content
  is on disk, both live through the same writes and merge cycles, and the copy is reloaded
  from disk through either of the two reload operations: it then has the content of the
  bitmap that was never unloaded.
\<close>

theorem unload_reload_roundtrip:
  assumes "roaring R" and "bits R saved = vb_bits R v"
  shows "vb_bits R (vb_load_base R (vb_run R ops (vb_clear_base_and_unload R v)) saved) =
      vb_bits R (vb_run R ops v) \<and>
    vb_bits R (vb_replace_base_preserve_diff R (vb_run R ops (vb_clear_base_and_unload R v)) saved) =
      vb_bits R (vb_run R ops v) \<and>
    vb_bits R (vb_load_base R (vb_run R ops (vb_clone_diff_only R v)) saved) =
      vb_bits R (vb_run R ops v)"
proof -
  note shadow = roaring.vb_shadow_run [OF assms(1) roaring.vb_shadow_unload(1) [OF assms]]
    roaring.vb_shadow_run [OF assms(1) roaring.vb_shadow_unload(2) [OF assms]]
  show ?thesis
    by (intro conjI roaring.vb_shadow_reload [OF assms(1)] shadow)
qed

theorem unload_reload_roundtrip_witness:
  "vb_bits set_roaring
     (vb_load_base set_roaring
       (vb_run set_roaring [VInsert 7, VMerge, VRemove 1]
         (vb_clear_base_and_unload set_roaring (vb_new set_roaring {1, 2}))) {1, 2}) = {2, 7}"
proof -
  have "bits set_roaring {1, 2} = vb_bits set_roaring (vb_new set_roaring {1, 2})" by simp
  from unload_reload_roundtrip [OF sr.roaring_axioms this, of "[VInsert 7, VMerge, VRemove 1]"]
  show ?thesis by (simp add: vb_run_def insert_commute)
qed

end
