(* ===== verification/Bitdex_Config.thy ===== *)
theory Bitdex_Config
  imports Prelude
begin

text \<open>
  The error type (\<open>error.rs\<close>) and the configuration (\<open>config.rs\<close>): the structs the engine
  reads, and the two \<open>validate\<close> functions with all their error branches.  \<open>config\<close> keeps
  the fields that \<open>validate\<close> and the modelled components read; the remaining ones are
  tuning knobs of background threads.
\<close>

section \<open>Errors\<close>

datatype bitdex_error =
    SlotNotFound u32
  | FieldNotFound string
  | InvalidValue string string
  | SchemaError string
  | ConfigError string
  | QueryParse string
  | CapacityExceeded string
  | StorageError string
  | IoError string
  | QueryTooExpensive string usize usize

type_synonym 'a bresult = "bitdex_error + 'a"

text \<open>The \<open>?\<close> operator: an error returns early.\<close>

definition bbind :: "'a bresult \<Rightarrow> ('a \<Rightarrow> 'b bresult) \<Rightarrow> 'b bresult" where
  "bbind r f = (case r of Inl e \<Rightarrow> Inl e | Inr x \<Rightarrow> f x)"

lemma bbind_simps [simp]:
  "bbind (Inl e) f = Inl e"
  "bbind (Inr x) f = f x"
  by (simp_all add: bbind_def)

lemma bbind_Inr_iff: "bbind r f = Inr y \<longleftrightarrow> (\<exists>x. r = Inr x \<and> f x = Inr y)"
  by (cases r) auto


section \<open>Field configuration\<close>

datatype filter_field_type = SingleValue | MultiValue | BooleanField

record bucket_config =
  bc_name :: string
  bc_duration_secs :: u64
  bc_refresh_interval_secs :: u64

record field_behaviors =
  fb_range_buckets :: "bucket_config list"
  fb_sort_field :: "string option"

record eviction_config =
  ev_idle_seconds :: f64

record filter_field_config =
  ffc_name :: string
  ffc_field_type :: filter_field_type
  ffc_behaviors :: "field_behaviors option"
  ffc_eviction :: "eviction_config option"
  ffc_eager_load :: bool
  ffc_per_value_lazy :: bool
  ffc_max_range_scan_values :: "usize option"

datatype computed_op = Greatest | Least

record computed_field =
  cf_op :: computed_op
  cf_source_fields :: "string list"

record sort_field_config =
  sfc_name :: string
  sfc_source_type :: string
  sfc_encoding :: string
  sfc_bits :: u8
  sfc_eager_load :: bool
  sfc_computed :: "computed_field option"

record time_bucket_field_config =
  tbc_filter_field :: string
  tbc_sort_field :: string
  tbc_range_buckets :: "bucket_config list"
  tbc_full_rebuild_interval_secs :: u64
  tbc_reconcile_scan_threads :: usize

record deferred_alive_config =
  dac_source_field :: string
  dac_ms_to_seconds :: bool
  dac_sweep_interval_secs :: u64
  dac_sweep_limit :: usize

datatype field_value_type = FvtInteger | FvtBoolean | FvtString | FvtMappedString
  | FvtLowCardinalityString | FvtIntegerArray | FvtExistsBoolean

record field_mapping =
  fm_source :: string
  fm_target :: string
  fm_value_type :: field_value_type
  fm_fallback :: "string option"
  fm_string_map :: "(string, i64) hashmap option"
  fm_doc_only :: bool
  fm_filter_only :: bool
  fm_ms_to_seconds :: bool
  fm_truncate_u32 :: bool
  fm_case_sensitive :: bool
  fm_nullable :: bool

record data_schema =
  ds_id_field :: string
  ds_schema_version :: u8
  ds_fields :: "field_mapping list"

record config =
  cfg_filter_fields :: "filter_field_config list"
  cfg_sort_fields :: "sort_field_config list"
  cfg_time_buckets :: "time_bucket_field_config option"
  cfg_max_page_size :: usize
  cfg_cache_decay_rate :: f64
  cfg_deferred_alive :: "deferred_alive_config option"
  cfg_data_schema :: data_schema

definition should_convert_ms :: "field_mapping \<Rightarrow> bool" where
  "should_convert_ms fm \<longleftrightarrow> fm_ms_to_seconds fm \<or> fm_truncate_u32 fm"


section \<open>Validation\<close>

text \<open>
  The loops of \<open>Config::validate\<close>.  \<open>seen\<close> is the hash set of the names met so far; the
  bucket loop occurs twice in the source with different message prefixes \<open>pre\<close> (for the
  name checks) and \<open>bpre\<close> (for the checks that name the bucket).
\<close>

fun validate_buckets ::
    "string \<Rightarrow> (string \<Rightarrow> string) \<Rightarrow> string list \<Rightarrow> bucket_config list \<Rightarrow> unit bresult" where
  "validate_buckets pre bpre seen [] = Inr ()"
| "validate_buckets pre bpre seen (b # bs) =
     (if bc_name b = [] then Inl (ConfigError (pre @ ''bucket name must not be empty''))
      else if bc_name b \<in> set seen then
        Inl (ConfigError (pre @ ''duplicate bucket name '' @ [CHR 0x27] @ bc_name b @ [CHR 0x27]))
      else if bc_duration_secs b = 0 then
        Inl (ConfigError (bpre (bc_name b) @ ''duration_secs must be > 0''))
      else if bc_refresh_interval_secs b = 0 then
        Inl (ConfigError (bpre (bc_name b) @ ''refresh_interval_secs must be > 0''))
      else validate_buckets pre bpre (bc_name b # seen) bs)"

definition quoted :: "string \<Rightarrow> string" where
  "quoted s = [CHR 0x27] @ s @ [CHR 0x27]"

definition validate_eviction :: "filter_field_config \<Rightarrow> unit bresult" where
  "validate_eviction f =
     (case ffc_eviction f of
        None \<Rightarrow> Inr ()
      | Some ev \<Rightarrow>
          if ffc_field_type f \<noteq> MultiValue then
            Inl (ConfigError (''filter field '' @ quoted (ffc_name f) @
              '': eviction is only supported on multi_value fields''))
          else if f64_le (ev_idle_seconds ev) f64_zero then
            Inl (ConfigError (''filter field '' @ quoted (ffc_name f) @
              '': eviction.idle_seconds must be > 0''))
          else Inr ())"

definition validate_behaviors :: "filter_field_config \<Rightarrow> unit bresult" where
  "validate_behaviors f =
     (case ffc_behaviors f of
        None \<Rightarrow> Inr ()
      | Some bh \<Rightarrow>
          validate_buckets (''filter field '' @ quoted (ffc_name f) @ '': '')
            (\<lambda>n. ''filter field '' @ quoted (ffc_name f) @ '', bucket '' @ quoted n @ '': '')
            [] (fb_range_buckets bh))"

fun validate_filter_fields :: "string list \<Rightarrow> filter_field_config list \<Rightarrow> unit bresult" where
  "validate_filter_fields seen [] = Inr ()"
| "validate_filter_fields seen (f # fs) =
     (if ffc_name f = [] then Inl (ConfigError ''filter field name must not be empty'')
      else if ffc_name f \<in> set seen then
        Inl (ConfigError (''duplicate filter field: '' @ ffc_name f))
      else bbind (validate_eviction f) (\<lambda>_.
           bbind (validate_behaviors f) (\<lambda>_.
           validate_filter_fields (ffc_name f # seen) fs)))"

definition validate_time_buckets :: "config \<Rightarrow> unit bresult" where
  "validate_time_buckets c =
     (case cfg_time_buckets c of
        None \<Rightarrow> Inr ()
      | Some tb \<Rightarrow>
          if tbc_filter_field tb = [] then
            Inl (ConfigError ''time_buckets.filter_field must not be empty'')
          else if tbc_sort_field tb = [] then
            Inl (ConfigError ''time_buckets.sort_field must not be empty'')
          else validate_buckets ''time_buckets: ''
            (\<lambda>n. ''time_buckets bucket '' @ quoted n @ '': '') [] (tbc_range_buckets tb))"

definition validate_deferred_alive :: "config \<Rightarrow> unit bresult" where
  "validate_deferred_alive c =
     (case cfg_deferred_alive c of
        None \<Rightarrow> Inr ()
      | Some da \<Rightarrow>
          if dac_source_field da = [] then
            Inl (ConfigError ''deferred_alive.source_field must not be empty'')
          else Inr ())"

fun validate_sort_fields :: "string list \<Rightarrow> sort_field_config list \<Rightarrow> unit bresult" where
  "validate_sort_fields seen [] = Inr ()"
| "validate_sort_fields seen (s # ss) =
     (if sfc_name s = [] then Inl (ConfigError ''sort field name must not be empty'')
      else if sfc_name s \<in> set seen then
        Inl (ConfigError (''duplicate sort field: '' @ sfc_name s))
      else if sfc_bits s = 0 \<or> sfc_bits s > 64 then
        Inl (ConfigError (''sort field '' @ quoted (sfc_name s) @ '': bits must be 1-64, got '' @
          show_nat (unat (sfc_bits s))))
      else validate_sort_fields (sfc_name s # seen) ss)"

definition config_validate :: "config \<Rightarrow> unit bresult" where
  "config_validate c =
     (if cfg_max_page_size c = 0 then Inl (ConfigError ''max_page_size must be > 0'')
      else if f64_le (cfg_cache_decay_rate c) f64_zero \<or> f64_lt f64_one (cfg_cache_decay_rate c) then
        Inl (ConfigError ''cache.decay_rate must be in (0.0, 1.0]'')
      else
        bbind (validate_filter_fields [] (cfg_filter_fields c)) (\<lambda>_.
        bbind (validate_time_buckets c) (\<lambda>_.
        bbind (validate_deferred_alive c) (\<lambda>_.
        validate_sort_fields [] (cfg_sort_fields c)))))"

fun validate_mappings :: "field_mapping list \<Rightarrow> unit bresult" where
  "validate_mappings [] = Inr ()"
| "validate_mappings (fm # fms) =
     (if fm_doc_only fm \<and> fm_filter_only fm then
        Inl (ConfigError (''Field '' @ quoted (fm_target fm) @ '' cannot be both doc_only and filter_only''))
      else validate_mappings fms)"

definition data_schema_validate :: "data_schema \<Rightarrow> unit bresult" where
  "data_schema_validate ds =
     (if ds_schema_version ds < 1 then
        Inl (ConfigError ''data_schema.schema_version must be >= 1'')
      else validate_mappings (ds_fields ds))"


section \<open>What validation accepts\<close>

definition buckets_ok :: "bucket_config list \<Rightarrow> bool" where
  "buckets_ok bs \<longleftrightarrow>
     distinct (map bc_name bs) \<and>
     list_all (\<lambda>b. bc_name b \<noteq> [] \<and> bc_duration_secs b \<noteq> 0 \<and> bc_refresh_interval_secs b \<noteq> 0) bs"

definition filter_field_ok :: "filter_field_config \<Rightarrow> bool" where
  "filter_field_ok f \<longleftrightarrow> ffc_name f \<noteq> [] \<and>
     (case ffc_eviction f of None \<Rightarrow> True
      | Some ev \<Rightarrow> ffc_field_type f = MultiValue \<and> \<not> f64_le (ev_idle_seconds ev) f64_zero) \<and>
     (case ffc_behaviors f of None \<Rightarrow> True | Some bh \<Rightarrow> buckets_ok (fb_range_buckets bh))"

definition sort_field_ok :: "sort_field_config \<Rightarrow> bool" where
  "sort_field_ok s \<longleftrightarrow> sfc_name s \<noteq> [] \<and> sfc_bits s \<noteq> 0 \<and> sfc_bits s \<le> 64"

definition config_ok :: "config \<Rightarrow> bool" where
  "config_ok c \<longleftrightarrow>
     cfg_max_page_size c \<noteq> 0 \<and>
     \<not> f64_le (cfg_cache_decay_rate c) f64_zero \<and> \<not> f64_lt f64_one (cfg_cache_decay_rate c) \<and>
     distinct (map ffc_name (cfg_filter_fields c)) \<and> list_all filter_field_ok (cfg_filter_fields c) \<and>
     (case cfg_time_buckets c of None \<Rightarrow> True
      | Some tb \<Rightarrow> tbc_filter_field tb \<noteq> [] \<and> tbc_sort_field tb \<noteq> [] \<and> buckets_ok (tbc_range_buckets tb)) \<and>
     (case cfg_deferred_alive c of None \<Rightarrow> True | Some da \<Rightarrow> dac_source_field da \<noteq> []) \<and>
     distinct (map sfc_name (cfg_sort_fields c)) \<and> list_all sort_field_ok (cfg_sort_fields c)"

lemma validate_buckets_iff:
  "validate_buckets pre bpre seen bs = Inr () \<longleftrightarrow>
     buckets_ok bs \<and> set (map bc_name bs) \<inter> set seen = {}"
  by (induction bs arbitrary: seen) (auto simp: buckets_ok_def)

lemma validate_eviction_iff:
  "validate_eviction f = Inr () \<longleftrightarrow>
     (case ffc_eviction f of None \<Rightarrow> True
      | Some ev \<Rightarrow> ffc_field_type f = MultiValue \<and> \<not> f64_le (ev_idle_seconds ev) f64_zero)"
  by (auto simp: validate_eviction_def split: option.splits)

lemma validate_behaviors_iff:
  "validate_behaviors f = Inr () \<longleftrightarrow>
     (case ffc_behaviors f of None \<Rightarrow> True | Some bh \<Rightarrow> buckets_ok (fb_range_buckets bh))"
  by (auto simp: validate_behaviors_def validate_buckets_iff split: option.splits)

lemma validate_filter_fields_iff:
  "validate_filter_fields seen fs = Inr () \<longleftrightarrow>
     distinct (map ffc_name fs) \<and> list_all filter_field_ok fs \<and>
     set (map ffc_name fs) \<inter> set seen = {}"
  by (induction fs arbitrary: seen)
     (auto simp: bbind_Inr_iff validate_eviction_iff validate_behaviors_iff filter_field_ok_def)

lemma validate_sort_fields_iff:
  "validate_sort_fields seen ss = Inr () \<longleftrightarrow>
     distinct (map sfc_name ss) \<and> list_all sort_field_ok ss \<and>
     set (map sfc_name ss) \<inter> set seen = {}"
  by (induction ss arbitrary: seen) (auto simp: sort_field_ok_def not_less)

text \<open>
  C40: \<open>Config::validate\<close> succeeds exactly on these configurations: a positive page size, a
  decay rate neither at most 0 nor above 1, distinct non-empty field names, eviction only on
  multi-value fields and with an idle time that is not at most 0, distinct non-empty buckets
  with positive periods, a named deferred-alive source, and sort fields of 1 to 64 bits.
\<close>

theorem config_validate_iff: "config_validate c = Inr () \<longleftrightarrow> config_ok c"
  by (auto simp: config_validate_def config_ok_def bbind_Inr_iff validate_filter_fields_iff
      validate_sort_fields_iff validate_time_buckets_def validate_deferred_alive_def
      validate_buckets_iff split: option.splits)

text \<open>The two floating-point range checks are written as rejections, so a NaN passes them.\<close>

lemma nan_decay_rate_accepted:
  "config_validate
     \<lparr>cfg_filter_fields = [], cfg_sort_fields = [], cfg_time_buckets = None,
      cfg_max_page_size = 100, cfg_cache_decay_rate = 0x7FF8000000000000,
      cfg_deferred_alive = None,
      cfg_data_schema = \<lparr>ds_id_field = ''id'', ds_schema_version = 1, ds_fields = []\<rparr>\<rparr> = Inr ()"
  by (simp add: config_validate_def f64_le_def f64_lt_def f64_is_nan_def f64_zero_def f64_one_def
      validate_time_buckets_def validate_deferred_alive_def)

end
