(* ===== verification/Sort_Field.thy ===== *)
theory Sort_Field
  imports Versioned_Bitmap Bitdex_Config
begin

text \<open>
  Sort layers (\<open>sort.rs\<close>): a sortable field is decomposed into one bitmap per bit of its
  value.  \<open>SortField\<close> and its operations come first, in the order of the source, then
  \<open>SortIndex\<close>, then the facts about them.

  \<open>fused_cache\<close> sits behind a mutex and is filled by readers, so the readers that fill it
  return the field as well.  An index \<open>bit_layers[bit]\<close> with \<open>bit < num_bits\<close> is in range for
  every field built by \<open>new\<close> (\<open>sf_wf\<close> below).
\<close>

section \<open>SortField\<close>

record 'b sort_field =
  sf_bit_layers :: "'b versioned_bitmap list"
  sf_num_bits :: usize
  sf_config :: sort_field_config
  sf_fused_cache :: "'b list option"

definition sf_clone :: "'b sort_field \<Rightarrow> 'b sort_field" where
  "sf_clone f = f\<lparr>sf_fused_cache := None\<rparr>"

definition sf_new :: "'b roaring_ops \<Rightarrow> sort_field_config \<Rightarrow> 'b sort_field" where
  "sf_new R cfg =
     (let num_bits = unat (sfc_bits cfg)
      in \<lparr>sf_bit_layers = replicate num_bits (vb_new_empty R), sf_num_bits = num_bits,
          sf_config = cfg, sf_fused_cache = None\<rparr>)"

definition sf_invalidate_fused :: "'b sort_field \<Rightarrow> 'b sort_field" where
  "sf_invalidate_fused f = f\<lparr>sf_fused_cache := None\<rparr>"

definition sf_fused_layers :: "'b roaring_ops \<Rightarrow> 'b sort_field \<Rightarrow> 'b list \<times> 'b sort_field" where
  "sf_fused_layers R f =
     (case sf_fused_cache f of
        Some fused \<Rightarrow> (fused, f)
      | None \<Rightarrow>
          let fused = map (vb_fused_arc R) (sf_bit_layers f)
          in (fused, f\<lparr>sf_fused_cache := Some fused\<rparr>))"

definition sf_name :: "'b sort_field \<Rightarrow> string" where
  "sf_name f = sfc_name (sf_config f)"

text \<open>Changing one layer in place, and the \<open>get_mut(bit)\<close> form that ignores a bit out of range.\<close>

definition sf_at_layer ::
    "nat \<Rightarrow> ('b versioned_bitmap \<Rightarrow> 'b versioned_bitmap) \<Rightarrow> 'b sort_field \<Rightarrow> 'b sort_field" where
  "sf_at_layer k g f = f\<lparr>sf_bit_layers := (sf_bit_layers f)[k := g (sf_bit_layers f ! k)]\<rparr>"

definition sf_get_mut ::
    "nat \<Rightarrow> ('b versioned_bitmap \<Rightarrow> 'b versioned_bitmap) \<Rightarrow> 'b sort_field \<Rightarrow> 'b sort_field" where
  "sf_get_mut k g f = (if k < length (sf_bit_layers f) then sf_at_layer k g f else f)"

definition sf_insert :: "'b roaring_ops \<Rightarrow> 'b sort_field \<Rightarrow> u32 \<Rightarrow> u32 \<Rightarrow> 'b sort_field" where
  "sf_insert R f slot value =
     fold (\<lambda>k f. if u32_bit value k then sf_at_layer k (\<lambda>v. vb_insert R v slot) f else f)
       [0..<sf_num_bits f] (sf_invalidate_fused f)"

definition sf_slot_has_any_bit :: "'b roaring_ops \<Rightarrow> 'b sort_field \<Rightarrow> u32 \<Rightarrow> bool" where
  "sf_slot_has_any_bit R f slot = list_ex (\<lambda>layer. vb_contains R layer slot) (sf_bit_layers f)"

definition sf_remove :: "'b roaring_ops \<Rightarrow> 'b sort_field \<Rightarrow> u32 \<Rightarrow> 'b sort_field" where
  "sf_remove R f slot =
     (let f = sf_invalidate_fused f
      in f\<lparr>sf_bit_layers := map (\<lambda>layer. vb_remove R layer slot) (sf_bit_layers f)\<rparr>)"

definition sf_update :: "'b roaring_ops \<Rightarrow> 'b sort_field \<Rightarrow> u32 \<Rightarrow> u32 \<Rightarrow> u32 \<Rightarrow> 'b sort_field" where
  "sf_update R f slot old_value new_value =
     (let diff = old_value XOR new_value
      in fold (\<lambda>k f.
           if u32_bit diff k then
             if u32_bit old_value k then sf_at_layer k (\<lambda>v. vb_remove R v slot) f
             else sf_at_layer k (\<lambda>v. vb_insert R v slot) f
           else f) [0..<sf_num_bits f] (sf_invalidate_fused f))"

definition sf_set_layer_bulk :: "'b roaring_ops \<Rightarrow> 'b sort_field \<Rightarrow> nat \<Rightarrow> u32 list \<Rightarrow> 'b sort_field" where
  "sf_set_layer_bulk R f k slots = sf_get_mut k (\<lambda>v. vb_insert_bulk R v slots) (sf_invalidate_fused f)"

definition sf_or_layer :: "'b roaring_ops \<Rightarrow> 'b sort_field \<Rightarrow> nat \<Rightarrow> 'b \<Rightarrow> 'b sort_field" where
  "sf_or_layer R f k bm = sf_get_mut k (\<lambda>v. vb_or_into_base R v bm) (sf_invalidate_fused f)"

definition sf_clear_layer_bulk :: "'b roaring_ops \<Rightarrow> 'b sort_field \<Rightarrow> nat \<Rightarrow> u32 list \<Rightarrow> 'b sort_field" where
  "sf_clear_layer_bulk R f k slots =
     sf_get_mut k (fold (\<lambda>slot v. vb_remove R v slot) slots) (sf_invalidate_fused f)"

definition sf_layer :: "'b sort_field \<Rightarrow> nat \<Rightarrow> 'b option" where
  "sf_layer f k = (if k < length (sf_bit_layers f) then Some (vb_base (sf_bit_layers f ! k)) else None)"

definition sf_layer_fused :: "'b roaring_ops \<Rightarrow> 'b sort_field \<Rightarrow> nat \<Rightarrow> 'b option" where
  "sf_layer_fused R f k =
     (if k < length (sf_bit_layers f) then Some (vb_fused_cow R (sf_bit_layers f ! k)) else None)"

text \<open>\<open>bifurcate_with_layers\<close>: the loop over the bits, most significant first, then the tail
  that fills up from the band of equal values.\<close>

fun sf_bifurcate_loop ::
    "'b roaring_ops \<Rightarrow> bool \<Rightarrow> 'b list \<Rightarrow> nat list \<Rightarrow> 'b \<Rightarrow> 'b \<Rightarrow> nat \<Rightarrow> 'b \<times> 'b \<times> nat" where
  "sf_bifurcate_loop R descending layers [] result remaining remaining_limit =
     (result, remaining, remaining_limit)"
| "sf_bifurcate_loop R descending layers (k # ks) result remaining remaining_limit =
     (if remaining_limit = 0 \<or> rb_is_empty R remaining then (result, remaining, remaining_limit)
      else
        let layer = layers ! k;
            preferred = (if descending then rb_and R remaining layer else rb_sub R remaining layer);
            preferred_count = rb_len R preferred
        in if preferred_count = 0 then
             sf_bifurcate_loop R descending layers ks result remaining remaining_limit
           else if remaining_limit \<le> preferred_count then
             sf_bifurcate_loop R descending layers ks result preferred remaining_limit
           else
             sf_bifurcate_loop R descending layers ks (rb_or R result preferred)
               (rb_sub R remaining preferred) (remaining_limit - preferred_count))"

definition sf_bifurcate_with_layers ::
    "'b roaring_ops \<Rightarrow> 'b sort_field \<Rightarrow> 'b \<Rightarrow> nat \<Rightarrow> bool \<Rightarrow> 'b list \<Rightarrow> 'b" where
  "sf_bifurcate_with_layers R f candidates limit descending layers =
     (if rb_len R candidates \<le> limit then candidates
      else
        let (result, remaining, remaining_limit) =
              sf_bifurcate_loop R descending layers (rev [0..<sf_num_bits f]) (rb_new R) candidates limit
        in if 0 < remaining_limit \<and> \<not> rb_is_empty R remaining then
             if descending then
               fold (\<lambda>slot b. rb_insert R b slot) (take remaining_limit (rev (rb_iter R remaining))) result
             else
               fold (\<lambda>slot b. rb_insert R b slot) (take remaining_limit (rb_iter R remaining)) result
           else result)"

definition sf_reconstruct_value_with_layers :: "'b roaring_ops \<Rightarrow> u32 \<Rightarrow> 'b list \<Rightarrow> u32" where
  "sf_reconstruct_value_with_layers R slot layers =
     fold (\<lambda>(k, layer) value. if rb_contains R layer slot then value OR u32_shl1 k else value)
       (enumerate 0 layers) 0"

definition sf_order_results_with_layers :: "'b roaring_ops \<Rightarrow> 'b \<Rightarrow> bool \<Rightarrow> 'b list \<Rightarrow> u32 list" where
  "sf_order_results_with_layers R result_bitmap descending layers =
     (let entries = map (\<lambda>slot. (slot, sf_reconstruct_value_with_layers R slot layers))
            (rb_iter R result_bitmap);
          entries =
            (if descending then sort_by (\<lambda>a b. (snd b, fst b) \<le> (snd a, fst a)) entries
             else sort_by (\<lambda>a b. (snd a, fst a) \<le> (snd b, fst b)) entries)
      in map fst entries)"

fun sf_cursor_loop ::
    "'b roaring_ops \<Rightarrow> bool \<Rightarrow> u32 \<Rightarrow> 'b list \<Rightarrow> nat list \<Rightarrow> 'b \<Rightarrow> 'b \<Rightarrow> 'b \<times> 'b" where
  "sf_cursor_loop R descending cursor_value layers [] confirmed equal = (confirmed, equal)"
| "sf_cursor_loop R descending cursor_value layers (k # ks) confirmed equal =
     (if rb_is_empty R equal then (confirmed, equal)
      else
        let cursor_bit_set = u32_bit cursor_value k;
            layer = layers ! k
        in if descending then
             if cursor_bit_set then
               sf_cursor_loop R descending cursor_value layers ks
                 (rb_or R confirmed (rb_sub R equal layer)) (rb_and R equal layer)
             else
               sf_cursor_loop R descending cursor_value layers ks confirmed (rb_sub R equal layer)
           else
             if cursor_bit_set then
               sf_cursor_loop R descending cursor_value layers ks confirmed (rb_and R equal layer)
             else
               sf_cursor_loop R descending cursor_value layers ks
                 (rb_or R confirmed (rb_and R equal layer)) (rb_sub R equal layer))"

definition sf_apply_cursor_filter_with_layers ::
    "'b roaring_ops \<Rightarrow> 'b sort_field \<Rightarrow> 'b \<Rightarrow> bool \<Rightarrow> u64 \<Rightarrow> u32 \<Rightarrow> 'b list \<Rightarrow> 'b" where
  "sf_apply_cursor_filter_with_layers R f candidates descending cursor_sort_value cursor_slot_id layers =
     (let cursor_value = (ucast cursor_sort_value :: u32);
          (confirmed, equal) =
            sf_cursor_loop R descending cursor_value layers (rev [0..<sf_num_bits f]) (rb_new R) candidates
      in if \<not> rb_is_empty R equal then
           let equal =
             (if descending then rb_remove_range R equal cursor_slot_id u32_MAX
              else rb_remove_range R equal 0 cursor_slot_id)
           in rb_or R confirmed equal
         else confirmed)"

definition sf_top_n ::
    "'b roaring_ops \<Rightarrow> 'b sort_field \<Rightarrow> 'b \<Rightarrow> nat \<Rightarrow> bool \<Rightarrow> (u64 \<times> u32) option \<Rightarrow>
     u32 list \<times> 'b sort_field" where
  "sf_top_n R f candidates limit descending cursor =
     (if rb_is_empty R candidates \<or> limit = 0 then ([], f)
      else
        let (layers, f) = sf_fused_layers R f;
            candidates =
              (case cursor of
                 Some (cursor_sort_value, cursor_slot_id) \<Rightarrow>
                   sf_apply_cursor_filter_with_layers R f candidates descending
                     cursor_sort_value cursor_slot_id layers
               | None \<Rightarrow> candidates)
        in if rb_is_empty R candidates then ([], f)
           else
             let top_n_bitmap = sf_bifurcate_with_layers R f candidates limit descending layers
             in (sf_order_results_with_layers R top_n_bitmap descending layers, f))"

definition sf_reconstruct_value :: "'b roaring_ops \<Rightarrow> 'b sort_field \<Rightarrow> u32 \<Rightarrow> u32" where
  "sf_reconstruct_value R f slot =
     fold (\<lambda>k value. if vb_fused_contains R (sf_bit_layers f ! k) slot then value OR u32_shl1 k else value)
       [0..<sf_num_bits f] 0"

definition sf_slots_in_range :: "'b roaring_ops \<Rightarrow> 'b sort_field \<Rightarrow> 'b \<Rightarrow> u32 \<Rightarrow> u32 \<Rightarrow> 'b" where
  "sf_slots_in_range R f universe min_value max_value =
     fold (\<lambda>slot result.
         let val = sf_reconstruct_value R f slot
         in if min_value \<le> val \<and> val < max_value then rb_insert R result slot else result)
       (rb_iter R universe) (rb_new R)"

definition sf_merge_all :: "'b roaring_ops \<Rightarrow> 'b sort_field \<Rightarrow> 'b sort_field" where
  "sf_merge_all R f =
     (let f = sf_invalidate_fused f
      in f\<lparr>sf_bit_layers := map (vb_merge R) (sf_bit_layers f)\<rparr>)"

definition sf_has_dirty :: "'b roaring_ops \<Rightarrow> 'b sort_field \<Rightarrow> bool" where
  "sf_has_dirty R f = list_ex (vb_is_dirty R) (sf_bit_layers f)"

definition sf_merge_dirty :: "'b roaring_ops \<Rightarrow> 'b sort_field \<Rightarrow> 'b sort_field" where
  "sf_merge_dirty R f =
     (let f = sf_invalidate_fused f
      in f\<lparr>sf_bit_layers :=
           map (\<lambda>layer. if \<not> vb_is_dirty R layer then layer else vb_merge_with_timing R layer)
             (sf_bit_layers f)\<rparr>)"

definition sf_is_fully_loaded :: "'b sort_field \<Rightarrow> bool" where
  "sf_is_fully_loaded f = list_all vb_loaded (sf_bit_layers f)"

definition sf_load_layers :: "'b roaring_ops \<Rightarrow> 'b sort_field \<Rightarrow> 'b list \<Rightarrow> 'b sort_field" where
  "sf_load_layers R f layers =
     fold (\<lambda>(i, bm) f.
         if i < length (sf_bit_layers f)
         then sf_at_layer i (\<lambda>v. vb_replace_base_preserve_diff R v bm) f else f)
       (enumerate 0 layers) (sf_invalidate_fused f)"

definition sf_layer_bases :: "'b sort_field \<Rightarrow> 'b list" where
  "sf_layer_bases f = map vb_base (sf_bit_layers f)"

definition sf_layer_bases_fused :: "'b roaring_ops \<Rightarrow> 'b sort_field \<Rightarrow> 'b list" where
  "sf_layer_bases_fused R f = map (vb_fused_cow R) (sf_bit_layers f)"

definition sf_clear_bases_and_unload :: "'b roaring_ops \<Rightarrow> 'b sort_field \<Rightarrow> 'b sort_field" where
  "sf_clear_bases_and_unload R f =
     (let f = sf_invalidate_fused f
      in f\<lparr>sf_bit_layers := map (vb_clear_base_and_unload R) (sf_bit_layers f)\<rparr>)"


section \<open>SortIndex\<close>

type_synonym 'b sort_index = "(string, 'b sort_field) hashmap"

definition si_add_field :: "'b roaring_ops \<Rightarrow> 'b sort_index \<Rightarrow> sort_field_config \<Rightarrow> 'b sort_index" where
  "si_add_field R si cfg = hm_insert (sfc_name cfg) (sf_new R cfg) si"

definition si_remove_field :: "'b sort_index \<Rightarrow> string \<Rightarrow> bool \<times> 'b sort_index" where
  "si_remove_field si name = (hm_get si name \<noteq> None, hm_remove name si)"

definition si_get_field :: "'b sort_index \<Rightarrow> string \<Rightarrow> 'b sort_field option" where
  "si_get_field si name = hm_get si name"

text \<open>A write through \<open>get_field_mut\<close>.  Whether \<open>Arc::make_mut\<close> clones (and so drops the fused
  cache) or not, every write drops the cache itself.\<close>

definition si_modify_field ::
    "'b sort_index \<Rightarrow> string \<Rightarrow> ('b sort_field \<Rightarrow> 'b sort_field) \<Rightarrow> 'b sort_index" where
  "si_modify_field si name g =
     (case hm_get si name of Some f \<Rightarrow> hm_insert name (g f) si | None \<Rightarrow> si)"

definition si_unloaded :: "'b roaring_ops \<Rightarrow> 'b sort_field \<Rightarrow> 'b sort_field" where
  "si_unloaded R old =
     (let new_field = sf_new R (sf_config old)
      in fold (\<lambda>(i, v) nf. sf_at_layer i
             (\<lambda>_. if vb_is_dirty R v then vb_clone_diff_only R v else vb_new_unloaded R) nf)
           (enumerate 0 (sf_bit_layers old)) new_field)"

definition si_unload_field :: "'b roaring_ops \<Rightarrow> 'b sort_index \<Rightarrow> string \<Rightarrow> 'b sort_index" where
  "si_unload_field R si name =
     (case hm_get si name of Some f \<Rightarrow> hm_insert name (si_unloaded R f) si | None \<Rightarrow> si)"

definition si_copy_field_arc_from :: "'b sort_index \<Rightarrow> 'b sort_index \<Rightarrow> string \<Rightarrow> 'b sort_index" where
  "si_copy_field_arc_from si source name =
     (case hm_get source name of Some f \<Rightarrow> hm_insert name f si | None \<Rightarrow> si)"

definition si_unload_from :: "'b roaring_ops \<Rightarrow> 'b sort_index \<Rightarrow> 'b sort_index \<Rightarrow> string \<Rightarrow> 'b sort_index" where
  "si_unload_from R si source name =
     (case hm_get source name of Some f \<Rightarrow> hm_insert name (si_unloaded R f) si | None \<Rightarrow> si)"


section \<open>The order of a result page\<close>

text \<open>\<open>before desc val a b\<close>: slot \<open>a\<close> comes before slot \<open>b\<close>, by value, ties by slot id, both
  ascending or both descending.  It is a strict total order on slots.\<close>

definition before :: "bool \<Rightarrow> (u32 \<Rightarrow> u32) \<Rightarrow> u32 \<Rightarrow> u32 \<Rightarrow> bool" where
  "before desc val a b \<longleftrightarrow> (if desc then (val b, b) < (val a, a) else (val a, a) < (val b, b))"

interpretation page: strict_total "before desc val" for desc val
  by unfold_locales (auto simp: before_def)

definition page_order :: "bool \<Rightarrow> (u32 \<Rightarrow> u32) \<Rightarrow> u32 set \<Rightarrow> u32 list" where
  "page_order desc val A = sort_by (\<lambda>a b. \<not> before desc val b a) (sorted_list_of_set A)"

lemma set_page_order [simp]: "set (page_order desc val A) = A"
  by (simp add: page_order_def)

lemma sorted_page_order: "sorted_wrt (before desc val) (page_order desc val A)"
  unfolding page_order_def by (rule page.sorted_sort_by) simp

lemma length_page_order [simp]: "length (page_order desc val A) = card A"
  by (simp add: page_order_def)

lemma distinct_page_order [simp]: "distinct (page_order desc val A)"
  by (simp add: page_order_def)

lemma page_order_unique:
  "sorted_wrt (before desc val) xs \<Longrightarrow> set xs = A \<Longrightarrow> xs = page_order desc val A"
  by (rule page.sorted_unique) (auto simp: sorted_page_order)

lemma page_order_cong:
  assumes "\<And>s. s \<in> A \<Longrightarrow> val s = val' s"
  shows "page_order desc val A = page_order desc val' A"
proof (rule page_order_unique)
  show "sorted_wrt (before desc val') (page_order desc val A)"
    by (rule sorted_wrt_mono_rel [OF _ sorted_page_order]) (auto simp: before_def assms split: if_splits)
qed simp

lemma take_page_order:
  assumes "T \<subseteq> A" and "\<And>t a. t \<in> T \<Longrightarrow> a \<in> A - T \<Longrightarrow> before desc val t a"
  shows "page_order desc val T = take (card T) (page_order desc val A)"
  using page.take_sorted_eq [of desc val "page_order desc val A" "page_order desc val T"] assms
  by (simp add: sorted_page_order)

text \<open>The sort of \<open>order_results\<close>, on pairs of slot and value.\<close>

lemma map_insort_by:
  assumes "\<And>y. y \<in> set ys \<Longrightarrow> le x y = le' (g x) (g y)"
  shows "map g (insort_by le x ys) = insort_by le' (g x) (map g ys)"
  using assms by (induction ys) auto

lemma map_sort_by:
  assumes "\<And>x y. x \<in> set xs \<Longrightarrow> y \<in> set xs \<Longrightarrow> le x y = le' (g x) (g y)"
  shows "map g (sort_by le xs) = sort_by le' (map g xs)"
  using assms
proof (induction xs)
  case Nil
  then show ?case by (simp add: sort_by_def)
next
  case (Cons x xs)
  have step: "sort_by l (z # zs) = insort_by l z (sort_by l zs)" for l :: "'z \<Rightarrow> 'z \<Rightarrow> bool" and z zs
    by (simp add: sort_by_def)
  have "map g (sort_by le (x # xs)) = insort_by le' (g x) (map g (sort_by le xs))"
    unfolding step using Cons.prems by (intro map_insort_by) simp
  with Cons show ?case by (simp add: step)
qed


section \<open>Values and bits\<close>

lemma bit_fold_or:
  assumes "\<forall>k \<in> set ks. k < 32"
  shows "bit (fold (\<lambda>k v. if P k then v OR u32_shl1 k else v) ks v0) n \<longleftrightarrow>
    bit v0 n \<or> n \<in> set ks \<and> P n"
  using assms by (induction ks arbitrary: v0) (auto simp: bit_or_iff bit_u32_shl1)

definition layers_value :: "(nat \<Rightarrow> u32 set) \<Rightarrow> nat \<Rightarrow> u32 \<Rightarrow> u32" where
  "layers_value L n s = fold (\<lambda>k v. if s \<in> L k then v OR u32_shl1 k else v) [0..<n] 0"

lemma bit_layers_value: "n \<le> 32 \<Longrightarrow> bit (layers_value L n s) k \<longleftrightarrow> k < n \<and> s \<in> L k"
  unfolding layers_value_def by (subst bit_fold_or) auto

lemma layers_value_cong: "(\<And>k. k < n \<Longrightarrow> (s \<in> L k) = (s \<in> L' k)) \<Longrightarrow> layers_value L n s = layers_value L' n s"
  unfolding layers_value_def by (rule fold_cong) auto

lemma drop_bit_layers_value: "n \<le> 32 \<Longrightarrow> drop_bit n (layers_value L n s) = 0"
  by (rule bit_word_eqI) (simp add: bit_drop_bit_eq bit_layers_value)

lemma layers_value_eqI:
  assumes "n \<le> 32" and "\<And>k. k < n \<Longrightarrow> s \<in> L k \<longleftrightarrow> bit v k"
  shows "layers_value L n s = take_bit n v"
  by (rule bit_word_eqI) (use assms in \<open>auto simp: bit_layers_value bit_take_bit_iff\<close>)


section \<open>Bifurcation\<close>

text \<open>
  The abstract state of the loop over the bits \<open>n-1, \<dots>, 0\<close>: of the candidates \<open>C\<close>, the set
  \<open>A\<close> is already won and \<open>m\<close> more are to be taken from \<open>B\<close>, whose values agree above bit \<open>n\<close>.
\<close>

definition bif_inv :: "bool \<Rightarrow> (u32 \<Rightarrow> u32) \<Rightarrow> u32 set \<Rightarrow> nat \<Rightarrow> u32 set \<Rightarrow> u32 set \<Rightarrow> nat \<Rightarrow> bool" where
  "bif_inv desc val C limit A B m \<longleftrightarrow>
     A \<subseteq> C \<and> B \<subseteq> C \<and> A \<inter> B = {} \<and> card A + m = limit \<and> m \<le> card B \<and>
     (\<forall>a \<in> A. \<forall>c \<in> C - A. before desc val a c) \<and>
     (\<forall>b \<in> B. \<forall>c \<in> C - A - B. before desc val b c)"

definition agree_above :: "nat \<Rightarrow> (u32 \<Rightarrow> u32) \<Rightarrow> u32 set \<Rightarrow> bool" where
  "agree_above n val B \<longleftrightarrow> (\<forall>a \<in> B. \<forall>b \<in> B. drop_bit n (val a) = drop_bit n (val b))"

text \<open>One layer splits \<open>B\<close> into the preferred slots \<open>P\<close> and the rest.\<close>

lemma preferred_before:
  assumes "agree_above (Suc k) val B" and "a \<in> B" and "b \<in> B"
    and "bit (val a) k = desc" and "bit (val b) k \<noteq> desc"
  shows "before desc val a b"
proof (cases desc)
  case True
  have "drop_bit (Suc k) (val a) = drop_bit (Suc k) (val b)"
    using assms(1-3) unfolding agree_above_def by blast
  then have "drop_bit k (val b) < drop_bit k (val a)"
    by (rule bit_split_less) (use assms(4,5) True in blast)+
  then have "val b < val a" by (rule drop_bit_less_imp_less)
  with True show ?thesis by (simp add: before_def)
next
  case False
  have "drop_bit (Suc k) (val b) = drop_bit (Suc k) (val a)"
    using assms(1-3) unfolding agree_above_def by blast
  then have "drop_bit k (val a) < drop_bit k (val b)"
    by (rule bit_split_less) (use assms(4,5) False in blast)+
  then have "val a < val b" by (rule drop_bit_less_imp_less)
  with False show ?thesis by (simp add: before_def)
qed

lemma agree_above_step:
  assumes "agree_above (Suc k) val B" and "B' \<subseteq> B" and "\<And>s. s \<in> B' \<Longrightarrow> bit (val s) k = d"
  shows "agree_above k val B'"
  unfolding agree_above_def
proof (intro ballI)
  fix a b assume ab: "a \<in> B'" "b \<in> B'"
  then have "drop_bit (Suc k) (val a) = drop_bit (Suc k) (val b)"
    using assms(1,2) unfolding agree_above_def by blast
  moreover have "bit (val a) k = bit (val b) k"
    using ab assms(3) by simp
  ultimately show "drop_bit k (val a) = drop_bit k (val b)"
    by (rule word_eq_drop_bit_Suc)
qed

lemma bif_narrow:
  assumes "bif_inv desc val C limit A B m" and "P \<subseteq> B" and "m \<le> card P"
    and "\<And>a b. a \<in> P \<Longrightarrow> b \<in> B - P \<Longrightarrow> before desc val a b"
  shows "bif_inv desc val C limit A P m"
  using assms unfolding bif_inv_def by blast

lemma bif_collect:
  assumes "bif_inv desc val C limit A B m" and "P \<subseteq> B" and "card P \<le> m"
    and "\<And>a b. a \<in> P \<Longrightarrow> b \<in> B - P \<Longrightarrow> before desc val a b"
  shows "bif_inv desc val C limit (A \<union> P) (B - P) (m - card P)"
proof -
  have "A \<inter> P = {}" using assms(1,2) by (auto simp: bif_inv_def)
  then have "card (A \<union> P) = card A + card P" by (simp add: card_Un_disjoint)
  moreover have "card (B - P) = card B - card P" using assms(2) by (simp add: card_Diff_subset)
  ultimately show ?thesis
    using assms unfolding bif_inv_def by (auto 0 3)
qed

text \<open>Taking the rest from a band of equal values, in slot order.\<close>

lemma before_band:
  assumes "agree_above 0 val B" and "a \<in> B" and "b \<in> B"
  shows "before desc val a b \<longleftrightarrow> (if desc then b < a else a < b)"
proof -
  have "drop_bit 0 (val a) = drop_bit 0 (val b)"
    using assms unfolding agree_above_def by blast
  then show ?thesis by (simp add: before_def)
qed

lemma bif_band:
  assumes "bif_inv desc val C limit A B m" and "agree_above 0 val B"
    and "T = set (take m (if desc then rev (sorted_list_of_set B) else sorted_list_of_set B))"
  shows "A \<union> T \<subseteq> C" and "card (A \<union> T) = limit"
    and "\<And>a c. a \<in> A \<union> T \<Longrightarrow> c \<in> C - (A \<union> T) \<Longrightarrow> before desc val a c"
proof -
  let ?xs = "if desc then rev (sorted_list_of_set B) else sorted_list_of_set B"
  have xs: "set ?xs = B" "distinct ?xs" "length ?xs = card B" by auto
  have TB: "T \<subseteq> B" using assms(3) xs(1) set_take_subset [of m ?xs] by auto
  have "card T = m"
    using assms(1) xs(2,3) by (simp add: assms(3) distinct_card bif_inv_def)
  then have "card T \<le> m" by simp
  then have inv: "bif_inv desc val C limit (A \<union> T) (B - T) (m - card T)"
  proof (rule bif_collect [OF assms(1) TB])
    fix a b assume ab: "a \<in> T" "b \<in> B - T"
    have "sorted_wrt (before desc val) ?xs"
    proof (cases desc)
      case True
      have "sorted_wrt (\<lambda>x y. before desc val y x) (sorted_list_of_set B)"
        by (rule sorted_wrt_mono_rel [OF _ strict_sorted_list_of_set])
           (use True in \<open>auto simp: before_band [OF assms(2)]\<close>)
      with True show ?thesis by (simp add: sorted_wrt_rev)
    next
      case False
      have "sorted_wrt (before desc val) (sorted_list_of_set B)"
        by (rule sorted_wrt_mono_rel [OF _ strict_sorted_list_of_set])
           (use False in \<open>auto simp: before_band [OF assms(2)]\<close>)
      with False show ?thesis by simp
    qed
    moreover have "a \<in> set (take m ?xs)" "b \<in> set ?xs - set (take m ?xs)"
      using ab unfolding xs(1) assms(3) by blast+
    ultimately show "before desc val a b"
      by (rule sorted_wrt_take_rest)
  qed
  then show "A \<union> T \<subseteq> C" "\<And>a c. a \<in> A \<union> T \<Longrightarrow> c \<in> C - (A \<union> T) \<Longrightarrow> before desc val a c"
    unfolding bif_inv_def by blast+
  show "card (A \<union> T) = limit"
    using inv \<open>card T = m\<close> by (simp add: bif_inv_def)
qed

text \<open>The candidates that lie after a cursor, and those still equal to it, above bit \<open>n\<close>.\<close>

definition after_bits :: "bool \<Rightarrow> nat \<Rightarrow> (u32 \<Rightarrow> u32) \<Rightarrow> u32 \<Rightarrow> u32 set \<Rightarrow> u32 set" where
  "after_bits desc n val cv C =
     {s \<in> C. if desc then drop_bit n (val s) < drop_bit n cv else drop_bit n cv < drop_bit n (val s)}"

definition eq_bits :: "nat \<Rightarrow> (u32 \<Rightarrow> u32) \<Rightarrow> u32 \<Rightarrow> u32 set \<Rightarrow> u32 set" where
  "eq_bits n val cv C = {s \<in> C. drop_bit n (val s) = drop_bit n cv}"

lemma eq_bits_step: "eq_bits k val cv C = {s \<in> eq_bits (Suc k) val cv C. bit (val s) k = bit cv k}"
  unfolding eq_bits_def using drop_bit_eq_step by blast

lemma after_bits_step:
  "after_bits desc k val cv C = after_bits desc (Suc k) val cv C \<union>
     {s \<in> eq_bits (Suc k) val cv C. bit (val s) k \<noteq> bit cv k \<and> bit cv k = desc}"
  unfolding eq_bits_def after_bits_def drop_bit_less_step [of k] by auto

lemma after_bits_done:
  assumes "eq_bits n val cv C = {}"
  shows "eq_bits 0 val cv C = {}" and "after_bits desc 0 val cv C = after_bits desc n val cv C"
  using assms
proof (induction n)
  case (Suc n)
  { case 1
    then have "eq_bits n val cv C = {}" by (subst eq_bits_step) simp
    then show ?case by (rule Suc.IH) }
  { case 2
    then have e: "eq_bits n val cv C = {}" by (subst eq_bits_step) simp
    have "after_bits desc n val cv C = after_bits desc (Suc n) val cv C"
      by (subst after_bits_step) (simp add: 2)
    with Suc.IH(2) [OF e] show ?case by simp }
qed simp_all

context roaring
begin

lemma bifurcate_loop_inv:
  assumes "\<And>k s. k < n \<Longrightarrow> s \<in> C \<Longrightarrow> s \<in> bits R (layers ! k) \<longleftrightarrow> bit (val s) k"
    and "bif_inv desc val C limit (bits R res) (bits R rem) m"
    and "agree_above n val (bits R rem)"
    and "sf_bifurcate_loop R desc layers (rev [0..<n]) res rem m = (res', rem', m')"
  shows "bif_inv desc val C limit (bits R res') (bits R rem') m' \<and>
    (m' = 0 \<or> agree_above 0 val (bits R rem'))"
  using assms
proof (induction n arbitrary: res rem m)
  case 0
  then show ?case by simp
next
  case (Suc k)
  let ?P = "if desc then rb_and R rem (layers ! k) else rb_sub R rem (layers ! k)"
  have lay: "\<And>k' s. k' < k \<Longrightarrow> s \<in> C \<Longrightarrow> s \<in> bits R (layers ! k') \<longleftrightarrow> bit (val s) k'"
    by (rule Suc.prems(1)) auto
  have rem: "bits R rem \<subseteq> C" using Suc.prems(2) by (simp add: bif_inv_def)
  have P: "bits R ?P = {s \<in> bits R rem. bit (val s) k = desc}"
    using Suc.prems(1) [of k] rem by auto
  have pref: "before desc val a b" if "a \<in> bits R ?P" "b \<in> bits R rem - bits R ?P" for a b
    using that unfolding P by (intro preferred_before [OF Suc.prems(3)]) auto
  consider (stop) "m = 0 \<or> bits R rem = {}" | (skip) "m \<noteq> 0" "bits R rem \<noteq> {}" "bits R ?P = {}"
    | (narrow) "m \<noteq> 0" "bits R rem \<noteq> {}" "bits R ?P \<noteq> {}" "m \<le> card (bits R ?P)"
    | (collect) "m \<noteq> 0" "bits R rem \<noteq> {}" "bits R ?P \<noteq> {}" "card (bits R ?P) < m"
    by linarith
  then show ?case
  proof cases
    case stop
    then have "m = 0" using Suc.prems(2) by (auto simp: bif_inv_def)
    with Suc.prems(2,4) show ?thesis by simp
  next
    case skip
    have "agree_above k val (bits R rem)"
      using skip(3) unfolding P by (intro agree_above_step [OF Suc.prems(3) subset_refl, of "\<not> desc"]) auto
    then show ?thesis
      using Suc.prems(2,4) skip by (intro Suc.IH [OF lay, of res rem m]) (auto simp: len_bits Let_def)
  next
    case narrow
    have "bif_inv desc val C limit (bits R res) (bits R ?P) m"
      using narrow(4) pref P by (intro bif_narrow [OF Suc.prems(2)]) auto
    moreover have "agree_above k val (bits R ?P)"
      unfolding P by (intro agree_above_step [OF Suc.prems(3), of _ desc]) auto
    ultimately show ?thesis
      using Suc.prems(4) narrow by (intro Suc.IH [OF lay, of res ?P m]) (auto simp: len_bits Let_def)
  next
    case collect
    let ?res = "rb_or R res ?P" and ?rem = "rb_sub R rem ?P" and ?m = "m - card (bits R ?P)"
    have "bif_inv desc val C limit (bits R res \<union> bits R ?P) (bits R rem - bits R ?P) ?m"
      using collect(4) pref P by (intro bif_collect [OF Suc.prems(2)]) auto
    then have "bif_inv desc val C limit (bits R ?res) (bits R ?rem) ?m" by simp
    moreover have "agree_above k val (bits R ?rem)"
      unfolding bits_sub P by (intro agree_above_step [OF Suc.prems(3), of _ "\<not> desc"]) auto
    ultimately show ?thesis
      using Suc.prems(4) collect
      by (intro Suc.IH [OF lay, of ?res ?rem ?m]) (auto simp: len_bits Let_def)
  qed
qed

lemma cursor_loop_eq:
  assumes "\<And>k s. k < n \<Longrightarrow> s \<in> C \<Longrightarrow> s \<in> bits R (layers ! k) \<longleftrightarrow> bit (val s) k" and "n \<le> 32"
    and "bits R conf = after_bits desc n val cv C" and "bits R eq = eq_bits n val cv C"
    and "sf_cursor_loop R desc cv layers (rev [0..<n]) conf eq = (conf', eq')"
  shows "bits R conf' = after_bits desc 0 val cv C \<and> bits R eq' = eq_bits 0 val cv C"
  using assms
proof (induction n arbitrary: conf eq)
  case 0
  then show ?case by simp
next
  case (Suc k)
  have lay: "\<And>k' s. k' < k \<Longrightarrow> s \<in> C \<Longrightarrow> s \<in> bits R (layers ! k') \<longleftrightarrow> bit (val s) k'"
    by (rule Suc.prems(1)) auto
  show ?case
  proof (cases "bits R eq = {}")
    case True
    then show ?thesis
      using Suc.prems(3-5) after_bits_done(1) [of "Suc k" val cv C]
        after_bits_done(2) [of "Suc k" val cv C desc] by simp
  next
    case False
    let ?yes = "rb_and R eq (layers ! k)" and ?no = "rb_sub R eq (layers ! k)"
    let ?eq = "if bit cv k then ?yes else ?no"
    let ?conf = "if bit cv k = desc then rb_or R conf (if desc then ?no else ?yes) else conf"
    have e: "bits R ?eq = eq_bits k val cv C"
      unfolding eq_bits_step [of k] using Suc.prems(1) [of k] Suc.prems(4) by (auto simp: eq_bits_def)
    have c: "bits R ?conf = after_bits desc k val cv C"
      unfolding after_bits_step [of desc k] using Suc.prems(1) [of k] Suc.prems(3,4)
      by (auto simp: eq_bits_def)
    have "u32_bit cv k = bit cv k" using Suc.prems(2) by (simp add: u32_bit_iff)
    then have "sf_cursor_loop R desc cv layers (rev [0..<k]) ?conf ?eq = (conf', eq')"
      using Suc.prems(5) False by (cases desc; cases "bit cv k") (simp_all add: Let_def)
    then show ?thesis
      using Suc.prems(2) by (intro Suc.IH [OF lay _ c e]) auto
  qed
qed

end


section \<open>Invariant, value of a slot\<close>

text \<open>
  \<open>sf_ok\<close>: as many layers as configured bits, at most 32 (values are \<open>u32\<close>), consistent
  diffs, and a fused view that is absent or is the content of the layers.  \<open>sf_value\<close> is the value the
  layers stand for.
\<close>

definition sf_ok :: "'b roaring_ops \<Rightarrow> 'b sort_field \<Rightarrow> bool" where
  "sf_ok R f \<longleftrightarrow> length (sf_bit_layers f) = sf_num_bits f \<and> sf_num_bits f \<le> 32 \<and>
     unat (sfc_bits (sf_config f)) = sf_num_bits f \<and>
     (\<forall>v \<in> set (sf_bit_layers f). vb_wf R v) \<and>
     (case sf_fused_cache f of None \<Rightarrow> True
      | Some ls \<Rightarrow> map (bits R) ls = map (vb_bits R) (sf_bit_layers f))"

definition sf_sets :: "'b roaring_ops \<Rightarrow> 'b sort_field \<Rightarrow> nat \<Rightarrow> u32 set" where
  "sf_sets R f k = vb_bits R (sf_bit_layers f ! k)"

definition sf_value :: "'b roaring_ops \<Rightarrow> 'b sort_field \<Rightarrow> u32 \<Rightarrow> u32" where
  "sf_value R f s = layers_value (sf_sets R f) (sf_num_bits f) s"

text \<open>What a cursor leaves of a set of candidates.\<close>

definition after_cursor ::
    "bool \<Rightarrow> (u32 \<Rightarrow> u32) \<Rightarrow> (u32 \<times> u32) option \<Rightarrow> u32 set \<Rightarrow> u32 set" where
  "after_cursor desc val cur A =
     (case cur of None \<Rightarrow> A
      | Some (cv, cs) \<Rightarrow> {s \<in> A. if desc then (val s, s) < (cv, cs) else (cv, cs) < (val s, s)})"

lemma sf_okD:
  assumes "sf_ok R f"
  shows "length (sf_bit_layers f) = sf_num_bits f" and "sf_num_bits f \<le> 32"
    and "k < sf_num_bits f \<Longrightarrow> vb_wf R (sf_bit_layers f ! k)"
  using assms by (auto simp: sf_ok_def)

lemma bit_sf_value:
  "sf_ok R f \<Longrightarrow> bit (sf_value R f s) k \<longleftrightarrow> k < sf_num_bits f \<and> s \<in> sf_sets R f k"
  unfolding sf_value_def by (rule bit_layers_value) (rule sf_okD)

lemma drop_bit_sf_value: "sf_ok R f \<Longrightarrow> drop_bit (sf_num_bits f) (sf_value R f s) = 0"
  unfolding sf_value_def by (rule drop_bit_layers_value) (rule sf_okD)

lemma sf_cursor_loop_cong:
  "\<forall>k \<in> set ks. u32_bit cv k = u32_bit cv' k \<Longrightarrow>
     sf_cursor_loop R desc cv layers ks conf eq = sf_cursor_loop R desc cv' layers ks conf eq"
  by (cases desc) (induction ks arbitrary: conf eq; simp add: Let_def)+

context roaring
begin

lemma reconstruct_with_layers_eq:
  "sf_reconstruct_value_with_layers R s layers = layers_value (\<lambda>k. bits R (layers ! k)) (length layers) s"
  by (simp add: sf_reconstruct_value_with_layers_def layers_value_def enumerate_eq_map fold_map
      comp_def contains_bits)

lemma reconstruct_value_eq:
  assumes "sf_ok R f"
  shows "sf_reconstruct_value R f s = sf_value R f s"
  unfolding sf_reconstruct_value_def sf_value_def layers_value_def sf_sets_def
  by (rule fold_cong) (auto simp: vb_fused_contains_iff sf_okD [OF assms])

lemma order_results_eq:
  "sf_order_results_with_layers R T desc layers =
     page_order desc (\<lambda>s. sf_reconstruct_value_with_layers R s layers) (bits R T)"
proof -
  let ?val = "\<lambda>s. sf_reconstruct_value_with_layers R s layers"
  let ?entries = "map (\<lambda>s. (s, ?val s)) (rb_iter R T)"
  let ?le = "\<lambda>a b. if desc then (snd b, fst b) \<le> (snd a, fst a) else (snd a, fst a) \<le> (snd b, fst b)"
  have "map fst (sort_by ?le ?entries) = sort_by (\<lambda>a b. \<not> before desc ?val b a) (map fst ?entries)"
    by (rule map_sort_by) (auto simp: before_def not_less not_le)
  then show ?thesis
    by (cases desc) (simp_all add: sf_order_results_with_layers_def page_order_def iter_eq comp_def Let_def)
qed

lemma bifurcate_eq:
  assumes lay: "\<And>k s. k < sf_num_bits f \<Longrightarrow> s \<in> bits R C \<Longrightarrow> s \<in> bits R (layers ! k) \<longleftrightarrow> bit (val s) k"
    and top: "\<And>s. s \<in> bits R C \<Longrightarrow> drop_bit (sf_num_bits f) (val s) = 0"
  shows "bits R (sf_bifurcate_with_layers R f C limit desc layers) \<subseteq> bits R C"
    and "card (bits R (sf_bifurcate_with_layers R f C limit desc layers)) = min limit (card (bits R C))"
    and "\<And>a c. a \<in> bits R (sf_bifurcate_with_layers R f C limit desc layers) \<Longrightarrow>
      c \<in> bits R C - bits R (sf_bifurcate_with_layers R f C limit desc layers) \<Longrightarrow> before desc val a c"
proof -
  let ?B = "sf_bifurcate_with_layers R f C limit desc layers"
  have "bits R ?B \<subseteq> bits R C \<and> card (bits R ?B) = min limit (card (bits R C)) \<and>
    (\<forall>a \<in> bits R ?B. \<forall>c \<in> bits R C - bits R ?B. before desc val a c)"
  proof (cases "card (bits R C) \<le> limit")
    case True
    then show ?thesis by (simp add: sf_bifurcate_with_layers_def len_bits)
  next
    case False
    obtain res rem m where loop: "sf_bifurcate_loop R desc layers (rev [0..<sf_num_bits f])
        (rb_new R) C limit = (res, rem, m)"
      by (metis prod.exhaust)
    have "bif_inv desc val (bits R C) limit (bits R (rb_new R)) (bits R C) limit"
      using False by (simp add: bif_inv_def)
    moreover have "agree_above (sf_num_bits f) val (bits R C)"
      using top by (simp add: agree_above_def)
    ultimately have inv: "bif_inv desc val (bits R C) limit (bits R res) (bits R rem) m"
      and agree: "m = 0 \<or> agree_above 0 val (bits R rem)"
      using bifurcate_loop_inv [OF lay _ _ loop] by blast+
    let ?T = "set (take m (if desc then rev (sorted_list_of_set (bits R rem)) else sorted_list_of_set (bits R rem)))"
    have B: "bits R ?B = bits R res \<union> ?T"
      using False by (auto simp: sf_bifurcate_with_layers_def len_bits loop iter_eq)
    show ?thesis
    proof (cases "m = 0")
      case True
      then have "bits R ?B = bits R res" using B by simp
      with inv False True show ?thesis by (auto simp: bif_inv_def)
    next
      case False
      with agree have "agree_above 0 val (bits R rem)" by simp
      from bif_band [OF inv this refl] False \<open>\<not> card (bits R C) \<le> limit\<close> show ?thesis
        unfolding B by (simp add: min_def)
    qed
  qed
  then show "bits R ?B \<subseteq> bits R C" "card (bits R ?B) = min limit (card (bits R C))"
    "\<And>a c. a \<in> bits R ?B \<Longrightarrow> c \<in> bits R C - bits R ?B \<Longrightarrow> before desc val a c"
    by blast+
qed

lemma cursor_filter_eq:
  assumes "\<And>k s. k < sf_num_bits f \<Longrightarrow> s \<in> bits R C \<Longrightarrow> s \<in> bits R (layers ! k) \<longleftrightarrow> bit (val s) k"
    and "\<And>s. s \<in> bits R C \<Longrightarrow> drop_bit (sf_num_bits f) (val s) = 0" and "sf_num_bits f \<le> 32"
  shows "bits R (sf_apply_cursor_filter_with_layers R f C desc csv cs layers) =
    after_cursor desc val (Some (take_bit (sf_num_bits f) (ucast csv), cs)) (bits R C)"
proof -
  let ?n = "sf_num_bits f"
  let ?cv = "take_bit ?n (ucast csv) :: u32"
  obtain conf eq where loop: "sf_cursor_loop R desc ?cv layers (rev [0..<?n]) (rb_new R) C = (conf, eq)"
    by fastforce
  have "u32_bit (ucast csv) k = u32_bit ?cv k" if "k < ?n" for k
    using that assms(3) by (simp add: u32_bit_iff bit_take_bit_iff)
  then have loop': "sf_cursor_loop R desc (ucast csv) layers (rev [0..<?n]) (rb_new R) C = (conf, eq)"
    using loop sf_cursor_loop_cong [of "rev [0..<?n]" "ucast csv" ?cv R desc layers] by simp
  have zero: "drop_bit ?n ?cv = 0"
    by (rule bit_word_eqI) (simp add: bit_drop_bit_eq bit_take_bit_iff)
  have "bits R (rb_new R) = after_bits desc ?n val ?cv (bits R C)"
    using assms(2) by (auto simp: after_bits_def zero)
  moreover have "bits R C = eq_bits ?n val ?cv (bits R C)"
    using assms(2) by (auto simp: eq_bits_def zero)
  ultimately have "bits R conf = after_bits desc 0 val ?cv (bits R C) \<and>
      bits R eq = eq_bits 0 val ?cv (bits R C)"
    using assms(1,3) loop by (intro cursor_loop_eq [of ?n]) auto
  then show ?thesis
    by (auto simp: sf_apply_cursor_filter_with_layers_def loop' Let_def after_cursor_def
        after_bits_def eq_bits_def not_le)
qed

lemma fused_layers_props:
  assumes "sf_ok R f" and "sf_fused_layers R f = (layers, f')"
  shows "length layers = sf_num_bits f" and "sf_num_bits f' = sf_num_bits f" and "sf_ok R f'"
    and "sf_bit_layers f' = sf_bit_layers f" and "k < sf_num_bits f \<Longrightarrow> bits R (layers ! k) = sf_sets R f k"
    and "sf_config f' = sf_config f"
proof -
  have m: "map (bits R) layers = map (vb_bits R) (sf_bit_layers f)"
    and f': "f' = f\<lparr>sf_fused_cache := Some layers\<rparr>"
    using assms by (auto simp: sf_fused_layers_def sf_ok_def Let_def split: option.splits)
  show len: "length layers = sf_num_bits f"
    using arg_cong [OF m, of length] sf_okD(1) [OF assms(1)] by simp
  show "sf_num_bits f' = sf_num_bits f" "sf_bit_layers f' = sf_bit_layers f" "sf_config f' = sf_config f"
    by (simp_all add: f')
  show "sf_ok R f'" using assms(1) m by (simp add: sf_ok_def f')
  show "bits R (layers ! k) = sf_sets R f k" if "k < sf_num_bits f"
    using arg_cong [OF m, of "\<lambda>xs. xs ! k"] that len sf_okD(1) [OF assms(1)] by (simp add: sf_sets_def)
qed

lemma top_n_eq:
  assumes "sf_ok R f"
  shows "fst (sf_top_n R f cand limit desc cursor) =
    take limit (page_order desc (sf_value R f) (after_cursor desc (sf_value R f)
      (map_option (\<lambda>(v, s). (take_bit (sf_num_bits f) (ucast v), s)) cursor) (bits R cand)))"
proof (cases "bits R cand = {} \<or> limit = 0")
  case True
  then show ?thesis
    by (auto simp: sf_top_n_def after_cursor_def page_order_def sort_by_def split: option.splits)
next
  case False
  obtain layers f' where fl: "sf_fused_layers R f = (layers, f')" by fastforce
  note props = fused_layers_props [OF assms fl]
  let ?val = "sf_value R f"
  have lay: "s \<in> bits R (layers ! k) \<longleftrightarrow> bit (?val s) k" if "k < sf_num_bits f'" for k s
    using that props(2,5) by (simp add: bit_sf_value [OF assms])
  have top: "drop_bit (sf_num_bits f') (?val s) = 0" for s
    using drop_bit_sf_value [OF assms] props(2) by simp
  have n32: "sf_num_bits f' \<le> 32" using sf_okD(2) [OF assms] props(2) by simp
  have val: "sf_reconstruct_value_with_layers R s layers = ?val s" for s
    unfolding reconstruct_with_layers_eq sf_value_def
    using props(1,5) by (auto intro!: layers_value_cong)
  define C where "C = (case cursor of Some (v, s) \<Rightarrow>
      sf_apply_cursor_filter_with_layers R f' cand desc v s layers | None \<Rightarrow> cand)"
  have C: "bits R C = after_cursor desc ?val
      (map_option (\<lambda>(v, s). (take_bit (sf_num_bits f) (ucast v), s)) cursor) (bits R cand)"
    using cursor_filter_eq [of f' cand layers ?val desc] lay top n32 props(2)
    by (auto simp: C_def after_cursor_def split: option.splits)
  have top_n: "fst (sf_top_n R f cand limit desc cursor) =
      (if bits R C = {} then []
       else page_order desc ?val (bits R (sf_bifurcate_with_layers R f' C limit desc layers)))"
    using False by (simp add: sf_top_n_def fl C_def order_results_eq val Let_def)
  show ?thesis
  proof (cases "bits R C = {}")
    case True
    then show ?thesis by (simp add: top_n flip: C) (simp add: page_order_def sort_by_def)
  next
    case False
    have "\<And>k s. k < sf_num_bits f' \<Longrightarrow> s \<in> bits R C \<Longrightarrow> s \<in> bits R (layers ! k) \<longleftrightarrow> bit (?val s) k"
      by (rule lay)
    note bif = bifurcate_eq [OF this top, where limit = limit and desc = desc]
    have "page_order desc ?val (bits R (sf_bifurcate_with_layers R f' C limit desc layers)) =
        take (min limit (card (bits R C))) (page_order desc ?val (bits R C))"
      using take_page_order [OF bif(1,3)] by (simp add: bif(2))
    then show ?thesis using False by (simp add: top_n C [symmetric] min_def)
  qed
qed

end


section \<open>Writes\<close>

text \<open>A loop that changes layers one by one changes each of them once.\<close>

lemma fold_at_layer:
  assumes "distinct ks"
  shows "fold (\<lambda>k f. if P k then sf_at_layer k (g k) f else f) ks f =
    f\<lparr>sf_bit_layers := map (\<lambda>k. if k \<in> set ks \<and> P k then g k (sf_bit_layers f ! k) else sf_bit_layers f ! k)
       [0..<length (sf_bit_layers f)]\<rparr>"
  using assms
proof (induction ks arbitrary: f)
  case Nil
  then show ?case by (simp add: map_nth)
next
  case (Cons k ks)
  let ?f = "if P k then sf_at_layer k (g k) f else f"
  have nth: "sf_bit_layers ?f ! i = (if i = k \<and> P k then g k (sf_bit_layers f ! k) else sf_bit_layers f ! i)"
    if "i < length (sf_bit_layers f)" for i
    using that by (auto simp: sf_at_layer_def nth_list_update)
  have len: "length (sf_bit_layers ?f) = length (sf_bit_layers f)"
    by (simp add: sf_at_layer_def)
  have "map (\<lambda>i. if i \<in> set ks \<and> P i then g i (sf_bit_layers ?f ! i) else sf_bit_layers ?f ! i)
        [0..<length (sf_bit_layers f)] =
      map (\<lambda>i. if i \<in> set (k # ks) \<and> P i then g i (sf_bit_layers f ! i) else sf_bit_layers f ! i)
        [0..<length (sf_bit_layers f)]"
    using Cons.prems by (intro map_cong) (auto simp: nth [simplified] sf_at_layer_def nth_list_update)
  moreover have "?f\<lparr>sf_bit_layers := xs\<rparr> = f\<lparr>sf_bit_layers := xs\<rparr>" for xs
    by (simp add: sf_at_layer_def)
  ultimately show ?case
    using Cons by (simp add: len)
qed

text \<open>Every write drops the fused view and replaces layer \<open>k\<close> by \<open>g k\<close> of it.\<close>

definition sf_with :: "'b sort_field \<Rightarrow> (nat \<Rightarrow> 'b versioned_bitmap \<Rightarrow> 'b versioned_bitmap) \<Rightarrow> 'b sort_field" where
  "sf_with f g = f\<lparr>sf_bit_layers := map (\<lambda>k. g k (sf_bit_layers f ! k)) [0..<length (sf_bit_layers f)],
                   sf_fused_cache := None\<rparr>"

lemma map_as_upt: "map g xs = map (\<lambda>k. g (xs ! k)) [0..<length xs]"
  by (rule nth_equalityI) simp_all

lemma get_mut_with:
  "sf_get_mut k g (sf_invalidate_fused f) = sf_with f (\<lambda>i v. if i = k then g v else v)"
proof -
  have "map (\<lambda>i. if i = k then g (sf_bit_layers f ! i) else sf_bit_layers f ! i) [0..<length (sf_bit_layers f)] =
      (if k < length (sf_bit_layers f) then (sf_bit_layers f)[k := g (sf_bit_layers f ! k)] else sf_bit_layers f)"
    by (auto intro!: nth_equalityI simp: nth_list_update)
  then show ?thesis
    by (simp add: sf_get_mut_def sf_at_layer_def sf_with_def sf_invalidate_fused_def)
qed

lemma sf_insert_with:
  "length (sf_bit_layers f) = sf_num_bits f \<Longrightarrow>
   sf_insert R f slot value = sf_with f (\<lambda>k v. if u32_bit value k then vb_insert R v slot else v)"
  unfolding sf_insert_def
  by (subst fold_at_layer) (auto simp: sf_with_def sf_invalidate_fused_def)

lemma sf_update_with:
  assumes "length (sf_bit_layers f) = sf_num_bits f"
  shows "sf_update R f slot old new = sf_with f (\<lambda>k v.
     if u32_bit (old XOR new) k then if u32_bit old k then vb_remove R v slot else vb_insert R v slot else v)"
proof -
  let ?g = "\<lambda>k v. if u32_bit old k then vb_remove R v slot else vb_insert R v slot"
  have "sf_update R f slot old new = fold (\<lambda>k f. if u32_bit (old XOR new) k then sf_at_layer k (?g k) f else f)
      [0..<sf_num_bits f] (sf_invalidate_fused f)"
    unfolding sf_update_def Let_def by (rule fold_cong) (auto simp: sf_at_layer_def)
  then show ?thesis
    using assms by (subst (asm) fold_at_layer) (auto simp: sf_with_def sf_invalidate_fused_def)
qed

lemma sf_maps_with:
  "sf_remove R f slot = sf_with f (\<lambda>k v. vb_remove R v slot)"
  "sf_merge_all R f = sf_with f (\<lambda>k v. vb_merge R v)"
  "sf_merge_dirty R f = sf_with f (\<lambda>k v. if \<not> vb_is_dirty R v then v else vb_merge_with_timing R v)"
  "sf_clear_bases_and_unload R f = sf_with f (\<lambda>k v. vb_clear_base_and_unload R v)"
  by (simp_all add: sf_remove_def sf_merge_all_def sf_merge_dirty_def sf_clear_bases_and_unload_def
      sf_with_def sf_invalidate_fused_def Let_def map_as_upt [of _ "sf_bit_layers f"])

lemma sf_load_layers_with:
  "sf_load_layers R f ls = sf_with f (\<lambda>k v. if k < length ls then vb_replace_base_preserve_diff R v (ls ! k) else v)"
proof -
  let ?n = "length (sf_bit_layers f)"
  have "sf_load_layers R f ls = fold (\<lambda>k f. if k < ?n then
      sf_at_layer k (\<lambda>v. vb_replace_base_preserve_diff R v (ls ! k)) f else f) [0..<length ls] (sf_invalidate_fused f)"
  proof -
    have "fold (\<lambda>k f. if k < length (sf_bit_layers f) then sf_at_layer k (g k) f else f) ks f' =
        fold (\<lambda>k f. if k < ?n then sf_at_layer k (g k) f else f) ks f'"
      if "length (sf_bit_layers f') = ?n" for ks f' and g :: "nat \<Rightarrow> 'a versioned_bitmap \<Rightarrow> 'a versioned_bitmap"
      using that by (induction ks arbitrary: f') (simp_all add: sf_at_layer_def)
    then show ?thesis
      by (simp add: sf_load_layers_def enumerate_eq_map fold_map comp_def sf_invalidate_fused_def)
  qed
  then show ?thesis
    by (subst (asm) fold_at_layer) (auto simp: sf_with_def sf_invalidate_fused_def)
qed

lemma sf_num_bits_with [simp]: "sf_num_bits (sf_with f g) = sf_num_bits f"
  by (simp add: sf_with_def)

lemma sf_num_bits_writes [simp]:
  "sf_num_bits (sf_insert R f slot v) = sf_num_bits f"
  "sf_num_bits (sf_merge_all R f) = sf_num_bits f"
  unfolding sf_insert_def by (subst fold_at_layer) (simp_all add: sf_invalidate_fused_def sf_maps_with)

lemma sf_sets_with: "k < length (sf_bit_layers f) \<Longrightarrow> sf_sets R (sf_with f g) k = vb_bits R (g k (sf_bit_layers f ! k))"
  by (simp add: sf_sets_def sf_with_def)

lemma sf_ok_with:
  assumes "sf_ok R f" and "\<And>k v. k < sf_num_bits f \<Longrightarrow> vb_wf R v \<Longrightarrow> vb_wf R (g k v)"
  shows "sf_ok R (sf_with f g)"
  using assms sf_okD(3) [OF assms(1)] by (auto simp: sf_ok_def sf_with_def)

lemma sf_value_with:
  assumes "sf_ok R f"
  shows "sf_value R (sf_with f g) s =
    layers_value (\<lambda>k. vb_bits R (g k (sf_bit_layers f ! k))) (sf_num_bits f) s"
  unfolding sf_value_def by (rule trans, rule layers_value_cong) (auto simp: sf_sets_with sf_okD(1) [OF assms])

context roaring
begin

lemma sf_ok_new: "unat (sfc_bits cfg) \<le> 32 \<Longrightarrow> sf_ok R (sf_new R cfg)"
  by (simp add: sf_ok_def sf_new_def Let_def)

lemma sf_ok_writes:
  assumes "sf_ok R f"
  shows "sf_ok R (sf_insert R f slot v)" "sf_ok R (sf_update R f slot old new)"
    "sf_ok R (sf_remove R f slot)" "sf_ok R (sf_set_layer_bulk R f k xs)"
    "sf_ok R (sf_or_layer R f k b)" "sf_ok R (sf_clear_layer_bulk R f k xs)"
    "sf_ok R (sf_merge_all R f)" "sf_ok R (sf_merge_dirty R f)"
    "sf_ok R (sf_load_layers R f ls)" "sf_ok R (sf_clear_bases_and_unload R f)"
  using assms sf_okD(1) [OF assms]
  by (auto simp: sf_insert_with sf_update_with sf_maps_with sf_load_layers_with sf_set_layer_bulk_def
      sf_or_layer_def sf_clear_layer_bulk_def get_mut_with vb_merge_with_timing_eq intro!: sf_ok_with)

lemma sf_ok_top_n: "sf_ok R f \<Longrightarrow> sf_ok R (snd (sf_top_n R f cand limit desc cursor))"
proof -
  assume ok: "sf_ok R f"
  obtain layers f' where fl: "sf_fused_layers R f = (layers, f')" by fastforce
  have "snd (sf_top_n R f cand limit desc cursor) \<in> {f, f'}"
    by (simp add: sf_top_n_def fl Let_def)
  with ok fused_layers_props(3) [OF ok fl] show ?thesis by auto
qed

lemma sf_value_insert:
  assumes "sf_ok R f"
  shows "sf_value R (sf_insert R f slot v) s =
    (if s = slot then sf_value R f s OR take_bit (sf_num_bits f) v else sf_value R f s)"
  unfolding sf_insert_with [OF sf_okD(1) [OF assms]] sf_value_with [OF assms]
  by (rule bit_word_eqI)
     (use sf_okD(2) [OF assms] in \<open>auto simp: bit_layers_value bit_or_iff bit_take_bit_iff
        bit_sf_value [OF assms] sf_sets_def u32_bit_iff\<close>)

lemma sf_value_remove:
  assumes "sf_ok R f"
  shows "sf_value R (sf_remove R f slot) s = (if s = slot then 0 else sf_value R f s)"
  unfolding sf_maps_with sf_value_with [OF assms]
  by (rule bit_word_eqI)
     (use sf_okD(2) [OF assms] in \<open>auto simp: bit_layers_value bit_sf_value [OF assms] sf_sets_def\<close>)

lemma sf_value_update:
  assumes "sf_ok R f" and "sf_value R f slot = take_bit (sf_num_bits f) old"
  shows "sf_value R (sf_update R f slot old new) s =
    (if s = slot then take_bit (sf_num_bits f) new else sf_value R f s)"
proof -
  have old: "slot \<in> vb_bits R (sf_bit_layers f ! k) \<longleftrightarrow> bit old k" if "k < sf_num_bits f" for k
    using that bit_sf_value [OF assms(1), of slot k] by (simp add: assms(2) bit_take_bit_iff sf_sets_def)
  have n: "sf_num_bits f \<le> 32" by (rule sf_okD(2) [OF assms(1)])
  show ?thesis
    unfolding sf_update_with [OF sf_okD(1) [OF assms(1)]] sf_value_with [OF assms(1)]
    by (rule bit_word_eqI)
       (use n old in \<open>auto simp: bit_layers_value bit_take_bit_iff bit_xor_iff
          bit_sf_value [OF assms(1)] sf_sets_def u32_bit_iff\<close>)
qed

lemma sf_value_merge:
  assumes "sf_ok R f"
  shows "sf_value R (sf_merge_all R f) s = sf_value R f s" and "sf_value R (sf_merge_dirty R f) s = sf_value R f s"
  unfolding sf_maps_with sf_value_with [OF assms] sf_value_def [of R f]
  by (auto intro!: layers_value_cong simp: sf_sets_def vb_merge_with_timing_eq split: if_splits)

end


section \<open>Unloading and reloading a field\<close>

text \<open>The writes a field can receive while it is unloaded.\<close>

datatype sf_op = SInsert u32 u32 | SUpdate u32 u32 u32 | SRemove u32
  | SSetBulk nat "u32 list" | SClearBulk nat "u32 list" | SMergeAll | SMergeDirty

fun sf_step :: "'b roaring_ops \<Rightarrow> sf_op \<Rightarrow> 'b sort_field \<Rightarrow> 'b sort_field" where
  "sf_step R (SInsert slot v) f = sf_insert R f slot v"
| "sf_step R (SUpdate slot old new) f = sf_update R f slot old new"
| "sf_step R (SRemove slot) f = sf_remove R f slot"
| "sf_step R (SSetBulk k slots) f = sf_set_layer_bulk R f k slots"
| "sf_step R (SClearBulk k slots) f = sf_clear_layer_bulk R f k slots"
| "sf_step R SMergeAll f = sf_merge_all R f"
| "sf_step R SMergeDirty f = sf_merge_dirty R f"

definition sf_run :: "'b roaring_ops \<Rightarrow> sf_op list \<Rightarrow> 'b sort_field \<Rightarrow> 'b sort_field" where
  "sf_run R ops f = fold (sf_step R) ops f"

definition sf_shadow :: "'b roaring_ops \<Rightarrow> 'b list \<Rightarrow> 'b sort_field \<Rightarrow> 'b sort_field \<Rightarrow> bool" where
  "sf_shadow R saved u f \<longleftrightarrow>
     sf_ok R u \<and> sf_ok R f \<and> sf_num_bits u = sf_num_bits f \<and> length saved = sf_num_bits f \<and>
     (\<forall>k < sf_num_bits f. vb_shadow R (saved ! k) (sf_bit_layers u ! k) (sf_bit_layers f ! k))"

context roaring
begin

lemma vb_shadow_fold_remove:
  "vb_shadow R saved u v \<Longrightarrow>
     vb_shadow R saved (fold (\<lambda>x v. vb_remove R v x) xs u) (fold (\<lambda>x v. vb_remove R v x) xs v)"
proof (induction xs arbitrary: u v)
  case (Cons x xs)
  from Cons.IH [OF vb_shadow_step [OF Cons.prems, of "VRemove x"]] show ?case by simp
qed simp

lemma vb_shadow_merge:
  "vb_shadow R saved u v \<Longrightarrow> vb_shadow R saved u (vb_merge R v)"
  "vb_shadow R saved u v \<Longrightarrow> vb_shadow R saved (vb_merge R u) v"
  by (simp add: vb_shadow_def) (simp add: vb_shadow_def vb_merge_def)

lemma sf_shadow_with:
  assumes "sf_shadow R saved u f"
    and "\<And>k v. vb_wf R v \<Longrightarrow> vb_wf R (g k v)"
    and "\<And>k x y. vb_shadow R (saved ! k) x y \<Longrightarrow> vb_shadow R (saved ! k) (g k x) (g k y)"
  shows "sf_shadow R saved (sf_with u g) (sf_with f g)"
proof -
  have "sf_ok R u" "sf_ok R f" "sf_num_bits u = sf_num_bits f"
    using assms(1) by (auto simp: sf_shadow_def)
  then have "length (sf_bit_layers u) = sf_num_bits f" "length (sf_bit_layers f) = sf_num_bits f"
    using sf_okD(1) by metis+
  then show ?thesis
    using assms \<open>sf_ok R u\<close> \<open>sf_ok R f\<close>
    by (auto simp: sf_shadow_def intro!: sf_ok_with) (simp add: sf_with_def)
qed

lemma sf_shadow_step:
  assumes "sf_shadow R saved u f"
  shows "sf_shadow R saved (sf_step R op u) (sf_step R op f)"
proof -
  have len: "length (sf_bit_layers u) = sf_num_bits u" "length (sf_bit_layers f) = sf_num_bits f"
    using assms by (auto simp: sf_shadow_def sf_ok_def)
  have ins: "vb_shadow R b (vb_insert R x s) (vb_insert R y s)"
    and rem: "vb_shadow R b (vb_remove R x s) (vb_remove R y s)"
    and blk: "vb_shadow R b (vb_insert_bulk R x ss) (vb_insert_bulk R y ss)"
    and mrg: "vb_shadow R b (vb_merge R x) (vb_merge R y)"
    if "vb_shadow R b x y" for b x y s ss
    using vb_shadow_step [OF that, of "VInsert s"] vb_shadow_step [OF that, of "VRemove s"]
      vb_shadow_step [OF that, of "VInsertBulk ss"] vb_shadow_step [OF that, of VMerge] by simp_all
  show ?thesis
    by (cases op; simp add: len sf_insert_with sf_update_with sf_maps_with sf_set_layer_bulk_def
        sf_clear_layer_bulk_def get_mut_with;
        rule sf_shadow_with [OF assms];
        auto simp: ins rem blk mrg vb_shadow_fold_remove vb_merge_with_timing_eq
          vb_shadow_merge)
qed

lemma sf_shadow_run: "sf_shadow R saved u f \<Longrightarrow> sf_shadow R saved (sf_run R ops u) (sf_run R ops f)"
  unfolding sf_run_def by (induction ops arbitrary: u f) (auto simp: sf_shadow_step)

lemma sf_shadow_reload:
  assumes "sf_shadow R saved u f"
  shows "sf_ok R (sf_load_layers R u saved)" and "sf_value R (sf_load_layers R u saved) s = sf_value R f s"
proof -
  have ok: "sf_ok R u" "sf_ok R f" "sf_num_bits u = sf_num_bits f" "length saved = sf_num_bits f"
    using assms by (auto simp: sf_shadow_def)
  show "sf_ok R (sf_load_layers R u saved)" by (rule sf_ok_writes(9) [OF ok(1)])
  show "sf_value R (sf_load_layers R u saved) s = sf_value R f s"
    unfolding sf_load_layers_with sf_value_with [OF ok(1)] ok(3) sf_value_def [of R f]
    by (rule layers_value_cong)
       (use assms ok in \<open>auto simp: sf_sets_def vb_shadow_reload sf_shadow_def\<close>)
qed

lemma si_unloaded_layers:
  assumes "sf_ok R f"
  shows "sf_bit_layers (si_unloaded R f) =
      map (\<lambda>v. if vb_is_dirty R v then vb_clone_diff_only R v else vb_new_unloaded R) (sf_bit_layers f)"
    and "sf_num_bits (si_unloaded R f) = sf_num_bits f" and "sf_ok R (si_unloaded R f)"
proof -
  let ?h = "\<lambda>v. if vb_is_dirty R v then vb_clone_diff_only R v else vb_new_unloaded R"
  let ?n = "sf_num_bits f"
  have n: "unat (sfc_bits (sf_config f)) = ?n" "length (sf_bit_layers f) = ?n"
    using assms by (simp_all add: sf_ok_def)
  have "si_unloaded R f = fold (\<lambda>k nf. if True then sf_at_layer k (\<lambda>_. ?h (sf_bit_layers f ! k)) nf else nf)
      [0..<?n] (sf_new R (sf_config f))"
    by (simp add: si_unloaded_def enumerate_eq_map fold_map comp_def n Let_def)
  then have eq: "si_unloaded R f = (sf_new R (sf_config f))\<lparr>sf_bit_layers := map ?h (sf_bit_layers f)\<rparr>"
    by (subst (asm) fold_at_layer)
       (auto simp: sf_new_def Let_def n map_as_upt [of _ "sf_bit_layers f"])
  show "sf_bit_layers (si_unloaded R f) = map ?h (sf_bit_layers f)" by (simp add: eq)
  show "sf_num_bits (si_unloaded R f) = ?n" by (simp add: eq sf_new_def n Let_def)
  show "sf_ok R (si_unloaded R f)"
    using assms by (auto simp: eq sf_ok_def sf_new_def Let_def)
qed

lemma sf_shadow_unload:
  assumes "sf_ok R f" and "saved = sf_layer_bases_fused R f"
  shows "sf_shadow R saved (sf_clear_bases_and_unload R f) f" and "sf_shadow R saved (si_unloaded R f) f"
proof -
  have n: "length (sf_bit_layers f) = sf_num_bits f" by (rule sf_okD(1) [OF assms(1)])
  have sv: "bits R (saved ! k) = vb_bits R (sf_bit_layers f ! k)" "length saved = sf_num_bits f"
    if "k < sf_num_bits f" for k
    using that n by (simp_all add: assms(2) sf_layer_bases_fused_def)
  have len: "length saved = sf_num_bits f" by (simp add: assms(2) sf_layer_bases_fused_def n)
  show "sf_shadow R saved (sf_clear_bases_and_unload R f) f"
    using assms(1) sv len n sf_ok_writes(10) [OF assms(1)]
    by (auto simp: sf_shadow_def sf_maps_with sf_with_def vb_shadow_unload)
  have clean: "vb_shadow R b (vb_new_unloaded R) v" if "bits R b = vb_bits R v" for b v
    using that by (simp add: vb_shadow_def vb_new_unloaded_def)
  show "sf_shadow R saved (si_unloaded R f) f"
    using assms(1) sv len n si_unloaded_layers [OF assms(1)]
    by (auto simp: sf_shadow_def vb_shadow_unload clean)
qed

end


section \<open>Properties\<close>

text \<open>
  C11: \<open>top_n\<close> returns the sorted page.  For a field of at most 32 bits, the result is the
  first \<open>limit\<close> of the candidates that lie after the cursor, ordered by value and then slot
  id (both descending or both ascending), whatever is pending in the layers and whether or
  not the fused view was cached.  The cursor value is read as a \<open>u32\<close> and at the field's width.
\<close>

theorem top_n_page:
  assumes "roaring R" and "sf_ok R f"
  shows "fst (sf_top_n R f cand limit desc cursor) =
    take limit (page_order desc (sf_reconstruct_value R f)
      (after_cursor desc (sf_reconstruct_value R f)
        (map_option (\<lambda>(v, s). (take_bit (sf_num_bits f) (ucast v), s)) cursor) (bits R cand)))"
proof -
  have "sf_reconstruct_value R f = sf_value R f"
    using roaring.reconstruct_value_eq [OF assms] by blast
  then show ?thesis by (simp add: roaring.top_n_eq [OF assms])
qed

definition cfg3 :: sort_field_config where
  "cfg3 = \<lparr>sfc_name = ''count'', sfc_source_type = ''uint32'', sfc_encoding = ''linear'',
           sfc_bits = 3, sfc_eager_load = False, sfc_computed = None\<rparr>"

definition field3 :: "u32 set sort_field" where
  "field3 = sf_insert set_roaring (sf_insert set_roaring (sf_insert set_roaring
     (sf_merge_all set_roaring (sf_insert set_roaring (sf_new set_roaring cfg3) 1 5)) 2 3) 4 5) 9 1"

lemma field3_ok: "sf_ok set_roaring field3"
  unfolding field3_def by (intro sr.sf_ok_writes sr.sf_ok_new) (simp add: cfg3_def)

lemma field3_value:
  "sf_reconstruct_value set_roaring field3 s =
    (if s = 9 then 1 else if s = 4 then 5 else if s = 2 then 3 else if s = 1 then 5 else 0)"
proof -
  have n: "sf_num_bits (sf_new set_roaring cfg3) = 3" by (simp add: sf_new_def cfg3_def Let_def)
  have z: "sf_value set_roaring (sf_new set_roaring cfg3) s = 0" for s
    by (rule bit_word_eqI)
       (auto simp: sf_value_def bit_layers_value n sf_sets_def sf_new_def cfg3_def Let_def)
  have ok: "sf_ok set_roaring (sf_new set_roaring cfg3)"
    by (rule sr.sf_ok_new) (simp add: cfg3_def)
  show ?thesis
    unfolding sr.reconstruct_value_eq [OF field3_ok] unfolding field3_def
    by (simp add: sr.sf_value_insert sr.sf_value_merge sr.sf_ok_writes ok sf_num_bits_writes n z)
qed

theorem top_n_page_witness:
  "fst (sf_top_n set_roaring field3 {1, 2, 4, 9} 2 True (Some (5, 4))) = [1, 2]"
proof -
  let ?val = "sf_reconstruct_value set_roaring field3"
  have n: "sf_num_bits field3 = 3"
    by (simp add: field3_def sf_new_def cfg3_def Let_def)
  have "after_cursor True ?val (Some (5, 4)) {1, 2, 4, 9} = {1, 2, 9}"
    by (auto simp: after_cursor_def field3_value)
  moreover have "page_order True ?val {1, 2, 9} = [1, 2, 9]"
    by (rule page_order_unique [symmetric]) (auto simp: before_def field3_value)
  ultimately show ?thesis
    using top_n_page [OF sr.roaring_axioms field3_ok, of "{1, 2, 4, 9}" 2 True "Some (5, 4)"]
    by (simp add: n)
qed

text \<open>
  C37: writes do to the reconstructed value of a slot what they say.  Inserting adds the
  bits of the value at the field's width, removing gives 0, updating from the value the slot
  has gives the new one, and no other slot is affected; merging changes nothing.
\<close>

theorem write_read_value:
  assumes "roaring R" and "sf_ok R f"
  shows "sf_reconstruct_value R (sf_insert R f slot v) s =
      (if s = slot then sf_reconstruct_value R f s OR take_bit (sf_num_bits f) v
       else sf_reconstruct_value R f s) \<and>
    sf_reconstruct_value R (sf_remove R f slot) s =
      (if s = slot then 0 else sf_reconstruct_value R f s) \<and>
    (sf_reconstruct_value R f slot = take_bit (sf_num_bits f) old \<longrightarrow>
      sf_reconstruct_value R (sf_update R f slot old new) s =
        (if s = slot then take_bit (sf_num_bits f) new else sf_reconstruct_value R f s)) \<and>
    sf_reconstruct_value R (sf_merge_all R f) s = sf_reconstruct_value R f s \<and>
    sf_reconstruct_value R (sf_merge_dirty R f) s = sf_reconstruct_value R f s"
  using assms
  by (simp add: roaring.reconstruct_value_eq roaring.sf_ok_writes roaring.sf_value_insert
      roaring.sf_value_remove roaring.sf_value_update roaring.sf_value_merge)

theorem write_read_value_witness:
  "sf_reconstruct_value set_roaring (sf_update set_roaring field3 2 3 6) 2 = 6 \<and>
   sf_reconstruct_value set_roaring (sf_remove set_roaring field3 4) 4 = 0"
proof -
  have n: "sf_num_bits field3 = 3"
    by (simp add: field3_def sf_new_def cfg3_def Let_def)
  show ?thesis
    using write_read_value [OF sr.roaring_axioms field3_ok, of 2 0 2 3 6]
      write_read_value [OF sr.roaring_axioms field3_ok, of 4 0 4 0 0]
    by (simp add: field3_value n)
qed

text \<open>
  C38: the invariant of a sort field.  It holds of every new field of at most 32 bits and is
  kept by every write, every merge, loading and unloading, and by \<open>top_n\<close>, which fills the
  fused view: in particular a fused view that is present is the content of the layers.
\<close>

theorem sort_field_inv:
  assumes "roaring R" and "sf_ok R f" and "sfc_bits cfg \<le> 32"
  shows "sf_ok R (sf_new R cfg) \<and> sf_ok R (sf_insert R f slot v) \<and>
    sf_ok R (sf_update R f slot old new) \<and> sf_ok R (sf_remove R f slot) \<and>
    sf_ok R (sf_set_layer_bulk R f k xs) \<and> sf_ok R (sf_or_layer R f k b) \<and>
    sf_ok R (sf_clear_layer_bulk R f k xs) \<and> sf_ok R (sf_merge_all R f) \<and>
    sf_ok R (sf_merge_dirty R f) \<and> sf_ok R (sf_load_layers R f ls) \<and>
    sf_ok R (sf_clear_bases_and_unload R f) \<and> sf_ok R (si_unloaded R f) \<and>
    sf_ok R (snd (sf_top_n R f cand limit desc cursor))"
proof -
  have "unat (sfc_bits cfg) \<le> 32" using assms(3) by (simp add: word_le_nat_alt)
  then show ?thesis
    using assms
    by (simp add: roaring.sf_ok_new roaring.sf_ok_writes roaring.sf_ok_top_n roaring.si_unloaded_layers)
qed

theorem sort_field_inv_witness:
  "sf_ok set_roaring (snd (sf_top_n set_roaring field3 {1, 2} 1 False None))"
proof -
  have "sfc_bits cfg3 \<le> 32" by (simp add: cfg3_def)
  from sort_field_inv [OF sr.roaring_axioms field3_ok this] show ?thesis by blast
qed

text \<open>
  C26: unloading a sort field loses no write.  A field is unloaded (in place or as a fresh
  copy) while its fused layers are on disk, receives any inserts, updates, removals, bulk
  writes and merges, and is loaded back from disk: every slot then has the value it would
  have had without the unload.
\<close>

theorem sort_unload_reload:
  assumes "roaring R" and "sf_ok R f" and "saved = sf_layer_bases_fused R f"
  shows "sf_reconstruct_value R (sf_load_layers R (sf_run R ops (sf_clear_bases_and_unload R f)) saved) s =
      sf_reconstruct_value R (sf_run R ops f) s \<and>
    sf_reconstruct_value R (sf_load_layers R (sf_run R ops (si_unloaded R f)) saved) s =
      sf_reconstruct_value R (sf_run R ops f) s"
proof -
  have "sf_reconstruct_value R (sf_load_layers R (sf_run R ops u) saved) s =
      sf_reconstruct_value R (sf_run R ops f) s" if "sf_shadow R saved u f" for u
  proof -
    have sh: "sf_shadow R saved (sf_run R ops u) (sf_run R ops f)"
      by (rule roaring.sf_shadow_run [OF assms(1) that])
    then have "sf_ok R (sf_run R ops f)" by (simp add: sf_shadow_def)
    then show ?thesis
      using roaring.sf_shadow_reload [OF assms(1) sh] by (simp add: roaring.reconstruct_value_eq assms(1))
  qed
  then show ?thesis using roaring.sf_shadow_unload [OF assms] by blast
qed

theorem sort_unload_reload_witness:
  "sf_reconstruct_value set_roaring (sf_load_layers set_roaring
     (sf_run set_roaring [SUpdate 2 3 6, SMergeAll] (sf_clear_bases_and_unload set_roaring field3))
     (sf_layer_bases_fused set_roaring field3)) 2 = 6"
proof -
  have "sf_num_bits field3 = 3" by (simp add: field3_def sf_new_def cfg3_def Let_def)
  then have "sf_value set_roaring field3 2 = take_bit (sf_num_bits field3) 3"
    using field3_value [of 2] by (simp add: sr.reconstruct_value_eq [OF field3_ok])
  from sr.sf_value_update [OF field3_ok this, of 6 2]
  have "sf_reconstruct_value set_roaring (sf_run set_roaring [SUpdate 2 3 6, SMergeAll] field3) 2 = 6"
    using \<open>sf_num_bits field3 = 3\<close>
    by (simp add: sf_run_def sr.reconstruct_value_eq sr.sf_ok_writes field3_ok sr.sf_value_merge)
  then show ?thesis
    using sort_unload_reload [OF sr.roaring_axioms field3_ok refl, of "[SUpdate 2 3 6, SMergeAll]" 2]
    by simp
qed

text \<open>The range scan that the time buckets use.\<close>

lemma fold_insert_if:
  assumes "roaring R"
  shows "bits R (fold (\<lambda>s b. if P s then rb_insert R b s else b) xs b) = {s \<in> set xs. P s} \<union> bits R b"
  by (induction xs arbitrary: b) (auto simp: roaring.bits_insert [OF assms])

lemma bits_slots_in_range:
  assumes "roaring R" and "sf_ok R f"
  shows "bits R (sf_slots_in_range R f u lo hi) =
    {s \<in> bits R u. lo \<le> sf_value R f s \<and> sf_value R f s < hi}"
  using assms
  by (simp add: sf_slots_in_range_def Let_def fold_insert_if roaring.reconstruct_value_eq
      roaring.set_iter roaring.bits_new)

end
