(* ===== verification/Bucket_Diff_Log.thy ===== *)
theory Bucket_Diff_Log
  imports Roaring
begin

text \<open>
  The diffs of the time buckets (\<open>bucket_diff_log.rs\<close>): the cutoff grid, the pending diffs with
  their merged bitmap.  The append-only log file of the diffs is not modelled.
\<close>

section \<open>Pending diffs\<close>

record 'b bucket_diff =
  bdf_cutoff_before :: u64
  bdf_cutoff_after :: u64
  bdf_expired :: 'b

record 'b pending_bucket_diffs =
  pbd_diffs :: "'b bucket_diff list"
  pbd_merged_expired :: 'b
  pbd_current_cutoff :: u64
  pbd_max_diffs :: usize

definition snap_cutoff :: "u64 \<Rightarrow> u64 \<Rightarrow> u64" where
  "snap_cutoff ts interval = (if interval = 0 then ts else (ts div interval) * interval)"

definition compute_merged :: "'b roaring_ops \<Rightarrow> 'b bucket_diff list \<Rightarrow> 'b" where
  "compute_merged R diffs = fold (\<lambda>d merged. rb_or R merged (bdf_expired d)) diffs (rb_new R)"

definition pbd_new :: "'b roaring_ops \<Rightarrow> usize \<Rightarrow> 'b pending_bucket_diffs" where
  "pbd_new R max_diffs = \<lparr>pbd_diffs = [], pbd_merged_expired = rb_new R, pbd_current_cutoff = 0,
     pbd_max_diffs = max_diffs\<rparr>"

definition pbd_from_diffs :: "'b roaring_ops \<Rightarrow> 'b bucket_diff list \<Rightarrow> usize \<Rightarrow> 'b pending_bucket_diffs" where
  "pbd_from_diffs R diffs max_diffs =
     \<lparr>pbd_diffs = diffs, pbd_merged_expired = compute_merged R diffs,
      pbd_current_cutoff = (if diffs = [] then 0 else bdf_cutoff_after (last diffs)),
      pbd_max_diffs = max_diffs\<rparr>"

text \<open>\<open>while self.diffs.len() > self.max_diffs { self.diffs.remove(0); }\<close>\<close>

function trim_oldest :: "usize \<Rightarrow> 'a list \<Rightarrow> 'a list" where
  "trim_oldest n xs = (if n < length xs then trim_oldest n (tl xs) else xs)"
  by pat_completeness auto
termination by (relation "measure (\<lambda>(n, xs). length xs)") auto

declare trim_oldest.simps [simp del]

definition pbd_push :: "'b roaring_ops \<Rightarrow> 'b pending_bucket_diffs \<Rightarrow> 'b bucket_diff \<Rightarrow> 'b pending_bucket_diffs" where
  "pbd_push R p diff =
     (let p = p\<lparr>pbd_current_cutoff := bdf_cutoff_after diff\<rparr>;
          p = p\<lparr>pbd_diffs := trim_oldest (pbd_max_diffs p) (pbd_diffs p @ [diff])\<rparr>
      in p\<lparr>pbd_merged_expired := compute_merged R (pbd_diffs p)\<rparr>)"

definition pbd_oldest_cutoff :: "'b pending_bucket_diffs \<Rightarrow> u64" where
  "pbd_oldest_cutoff p = (case pbd_diffs p of [] \<Rightarrow> 0 | d # _ \<Rightarrow> bdf_cutoff_before d)"

lemma trim_oldest_eq: "trim_oldest n xs = drop (length xs - n) xs"
proof (induction n xs rule: trim_oldest.induct)
  case (1 n xs)
  show ?case
  proof (cases "n < length xs")
    case True
    then obtain y ys where xs: "xs = y # ys" by (cases xs) auto
    with 1 True show ?thesis
      by (subst trim_oldest.simps) (simp add: Suc_diff_le)
  next
    case False
    then show ?thesis by (subst trim_oldest.simps) simp
  qed
qed

lemma snap_cutoff_nat:
  assumes "interval \<noteq> 0"
  shows "unat (snap_cutoff ts interval) = (unat ts div unat interval) * unat interval"
proof -
  have "unat ts div unat interval * unat interval \<le> unat ts" by simp
  then have "unat ts div unat interval * unat interval < 2 ^ LENGTH(64)"
    using unsigned_less [of ts] by (rule le_less_trans)
  then show ?thesis
    using assms by (simp add: snap_cutoff_def unat_mult_lem [THEN iffD1] unat_div)
qed

context roaring
begin

lemma bits_compute_merged: "bits R (compute_merged R diffs) = (\<Union>d \<in> set diffs. bits R (bdf_expired d))"
proof -
  have "bits R (fold (\<lambda>d merged. rb_or R merged (bdf_expired d)) diffs b) =
      bits R b \<union> (\<Union>d \<in> set diffs. bits R (bdf_expired d))" for b
    by (induction diffs arbitrary: b) auto
  then show ?thesis by (simp add: compute_merged_def)
qed

end

end
