(* ===== verification/Time_Buckets.thy ===== *)
theory Time_Buckets
  imports Sort_Field Bucket_Diff_Log
begin

text \<open>
  Time buckets (\<open>time_buckets.rs\<close>): pre-computed bitmaps of the slots whose timestamp lies in a
  window that ends now, and the choice of a bucket for a requested window.  The wall clock
  that \<open>subtract_expired\<close> reads is an argument, \<open>clock\<close>.  An index \<open>self.buckets[name]\<close> with a
  name of \<open>sorted_names\<close> is always present (\<open>tbm_ok\<close> below).
\<close>

section \<open>TimeBucket\<close>

record 'b time_bucket =
  tb_name :: string
  tb_duration_secs :: u64
  tb_refresh_interval_secs :: u64
  tb_bitmap :: 'b
  tb_last_refreshed :: u64
  tb_last_cutoff :: u64

definition tb_new :: "'b roaring_ops \<Rightarrow> string \<Rightarrow> u64 \<Rightarrow> u64 \<Rightarrow> 'b time_bucket" where
  "tb_new R name duration_secs refresh_interval_secs =
     \<lparr>tb_name = name, tb_duration_secs = duration_secs,
      tb_refresh_interval_secs = refresh_interval_secs, tb_bitmap = rb_new R,
      tb_last_refreshed = 0, tb_last_cutoff = 0\<rparr>"

definition tb_needs_refresh :: "'b time_bucket \<Rightarrow> u64 \<Rightarrow> bool" where
  "tb_needs_refresh b now \<longleftrightarrow> tb_refresh_interval_secs b \<le> saturating_sub now (tb_last_refreshed b)"

definition tb_insert_slot :: "'b roaring_ops \<Rightarrow> 'b time_bucket \<Rightarrow> u32 \<Rightarrow> 'b time_bucket" where
  "tb_insert_slot R b slot = b\<lparr>tb_bitmap := rb_insert R (tb_bitmap b) slot\<rparr>"

definition tb_remove_slot :: "'b roaring_ops \<Rightarrow> 'b time_bucket \<Rightarrow> u32 \<Rightarrow> 'b time_bucket" where
  "tb_remove_slot R b slot = b\<lparr>tb_bitmap := rb_remove R (tb_bitmap b) slot\<rparr>"

definition tb_subtract_expired :: "'b roaring_ops \<Rightarrow> u64 \<Rightarrow> 'b time_bucket \<Rightarrow> 'b \<Rightarrow> u64 \<Rightarrow> 'b time_bucket" where
  "tb_subtract_expired R clock b expired new_cutoff =
     (let b = (if \<not> rb_is_empty R expired then b\<lparr>tb_bitmap := rb_sub R (tb_bitmap b) expired\<rparr> else b)
      in b\<lparr>tb_last_cutoff := new_cutoff, tb_last_refreshed := clock\<rparr>)"


section \<open>The tolerance threshold\<close>

text \<open>
  \<open>(bd as f64 * tolerance_pct).round() as u64\<close>, computed exactly.  A non-negative finite \<open>f64\<close>
  is \<open>m * 2^e\<close>; \<open>round53\<close> rounds a mantissa to 53 bits, ties to even, which is both the
  conversion of an integer and the rounding of a product; \<open>round\<close> goes to the nearest
  integer, halves away from zero; the final cast saturates, and sends NaN and negative
  numbers to 0.
\<close>

function bit_length :: "int \<Rightarrow> nat" where
  "bit_length n = (if n \<le> 0 then 0 else Suc (bit_length (n div 2)))"
  by pat_completeness auto
termination by (relation "measure nat") auto

declare bit_length.simps [simp del]

definition round53 :: "int \<times> int \<Rightarrow> int \<times> int" where
  "round53 x =
     (case x of (m, e) \<Rightarrow>
        if m < 2 ^ 53 then (m, e)
        else
          let k = bit_length m - 53;
              q = m div 2 ^ k;
              r = m mod 2 ^ k;
              half = 2 ^ (k - 1)
          in ((if half < r \<or> r = half \<and> odd q then q + 1 else q), e + int k))"

definition f64_parts :: "f64 \<Rightarrow> int \<times> int" where
  "f64_parts x =
     (let ex = uint (take_bit 11 (drop_bit 52 x));
          frac = uint (take_bit 52 x)
      in if ex = 0 then (frac, - 1074) else (2 ^ 52 + frac, ex - 1075))"

definition round_to_u64 :: "int \<times> int \<Rightarrow> u64" where
  "round_to_u64 x =
     (case x of (m, e) \<Rightarrow>
        let n = (if 0 \<le> e then m * 2 ^ nat e else (m + 2 ^ (nat (- e) - 1)) div 2 ^ nat (- e))
        in if 2 ^ 64 \<le> n then u64_MAX else word_of_int n)"

definition tolerance_threshold :: "u64 \<Rightarrow> f64 \<Rightarrow> u64" where
  "tolerance_threshold bd tolerance_pct =
     (if f64_is_nan tolerance_pct \<or> bit tolerance_pct 63 then 0
      else if tolerance_pct = 0x7FF0000000000000 then (if bd = 0 then 0 else u64_MAX)
      else
        let (m1, e1) = round53 (uint bd, 0);
            (m2, e2) = f64_parts tolerance_pct
        in round_to_u64 (round53 (m1 * m2, e1 + e2)))"


section \<open>TimeBucketManager\<close>

record 'b time_bucket_manager =
  tbm_field_name :: string
  tbm_sort_field_name :: string
  tbm_buckets :: "(string, 'b time_bucket) hashmap"
  tbm_sorted_names :: "string list"

abbreviation tbm_at :: "'b time_bucket_manager \<Rightarrow> string \<Rightarrow> 'b time_bucket" where
  "tbm_at m name \<equiv> the (hm_get (tbm_buckets m) name)"

definition tbm_new_with_sort_field ::
    "'b roaring_ops \<Rightarrow> string \<Rightarrow> string \<Rightarrow> bucket_config list \<Rightarrow> 'b time_bucket_manager" where
  "tbm_new_with_sort_field R field_name sort_field_name bucket_configs =
     (let (buckets, sorted_names) =
        fold (\<lambda>cfg (buckets, sorted_names).
            (hm_insert (bc_name cfg)
               (tb_new R (bc_name cfg) (bc_duration_secs cfg) (bc_refresh_interval_secs cfg)) buckets,
             sorted_names @ [bc_name cfg]))
          bucket_configs ([], []);
          sorted_names = sort_by (\<lambda>a b. tb_duration_secs (the (hm_get buckets a)) \<le>
                                       tb_duration_secs (the (hm_get buckets b))) sorted_names
      in \<lparr>tbm_field_name = field_name, tbm_sort_field_name = sort_field_name,
          tbm_buckets = buckets, tbm_sorted_names = sorted_names\<rparr>)"

definition tbm_new :: "'b roaring_ops \<Rightarrow> string \<Rightarrow> bucket_config list \<Rightarrow> 'b time_bucket_manager" where
  "tbm_new R field_name bucket_configs = tbm_new_with_sort_field R field_name field_name bucket_configs"

text \<open>A write through \<open>buckets.get_mut(name)\<close>.\<close>

definition tbm_modify ::
    "'b time_bucket_manager \<Rightarrow> string \<Rightarrow> ('b time_bucket \<Rightarrow> 'b time_bucket) \<Rightarrow> 'b time_bucket_manager" where
  "tbm_modify m name g =
     (case hm_get (tbm_buckets m) name of
        Some b \<Rightarrow> m\<lparr>tbm_buckets := hm_insert name (g b) (tbm_buckets m)\<rparr>
      | None \<Rightarrow> m)"

text \<open>Installing a bitmap computed at time \<open>now\<close>.\<close>

definition tb_install :: "'b time_bucket \<Rightarrow> 'b \<Rightarrow> u64 \<Rightarrow> 'b time_bucket" where
  "tb_install b bitmap now =
     (let cutoff = saturating_sub now (tb_duration_secs b);
          snapped = snap_cutoff cutoff (tb_refresh_interval_secs b)
      in b\<lparr>tb_bitmap := bitmap, tb_last_refreshed := now, tb_last_cutoff := snapped\<rparr>)"

definition tbm_load_persisted ::
    "'b time_bucket_manager \<Rightarrow> (string \<times> 'b) list \<Rightarrow> u64 \<Rightarrow> 'b time_bucket_manager" where
  "tbm_load_persisted m persisted now =
     fold (\<lambda>(name, bitmap) m. tbm_modify m name (\<lambda>b. tb_install b bitmap now)) persisted m"

definition tbm_all_buckets :: "'b time_bucket_manager \<Rightarrow> (string \<times> 'b) list" where
  "tbm_all_buckets m = map (\<lambda>name. (name, tb_bitmap (tbm_at m name))) (tbm_sorted_names m)"

definition tbm_refresh_due :: "'b time_bucket_manager \<Rightarrow> u64 \<Rightarrow> string list" where
  "tbm_refresh_due m now =
     filter (\<lambda>name. case hm_get (tbm_buckets m) name of None \<Rightarrow> False | Some b \<Rightarrow> tb_needs_refresh b now)
       (tbm_sorted_names m)"

definition tbm_rebuild_bucket ::
    "'b roaring_ops \<Rightarrow> 'b time_bucket_manager \<Rightarrow> string \<Rightarrow> (u32 \<times> u64) list \<Rightarrow> u64 \<Rightarrow> 'b time_bucket_manager" where
  "tbm_rebuild_bucket R m bucket_name value_iter now =
     (case hm_get (tbm_buckets m) bucket_name of
        None \<Rightarrow> m
      | Some bucket \<Rightarrow>
          let duration = tb_duration_secs bucket;
              cutoff = saturating_sub now duration;
              snapped_cutoff = snap_cutoff cutoff (tb_refresh_interval_secs bucket);
              new_bitmap = fold (\<lambda>(slot, ts) bm. if cutoff \<le> ts \<and> ts \<le> now then rb_insert R bm slot else bm)
                value_iter (rb_new R)
          in m\<lparr>tbm_buckets := hm_insert bucket_name
                (bucket\<lparr>tb_bitmap := new_bitmap, tb_last_refreshed := now, tb_last_cutoff := snapped_cutoff\<rparr>)
                (tbm_buckets m)\<rparr>)"

definition tbm_get_bucket :: "'b time_bucket_manager \<Rightarrow> string \<Rightarrow> 'b time_bucket option" where
  "tbm_get_bucket m name = hm_get (tbm_buckets m) name"

definition tbm_rebuild_bucket_from_bitmap ::
    "'b time_bucket_manager \<Rightarrow> string \<Rightarrow> 'b \<Rightarrow> u64 \<Rightarrow> 'b time_bucket_manager" where
  "tbm_rebuild_bucket_from_bitmap m bucket_name bitmap now =
     tbm_modify m bucket_name (\<lambda>b. tb_install b bitmap now)"

fun tbm_snap_loop ::
    "'b time_bucket_manager \<Rightarrow> u64 \<Rightarrow> f64 \<Rightarrow> string list \<Rightarrow> string option \<Rightarrow> u64 \<Rightarrow> string option" where
  "tbm_snap_loop m duration_secs tolerance_pct [] best_name best_delta = best_name"
| "tbm_snap_loop m duration_secs tolerance_pct (name # names) best_name best_delta =
     (let bd = tb_duration_secs (tbm_at m name);
          delta = (if bd < duration_secs then duration_secs - bd else bd - duration_secs);
          threshold = tolerance_threshold bd tolerance_pct
      in if delta \<le> threshold \<and> delta < best_delta
         then tbm_snap_loop m duration_secs tolerance_pct names (Some name) delta
         else tbm_snap_loop m duration_secs tolerance_pct names best_name best_delta)"

definition tbm_snap_duration :: "'b time_bucket_manager \<Rightarrow> u64 \<Rightarrow> f64 \<Rightarrow> string option" where
  "tbm_snap_duration m duration_secs tolerance_pct =
     tbm_snap_loop m duration_secs tolerance_pct (tbm_sorted_names m) None u64_MAX"

definition tbm_snap_nearest :: "'b time_bucket_manager \<Rightarrow> u64 \<Rightarrow> string" where
  "tbm_snap_nearest m duration_secs =
     (case find (\<lambda>name. duration_secs \<le> tb_duration_secs (tbm_at m name)) (tbm_sorted_names m) of
        Some name \<Rightarrow> name
      | None \<Rightarrow> if tbm_sorted_names m = [] then ''_none'' else last (tbm_sorted_names m))"

definition tbm_insert_slot ::
    "'b roaring_ops \<Rightarrow> 'b time_bucket_manager \<Rightarrow> u32 \<Rightarrow> u64 \<Rightarrow> u64 \<Rightarrow> 'b time_bucket_manager" where
  "tbm_insert_slot R m slot timestamp now =
     m\<lparr>tbm_buckets := hm_map (\<lambda>b.
         let cutoff = saturating_sub now (tb_duration_secs b)
         in if cutoff \<le> timestamp \<and> timestamp \<le> now then tb_insert_slot R b slot else b) (tbm_buckets m)\<rparr>"

definition tbm_remove_slot :: "'b roaring_ops \<Rightarrow> 'b time_bucket_manager \<Rightarrow> u32 \<Rightarrow> 'b time_bucket_manager" where
  "tbm_remove_slot R m slot = m\<lparr>tbm_buckets := hm_map (\<lambda>b. tb_remove_slot R b slot) (tbm_buckets m)\<rparr>"

definition tbm_force_refresh_due :: "'b time_bucket_manager \<Rightarrow> 'b time_bucket_manager" where
  "tbm_force_refresh_due m = m\<lparr>tbm_buckets := hm_map (\<lambda>b. b\<lparr>tb_last_refreshed := 0\<rparr>) (tbm_buckets m)\<rparr>"

definition tbm_set_refresh_interval ::
    "'b time_bucket_manager \<Rightarrow> string \<Rightarrow> u64 \<Rightarrow> bool \<times> 'b time_bucket_manager" where
  "tbm_set_refresh_interval m bucket_name interval_secs =
     (hm_get (tbm_buckets m) bucket_name \<noteq> None,
      tbm_modify m bucket_name (\<lambda>b. b\<lparr>tb_refresh_interval_secs := interval_secs\<rparr>))"

definition tbm_bucket_count :: "'b time_bucket_manager \<Rightarrow> usize" where
  "tbm_bucket_count m = length (tbm_buckets m)"

text \<open>\<open>reconcile_apply\<close>: the two re-validation loops, then the body of the loop over candidates.\<close>

definition reconcile_still ::
    "'b roaring_ops \<Rightarrow> 'b sort_field \<Rightarrow> 'b \<Rightarrow> u64 \<Rightarrow> u64 \<Rightarrow> 'b \<Rightarrow> 'b \<Rightarrow> 'b" where
  "reconcile_still R sort_field alive now_secs cutoff current stale =
     fold (\<lambda>slot still.
         if \<not> rb_contains R current slot then still
         else if \<not> rb_contains R alive slot then rb_insert R still slot
         else
           let val = (ucast (sf_reconstruct_value R sort_field slot) :: u64)
           in if val < cutoff \<or> now_secs < val then rb_insert R still slot else still)
       (rb_iter R stale) (rb_new R)"

definition reconcile_add ::
    "'b roaring_ops \<Rightarrow> 'b sort_field \<Rightarrow> 'b \<Rightarrow> u64 \<Rightarrow> u64 \<Rightarrow> 'b \<Rightarrow> 'b \<Rightarrow> 'b" where
  "reconcile_add R sort_field alive now_secs cutoff current missing =
     fold (\<lambda>slot add.
         if \<not> rb_contains R alive slot then add
         else
           let val = (ucast (sf_reconstruct_value R sort_field slot) :: u64)
           in if cutoff \<le> val \<and> val \<le> now_secs \<and> \<not> rb_contains R current slot
              then rb_insert R add slot else add)
       (rb_iter R missing) (rb_new R)"

definition reconcile_bucket ::
    "'b roaring_ops \<Rightarrow> u64 \<Rightarrow> 'b \<Rightarrow> 'b \<Rightarrow> 'b time_bucket \<Rightarrow> 'b time_bucket" where
  "reconcile_bucket R clock still add bucket =
     (let bucket = (if \<not> rb_is_empty R still
                    then tb_subtract_expired R clock bucket still (tb_last_cutoff bucket) else bucket)
      in fold (\<lambda>slot b. tb_insert_slot R b slot) (rb_iter R add) bucket)"

fun tbm_reconcile_apply ::
    "'b roaring_ops \<Rightarrow> u64 \<Rightarrow> 'b time_bucket_manager \<Rightarrow> 'b sort_field \<Rightarrow> 'b \<Rightarrow> u64 \<Rightarrow>
     (string \<times> 'b \<times> 'b) list \<Rightarrow> (string \<times> nat \<times> nat) list \<times> 'b time_bucket_manager" where
  "tbm_reconcile_apply R clock m sort_field alive now_secs [] = ([], m)"
| "tbm_reconcile_apply R clock m sort_field alive now_secs ((name, stale, missing) # candidates) =
     (case hm_get (tbm_buckets m) name of
        None \<Rightarrow> tbm_reconcile_apply R clock m sort_field alive now_secs candidates
      | Some bucket \<Rightarrow>
          let cutoff = saturating_sub now_secs (tb_duration_secs bucket);
              still = reconcile_still R sort_field alive now_secs cutoff (tb_bitmap bucket) stale;
              add = reconcile_add R sort_field alive now_secs cutoff (tb_bitmap bucket) missing
          in if rb_is_empty R still \<and> rb_is_empty R add
             then tbm_reconcile_apply R clock m sort_field alive now_secs candidates
             else
               let m' = m\<lparr>tbm_buckets := hm_insert name (reconcile_bucket R clock still add bucket) (tbm_buckets m)\<rparr>;
                   (rest, m'') = tbm_reconcile_apply R clock m' sort_field alive now_secs candidates
               in ((name, rb_len R still, rb_len R add) # rest, m''))"


section \<open>Invariant\<close>

definition tbm_dur :: "'b time_bucket_manager \<Rightarrow> string \<Rightarrow> u64" where
  "tbm_dur m name = tb_duration_secs (tbm_at m name)"

definition tbm_ok :: "'b time_bucket_manager \<Rightarrow> bool" where
  "tbm_ok m \<longleftrightarrow> set (tbm_sorted_names m) = dom (hm_get (tbm_buckets m)) \<and>
     sorted_wrt (\<lambda>a b. tbm_dur m a \<le> tbm_dur m b) (tbm_sorted_names m)"

lemma sorted_wrt_insort_by:
  assumes "sorted_wrt le xs" and "\<And>a b. le a b \<or> le b a" and "\<And>a b c. le a b \<Longrightarrow> le b c \<Longrightarrow> le a c"
  shows "sorted_wrt le (insort_by le x xs)"
  using assms(1)
proof (induction xs)
  case (Cons y ys)
  have "set (insort_by le x ys) = insert x (set ys)"
    by (metis mset_insort_by set_mset_add_mset_insert set_mset_mset)
  then show ?case using Cons assms(2) [of x y] by (auto intro: assms(3))
qed simp

lemma sorted_wrt_sort_by:
  assumes "\<And>a b. le a b \<or> le b a" and "\<And>a b c. le a b \<Longrightarrow> le b c \<Longrightarrow> le a c"
  shows "sorted_wrt le (sort_by le xs)"
  unfolding sort_by_def by (induction xs) (simp_all add: sorted_wrt_insort_by [OF _ assms])

lemma tbm_ok_new: "tbm_ok (tbm_new_with_sort_field R fn sn cfgs)"
proof -
  let ?step = "\<lambda>cfg (buckets, names). (hm_insert (bc_name cfg)
      (tb_new R (bc_name cfg) (bc_duration_secs cfg) (bc_refresh_interval_secs cfg)) buckets,
      names @ [bc_name cfg])"
  have "set (snd (fold ?step cs (bs, ns))) = dom (hm_get (fst (fold ?step cs (bs, ns))))"
    if "set ns = dom (hm_get bs)" for cs bs ns
    using that by (induction cs arbitrary: bs ns) auto
  from this [of "[]" "[]" cfgs] show ?thesis
    unfolding tbm_ok_def tbm_dur_def tbm_new_with_sort_field_def Let_def case_prod_beta
    by (auto intro: sorted_wrt_sort_by order.trans simp: linear)
qed


section \<open>Choosing a bucket\<close>

lemma find_first:
  assumes "find P xs = Some x" and "sorted_wrt le xs" and "\<And>a. le a a"
  shows "x \<in> set xs \<and> P x \<and> (\<forall>y \<in> set xs. P y \<longrightarrow> le x y)"
  using assms by (induction xs) (auto split: if_splits)

lemma sorted_last: "sorted_wrt le xs \<Longrightarrow> (\<And>a. le a a) \<Longrightarrow> y \<in> set xs \<Longrightarrow> le y (last xs)"
  by (induction xs) (auto split: if_splits)

text \<open>The distance between a requested window and a bucket, and whether it is tolerated.\<close>

definition tbm_delta :: "'b time_bucket_manager \<Rightarrow> u64 \<Rightarrow> string \<Rightarrow> u64" where
  "tbm_delta m d name = (if tbm_dur m name < d then d - tbm_dur m name else tbm_dur m name - d)"

definition tbm_near :: "'b time_bucket_manager \<Rightarrow> u64 \<Rightarrow> f64 \<Rightarrow> string \<Rightarrow> bool" where
  "tbm_near m d tol name \<longleftrightarrow>
     tbm_delta m d name \<le> tolerance_threshold (tbm_dur m name) tol \<and> tbm_delta m d name < u64_MAX"

lemma tbm_snap_loop_step:
  "tbm_snap_loop m d tol (name # names) best bd =
     (if tbm_delta m d name \<le> tolerance_threshold (tbm_dur m name) tol \<and> tbm_delta m d name < bd
      then tbm_snap_loop m d tol names (Some name) (tbm_delta m d name)
      else tbm_snap_loop m d tol names best bd)"
  unfolding tbm_snap_loop.simps tbm_delta_def tbm_dur_def Let_def by (rule refl)

declare tbm_snap_loop.simps(2) [simp del]

text \<open>The loop keeps the best of the names seen (\<open>done\<close>) so far.\<close>

definition snap_best :: "'b time_bucket_manager \<Rightarrow> u64 \<Rightarrow> f64 \<Rightarrow> string set \<Rightarrow> string option \<Rightarrow> u64 \<Rightarrow> bool" where
  "snap_best m d tol seen best bd \<longleftrightarrow>
     (\<forall>n \<in> seen. tbm_near m d tol n \<longrightarrow> bd \<le> tbm_delta m d n) \<and>
     (case best of None \<Rightarrow> bd = u64_MAX
      | Some b \<Rightarrow> b \<in> seen \<and> tbm_near m d tol b \<and> bd = tbm_delta m d b)"

lemma tbm_snap_loop_best:
  assumes "snap_best m d tol seen best bd"
  shows "\<exists>bd'. snap_best m d tol (seen \<union> set names) (tbm_snap_loop m d tol names best bd) bd'"
  using assms
proof (induction names arbitrary: seen best bd)
  case Nil
  then show ?case by auto
next
  case (Cons n names)
  let ?take = "tbm_delta m d n \<le> tolerance_threshold (tbm_dur m n) tol \<and> tbm_delta m d n < bd"
  have bd: "bd \<le> u64_MAX" by (simp add: u64_MAX_def)
  have "snap_best m d tol (insert n seen) (if ?take then Some n else best) (if ?take then tbm_delta m d n else bd)"
  proof (cases ?take)
    case True
    then have "tbm_near m d tol n" using bd by (auto simp: tbm_near_def intro: less_le_trans)
    with True Cons.prems show ?thesis by (fastforce simp: snap_best_def)
  next
    case False
    then have "tbm_near m d tol n \<Longrightarrow> bd \<le> tbm_delta m d n" by (auto simp: tbm_near_def not_less)
    with False Cons.prems show ?thesis by (auto simp: snap_best_def split: option.splits)
  qed
  from Cons.IH [OF this] show ?case by (cases ?take) (auto simp: tbm_snap_loop_step)
qed

lemma tbm_snap_nearest_props:
  assumes "tbm_ok m" and "tbm_sorted_names m \<noteq> []"
  shows "tbm_snap_nearest m d \<in> dom (hm_get (tbm_buckets m)) \<and>
    (if \<exists>n \<in> dom (hm_get (tbm_buckets m)). d \<le> tbm_dur m n
     then d \<le> tbm_dur m (tbm_snap_nearest m d) \<and>
       (\<forall>n \<in> dom (hm_get (tbm_buckets m)). d \<le> tbm_dur m n \<longrightarrow> tbm_dur m (tbm_snap_nearest m d) \<le> tbm_dur m n)
     else \<forall>n \<in> dom (hm_get (tbm_buckets m)). tbm_dur m n \<le> tbm_dur m (tbm_snap_nearest m d))"
proof -
  let ?names = "tbm_sorted_names m"
  have dom: "dom (hm_get (tbm_buckets m)) = set ?names"
    and srt: "sorted_wrt (\<lambda>a b. tbm_dur m a \<le> tbm_dur m b) ?names"
    using assms(1) by (simp_all add: tbm_ok_def)
  show ?thesis
  proof (cases "find (\<lambda>n. d \<le> tbm_dur m n) ?names")
    case None
    then have no: "\<forall>n \<in> set ?names. \<not> d \<le> tbm_dur m n" by (simp add: find_None_iff)
    have "tbm_snap_nearest m d = last ?names"
      using None assms(2) by (simp add: tbm_snap_nearest_def tbm_dur_def)
    then show ?thesis
      unfolding dom using no assms(2) sorted_last [OF srt] by auto
  next
    case (Some b)
    then have b: "tbm_snap_nearest m d = b"
      by (simp add: tbm_snap_nearest_def tbm_dur_def)
    from find_first [OF Some srt] have "b \<in> set ?names" "d \<le> tbm_dur m b"
      "\<forall>n \<in> set ?names. d \<le> tbm_dur m n \<longrightarrow> tbm_dur m b \<le> tbm_dur m n" by auto
    then show ?thesis unfolding dom b by auto
  qed
qed

text \<open>
  C40: how a requested window is mapped to a bucket.  \<open>snap_duration\<close> returns a configured
  bucket within tolerance whose duration is nearest to the request, and nothing exactly when
  no bucket is within tolerance.  \<open>snap_nearest\<close> returns the shortest bucket that covers the
  request, and the longest bucket when none does.
\<close>

theorem snap_choice:
  assumes "tbm_ok m" and "tbm_sorted_names m \<noteq> []"
  shows "(case tbm_snap_duration m d tol of
        None \<Rightarrow> \<forall>n \<in> dom (hm_get (tbm_buckets m)). \<not> tbm_near m d tol n
      | Some b \<Rightarrow> b \<in> dom (hm_get (tbm_buckets m)) \<and> tbm_near m d tol b \<and>
          (\<forall>n \<in> dom (hm_get (tbm_buckets m)). tbm_near m d tol n \<longrightarrow> tbm_delta m d b \<le> tbm_delta m d n)) \<and>
    tbm_snap_nearest m d \<in> dom (hm_get (tbm_buckets m)) \<and>
    (if \<exists>n \<in> dom (hm_get (tbm_buckets m)). d \<le> tbm_dur m n
     then d \<le> tbm_dur m (tbm_snap_nearest m d) \<and>
       (\<forall>n \<in> dom (hm_get (tbm_buckets m)). d \<le> tbm_dur m n \<longrightarrow> tbm_dur m (tbm_snap_nearest m d) \<le> tbm_dur m n)
     else \<forall>n \<in> dom (hm_get (tbm_buckets m)). tbm_dur m n \<le> tbm_dur m (tbm_snap_nearest m d))"
proof -
  let ?names = "tbm_sorted_names m"
  have dom: "dom (hm_get (tbm_buckets m)) = set ?names"
    using assms(1) by (simp add: tbm_ok_def)
  have "snap_best m d tol {} None u64_MAX" by (simp add: snap_best_def)
  from tbm_snap_loop_best [OF this, of ?names]
  obtain bd where "snap_best m d tol (set ?names) (tbm_snap_duration m d tol) bd"
    by (auto simp: tbm_snap_duration_def)
  then have snap: "case tbm_snap_duration m d tol of
        None \<Rightarrow> \<forall>n \<in> set ?names. \<not> tbm_near m d tol n
      | Some b \<Rightarrow> b \<in> set ?names \<and> tbm_near m d tol b \<and>
          (\<forall>n \<in> set ?names. tbm_near m d tol n \<longrightarrow> tbm_delta m d b \<le> tbm_delta m d n)"
    by (auto simp: snap_best_def tbm_near_def not_le [symmetric] split: option.splits)
  with tbm_snap_nearest_props [OF assms, of d] show ?thesis unfolding dom by simp
qed

definition day_week :: "u32 set time_bucket_manager" where
  "day_week = tbm_new set_roaring ''sortAt''
     [\<lparr>bc_name = ''7d'', bc_duration_secs = 604800, bc_refresh_interval_secs = 3600\<rparr>,
      \<lparr>bc_name = ''24h'', bc_duration_secs = 86400, bc_refresh_interval_secs = 300\<rparr>]"

lemma day_week_eq: "tbm_sorted_names day_week = [''24h'', ''7d'']"
  "hm_get (tbm_buckets day_week) = [''24h'' \<mapsto> tb_new set_roaring ''24h'' 86400 300,
     ''7d'' \<mapsto> tb_new set_roaring ''7d'' 604800 3600]"
  by (simp_all add: day_week_def tbm_new_def tbm_new_with_sort_field_def sort_by_def tb_new_def)

theorem snap_choice_witness:
  "tbm_snap_nearest day_week 100000 = ''7d''"
proof -
  have "tbm_ok day_week" unfolding day_week_def tbm_new_def by (rule tbm_ok_new)
  moreover have "tbm_sorted_names day_week \<noteq> []" by (simp add: day_week_eq)
  ultimately have "100000 \<le> tbm_dur day_week (tbm_snap_nearest day_week 100000) \<and>
      tbm_snap_nearest day_week 100000 \<in> dom (hm_get (tbm_buckets day_week))"
    using snap_choice [of day_week 100000 0] by (auto simp: tbm_dur_def day_week_eq tb_new_def split: if_splits)
  then show ?thesis
    by (auto simp: tbm_dur_def day_week_eq tb_new_def split: if_splits)
qed


section \<open>Membership of a bucket\<close>

text \<open>The slots a bucket of duration \<open>dur\<close> is meant to hold at time \<open>now\<close>.\<close>

definition window :: "'b roaring_ops \<Rightarrow> 'b sort_field \<Rightarrow> 'b \<Rightarrow> u64 \<Rightarrow> u64 \<Rightarrow> u32 set" where
  "window R sort_field alive now dur =
     {s \<in> bits R alive. let v = (ucast (sf_reconstruct_value R sort_field s) :: u64)
        in saturating_sub now dur \<le> v \<and> v \<le> now}"

context roaring
begin

lemma bits_fold_cond:
  assumes "\<And>s b. bits R (g s b) = (if P s then insert s (bits R b) else bits R b)"
  shows "bits R (fold g xs b) = {s \<in> set xs. P s} \<union> bits R b"
  using assms by (induction xs arbitrary: b) auto

lemma reconcile_still_bits:
  "bits R (reconcile_still R sf alive now (saturating_sub now dur) current stale) =
     {s \<in> bits R stale. s \<in> bits R current \<and> s \<notin> window R sf alive now dur}"
  unfolding reconcile_still_def
  by (subst bits_fold_cond [where P = "\<lambda>s. s \<in> bits R current \<and> s \<notin> window R sf alive now dur"])
     (auto simp: contains_bits window_def Let_def not_le)

lemma reconcile_add_bits:
  "bits R (reconcile_add R sf alive now (saturating_sub now dur) current missing) =
     {s \<in> bits R missing. s \<in> window R sf alive now dur \<and> s \<notin> bits R current}"
  unfolding reconcile_add_def
  by (subst bits_fold_cond [where P = "\<lambda>s. s \<in> window R sf alive now dur \<and> s \<notin> bits R current"])
     (auto simp: contains_bits window_def Let_def)

lemma reconcile_bucket_bits:
  "bits R (tb_bitmap (reconcile_bucket R clock still add b)) =
     (bits R (tb_bitmap b) - bits R still) \<union> bits R add"
  "tb_duration_secs (reconcile_bucket R clock still add b) = tb_duration_secs b"
  "tb_last_cutoff (reconcile_bucket R clock still add b) = tb_last_cutoff b"
proof -
  have fold: "bits R (tb_bitmap (fold (\<lambda>s b. tb_insert_slot R b s) xs b)) = set xs \<union> bits R (tb_bitmap b)"
    "tb_duration_secs (fold (\<lambda>s b. tb_insert_slot R b s) xs b) = tb_duration_secs b"
    "tb_last_cutoff (fold (\<lambda>s b. tb_insert_slot R b s) xs b) = tb_last_cutoff b" for xs b
    by (induction xs arbitrary: b) (auto simp: tb_insert_slot_def)
  show "bits R (tb_bitmap (reconcile_bucket R clock still add b)) =
      (bits R (tb_bitmap b) - bits R still) \<union> bits R add"
    "tb_duration_secs (reconcile_bucket R clock still add b) = tb_duration_secs b"
    "tb_last_cutoff (reconcile_bucket R clock still add b) = tb_last_cutoff b"
    by (auto simp: reconcile_bucket_def fold tb_subtract_expired_def Let_def)
qed

end

text \<open>What one candidate pair does to its bucket.\<close>

definition reconciled ::
    "'b roaring_ops \<Rightarrow> u64 \<Rightarrow> 'b sort_field \<Rightarrow> 'b \<Rightarrow> u64 \<Rightarrow> 'b time_bucket \<Rightarrow> 'b \<Rightarrow> 'b \<Rightarrow> 'b time_bucket" where
  "reconciled R clock sf alive now b stale missing =
     (let cutoff = saturating_sub now (tb_duration_secs b);
          still = reconcile_still R sf alive now cutoff (tb_bitmap b) stale;
          add = reconcile_add R sf alive now cutoff (tb_bitmap b) missing
      in if rb_is_empty R still \<and> rb_is_empty R add then b else reconcile_bucket R clock still add b)"

lemma reconcile_get:
  assumes "distinct (map fst cands)"
  shows "hm_get (tbm_buckets (snd (tbm_reconcile_apply R clock m sf alive now cands))) n =
    (case (hm_get (tbm_buckets m) n, map_of cands n) of
       (Some b, Some (stale, missing)) \<Rightarrow> Some (reconciled R clock sf alive now b stale missing)
     | (x, _) \<Rightarrow> x)"
  using assms
proof (induction cands arbitrary: m)
  case Nil
  then show ?case by (simp split: option.splits)
next
  case (Cons c cands)
  obtain name stale missing where c: "c = (name, stale, missing)" by (cases c)
  have no: "map_of cands name = None"
    using Cons.prems c by (simp add: map_of_eq_None_iff)
  show ?case
  proof (cases "hm_get (tbm_buckets m) name")
    case None
    with Cons show ?thesis by (auto simp: c split: option.splits)
  next
    case (Some b)
    let ?m = "m\<lparr>tbm_buckets := hm_insert name (reconciled R clock sf alive now b stale missing) (tbm_buckets m)\<rparr>"
    have "hm_get (tbm_buckets (snd (tbm_reconcile_apply R clock m sf alive now (c # cands)))) n =
        hm_get (tbm_buckets (snd (tbm_reconcile_apply R clock ?m sf alive now cands))) n"
      using Some Cons.IH Cons.prems no
      by (auto simp: c reconciled_def Let_def case_prod_beta map_upd_triv split: option.splits)
    with Cons.IH [of ?m] Cons.prems no Some show ?thesis
      by (auto simp: c split: option.splits)
  qed
qed

lemma reconciled_bits:
  assumes "roaring R"
  shows "bits R (tb_bitmap (reconciled R clock sf alive now b stale missing)) =
      (bits R (tb_bitmap b) - (bits R stale - window R sf alive now (tb_duration_secs b))) \<union>
      (bits R missing \<inter> window R sf alive now (tb_duration_secs b))"
    and "tb_duration_secs (reconciled R clock sf alive now b stale missing) = tb_duration_secs b"
    and "tb_last_cutoff (reconciled R clock sf alive now b stale missing) = tb_last_cutoff b"
  using assms
  by (auto simp: reconciled_def Let_def roaring.is_empty_bits roaring.reconcile_still_bits
      roaring.reconcile_add_bits roaring.reconcile_bucket_bits)


definition stale_manager :: "u32 set time_bucket_manager" where
  "stale_manager = tbm_modify day_week ''24h'' (\<lambda>b. b\<lparr>tb_bitmap := {4, 8}\<rparr>)"


end
