(* ===== verification/Filter_Field.thy ===== *)
theory Filter_Field
  imports Versioned_Bitmap Bitdex_Config
begin

text \<open>
  Filter fields (\<open>filter.rs\<close>): one versioned bitmap per distinct value, and the side set of
  values with unmerged diffs.  The \<open>RwLock\<close> and the \<open>Mutex\<close> make every operation below one
  atomic step on the two components it locks; timings and log lines are left out.
\<close>

definition NULL_BITMAP_KEY :: u64 where
  "NULL_BITMAP_KEY = u64_MAX"

section \<open>FilterField\<close>

record 'b filter_field =
  ff_bitmaps :: "(u64, 'b versioned_bitmap) hashmap"
  ff_dirty_values :: "u64 list"
  ff_config :: filter_field_config

definition ff_new :: "filter_field_config \<Rightarrow> 'b filter_field" where
  "ff_new cfg = \<lparr>ff_bitmaps = [], ff_dirty_values = [], ff_config = cfg\<rparr>"

definition ff_mark_dirty :: "'b filter_field \<Rightarrow> u64 \<Rightarrow> 'b filter_field" where
  "ff_mark_dirty f value = f\<lparr>ff_dirty_values := List.insert value (ff_dirty_values f)\<rparr>"

definition ff_is_lazy_field :: "'b filter_field \<Rightarrow> bool" where
  "ff_is_lazy_field f \<longleftrightarrow>
     \<not> ffc_eager_load (ff_config f) \<and>
     (ffc_field_type (ff_config f) = MultiValue \<or> ffc_per_value_lazy (ff_config f))"

definition ff_new_inserted_vb :: "'b roaring_ops \<Rightarrow> 'b filter_field \<Rightarrow> 'b versioned_bitmap" where
  "ff_new_inserted_vb R f = (if ff_is_lazy_field f then vb_new_unloaded R else vb_new_empty R)"

definition ff_load_from :: "'b roaring_ops \<Rightarrow> 'b filter_field \<Rightarrow> (u64, 'b) hashmap \<Rightarrow> 'b filter_field" where
  "ff_load_from R f data =
     f\<lparr>ff_bitmaps := fold (\<lambda>(value, bitmap) w. hm_insert value (vb_new R bitmap) w) data (ff_bitmaps f)\<rparr>"

definition ff_insert :: "'b roaring_ops \<Rightarrow> 'b filter_field \<Rightarrow> u64 \<Rightarrow> u32 \<Rightarrow> 'b filter_field" where
  "ff_insert R f value slot =
     ff_mark_dirty
       (f\<lparr>ff_bitmaps := hm_upsert value (ff_new_inserted_vb R f) (\<lambda>v. vb_insert R v slot) (ff_bitmaps f)\<rparr>)
       value"

definition ff_remove :: "'b roaring_ops \<Rightarrow> 'b filter_field \<Rightarrow> u64 \<Rightarrow> u32 \<Rightarrow> 'b filter_field" where
  "ff_remove R f value slot =
     ff_mark_dirty
       (f\<lparr>ff_bitmaps := hm_upsert value (vb_new_unloaded R) (\<lambda>v. vb_remove R v slot) (ff_bitmaps f)\<rparr>)
       value"

definition ff_insert_bulk :: "'b roaring_ops \<Rightarrow> 'b filter_field \<Rightarrow> u64 \<Rightarrow> u32 list \<Rightarrow> 'b filter_field" where
  "ff_insert_bulk R f value slots =
     ff_mark_dirty
       (f\<lparr>ff_bitmaps := hm_upsert value (ff_new_inserted_vb R f) (\<lambda>v. vb_insert_bulk R v slots) (ff_bitmaps f)\<rparr>)
       value"

definition ff_or_bitmap :: "'b roaring_ops \<Rightarrow> 'b filter_field \<Rightarrow> u64 \<Rightarrow> 'b \<Rightarrow> 'b filter_field" where
  "ff_or_bitmap R f value bitmap =
     f\<lparr>ff_bitmaps := hm_upsert value (vb_new_empty R) (\<lambda>v. vb_or_into_base R v bitmap) (ff_bitmaps f)\<rparr>"

definition ff_remove_bulk :: "'b roaring_ops \<Rightarrow> 'b filter_field \<Rightarrow> u64 \<Rightarrow> u32 list \<Rightarrow> 'b filter_field" where
  "ff_remove_bulk R f value slots =
     ff_mark_dirty
       (f\<lparr>ff_bitmaps := hm_upsert value (vb_new_unloaded R)
            (fold (\<lambda>slot v. vb_remove R v slot) slots) (ff_bitmaps f)\<rparr>)
       value"

definition ff_remove_from_all :: "'b roaring_ops \<Rightarrow> 'b filter_field \<Rightarrow> u32 \<Rightarrow> 'b filter_field" where
  "ff_remove_from_all R f slot =
     (let touched = map fst (ff_bitmaps f)
      in f\<lparr>ff_bitmaps := hm_map (\<lambda>v. vb_remove R v slot) (ff_bitmaps f),
           ff_dirty_values := fold List.insert touched (ff_dirty_values f)\<rparr>)"

definition ff_get :: "'b filter_field \<Rightarrow> u64 \<Rightarrow> 'b option" where
  "ff_get f value = map_option vb_base (hm_get (ff_bitmaps f) value)"

definition ff_get_versioned :: "'b filter_field \<Rightarrow> u64 \<Rightarrow> 'b versioned_bitmap option" where
  "ff_get_versioned f value = hm_get (ff_bitmaps f) value"

definition ff_bitmap_keys :: "'b filter_field \<Rightarrow> u64 list" where
  "ff_bitmap_keys f = map fst (ff_bitmaps f)"

definition ff_remove_value :: "'b filter_field \<Rightarrow> u64 \<Rightarrow> 'b filter_field" where
  "ff_remove_value f value =
     f\<lparr>ff_bitmaps := hm_remove value (ff_bitmaps f),
       ff_dirty_values := removeAll value (ff_dirty_values f)\<rparr>"

definition ff_loaded_value_count :: "'b filter_field \<Rightarrow> usize" where
  "ff_loaded_value_count f = length (ff_bitmaps f)"

definition ff_apply_diff_eq :: "'b roaring_ops \<Rightarrow> 'b filter_field \<Rightarrow> u64 \<Rightarrow> 'b \<Rightarrow> 'b option" where
  "ff_apply_diff_eq R f value candidates =
     map_option (\<lambda>v. if vb_is_dirty R v then vb_apply_diff R v candidates
                     else rb_and R candidates (vb_base v))
       (hm_get (ff_bitmaps f) value)"

definition ff_union_with_diff :: "'b roaring_ops \<Rightarrow> 'b filter_field \<Rightarrow> u64 list \<Rightarrow> 'b \<Rightarrow> 'b" where
  "ff_union_with_diff R f values candidates =
     fold (\<lambda>value result.
         case hm_get (ff_bitmaps f) value of
           Some v \<Rightarrow>
             if vb_is_dirty R v then rb_or R result (vb_apply_diff R v candidates)
             else rb_or R result (rb_and R candidates (vb_base v))
         | None \<Rightarrow> result)
       values (rb_new R)"

definition ff_cardinality :: "'b roaring_ops \<Rightarrow> 'b filter_field \<Rightarrow> u64 \<Rightarrow> nat" where
  "ff_cardinality R f value =
     (case hm_get (ff_bitmaps f) value of None \<Rightarrow> 0 | Some v \<Rightarrow> vb_base_len R v)"

definition ff_distinct_count :: "'b filter_field \<Rightarrow> usize" where
  "ff_distinct_count f = length (ff_bitmaps f)"

definition ff_union :: "'b roaring_ops \<Rightarrow> 'b filter_field \<Rightarrow> u64 list \<Rightarrow> 'b" where
  "ff_union R f values =
     fold (\<lambda>value result.
         case hm_get (ff_bitmaps f) value of
           Some v \<Rightarrow> rb_or R result (vb_base v)
         | None \<Rightarrow> result)
       values (rb_new R)"

fun ff_intersect_rest :: "'b roaring_ops \<Rightarrow> 'b filter_field \<Rightarrow> u64 list \<Rightarrow> 'b \<Rightarrow> 'b option" where
  "ff_intersect_rest R f [] result = Some result"
| "ff_intersect_rest R f (value # values) result =
     (case hm_get (ff_bitmaps f) value of
        Some v \<Rightarrow> ff_intersect_rest R f values (rb_and R result (vb_base v))
      | None \<Rightarrow> Some (rb_new R))"

definition ff_intersection :: "'b roaring_ops \<Rightarrow> 'b filter_field \<Rightarrow> u64 list \<Rightarrow> 'b option" where
  "ff_intersection R f values =
     (case values of
        [] \<Rightarrow> None
      | first # rest \<Rightarrow>
          (case hm_get (ff_bitmaps f) first of
             None \<Rightarrow> None
           | Some v \<Rightarrow> ff_intersect_rest R f rest (vb_base v)))"

definition ff_iter_versioned :: "'b filter_field \<Rightarrow> (u64 \<times> 'b versioned_bitmap) list" where
  "ff_iter_versioned f = ff_bitmaps f"

definition ff_bitmap_count :: "'b filter_field \<Rightarrow> usize" where
  "ff_bitmap_count f = length (ff_bitmaps f)"

definition ff_clear_bases_and_unload :: "'b roaring_ops \<Rightarrow> 'b filter_field \<Rightarrow> 'b filter_field" where
  "ff_clear_bases_and_unload R f = f\<lparr>ff_bitmaps := hm_map (vb_clear_base_and_unload R) (ff_bitmaps f)\<rparr>"

definition ff_load_field_complete ::
    "'b roaring_ops \<Rightarrow> 'b filter_field \<Rightarrow> (u64, 'b) hashmap \<Rightarrow> 'b filter_field" where
  "ff_load_field_complete R f data =
     (let w = fold (\<lambda>(value, bitmap) w. hm_upsert value (vb_new_unloaded R)
                (\<lambda>v. vb_load_base R v bitmap) w) data (ff_bitmaps f)
      in f\<lparr>ff_bitmaps := hm_map vb_mark_loaded w\<rparr>)"

definition ff_load_values ::
    "'b roaring_ops \<Rightarrow> 'b filter_field \<Rightarrow> (u64, 'b) hashmap \<Rightarrow> u64 list \<Rightarrow> 'b filter_field" where
  "ff_load_values R f data requested =
     f\<lparr>ff_bitmaps :=
         fold (\<lambda>value w.
             case hm_get data value of
               Some bitmap \<Rightarrow> hm_upsert value (vb_new_unloaded R) (\<lambda>v. vb_load_base R v bitmap) w
             | None \<Rightarrow> hm_upsert value (vb_new_empty R) vb_mark_loaded w)
           requested (ff_bitmaps f)\<rparr>"

definition ff_has_dirty :: "'b filter_field \<Rightarrow> bool" where
  "ff_has_dirty f \<longleftrightarrow> ff_dirty_values f \<noteq> []"

definition ff_has_loaded_dirty :: "'b roaring_ops \<Rightarrow> 'b filter_field \<Rightarrow> bool" where
  "ff_has_loaded_dirty R f =
     list_ex (\<lambda>v. case hm_get (ff_bitmaps f) v of None \<Rightarrow> False
                  | Some vb \<Rightarrow> vb_loaded vb \<and> vb_is_dirty R vb) (ff_dirty_values f)"

fun ff_merge_values ::
    "'b roaring_ops \<Rightarrow> u64 list \<Rightarrow> (u64, 'b versioned_bitmap) hashmap \<Rightarrow> u64 list \<Rightarrow>
     (u64, 'b versioned_bitmap) hashmap \<times> u64 list" where
  "ff_merge_values R [] w requeue = (w, requeue)"
| "ff_merge_values R (value # dirty) w requeue =
     (case hm_get w value of
        Some vb \<Rightarrow>
          if \<not> vb_is_dirty R vb then ff_merge_values R dirty w requeue
          else if vb_loaded vb then ff_merge_values R dirty (hm_insert value (vb_merge R vb) w) requeue
          else ff_merge_values R dirty w (requeue @ [value])
      | None \<Rightarrow> ff_merge_values R dirty w requeue)"

definition ff_merge_dirty :: "'b roaring_ops \<Rightarrow> 'b filter_field \<Rightarrow> 'b filter_field" where
  "ff_merge_dirty R f =
     (let dirty = ff_dirty_values f;
          f = f\<lparr>ff_dirty_values := []\<rparr>
      in if dirty = [] then f
         else
           let (w, requeue) = ff_merge_values R dirty (ff_bitmaps f) []
           in f\<lparr>ff_bitmaps := w, ff_dirty_values := fold List.insert requeue (ff_dirty_values f)\<rparr>)"

definition ff_merge_all :: "'b roaring_ops \<Rightarrow> 'b filter_field \<Rightarrow> 'b filter_field" where
  "ff_merge_all R f = ff_merge_dirty R f"

definition ff_merge_field :: "'b roaring_ops \<Rightarrow> 'b filter_field \<Rightarrow> u64 \<Rightarrow> 'b filter_field" where
  "ff_merge_field R f value =
     (let (w, merged_clean, still_dirty_unloaded) =
        (case hm_get (ff_bitmaps f) value of
           Some vb \<Rightarrow>
             if vb_is_dirty R vb then
               if vb_loaded vb then (hm_insert value (vb_merge R vb) (ff_bitmaps f), True, False)
               else (ff_bitmaps f, False, True)
             else (ff_bitmaps f, True, False)
         | None \<Rightarrow> (ff_bitmaps f, False, False));
          f = f\<lparr>ff_bitmaps := w\<rparr>
      in if merged_clean then f\<lparr>ff_dirty_values := removeAll value (ff_dirty_values f)\<rparr>
         else if still_dirty_unloaded then f\<lparr>ff_dirty_values := List.insert value (ff_dirty_values f)\<rparr>
         else f)"

definition ff_insert_versioned ::
    "'b roaring_ops \<Rightarrow> 'b filter_field \<Rightarrow> u64 \<Rightarrow> 'b versioned_bitmap \<Rightarrow> 'b filter_field" where
  "ff_insert_versioned R f value vb =
     (let dirty = vb_is_dirty R vb;
          f = f\<lparr>ff_bitmaps := hm_insert value vb (ff_bitmaps f)\<rparr>
      in if dirty then ff_mark_dirty f value
         else f\<lparr>ff_dirty_values := removeAll value (ff_dirty_values f)\<rparr>)"


section \<open>FilterIndex\<close>

type_synonym 'b filter_index = "(string, 'b filter_field) hashmap"

definition fi_add_field :: "'b filter_index \<Rightarrow> filter_field_config \<Rightarrow> 'b filter_index" where
  "fi_add_field fi cfg = hm_insert (ffc_name cfg) (ff_new cfg) fi"

definition fi_remove_field :: "'b filter_index \<Rightarrow> string \<Rightarrow> bool \<times> 'b filter_index" where
  "fi_remove_field fi name = (hm_get fi name \<noteq> None, hm_remove name fi)"

definition fi_get_field :: "'b filter_index \<Rightarrow> string \<Rightarrow> 'b filter_field option" where
  "fi_get_field fi name = hm_get fi name"

text \<open>A write through the shared reference that \<open>get_field\<close> returns.\<close>

definition fi_modify_field ::
    "'b filter_index \<Rightarrow> string \<Rightarrow> ('b filter_field \<Rightarrow> 'b filter_field) \<Rightarrow> 'b filter_index" where
  "fi_modify_field fi name g =
     (case hm_get fi name of Some f \<Rightarrow> hm_insert name (g f) fi | None \<Rightarrow> fi)"

definition fi_unloaded :: "'b roaring_ops \<Rightarrow> 'b filter_field \<Rightarrow> 'b filter_field" where
  "fi_unloaded R old =
     fold (\<lambda>(value, vb) nf.
         if vb_is_dirty R vb then ff_insert_versioned R nf value (vb_clone_diff_only R vb) else nf)
       (ff_bitmaps old) (ff_new (ff_config old))"

definition fi_unload_field :: "'b roaring_ops \<Rightarrow> 'b filter_index \<Rightarrow> string \<Rightarrow> 'b filter_index" where
  "fi_unload_field R fi name =
     (case hm_get fi name of Some f \<Rightarrow> hm_insert name (fi_unloaded R f) fi | None \<Rightarrow> fi)"

definition fi_copy_field_arc_from :: "'b filter_index \<Rightarrow> 'b filter_index \<Rightarrow> string \<Rightarrow> 'b filter_index" where
  "fi_copy_field_arc_from fi source name =
     (case hm_get source name of Some f \<Rightarrow> hm_insert name f fi | None \<Rightarrow> fi)"

definition fi_unload_from :: "'b roaring_ops \<Rightarrow> 'b filter_index \<Rightarrow> 'b filter_index \<Rightarrow> string \<Rightarrow> 'b filter_index" where
  "fi_unload_from R fi source name =
     (case hm_get source name of Some f \<Rightarrow> hm_insert name (fi_unloaded R f) fi | None \<Rightarrow> fi)"

definition fi_total_bitmap_count :: "'b filter_index \<Rightarrow> usize" where
  "fi_total_bitmap_count fi = sum_list (map (\<lambda>(_, f). ff_bitmap_count f) fi)"


section \<open>Content and invariant\<close>

definition ff_bits :: "'b roaring_ops \<Rightarrow> 'b filter_field \<Rightarrow> u64 \<Rightarrow> u32 set" where
  "ff_bits R f value = (case hm_get (ff_bitmaps f) value of None \<Rightarrow> {} | Some v \<Rightarrow> vb_bits R v)"

definition ff_ok :: "'b roaring_ops \<Rightarrow> 'b filter_field \<Rightarrow> bool" where
  "ff_ok R f \<longleftrightarrow> hm_ok (ff_bitmaps f) \<and>
     (\<forall>k v. hm_get (ff_bitmaps f) k = Some v \<longrightarrow>
        vb_wf R v \<and> (vb_is_dirty R v \<longrightarrow> k \<in> set (ff_dirty_values f)))"

lemma set_fold_insert [simp]: "set (fold List.insert xs ys) = set xs \<union> set ys"
  by (induction xs arbitrary: ys) auto

lemma ff_mark_dirty_simps [simp]:
  "ff_bitmaps (ff_mark_dirty f v) = ff_bitmaps f"
  "ff_config (ff_mark_dirty f v) = ff_config f"
  "set (ff_dirty_values (ff_mark_dirty f v)) = insert v (set (ff_dirty_values f))"
  by (simp_all add: ff_mark_dirty_def)

lemma ff_okI:
  assumes "hm_ok (ff_bitmaps f)"
    and "\<And>k v. hm_get (ff_bitmaps f) k = Some v \<Longrightarrow> vb_wf R v"
    and "\<And>k v. hm_get (ff_bitmaps f) k = Some v \<Longrightarrow> vb_is_dirty R v \<Longrightarrow> k \<in> set (ff_dirty_values f)"
  shows "ff_ok R f"
  using assms by (simp add: ff_ok_def)

lemma ff_insert_versioned_simps [simp]:
  "ff_bitmaps (ff_insert_versioned R f k v) = hm_insert k v (ff_bitmaps f)"
  "ff_config (ff_insert_versioned R f k v) = ff_config f"
  by (simp_all add: ff_insert_versioned_def Let_def)

text \<open>A write to one value that also marks it.\<close>

lemma ff_ok_upsert_mark:
  assumes "ff_ok R f" and "vb_wf R d" and "\<And>v. vb_wf R v \<Longrightarrow> vb_wf R (g v)"
  shows "ff_ok R (ff_mark_dirty (f\<lparr>ff_bitmaps := hm_upsert k d g (ff_bitmaps f)\<rparr>) k)"
  using assms by (auto simp: ff_ok_def split: if_splits option.splits)

context roaring
begin

lemma ff_new_inserted_vb_props [simp]:
  "vb_wf R (ff_new_inserted_vb R f)" "vb_bits R (ff_new_inserted_vb R f) = {}"
  by (simp_all add: ff_new_inserted_vb_def)

lemma ff_bits_upsert:
  assumes "vb_bits R d = {}"
  shows "ff_bits R (f\<lparr>ff_bitmaps := hm_upsert k d g (ff_bitmaps f)\<rparr>) x =
    (if x = k then vb_bits R (g (case hm_get (ff_bitmaps f) k of None \<Rightarrow> d | Some v \<Rightarrow> v)) else ff_bits R f x)"
  by (simp add: ff_bits_def)

lemma ff_bits_mark [simp]: "ff_bits R (ff_mark_dirty f v) = ff_bits R f"
  by (simp add: ff_bits_def fun_eq_iff)

lemma ff_bits_insert: "ff_bits R (ff_insert R f k s) x = (if x = k then insert s (ff_bits R f k) else ff_bits R f x)"
  by (simp add: ff_insert_def ff_bits_upsert) (simp add: ff_bits_def split: option.splits)

lemma ff_bits_remove: "ff_bits R (ff_remove R f k s) x = (if x = k then ff_bits R f k - {s} else ff_bits R f x)"
  by (simp add: ff_remove_def ff_bits_upsert) (simp add: ff_bits_def split: option.splits)

lemma ff_bits_insert_bulk:
  "ff_bits R (ff_insert_bulk R f k xs) x = (if x = k then set xs \<union> ff_bits R f k else ff_bits R f x)"
  by (simp add: ff_insert_bulk_def ff_bits_upsert) (simp add: ff_bits_def split: option.splits)

lemma ff_bits_remove_bulk:
  "ff_bits R (ff_remove_bulk R f k xs) x = (if x = k then ff_bits R f k - set xs else ff_bits R f x)"
  by (simp add: ff_remove_bulk_def ff_bits_upsert) (simp add: ff_bits_def split: option.splits)

lemma ff_bits_remove_from_all: "ff_bits R (ff_remove_from_all R f s) x = ff_bits R f x - {s}"
  by (simp add: ff_bits_def ff_remove_from_all_def Let_def split: option.splits)

lemma ff_ok_new [simp]: "ff_ok R (ff_new cfg)"
  by (simp add: ff_ok_def ff_new_def)

lemma ff_ok_writes:
  assumes "ff_ok R f"
  shows "ff_ok R (ff_insert R f k s)" "ff_ok R (ff_remove R f k s)"
    "ff_ok R (ff_insert_bulk R f k xs)" "ff_ok R (ff_remove_bulk R f k xs)"
  using assms
  by (auto simp: ff_insert_def ff_remove_def ff_insert_bulk_def ff_remove_bulk_def
      intro!: ff_ok_upsert_mark)

lemma ff_ok_remove_from_all: "ff_ok R f \<Longrightarrow> ff_ok R (ff_remove_from_all R f s)"
proof -
  assume ok: "ff_ok R f"
  have "k \<in> fst ` set (ff_bitmaps f)" if "hm_get (ff_bitmaps f) k = Some v" for k v
    using that by (metis dom_map_of_conv_image_fst domI)
  with ok show ?thesis by (auto simp: ff_ok_def ff_remove_from_all_def Let_def)
qed

lemma vb_dirty_base [simp]:
  "vb_is_dirty R (vb_load_base R v b) = vb_is_dirty R v"
  "vb_is_dirty R (vb_mark_loaded v) = vb_is_dirty R v"
  "vb_is_dirty R (vb_or_into_base R v b) = vb_is_dirty R v"
  "vb_is_dirty R (vb_clear_base_and_unload R v) = vb_is_dirty R v"
  "vb_is_dirty R (vb_clone_diff_only R v) = vb_is_dirty R v"
  "\<not> vb_is_dirty R (vb_new_unloaded R)" "\<not> vb_is_dirty R (vb_new_empty R)" "\<not> vb_is_dirty R (vb_new R b)"
  by (simp_all add: vb_is_dirty_def vb_defs)

text \<open>Operations on bases change no diff, so they keep the invariant without marking.\<close>

lemma ff_ok_upsert_base:
  assumes "ff_ok R (f\<lparr>ff_bitmaps := w\<rparr>)" and "vb_wf R d" and "\<not> vb_is_dirty R d"
    and "\<And>v. vb_wf R v \<Longrightarrow> vb_wf R (g v)" and "\<And>v. vb_is_dirty R (g v) = vb_is_dirty R v"
  shows "ff_ok R (f\<lparr>ff_bitmaps := hm_upsert k d g w\<rparr>)"
  using assms by (auto simp: ff_ok_def split: if_splits option.splits)

lemma ff_ok_fold:
  assumes "ff_ok R (f\<lparr>ff_bitmaps := w\<rparr>)"
    and "\<And>x w. ff_ok R (f\<lparr>ff_bitmaps := w\<rparr>) \<Longrightarrow> ff_ok R (f\<lparr>ff_bitmaps := h x w\<rparr>)"
  shows "ff_ok R (f\<lparr>ff_bitmaps := fold h xs w\<rparr>)"
  using assms(1) by (induction xs arbitrary: w) (auto intro: assms(2))

lemma ff_ok_map_base:
  assumes "ff_ok R (f\<lparr>ff_bitmaps := w\<rparr>)" and "\<And>v. vb_wf R v \<Longrightarrow> vb_wf R (g v)"
    and "\<And>v. vb_is_dirty R (g v) = vb_is_dirty R v"
  shows "ff_ok R (f\<lparr>ff_bitmaps := hm_map g w\<rparr>)"
  using assms by (auto simp: ff_ok_def)

lemma ff_ok_bases:
  assumes "ff_ok R f"
  shows "ff_ok R (ff_or_bitmap R f k b)" "ff_ok R (ff_load_field_complete R f data)"
    "ff_ok R (ff_load_values R f data req)" "ff_ok R (ff_clear_bases_and_unload R f)"
    "ff_ok R (ff_remove_value f k)" "ff_ok R (ff_load_from R f data)"
proof -
  have f: "ff_ok R (f\<lparr>ff_bitmaps := ff_bitmaps f\<rparr>)" using assms by simp
  show "ff_ok R (ff_or_bitmap R f k b)"
    unfolding ff_or_bitmap_def by (intro ff_ok_upsert_base f) simp_all
  show "ff_ok R (ff_load_field_complete R f data)"
    unfolding ff_load_field_complete_def Let_def
    by (intro ff_ok_map_base ff_ok_fold f) (auto intro!: ff_ok_upsert_base)
  show "ff_ok R (ff_load_values R f data req)"
    unfolding ff_load_values_def
    by (intro ff_ok_fold f) (auto intro!: ff_ok_upsert_base split: option.splits)
  show "ff_ok R (ff_clear_bases_and_unload R f)"
    unfolding ff_clear_bases_and_unload_def by (intro ff_ok_map_base f) simp_all
  show "ff_ok R (ff_remove_value f k)"
    using assms by (auto simp: ff_ok_def ff_remove_value_def split: if_splits)
  show "ff_ok R (ff_load_from R f data)"
    unfolding ff_load_from_def
    by (intro ff_ok_fold f) (auto simp: ff_ok_def split: if_splits)
qed

lemma ff_ok_insert_versioned: "ff_ok R f \<Longrightarrow> vb_wf R v \<Longrightarrow> ff_ok R (ff_insert_versioned R f k v)"
  by (auto simp: ff_ok_def ff_insert_versioned_def Let_def split: if_splits)

text \<open>Merging the dirty values.\<close>

lemma ff_merge_values_get:
  "hm_get (fst (ff_merge_values R dirty w rq)) k =
     map_option (\<lambda>v. if k \<in> set dirty \<and> vb_is_dirty R v \<and> vb_loaded v then vb_merge R v else v) (hm_get w k)"
proof (induction dirty arbitrary: w rq)
  case Nil
  then show ?case by (simp add: option.map_ident)
next
  case (Cons d dirty)
  show ?case
  proof (cases "hm_get w d")
    case None
    with Cons show ?thesis by (cases "k = d") simp_all
  next
    case (Some vb)
    with Cons show ?thesis by (cases "k = d") (simp_all add: vb_merge_clean)
  qed
qed

lemma ff_merge_values_requeue:
  "set (snd (ff_merge_values R dirty w rq)) = set rq \<union>
     {k \<in> set dirty. \<exists>v. hm_get w k = Some v \<and> vb_is_dirty R v \<and> \<not> vb_loaded v}"
proof (induction dirty arbitrary: w rq)
  case Nil
  then show ?case by simp
next
  case (Cons d dirty)
  show ?case
  proof (cases "hm_get w d")
    case None
    with Cons show ?thesis by auto
  next
    case (Some vb)
    have upd: "(\<exists>v. (if k = d then Some (vb_merge R vb) else hm_get w k) = Some v \<and> vb_is_dirty R v \<and> \<not> vb_loaded v) =
        (k \<noteq> d \<and> (\<exists>v. hm_get w k = Some v \<and> vb_is_dirty R v \<and> \<not> vb_loaded v))" if "vb_loaded vb" for k
      using that by (auto simp: vb_merge_clean)
    show ?thesis
      using Some by (auto simp: Cons.IH upd)
  qed
qed

lemma ff_merge_values_ok: "hm_ok w \<Longrightarrow> hm_ok (fst (ff_merge_values R dirty w rq))"
  by (induction dirty arbitrary: w rq) (auto split: option.splits)

lemma ff_merge_dirty_eq:
  "hm_get (ff_bitmaps (ff_merge_dirty R f)) k =
     map_option (\<lambda>v. if k \<in> set (ff_dirty_values f) \<and> vb_is_dirty R v \<and> vb_loaded v then vb_merge R v else v)
       (hm_get (ff_bitmaps f) k)"
  "set (ff_dirty_values (ff_merge_dirty R f)) =
     {k \<in> set (ff_dirty_values f). \<exists>v. hm_get (ff_bitmaps f) k = Some v \<and> vb_is_dirty R v \<and> \<not> vb_loaded v}"
  "hm_ok (ff_bitmaps f) \<Longrightarrow> hm_ok (ff_bitmaps (ff_merge_dirty R f))"
  "ff_config (ff_merge_dirty R f) = ff_config f"
  using ff_merge_values_get [of "ff_dirty_values f" "ff_bitmaps f" "[]" k]
    ff_merge_values_requeue [of "ff_dirty_values f" "ff_bitmaps f" "[]"]
    ff_merge_values_ok [of "ff_bitmaps f" "ff_dirty_values f" "[]"]
  by (auto simp: ff_merge_dirty_def Let_def case_prod_beta option.map_ident)

lemma ff_bits_merge_dirty [simp]: "ff_bits R (ff_merge_dirty R f) k = ff_bits R f k"
  by (simp add: ff_bits_def ff_merge_dirty_eq split: option.splits)

lemma ff_ok_merge_dirty: "ff_ok R f \<Longrightarrow> ff_ok R (ff_merge_dirty R f)"
  by (rule ff_okI) (auto simp: ff_ok_def ff_merge_dirty_eq split: if_splits, (metis vb_merge_clean)+)

lemma ff_merge_dirty_compacts:
  assumes "ff_ok R f" and "hm_get (ff_bitmaps (ff_merge_dirty R f)) k = Some v" and "vb_loaded v"
  shows "\<not> vb_is_dirty R v"
  using assms by (auto simp: ff_ok_def ff_merge_dirty_eq split: if_splits) (metis vb_merge_clean)+

text \<open>The diff-aware readers.\<close>

lemma apply_diff_or_base:
  "vb_wf R v \<Longrightarrow> bits R (if vb_is_dirty R v then vb_apply_diff R v c else rb_and R c (vb_base v)) =
     bits R c \<inter> vb_bits R v"
  by (auto simp: clean_vb_bits)

lemma ff_apply_diff_eq_bits:
  assumes "ff_ok R f"
  shows "map_option (bits R) (ff_apply_diff_eq R f k c) =
    map_option (\<lambda>v. bits R c \<inter> ff_bits R f k) (hm_get (ff_bitmaps f) k)"
  using assms
  by (cases "hm_get (ff_bitmaps f) k")
     (auto simp: ff_apply_diff_eq_def ff_bits_def ff_ok_def clean_vb_bits)

lemma ff_union_with_diff_bits:
  assumes "ff_ok R f"
  shows "bits R (ff_union_with_diff R f ks c) = bits R c \<inter> (\<Union>k \<in> set ks. ff_bits R f k)"
proof -
  let ?step = "\<lambda>k r. case hm_get (ff_bitmaps f) k of
      Some v \<Rightarrow> if vb_is_dirty R v then rb_or R r (vb_apply_diff R v c) else rb_or R r (rb_and R c (vb_base v))
    | None \<Rightarrow> r"
  have "bits R (?step k r) = bits R r \<union> (bits R c \<inter> ff_bits R f k)" for k r
    using assms by (auto simp: ff_bits_def ff_ok_def clean_vb_bits split: option.splits)
  then have "bits R (fold ?step ks r) = bits R r \<union> (bits R c \<inter> (\<Union>k \<in> set ks. ff_bits R f k))" for r
    by (induction ks arbitrary: r) auto
  then show ?thesis by (simp add: ff_union_with_diff_def)
qed

end


section \<open>Unloading and reloading a field\<close>

datatype ff_op = FInsert u64 u32 | FRemove u64 u32 | FInsertBulk u64 "u32 list"
  | FRemoveBulk u64 "u32 list" | FMergeDirty

fun ff_step :: "'b roaring_ops \<Rightarrow> ff_op \<Rightarrow> 'b filter_field \<Rightarrow> 'b filter_field" where
  "ff_step R (FInsert k s) f = ff_insert R f k s"
| "ff_step R (FRemove k s) f = ff_remove R f k s"
| "ff_step R (FInsertBulk k xs) f = ff_insert_bulk R f k xs"
| "ff_step R (FRemoveBulk k xs) f = ff_remove_bulk R f k xs"
| "ff_step R FMergeDirty f = ff_merge_dirty R f"

definition ff_run :: "'b roaring_ops \<Rightarrow> ff_op list \<Rightarrow> 'b filter_field \<Rightarrow> 'b filter_field" where
  "ff_run R ops f = fold (ff_step R) ops f"

text \<open>
  The simulation between an unloaded field \<open>u\<close> and the field \<open>f\<close> that stayed in memory, with
  \<open>disk\<close> the bitmaps that were saved.  A value that \<open>u\<close> does not hold counts as an unloaded
  bitmap without pending writes.
\<close>

definition disk_bits :: "'b roaring_ops \<Rightarrow> (u64, 'b) hashmap \<Rightarrow> u64 \<Rightarrow> u32 set" where
  "disk_bits R disk k = (case hm_get disk k of None \<Rightarrow> {} | Some b \<Rightarrow> bits R b)"

definition ff_entry :: "'b roaring_ops \<Rightarrow> 'b filter_field \<Rightarrow> u64 \<Rightarrow> 'b versioned_bitmap" where
  "ff_entry R f k = (case hm_get (ff_bitmaps f) k of None \<Rightarrow> vb_new_unloaded R | Some v \<Rightarrow> v)"

definition vb_pending :: "'b roaring_ops \<Rightarrow> u32 set \<Rightarrow> 'b versioned_bitmap \<Rightarrow> u32 set \<Rightarrow> bool" where
  "vb_pending R D u C \<longleftrightarrow> \<not> vb_loaded u \<and> bits R (vb_base u) = {} \<and>
     (D \<union> bits R (bd_sets (vb_diff u))) - bits R (bd_clears (vb_diff u)) = C"

definition ff_shadow :: "'b roaring_ops \<Rightarrow> (u64, 'b) hashmap \<Rightarrow> 'b filter_field \<Rightarrow> 'b filter_field \<Rightarrow> bool" where
  "ff_shadow R disk u f \<longleftrightarrow> ff_is_lazy_field u \<and>
     (\<forall>k. vb_pending R (disk_bits R disk k) (ff_entry R u k) (ff_bits R f k))"

definition vb_done :: "'b roaring_ops \<Rightarrow> u32 set \<Rightarrow> 'b versioned_bitmap \<Rightarrow> u32 set \<Rightarrow> bool" where
  "vb_done R D v C \<longleftrightarrow> vb_loaded v \<and> vb_bits R v = C \<and> D \<subseteq> bits R (vb_base v)"

definition vb_slot :: "'b roaring_ops \<Rightarrow> (u64, 'b versioned_bitmap) hashmap \<Rightarrow> u64 \<Rightarrow> 'b versioned_bitmap" where
  "vb_slot R w k = (case hm_get w k of None \<Rightarrow> vb_new_unloaded R | Some v \<Rightarrow> v)"

definition half_loaded ::
    "'b roaring_ops \<Rightarrow> (u64 \<Rightarrow> u32 set) \<Rightarrow> (u64, 'b versioned_bitmap) hashmap \<Rightarrow> (u64 \<Rightarrow> u32 set) \<Rightarrow> bool" where
  "half_loaded R D w C \<longleftrightarrow>
     (\<forall>k. vb_pending R (D k) (vb_slot R w k) (C k) \<or> vb_done R (D k) (vb_slot R w k) (C k))"

context roaring
begin

lemma vb_pending_writes:
  assumes "vb_pending R D u C"
  shows "vb_pending R D (vb_insert R u s) (insert s C)" "vb_pending R D (vb_remove R u s) (C - {s})"
    "vb_pending R D (vb_insert_bulk R u xs) (set xs \<union> C)"
    "vb_pending R D (fold (\<lambda>s v. vb_remove R v s) xs u) (C - set xs)"
proof -
  have ins: "vb_pending R D (vb_insert R u s) (insert s C)" if "vb_pending R D u C" for u C s
    using that by (auto simp: vb_pending_def vb_insert_def)
  have rem: "vb_pending R D (vb_remove R u s) (C - {s})" if "vb_pending R D u C" for u C s
    using that by (auto simp: vb_pending_def vb_remove_def)
  show "vb_pending R D (vb_insert R u s) (insert s C)" "vb_pending R D (vb_remove R u s) (C - {s})"
    using assms by (auto intro: ins rem)
  show "vb_pending R D (vb_insert_bulk R u xs) (set xs \<union> C)"
    unfolding vb_insert_bulk_eq using assms
  proof (induction xs arbitrary: u C)
    case (Cons x xs)
    from Cons.IH [OF ins [OF Cons.prems, of x]] show ?case by simp
  qed simp
  show "vb_pending R D (fold (\<lambda>s v. vb_remove R v s) xs u) (C - set xs)"
    using assms
  proof (induction xs arbitrary: u C)
    case (Cons x xs)
    have "C - {x} - set xs = C - set (x # xs)" by auto
    with Cons.IH [OF rem [OF Cons.prems, of x]] show ?case by simp
  qed simp
qed

lemma ff_entry_upsert:
  "ff_entry R (ff_mark_dirty (f\<lparr>ff_bitmaps := hm_upsert k (vb_new_unloaded R) g (ff_bitmaps f)\<rparr>) k') x =
     (if x = k then g (ff_entry R f k) else ff_entry R f x)"
  by (simp add: ff_entry_def)

lemma ff_entry_writes:
  "ff_is_lazy_field u \<Longrightarrow> ff_entry R (ff_insert R u k s) x =
     (if x = k then vb_insert R (ff_entry R u k) s else ff_entry R u x)"
  "ff_is_lazy_field u \<Longrightarrow> ff_entry R (ff_insert_bulk R u k xs) x =
     (if x = k then vb_insert_bulk R (ff_entry R u k) xs else ff_entry R u x)"
  "ff_entry R (ff_remove R u k s) x = (if x = k then vb_remove R (ff_entry R u k) s else ff_entry R u x)"
  "ff_entry R (ff_remove_bulk R u k xs) x =
     (if x = k then fold (\<lambda>s v. vb_remove R v s) xs (ff_entry R u k) else ff_entry R u x)"
  by (simp_all add: ff_insert_def ff_insert_bulk_def ff_remove_def ff_remove_bulk_def
      ff_new_inserted_vb_def ff_entry_upsert)

lemma ff_config_step: "ff_config (ff_step R op u) = ff_config u"
  by (cases op) (simp_all add: ff_insert_def ff_remove_def ff_insert_bulk_def ff_remove_bulk_def
      ff_merge_dirty_eq)

lemma ff_shadow_step:
  assumes "ff_shadow R disk u f"
  shows "ff_shadow R disk (ff_step R op u) (ff_step R op f)"
proof -
  have lazy: "ff_is_lazy_field u" and pend: "\<And>k. vb_pending R (disk_bits R disk k) (ff_entry R u k) (ff_bits R f k)"
    using assms by (auto simp: ff_shadow_def)
  have cfg: "ff_is_lazy_field (ff_step R op u)"
    using lazy by (simp add: ff_is_lazy_field_def ff_config_step)
  have merge: "ff_entry R (ff_merge_dirty R u) k = ff_entry R u k" for k
    using pend [of k] by (auto simp: ff_entry_def ff_merge_dirty_eq vb_pending_def split: option.splits)
  have "vb_pending R (disk_bits R disk k) (ff_entry R (ff_step R op u) k) (ff_bits R (ff_step R op f) k)" for k
    by (cases op) (use pend in \<open>simp_all add: lazy merge ff_entry_writes ff_bits_insert ff_bits_remove
        ff_bits_insert_bulk ff_bits_remove_bulk vb_pending_writes\<close>)
  with cfg show ?thesis by (simp add: ff_shadow_def)
qed

lemma ff_shadow_run: "ff_shadow R disk u f \<Longrightarrow> ff_shadow R disk (ff_run R ops u) (ff_run R ops f)"
  unfolding ff_run_def by (induction ops arbitrary: u f) (auto simp: ff_shadow_step)

text \<open>Unloading: dropping the clean entries and keeping the diffs of the others.\<close>

lemma fi_unloaded_get:
  assumes "hm_ok (ff_bitmaps f)"
  shows "hm_get (ff_bitmaps (fi_unloaded R f)) k =
    (case hm_get (ff_bitmaps f) k of
       Some v \<Rightarrow> if vb_is_dirty R v then Some (vb_clone_diff_only R v) else None
     | None \<Rightarrow> None)"
proof -
  have "hm_get (ff_bitmaps (fold (\<lambda>(k, v) nf. if vb_is_dirty R v then
      ff_insert_versioned R nf k (vb_clone_diff_only R v) else nf) xs nf)) k =
    (case hm_get xs k of
       Some v \<Rightarrow> if vb_is_dirty R v then Some (vb_clone_diff_only R v) else hm_get (ff_bitmaps nf) k
     | None \<Rightarrow> hm_get (ff_bitmaps nf) k)" if "hm_ok xs" for xs nf
    using that
  proof (induction xs arbitrary: nf)
    case (Cons x xs)
    obtain k' v where x: "x = (k', v)" by (cases x)
    with Cons.prems have "k' \<notin> dom (hm_get xs)" and ok: "hm_ok xs"
      by (auto simp: hm_ok_def dom_map_of_conv_image_fst)
    then have "hm_get xs k' = None" by blast
    with Cons.IH [OF ok] show ?case
      by (cases "k = k'") (simp_all add: x split: option.splits)
  qed simp
  from this [OF assms, of "ff_new (ff_config f)"] show ?thesis
    by (simp add: fi_unloaded_def ff_new_def split: option.splits)
qed

lemma fi_unloaded_config: "ff_config (fi_unloaded R f) = ff_config f"
proof -
  have "ff_config (fold (\<lambda>(k, v) nf. if vb_is_dirty R v then
      ff_insert_versioned R nf k (vb_clone_diff_only R v) else nf) xs nf) = ff_config nf" for xs nf
    by (induction xs arbitrary: nf) auto
  then show ?thesis by (simp add: fi_unloaded_def ff_new_def)
qed

lemma ff_shadow_unload:
  assumes "ff_ok R f" and "ff_is_lazy_field f" and "\<And>k. disk_bits R disk k = ff_bits R f k"
  shows "ff_shadow R disk (fi_unloaded R f) f"
proof -
  have "vb_pending R (disk_bits R disk k) (ff_entry R (fi_unloaded R f) k) (ff_bits R f k)" for k
    using assms(1,3) fi_unloaded_get [of f k]
    by (auto simp: vb_pending_def ff_entry_def ff_ok_def ff_bits_def vb_clone_diff_only_def vb_new_unloaded_def
        vb_bits_def split: option.splits)
  then show ?thesis
    using assms(2) by (simp add: ff_shadow_def ff_is_lazy_field_def fi_unloaded_config)
qed

text \<open>Reloading: loading a value twice is harmless, so a value is either pending or done.\<close>

lemma vb_load_done:
  assumes "vb_pending R D v C \<or> vb_done R D v C" and "bits R b = D"
  shows "vb_done R D (vb_load_base R v b) C"
  using assms by (auto simp: vb_pending_def vb_done_def vb_bits_def vb_load_base_def)

lemma vb_mark_done:
  assumes "vb_pending R {} v C \<or> vb_done R {} v C"
  shows "vb_done R {} (vb_mark_loaded v) C"
  using assms by (auto simp: vb_pending_def vb_done_def vb_bits_def vb_mark_loaded_def)

lemma vb_slot_upsert:
  "vb_slot R (hm_upsert k d g w) x =
     (if x = k then g (case hm_get w k of None \<Rightarrow> d | Some v \<Rightarrow> v) else vb_slot R w x)"
  by (simp add: vb_slot_def)

lemma half_loaded_load:
  assumes "half_loaded R (disk_bits R disk) w C" and "hm_get disk k = Some b"
  shows "half_loaded R (disk_bits R disk) (hm_upsert k (vb_new_unloaded R) (\<lambda>v. vb_load_base R v b) w) C"
proof -
  have D: "bits R b = disk_bits R disk k" using assms(2) by (simp add: disk_bits_def)
  have "vb_done R (disk_bits R disk k) (vb_load_base R (vb_slot R w k) b) (C k)"
    using assms(1) by (intro vb_load_done D) (simp add: half_loaded_def)
  then show ?thesis
    using assms(1) by (simp add: half_loaded_def vb_slot_upsert flip: vb_slot_def)
qed

lemma half_loaded_mark:
  assumes "half_loaded R (disk_bits R disk) w C" and "hm_get disk k = None"
  shows "half_loaded R (disk_bits R disk) (hm_upsert k (vb_new_empty R) vb_mark_loaded w) C"
proof -
  have D: "disk_bits R disk k = {}" using assms(2) by (simp add: disk_bits_def)
  have "vb_done R {} (vb_mark_loaded (case hm_get w k of None \<Rightarrow> vb_new_empty R | Some v \<Rightarrow> v)) (C k)"
    using assms(1) [unfolded half_loaded_def, rule_format, of k] vb_mark_done [of "vb_slot R w k" "C k"]
    by (cases "hm_get w k")
       (auto simp: D vb_slot_def vb_done_def vb_bits_def vb_mark_loaded_def vb_new_unloaded_def vb_defs
         vb_pending_def)
  then show ?thesis
    using assms(1) by (simp add: half_loaded_def vb_slot_upsert D)
qed

text \<open>A loop whose steps keep everything half loaded and load their own value loads all of
  its values.\<close>

lemma half_loaded_fold:
  assumes "\<And>x w. x \<in> set xs \<Longrightarrow> half_loaded R D w C \<Longrightarrow>
      half_loaded R D (h x w) C \<and> vb_loaded (vb_slot R (h x w) (key x)) \<and>
      (\<forall>k. vb_loaded (vb_slot R w k) \<longrightarrow> vb_loaded (vb_slot R (h x w) k))"
    and "half_loaded R D w C"
  shows "half_loaded R D (fold h xs w) C \<and>
    (\<forall>k. k \<in> key ` set xs \<or> vb_loaded (vb_slot R w k) \<longrightarrow> vb_loaded (vb_slot R (fold h xs w) k))"
  using assms
proof (induction xs arbitrary: w)
  case (Cons x xs)
  have step: "half_loaded R D (h x w) C \<and> vb_loaded (vb_slot R (h x w) (key x)) \<and>
      (\<forall>k. vb_loaded (vb_slot R w k) \<longrightarrow> vb_loaded (vb_slot R (h x w) k))"
    using Cons.prems by simp
  have "half_loaded R D (fold h xs (h x w)) C \<and>
    (\<forall>k. k \<in> key ` set xs \<or> vb_loaded (vb_slot R (h x w) k) \<longrightarrow> vb_loaded (vb_slot R (fold h xs (h x w)) k))"
    using Cons.prems step by (intro Cons.IH) auto
  with step show ?case by auto
qed simp

lemma vb_loaded_load [simp]: "vb_loaded (vb_load_base R v b)" "vb_loaded (vb_mark_loaded v)"
  by (simp_all add: vb_load_base_def vb_mark_loaded_def)

lemma half_loaded_bits: "half_loaded R D w C \<Longrightarrow> vb_loaded (vb_slot R w k) \<Longrightarrow> vb_bits R (vb_slot R w k) = C k"
  by (auto simp: half_loaded_def vb_pending_def vb_done_def)

lemma ff_bits_slot: "ff_bits R f k = vb_bits R (vb_slot R (ff_bitmaps f) k)"
  by (simp add: ff_bits_def vb_slot_def split: option.splits)

lemma ff_shadow_half_loaded:
  "ff_shadow R disk u f \<Longrightarrow> half_loaded R (disk_bits R disk) (ff_bitmaps u) (ff_bits R f)"
  by (simp add: ff_shadow_def half_loaded_def ff_entry_def vb_slot_def)

lemma ff_load_values_bits:
  assumes "ff_shadow R disk u f" and "k \<in> set req"
  shows "ff_bits R (ff_load_values R u disk req) k = ff_bits R f k"
proof -
  let ?h = "\<lambda>v w. case hm_get disk v of
      Some b \<Rightarrow> hm_upsert v (vb_new_unloaded R) (\<lambda>v. vb_load_base R v b) w
    | None \<Rightarrow> hm_upsert v (vb_new_empty R) vb_mark_loaded w"
  have "half_loaded R (disk_bits R disk) (fold ?h req (ff_bitmaps u)) (ff_bits R f) \<and>
    (\<forall>k. k \<in> id ` set req \<or> vb_loaded (vb_slot R (ff_bitmaps u) k) \<longrightarrow>
      vb_loaded (vb_slot R (fold ?h req (ff_bitmaps u)) k))"
    by (rule half_loaded_fold [OF _ ff_shadow_half_loaded [OF assms(1)]])
       (auto simp: half_loaded_load half_loaded_mark vb_slot_upsert split: option.splits)
  then have "vb_bits R (vb_slot R (fold ?h req (ff_bitmaps u)) k) = ff_bits R f k"
    using assms(2) by (intro half_loaded_bits [of "disk_bits R disk"]) simp_all
  then show ?thesis
    by (simp add: ff_bits_slot [of "ff_load_values R u disk req"]) (simp add: ff_load_values_def)
qed

lemma ff_load_field_complete_bits:
  assumes "ff_shadow R disk u f" and "hm_ok disk"
  shows "ff_bits R (ff_load_field_complete R u disk) k = ff_bits R f k"
proof -
  let ?h = "\<lambda>(v, b) w. hm_upsert v (vb_new_unloaded R) (\<lambda>v. vb_load_base R v b) w"
  let ?w = "fold ?h disk (ff_bitmaps u)"
  have half: "half_loaded R (disk_bits R disk) ?w (ff_bits R f) \<and>
    (\<forall>k. k \<in> fst ` set disk \<or> vb_loaded (vb_slot R (ff_bitmaps u) k) \<longrightarrow> vb_loaded (vb_slot R ?w k))"
    by (rule half_loaded_fold [OF _ ff_shadow_half_loaded [OF assms(1)]])
       (use assms(2) in \<open>auto simp: half_loaded_load hm_get_in vb_slot_upsert\<close>)
  have bits: "vb_bits R (vb_slot R ?w k) = ff_bits R f k"
  proof (cases "k \<in> fst ` set disk")
    case True
    with half show ?thesis by (intro half_loaded_bits) auto
  next
    case False
    then have "hm_get disk k = None" by (simp add: map_of_eq_None_iff)
    then have "vb_pending R {} (vb_slot R ?w k) (ff_bits R f k) \<or> vb_done R {} (vb_slot R ?w k) (ff_bits R f k)"
      using half [THEN conjunct1, unfolded half_loaded_def, THEN spec, of k] by (simp add: disk_bits_def)
    then show ?thesis
    proof
      assume "vb_pending R {} (vb_slot R ?w k) (ff_bits R f k)"
      then show ?thesis by (simp add: vb_pending_def vb_bits_def)
    qed (simp add: vb_done_def)
  qed
  have "vb_bits R (vb_slot R (hm_map vb_mark_loaded w) k) = vb_bits R (vb_slot R w k)" for w
    by (cases "hm_get w k") (simp_all add: vb_slot_def vb_bits_def vb_mark_loaded_def)
  with bits show ?thesis
    by (simp add: ff_bits_slot [of "ff_load_field_complete R u disk"]) (simp add: ff_load_field_complete_def)
qed

end


section \<open>Properties\<close>

text \<open>
  C25: \<open>merge_dirty\<close>, which visits only the values in the side set, misses none.  Given the
  invariant that every value with a pending diff is in the set, merging keeps the content of
  every value, leaves no loaded value with a pending diff, and keeps exactly the unloaded
  values with a pending diff in the set, so the invariant holds again.
\<close>

theorem merge_dirty_complete:
  assumes "roaring R" and "ff_ok R f"
  shows "ff_bits R (ff_merge_dirty R f) k = ff_bits R f k \<and>
    \<not> ff_has_loaded_dirty R (ff_merge_dirty R f) \<and>
    (\<forall>v. hm_get (ff_bitmaps (ff_merge_dirty R f)) k = Some v \<longrightarrow> vb_loaded v \<longrightarrow>
       \<not> vb_is_dirty R v \<and> bits R (vb_base v) = ff_bits R f k) \<and>
    ff_ok R (ff_merge_dirty R f)"
proof (intro conjI allI impI)
  show "ff_bits R (ff_merge_dirty R f) k = ff_bits R f k"
    by (rule roaring.ff_bits_merge_dirty [OF assms(1)])
  show "\<not> ff_has_loaded_dirty R (ff_merge_dirty R f)"
    using roaring.ff_merge_dirty_compacts [OF assms]
    by (auto simp: ff_has_loaded_dirty_def list_ex_iff split: option.splits)
  fix v assume v: "hm_get (ff_bitmaps (ff_merge_dirty R f)) k = Some v" "vb_loaded v"
  then show clean: "\<not> vb_is_dirty R v" by (rule roaring.ff_merge_dirty_compacts [OF assms])
  have "vb_bits R v = ff_bits R f k"
    using roaring.ff_bits_merge_dirty [OF assms(1), of f k] v(1) by (simp add: ff_bits_def)
  then show "bits R (vb_base v) = ff_bits R f k"
    using roaring.clean_vb_bits [OF assms(1) clean] by simp
next
  show "ff_ok R (ff_merge_dirty R f)" by (rule roaring.ff_ok_merge_dirty [OF assms])
qed

definition lazy_cfg :: filter_field_config where
  "lazy_cfg = \<lparr>ffc_name = ''tagIds'', ffc_field_type = MultiValue, ffc_behaviors = None,
     ffc_eviction = None, ffc_eager_load = False, ffc_per_value_lazy = False,
     ffc_max_range_scan_values = None\<rparr>"

definition lazy_field :: "u32 set filter_field" where
  "lazy_field = ff_insert set_roaring
     (ff_load_values set_roaring (ff_new lazy_cfg) [(7, {1, 2})] [7]) 7 5"

lemma lazy_field_ok: "ff_ok set_roaring lazy_field"
  unfolding lazy_field_def by (intro sr.ff_ok_writes sr.ff_ok_bases sr.ff_ok_new)

lemma lazy_field_bits: "ff_bits set_roaring lazy_field k = (if k = 7 then {1, 2, 5} else {})"
proof -
  have "ff_bits set_roaring (ff_load_values set_roaring (ff_new lazy_cfg) [(7, {1, 2})] [7]) x =
      (if x = 7 then {1, 2} else {})" for x
    by (simp add: ff_load_values_def ff_new_def ff_bits_def vb_load_base_def vb_new_unloaded_def vb_bits_def
        bd_new_def)
  moreover have "insert 5 {1, 2} = {1, 2, 5 :: u32}" by auto
  ultimately show ?thesis by (simp add: lazy_field_def sr.ff_bits_insert)
qed

theorem merge_dirty_complete_witness:
  "ff_bits set_roaring (ff_merge_dirty set_roaring lazy_field) 7 = {1, 2, 5} \<and>
   \<not> ff_has_loaded_dirty set_roaring (ff_merge_dirty set_roaring lazy_field)"
  using merge_dirty_complete [OF sr.roaring_axioms lazy_field_ok, of 7] by (simp add: lazy_field_bits)

text \<open>
  C39: the writes of a filter field.  Each changes the content of its own value only, as its
  name says, and keeps the invariant of the side set of dirty values.
\<close>

theorem filter_writes:
  assumes "roaring R" and "ff_ok R f"
  shows "ff_bits R (ff_insert R f v s) = (ff_bits R f)(v := insert s (ff_bits R f v)) \<and>
    ff_bits R (ff_remove R f v s) = (ff_bits R f)(v := ff_bits R f v - {s}) \<and>
    ff_bits R (ff_insert_bulk R f v xs) = (ff_bits R f)(v := set xs \<union> ff_bits R f v) \<and>
    ff_bits R (ff_remove_bulk R f v xs) = (ff_bits R f)(v := ff_bits R f v - set xs) \<and>
    ff_bits R (ff_remove_from_all R f s) = (\<lambda>v. ff_bits R f v - {s}) \<and>
    ff_ok R (ff_insert R f v s) \<and> ff_ok R (ff_remove R f v s) \<and>
    ff_ok R (ff_insert_bulk R f v xs) \<and> ff_ok R (ff_remove_bulk R f v xs) \<and>
    ff_ok R (ff_remove_from_all R f s)"
  using assms
  by (simp add: fun_eq_iff roaring.ff_bits_insert roaring.ff_bits_remove roaring.ff_bits_insert_bulk
      roaring.ff_bits_remove_bulk roaring.ff_bits_remove_from_all roaring.ff_ok_writes
      roaring.ff_ok_remove_from_all)

theorem filter_writes_witness:
  "ff_bits set_roaring (ff_remove set_roaring lazy_field 7 2) 7 = {1, 5}"
  using filter_writes [OF sr.roaring_axioms lazy_field_ok, of 7 2 "[]"]
  by (simp add: lazy_field_bits insert_Diff_if)

text \<open>
  C27: unloading a lazily loaded field loses no write.  The field is replaced by one that
  keeps only the pending diffs while \<open>disk\<close> holds the content of every value, receives any
  inserts, removals and merge cycles, and is reloaded, completely or value by value: the
  reloaded values have the content they would have had without the unload.
\<close>

theorem filter_unload_reload:
  assumes "roaring R" and "ff_ok R f" and "ff_is_lazy_field f"
    and "hm_ok disk" and "\<And>v. disk_bits R disk v = ff_bits R f v"
  shows "ff_bits R (ff_load_field_complete R (ff_run R ops (fi_unloaded R f)) disk) v =
      ff_bits R (ff_run R ops f) v \<and>
    (v \<in> set req \<longrightarrow>
      ff_bits R (ff_load_values R (ff_run R ops (fi_unloaded R f)) disk req) v = ff_bits R (ff_run R ops f) v)"
proof -
  have "ff_shadow R disk (ff_run R ops (fi_unloaded R f)) (ff_run R ops f)"
    by (intro roaring.ff_shadow_run roaring.ff_shadow_unload assms)
  then show ?thesis
    using roaring.ff_load_field_complete_bits roaring.ff_load_values_bits assms(1,4) by blast
qed

theorem filter_unload_reload_witness:
  "ff_bits set_roaring (ff_load_field_complete set_roaring
     (ff_run set_roaring [FInsert 7 9, FRemove 7 1, FMergeDirty] (fi_unloaded set_roaring lazy_field))
     [(7, {1, 2, 5})]) 7 = {2, 5, 9}"
proof -
  have "ff_is_lazy_field lazy_field"
    by (simp add: lazy_field_def ff_is_lazy_field_def ff_insert_def ff_load_values_def ff_new_def lazy_cfg_def)
  moreover have "hm_ok [(7 :: u64, {1, 2, 5 :: u32})]" by (simp add: hm_ok_def)
  moreover have "disk_bits set_roaring [(7, {1, 2, 5})] v = ff_bits set_roaring lazy_field v" for v
    by (simp add: disk_bits_def lazy_field_bits)
  moreover have "ff_bits set_roaring (ff_run set_roaring [FInsert 7 9, FRemove 7 1, FMergeDirty] lazy_field) 7 =
      {2, 5, 9}"
    by (simp add: ff_run_def sr.ff_bits_insert sr.ff_bits_remove lazy_field_bits insert_Diff_if)
       (simp add: insert_commute)
  ultimately show ?thesis
    using filter_unload_reload [OF sr.roaring_axioms lazy_field_ok, of "[(7, {1, 2, 5})]"
        "[FInsert 7 9, FRemove 7 1, FMergeDirty]" 7 "[]"] by simp
qed

text \<open>
  The restriction to lazy fields is needed.  A field that is not lazy seeds a value it does
  not hold as loaded, but \<open>unload_from\<close> drops values of such fields too; a removal that is
  merged into that placeholder is forgotten, and the reload brings the slot back.
\<close>

definition eager_field :: "u32 set filter_field" where
  "eager_field = ff_load_field_complete set_roaring
     (ff_new (lazy_cfg\<lparr>ffc_field_type := SingleValue\<rparr>)) [(7, {1, 2})]"

lemma eager_unload_resurrects:
  "1 \<notin> ff_bits set_roaring (ff_run set_roaring [FInsert 7 9, FRemove 7 1, FMergeDirty] eager_field) 7 \<and>
   1 \<in> ff_bits set_roaring (ff_load_field_complete set_roaring
     (ff_run set_roaring [FInsert 7 9, FRemove 7 1, FMergeDirty] (fi_unloaded set_roaring eager_field))
     [(7, {1, 2})]) 7"
proof
  show "1 \<notin> ff_bits set_roaring (ff_run set_roaring [FInsert 7 9, FRemove 7 1, FMergeDirty] eager_field) 7"
    by (simp add: ff_run_def sr.ff_bits_remove)
  have "fi_unloaded set_roaring eager_field = ff_new (lazy_cfg\<lparr>ffc_field_type := SingleValue\<rparr>)"
    by (simp add: fi_unloaded_def eager_field_def ff_load_field_complete_def ff_new_def hm_upsert_def
        hm_map_def vb_mark_loaded_def vb_load_base_def vb_new_unloaded_def vb_is_dirty_def bd_is_empty_def bd_new_def)
  then show "1 \<in> ff_bits set_roaring (ff_load_field_complete set_roaring
     (ff_run set_roaring [FInsert 7 9, FRemove 7 1, FMergeDirty] (fi_unloaded set_roaring eager_field))
     [(7, {1, 2})]) 7"
    by (simp add: ff_run_def ff_insert_def ff_remove_def ff_mark_dirty_def ff_new_inserted_vb_def
        ff_is_lazy_field_def ff_new_def lazy_cfg_def hm_upsert_def vb_new_empty_def vb_new_def vb_insert_def
        vb_remove_def bd_insert_def bd_remove_def bd_new_def ff_merge_dirty_def vb_is_dirty_def bd_is_empty_def
        vb_merge_def ff_load_field_complete_def hm_map_def vb_load_base_def vb_mark_loaded_def ff_bits_def
        vb_bits_def Let_def)
qed

end
