(* ===== verification/Query.thy ===== *)
theory Query
  imports Time_Buckets Filter_Field
begin

text \<open>
  Queries (\<open>query.rs\<close>, and the value conversions of \<open>types.rs\<close>): values, filter clauses, sort and
  cursor, and the replacement of range clauses on a bucketed field by time-bucket bitmaps.
  The \<open>Display\<close> instances and the serialisation attributes are left out.
\<close>

section \<open>Values, clauses, queries\<close>

datatype qvalue = VInteger i64 | VFloat f64 | VBool bool | VString string

text \<open>The derived \<open>PartialEq\<close>: floats compare by IEEE equality.\<close>

fun qvalue_eq :: "qvalue \<Rightarrow> qvalue \<Rightarrow> bool" where
  "qvalue_eq (VInteger a) (VInteger b) \<longleftrightarrow> a = b"
| "qvalue_eq (VFloat a) (VFloat b) \<longleftrightarrow> f64_eq a b"
| "qvalue_eq (VBool a) (VBool b) \<longleftrightarrow> a = b"
| "qvalue_eq (VString a) (VString b) \<longleftrightarrow> a = b"
| "qvalue_eq _ _ \<longleftrightarrow> False"

fun as_bitmap_key :: "qvalue \<Rightarrow> u64 option" where
  "as_bitmap_key (VBool b) = Some (if b then 1 else 0)"
| "as_bitmap_key (VInteger v) = Some v"
| "as_bitmap_key (VFloat _) = None"
| "as_bitmap_key (VString _) = None"

fun as_sort_u32 :: "qvalue \<Rightarrow> u32 option" where
  "as_sort_u32 (VInteger v) = Some (ucast v)"
| "as_sort_u32 _ = None"

datatype 'b filter_clause =
    CEq string qvalue
  | CNotEq string qvalue
  | CIn string "qvalue list"
  | CNotIn string "qvalue list"
  | CGt string qvalue
  | CLt string qvalue
  | CGte string qvalue
  | CLte string qvalue
  | CNot "'b filter_clause"
  | CAnd "'b filter_clause list"
  | COr "'b filter_clause list"
  | CIsNull string
  | CIsNotNull string
  | CBucketBitmap string string 'b

datatype sort_direction = Asc | Desc

record sort_clause =
  sc_field :: string
  sc_direction :: sort_direction

record cursor_position =
  cp_sort_value :: u64
  cp_slot_id :: u32

record 'b bitdex_query =
  bq_filters :: "'b filter_clause list"
  bq_sort :: "sort_clause option"
  bq_limit :: usize
  bq_cursor :: "cursor_position option"
  bq_offset :: "usize option"
  bq_skip_cache :: bool

record query_result =
  qr_ids :: "i64 list"
  qr_cursor :: "cursor_position option"
  qr_total_matched :: nat


section \<open>Snapping ranges to buckets\<close>

record 'b bucket_snap_context =
  bsc_managers :: "(string, 'b time_bucket_manager) hashmap"
  bsc_now_secs :: u64
  bsc_tolerance_pct :: f64
  bsc_always_snap :: bool

definition ts_to_secs :: "i64 \<Rightarrow> i64" where
  "ts_to_secs ts = (if 100000000000 < sint ts then word_of_int (sint ts div 1000) else ts)"

definition ts_secs_u64 :: "u64 \<Rightarrow> u64" where
  "ts_secs_u64 ts = (if 100000000000 < ts then ts div 1000 else ts)"

definition try_snap_to_bucket ::
    "string \<Rightarrow> i64 \<Rightarrow> 'b bucket_snap_context \<Rightarrow> 'b filter_clause option" where
  "try_snap_to_bucket field ts ctx =
     (case hm_get (bsc_managers ctx) field of
        None \<Rightarrow> None
      | Some manager \<Rightarrow>
          let duration_secs = saturating_sub (bsc_now_secs ctx) (ts_to_secs ts)
          in case tbm_snap_duration manager duration_secs (bsc_tolerance_pct ctx) of
               None \<Rightarrow> None
             | Some bucket_name \<Rightarrow>
                 (case tbm_get_bucket manager bucket_name of
                    None \<Rightarrow> None
                  | Some bucket \<Rightarrow> Some (CBucketBitmap field bucket_name (tb_bitmap bucket))))"

text \<open>The common arm of \<open>snap_clause\<close> for \<open>Gt\<close> and \<open>Gte\<close> on an integer.\<close>

definition snap_range ::
    "'b roaring_ops \<Rightarrow> 'b filter_clause \<Rightarrow> string \<Rightarrow> i64 \<Rightarrow> 'b bucket_snap_context \<Rightarrow> 'b filter_clause" where
  "snap_range R clause field ts ctx =
     (case try_snap_to_bucket field ts ctx of
        Some snapped \<Rightarrow> snapped
      | None \<Rightarrow>
          (case hm_get (bsc_managers ctx) field of
             Some manager \<Rightarrow>
               if bsc_always_snap ctx then
                 let duration_secs = saturating_sub (bsc_now_secs ctx) (ts_to_secs ts);
                     bucket_name = tbm_snap_nearest manager duration_secs
                 in case tbm_get_bucket manager bucket_name of
                      Some bucket \<Rightarrow> CBucketBitmap field bucket_name (tb_bitmap bucket)
                    | None \<Rightarrow> CBucketBitmap field ''_none'' (rb_new R)
               else CBucketBitmap field ''_none'' (rb_new R)
           | None \<Rightarrow> clause))"

fun snap_clause :: "'b roaring_ops \<Rightarrow> 'b bucket_snap_context \<Rightarrow> 'b filter_clause \<Rightarrow> 'b filter_clause" where
  "snap_clause R ctx (CGt field (VInteger ts)) = snap_range R (CGt field (VInteger ts)) field ts ctx"
| "snap_clause R ctx (CGte field (VInteger ts)) = snap_range R (CGte field (VInteger ts)) field ts ctx"
| "snap_clause R ctx (CAnd inner) = CAnd (map (snap_clause R ctx) inner)"
| "snap_clause R ctx (COr inner) = COr (map (snap_clause R ctx) inner)"
| "snap_clause R ctx other = other"

definition snap_range_clauses ::
    "'b roaring_ops \<Rightarrow> 'b filter_clause list \<Rightarrow> 'b bucket_snap_context \<Rightarrow> 'b filter_clause list" where
  "snap_range_clauses R clauses ctx = map (snap_clause R ctx) clauses"


section \<open>Properties\<close>

lemma window_mono:
  assumes "d \<le> d'"
  shows "window R sf alive now d \<subseteq> window R sf alive now d'"
proof -
  have "saturating_sub now d' \<le> saturating_sub now d"
    using assms by (auto simp: saturating_sub_def word_le_nat_alt word_less_nat_alt unat_sub_if')
  then show ?thesis by (auto simp: window_def Let_def)
qed


definition fresh_manager :: "u32 set time_bucket_manager" where
  "fresh_manager = tbm_modify (tbm_modify day_week ''24h'' (\<lambda>b. b\<lparr>tb_bitmap := {1, 2, 4}\<rparr>))
     ''7d'' (\<lambda>b. b\<lparr>tb_bitmap := {1, 2, 4}\<rparr>)"

lemma fresh_manager_eq: "tbm_sorted_names fresh_manager = [''24h'', ''7d'']"
  "hm_get (tbm_buckets fresh_manager) =
     [''24h'' \<mapsto> (tb_new set_roaring ''24h'' 86400 300)\<lparr>tb_bitmap := {1, 2, 4}\<rparr>,
      ''7d'' \<mapsto> (tb_new set_roaring ''7d'' 604800 3600)\<lparr>tb_bitmap := {1, 2, 4}\<rparr>]"
  by (simp_all add: fresh_manager_def tbm_modify_def day_week_eq)

lemma fresh_manager_ok: "tbm_ok fresh_manager"
  by (auto simp: tbm_ok_def fresh_manager_eq tbm_dur_def tb_new_def)

lemma tenth_thresholds:
  "tolerance_threshold 86400 0x3FB999999999999A = 8640"
  "tolerance_threshold 604800 0x3FB999999999999A = 60480"
  by code_simp+

definition snap_ctx :: "u32 set bucket_snap_context" where
  "snap_ctx = \<lparr>bsc_managers = [(''sortAt'', fresh_manager)], bsc_now_secs = 20000,
     bsc_tolerance_pct = 0x3FB999999999999A, bsc_always_snap = True\<rparr>"


end
