(* ===== verification/Slot_Allocator.thy ===== *)
theory Slot_Allocator
  imports Versioned_Bitmap Bitdex_Config
begin

text \<open>
  The slot allocator (\<open>slot.rs\<close>): the alive bitmap, the clean bitmap of recyclable slots, the
  high-water mark and the map of deferred activations.  A slot is the document's id.  The
  high-water mark is an \<open>AtomicU32\<close>; \<open>slot + 1\<close> wraps.
\<close>

record 'b slot_allocator =
  sa_next_slot :: u32
  sa_alive :: "'b versioned_bitmap"
  sa_clean :: 'b
  sa_deferred :: "(u64 \<times> u32 list) list"
  sa_all_alive :: bool

definition sa_new :: "'b roaring_ops \<Rightarrow> 'b slot_allocator" where
  "sa_new R = \<lparr>sa_next_slot = 0, sa_alive = vb_new_empty R, sa_clean = rb_new R, sa_deferred = [],
               sa_all_alive = True\<rparr>"

definition sa_from_state :: "'b roaring_ops \<Rightarrow> u32 \<Rightarrow> 'b \<Rightarrow> 'b \<Rightarrow> 'b slot_allocator" where
  "sa_from_state R ns al cl =
     \<lparr>sa_next_slot = ns, sa_alive = vb_new R al, sa_clean = cl, sa_deferred = [], sa_all_alive = False\<rparr>"

definition sa_allocate ::
    "'b roaring_ops \<Rightarrow> 'b slot_allocator \<Rightarrow> u32 \<Rightarrow> (u32 \<times> 'b slot_allocator) bresult" where
  "sa_allocate R sa postgres_id =
     (let slot = postgres_id;
          current = sa_next_slot sa;
          sa = (if current \<le> slot then sa\<lparr>sa_next_slot := slot + 1\<rparr> else sa);
          sa = sa\<lparr>sa_clean := rb_remove R (sa_clean sa) slot\<rparr>;
          sa = sa\<lparr>sa_alive := vb_insert R (sa_alive sa) slot\<rparr>
      in Inr (slot, sa))"

definition sa_allocate_next :: "'b roaring_ops \<Rightarrow> 'b slot_allocator \<Rightarrow> u32 \<times> 'b slot_allocator" where
  "sa_allocate_next R sa =
     (case rb_min R (sa_clean sa) of
        Some recycled \<Rightarrow>
          (recycled, sa\<lparr>sa_clean := rb_remove R (sa_clean sa) recycled,
                        sa_alive := vb_insert R (sa_alive sa) recycled\<rparr>)
      | None \<Rightarrow>
          let slot = sa_next_slot sa
          in (slot, sa\<lparr>sa_next_slot := slot + 1, sa_alive := vb_insert R (sa_alive sa) slot\<rparr>))"

definition sa_delete ::
    "'b roaring_ops \<Rightarrow> 'b slot_allocator \<Rightarrow> u32 \<Rightarrow> 'b slot_allocator bresult" where
  "sa_delete R sa slot =
     (if \<not> vb_contains R (sa_alive sa) slot then Inl (SlotNotFound slot)
      else Inr (sa\<lparr>sa_alive := vb_remove R (sa_alive sa) slot, sa_all_alive := False\<rparr>))"

definition sa_is_alive :: "'b roaring_ops \<Rightarrow> 'b slot_allocator \<Rightarrow> u32 \<Rightarrow> bool" where
  "sa_is_alive R sa slot = vb_contains R (sa_alive sa) slot"

definition sa_was_ever_allocated :: "'b slot_allocator \<Rightarrow> u32 \<Rightarrow> bool" where
  "sa_was_ever_allocated sa slot \<longleftrightarrow> slot < sa_next_slot sa"

definition sa_all_slots_alive :: "'b slot_allocator \<Rightarrow> bool" where
  "sa_all_slots_alive sa = sa_all_alive sa"

definition sa_alive_bitmap :: "'b slot_allocator \<Rightarrow> 'b" where
  "sa_alive_bitmap sa = vb_base (sa_alive sa)"

definition sa_alive_fused_cow :: "'b roaring_ops \<Rightarrow> 'b slot_allocator \<Rightarrow> 'b" where
  "sa_alive_fused_cow R sa = vb_fused_cow R (sa_alive sa)"

definition sa_alive_insert_bulk :: "'b roaring_ops \<Rightarrow> 'b slot_allocator \<Rightarrow> u32 list \<Rightarrow> 'b slot_allocator" where
  "sa_alive_insert_bulk R sa slots =
     (let max_seen = fold (\<lambda>slot mx. if mx \<le> slot then slot + 1 else mx) slots (sa_next_slot sa);
          sa = (if sa_next_slot sa < max_seen then sa\<lparr>sa_next_slot := max_seen\<rparr> else sa)
      in sa\<lparr>sa_alive := vb_insert_bulk R (sa_alive sa) slots\<rparr>)"

definition sa_alive_or_bitmap :: "'b roaring_ops \<Rightarrow> 'b slot_allocator \<Rightarrow> 'b \<Rightarrow> 'b slot_allocator" where
  "sa_alive_or_bitmap R sa bm =
     (let sa = (case rb_max R bm of
                  Some max_slot \<Rightarrow>
                    if sa_next_slot sa < max_slot + 1 then sa\<lparr>sa_next_slot := max_slot + 1\<rparr> else sa
                | None \<Rightarrow> sa)
      in sa\<lparr>sa_alive := vb_or_into_base R (sa_alive sa) bm\<rparr>)"

definition sa_alive_remove_one :: "'b roaring_ops \<Rightarrow> 'b slot_allocator \<Rightarrow> u32 \<Rightarrow> 'b slot_allocator" where
  "sa_alive_remove_one R sa slot = sa\<lparr>sa_alive := vb_remove R (sa_alive sa) slot, sa_all_alive := False\<rparr>"

definition sa_merge_alive :: "'b roaring_ops \<Rightarrow> 'b slot_allocator \<Rightarrow> 'b slot_allocator" where
  "sa_merge_alive R sa = sa\<lparr>sa_alive := vb_merge R (sa_alive sa)\<rparr>"

text \<open>The \<open>debug_assert!\<close> of \<open>mark_clean\<close> is not part of a release build.\<close>

definition sa_mark_clean :: "'b roaring_ops \<Rightarrow> 'b slot_allocator \<Rightarrow> u32 \<Rightarrow> 'b slot_allocator" where
  "sa_mark_clean R sa slot = sa\<lparr>sa_clean := rb_insert R (sa_clean sa) slot\<rparr>"

definition sa_alive_count :: "'b roaring_ops \<Rightarrow> 'b slot_allocator \<Rightarrow> nat" where
  "sa_alive_count R sa = vb_fused_len R (sa_alive sa)"

definition sa_dead_count :: "'b roaring_ops \<Rightarrow> 'b slot_allocator \<Rightarrow> nat" where
  "sa_dead_count R sa = unat (sa_next_slot sa) - vb_fused_len R (sa_alive sa) - rb_len R (sa_clean sa)"

definition sa_clean_count :: "'b roaring_ops \<Rightarrow> 'b slot_allocator \<Rightarrow> nat" where
  "sa_clean_count R sa = rb_len R (sa_clean sa)"

definition sa_slot_counter :: "'b slot_allocator \<Rightarrow> u32" where
  "sa_slot_counter sa = sa_next_slot sa"

text \<open>\<open>BTreeMap::retain\<close> over the deferred map: each list is filtered in place and an emptied
  entry is dropped.\<close>

definition sa_cancel_deferred :: "'b slot_allocator \<Rightarrow> u32 \<Rightarrow> 'b slot_allocator" where
  "sa_cancel_deferred sa slot =
     sa\<lparr>sa_deferred := filter (\<lambda>(k, slots). slots \<noteq> [])
         (map (\<lambda>(k, slots). (k, filter (\<lambda>s. s \<noteq> slot) slots)) (sa_deferred sa))\<rparr>"

definition sa_schedule_alive :: "'b slot_allocator \<Rightarrow> u32 \<Rightarrow> u64 \<Rightarrow> 'b slot_allocator" where
  "sa_schedule_alive sa slot activate_at_unix =
     (let current = sa_next_slot sa;
          sa = (if current \<le> slot then sa\<lparr>sa_next_slot := slot + 1\<rparr> else sa);
          sa = sa_cancel_deferred sa slot
      in sa\<lparr>sa_deferred := bt_entry activate_at_unix
              (\<lambda>e. (case e of None \<Rightarrow> [] | Some slots \<Rightarrow> slots) @ [slot]) (sa_deferred sa)\<rparr>)"

fun sa_activate_keys ::
    "'b roaring_ops \<Rightarrow> u64 list \<Rightarrow> 'b slot_allocator \<Rightarrow> u32 list \<Rightarrow> u32 list \<times> 'b slot_allocator" where
  "sa_activate_keys R [] sa activated = (activated, sa)"
| "sa_activate_keys R (key # keys) sa activated =
     (case hm_get (sa_deferred sa) key of
        Some slots \<Rightarrow>
          sa_activate_keys R keys
            (sa\<lparr>sa_deferred := hm_remove key (sa_deferred sa),
                sa_alive := fold (\<lambda>slot v. vb_insert R v slot) slots (sa_alive sa)\<rparr>)
            (activated @ slots)
      | None \<Rightarrow> sa_activate_keys R keys sa activated)"

definition sa_activate_due ::
    "'b roaring_ops \<Rightarrow> 'b slot_allocator \<Rightarrow> u64 \<Rightarrow> u32 list \<times> 'b slot_allocator" where
  "sa_activate_due R sa now_unix =
     (let due_keys = map fst (filter (\<lambda>(k, _). k \<le> now_unix) (sa_deferred sa))
      in sa_activate_keys R due_keys sa [])"

definition sa_set_deferred :: "'b slot_allocator \<Rightarrow> (u64 \<times> u32 list) list \<Rightarrow> 'b slot_allocator" where
  "sa_set_deferred sa d = sa\<lparr>sa_deferred := d\<rparr>"

definition sa_deferred_count :: "'b slot_allocator \<Rightarrow> nat" where
  "sa_deferred_count sa = sum_list (map (\<lambda>(_, v). length v) (sa_deferred sa))"

definition sa_is_deferred :: "'b slot_allocator \<Rightarrow> u32 \<Rightarrow> bool" where
  "sa_is_deferred sa slot = list_ex (\<lambda>(_, slots). slot \<in> set slots) (sa_deferred sa)"


section \<open>Abstraction: a map from slots to activation times\<close>

text \<open>
  Abstractly the deferred map is a partial function from slots to activation times.
  \<open>due_list\<close> flattens the \<open>BTreeMap\<close>; \<open>sa_deferred_ok\<close> is its invariant: keys ascend, no
  entry is empty, no slot occurs twice.
\<close>

definition due_list :: "(u64 \<times> u32 list) list \<Rightarrow> (u32 \<times> u64) list" where
  "due_list d = concat (map (\<lambda>(k, slots). map (\<lambda>s. (s, k)) slots) d)"

definition deferred_ok :: "(u64 \<times> u32 list) list \<Rightarrow> bool" where
  "deferred_ok d \<longleftrightarrow> bt_ok d \<and> distinct (map fst (due_list d)) \<and> (\<forall>(k, slots) \<in> set d. slots \<noteq> [])"

definition due_map :: "'b slot_allocator \<Rightarrow> u32 \<rightharpoonup> u64" where
  "due_map sa = map_of (due_list (sa_deferred sa))"

lemma in_due_list: "(s, k) \<in> set (due_list d) \<longleftrightarrow> (\<exists>slots. (k, slots) \<in> set d \<and> s \<in> set slots)"
  by (force simp: due_list_def)

lemma due_map_iff:
  "deferred_ok (sa_deferred sa) \<Longrightarrow>
     due_map sa s = Some k \<longleftrightarrow> (s, k) \<in> set (due_list (sa_deferred sa))"
  by (simp add: due_map_def deferred_ok_def)

lemma due_list_simps [simp]:
  "due_list [] = []"
  "due_list ((k, slots) # d) = map (\<lambda>s. (s, k)) slots @ due_list d"
  by (simp_all add: due_list_def)

lemma map_fst_const [simp]: "map (fst \<circ> (\<lambda>s. (s, k))) xs = xs"
  by (simp add: comp_def)

text \<open>Cancelling.\<close>

definition cancel_slot :: "u32 \<Rightarrow> (u64 \<times> u32 list) list \<Rightarrow> (u64 \<times> u32 list) list" where
  "cancel_slot slot d = filter (\<lambda>(k, slots). slots \<noteq> [])
     (map (\<lambda>(k, slots). (k, filter (\<lambda>s. s \<noteq> slot) slots)) d)"

lemma sa_cancel_deferred_eq: "sa_cancel_deferred sa slot = sa\<lparr>sa_deferred := cancel_slot slot (sa_deferred sa)\<rparr>"
  by (simp add: sa_cancel_deferred_def cancel_slot_def)

lemma due_list_cancel: "due_list (cancel_slot slot d) = filter (\<lambda>(s, k). s \<noteq> slot) (due_list d)"
proof (induction d)
  case Nil
  then show ?case by (simp add: cancel_slot_def)
next
  case (Cons e d)
  obtain k slots where "e = (k, slots)" by (cases e)
  with Cons show ?case
    by (auto simp: cancel_slot_def filter_map comp_def filter_empty_conv)
qed

lemma keys_cancel: "fst ` set (cancel_slot slot d) \<subseteq> fst ` set d"
  by (force simp: cancel_slot_def)

lemma bt_ok_cancel: "bt_ok d \<Longrightarrow> bt_ok (cancel_slot slot d)"
  unfolding cancel_slot_def by (intro bt_ok_filter) (simp add: bt_ok_map_values)

lemma deferred_ok_cancel [simp]: "deferred_ok d \<Longrightarrow> deferred_ok (cancel_slot slot d)"
  unfolding deferred_ok_def due_list_cancel
  by (auto simp: bt_ok_cancel distinct_map_filter) (auto simp: cancel_slot_def)

text \<open>Scheduling: pushing under one key of the ordered map.\<close>

abbreviation push_slot :: "u32 \<Rightarrow> u32 list option \<Rightarrow> u32 list" where
  "push_slot slot \<equiv> (\<lambda>e. (case e of None \<Rightarrow> [] | Some slots \<Rightarrow> slots) @ [slot])"

lemma mset_due_list_push:
  "mset (due_list (bt_entry k (push_slot slot) d)) = add_mset (slot, k) (mset (due_list d))"
  by (induction k "push_slot slot" d rule: bt_entry.induct) auto

lemma deferred_ok_push:
  assumes "deferred_ok d" and "slot \<notin> fst ` set (due_list d)"
  shows "deferred_ok (bt_entry k (push_slot slot) d)"
proof -
  have "mset (map fst (due_list (bt_entry k (push_slot slot) d))) = mset (slot # map fst (due_list d))"
    by (simp add: mset_due_list_push)
  then have "distinct (map fst (due_list (bt_entry k (push_slot slot) d)))"
    using assms mset_eq_imp_distinct_iff [of _ "slot # map fst (due_list d)"]
    by (simp add: deferred_ok_def)
  moreover have "\<forall>(k, slots) \<in> set (bt_entry k (push_slot slot) d). slots \<noteq> []"
    using assms(1) unfolding deferred_ok_def
    by (induction k "push_slot slot" d rule: bt_entry.induct) (auto split: if_splits)
  ultimately show ?thesis using assms(1) by (simp add: deferred_ok_def)
qed

lemma set_due_list_push:
  "set (due_list (bt_entry k (push_slot slot) d)) = insert (slot, k) (set (due_list d))"
  using arg_cong [OF mset_due_list_push, of set_mset k slot d] by simp

lemma cancelled_notin: "slot \<notin> fst ` set (due_list (cancel_slot slot d))"
  by (auto simp: due_list_cancel)

lemma sa_schedule_alive_eq:
  "sa_schedule_alive sa slot t =
     sa\<lparr>sa_next_slot := (if sa_next_slot sa \<le> slot then slot + 1 else sa_next_slot sa),
        sa_deferred := bt_entry t (push_slot slot) (cancel_slot slot (sa_deferred sa))\<rparr>"
  by (simp add: sa_schedule_alive_def sa_cancel_deferred_eq Let_def)

text \<open>Activation.\<close>

definition due_entries :: "u64 \<Rightarrow> (u64 \<times> u32 list) list \<Rightarrow> (u64 \<times> u32 list) list" where
  "due_entries now d = filter (\<lambda>(k, _). k \<le> now) d"

lemma sa_activate_keys_eq:
  assumes "set es \<subseteq> set (sa_deferred sa)" and "distinct (map fst es)"
    and "distinct (map fst (sa_deferred sa))"
  shows "sa_activate_keys R (map fst es) sa acc =
    (acc @ concat (map snd es),
     sa\<lparr>sa_deferred := filter (\<lambda>(k, _). k \<notin> fst ` set es) (sa_deferred sa),
        sa_alive := fold (\<lambda>slot v. vb_insert R v slot) (concat (map snd es)) (sa_alive sa)\<rparr>)"
  using assms
proof (induction es arbitrary: sa acc)
  case Nil
  then show ?case by simp
next
  case (Cons e es)
  obtain k slots where e: "e = (k, slots)" by (cases e)
  have get: "hm_get (sa_deferred sa) k = Some slots"
    using Cons.prems e by simp
  define sa' where "sa' = sa\<lparr>sa_deferred := hm_remove k (sa_deferred sa),
      sa_alive := fold (\<lambda>slot v. vb_insert R v slot) slots (sa_alive sa)\<rparr>"
  have "set es \<subseteq> set (sa_deferred sa')"
    using Cons.prems e by (auto simp: sa'_def AList.delete_eq rev_image_eqI)
  moreover have "distinct (map fst (sa_deferred sa'))"
    using Cons.prems(3) by (simp add: sa'_def distinct_delete)
  ultimately have "sa_activate_keys R (map fst es) sa' (acc @ slots) =
     ((acc @ slots) @ concat (map snd es),
     sa'\<lparr>sa_deferred := filter (\<lambda>(k, _). k \<notin> fst ` set es) (sa_deferred sa'),
        sa_alive := fold (\<lambda>slot v. vb_insert R v slot) (concat (map snd es)) (sa_alive sa')\<rparr>)"
    using Cons.prems(2) by (intro Cons.IH) auto
  moreover have "(\<lambda>x. (case x of (k', _) \<Rightarrow> k \<noteq> k') \<and> (case x of (k', _) \<Rightarrow> k' \<notin> fst ` set es)) =
      (\<lambda>(k' :: u64, _ :: u32 list). k' \<noteq> k \<and> k' \<notin> fst ` set es)"
    by auto
  ultimately show ?case
    by (simp add: e get sa'_def AList.delete_eq)
qed

lemma sa_activate_due_eq:
  assumes "deferred_ok (sa_deferred sa)"
  shows "sa_activate_due R sa now =
    (map fst (due_list (due_entries now (sa_deferred sa))),
     sa\<lparr>sa_deferred := filter (\<lambda>(k, _). now < k) (sa_deferred sa),
        sa_alive := fold (\<lambda>slot v. vb_insert R v slot)
          (map fst (due_list (due_entries now (sa_deferred sa)))) (sa_alive sa)\<rparr>)"
proof -
  let ?d = "sa_deferred sa" and ?es = "due_entries now (sa_deferred sa)"
  have dist: "distinct (map fst ?d)"
    using assms bt_ok_distinct by (auto simp: deferred_ok_def)
  have slots: "concat (map snd es) = map fst (due_list es)" for es :: "(u64 \<times> u32 list) list"
    by (induction es) auto
  have "filter (\<lambda>(k, _). k \<notin> fst ` set ?es) ?d = filter (\<lambda>(k, _). now < k) ?d"
    by (rule filter_cong) (auto simp: due_entries_def image_iff not_less)
  then show ?thesis
    using sa_activate_keys_eq [of ?es sa R "[]"] dist
    by (simp add: sa_activate_due_def slots)
       (simp add: due_entries_def distinct_map_filter slots)
qed

lemma due_list_filter: "due_list (filter (\<lambda>(k, _). P k) d) = filter (\<lambda>(s, k). P k) (due_list d)"
  by (induction d) (auto simp: filter_map comp_def)

lemma deferred_ok_filter: "deferred_ok d \<Longrightarrow> deferred_ok (filter (\<lambda>(k, _). P k) d)"
  by (auto simp: deferred_ok_def due_list_filter distinct_map_filter)

text \<open>What the three operations do to the abstract map.\<close>

lemma due_map_cancel:
  assumes "deferred_ok (sa_deferred sa)"
  shows "due_map (sa_cancel_deferred sa s) = (due_map sa)(s := None)"
proof (rule map_eqI_Some)
  have "deferred_ok (sa_deferred (sa_cancel_deferred sa s))"
    using assms by (simp add: sa_cancel_deferred_eq)
  then show "due_map (sa_cancel_deferred sa s) x = Some k \<longleftrightarrow> ((due_map sa)(s := None)) x = Some k" for x k
    using assms by (simp add: due_map_iff) (auto simp: sa_cancel_deferred_eq due_list_cancel due_map_iff)
qed

lemma due_map_schedule:
  assumes "deferred_ok (sa_deferred sa)"
  shows "due_map (sa_schedule_alive sa s t) = (due_map sa)(s \<mapsto> t)"
proof (rule map_eqI_Some)
  have "deferred_ok (sa_deferred (sa_schedule_alive sa s t))"
    using assms by (simp add: sa_schedule_alive_eq deferred_ok_push cancelled_notin)
  then show "due_map (sa_schedule_alive sa s t) x = Some k \<longleftrightarrow> ((due_map sa)(s \<mapsto> t)) x = Some k" for x k
    using assms by (auto simp: due_map_iff) (auto simp: sa_schedule_alive_eq set_due_list_push due_list_cancel)
qed

lemma due_map_activate:
  assumes "deferred_ok (sa_deferred sa)" and "sa_activate_due R sa now = (xs, sa')"
  shows "distinct xs" and "set xs = {x. \<exists>k \<le> now. due_map sa x = Some k}"
    and "due_map sa' = due_map sa |` (- set xs)"
proof -
  let ?d = "sa_deferred sa"
  have xs: "xs = map fst (filter (\<lambda>(s, k). k \<le> now) (due_list ?d))"
    and d': "sa_deferred sa' = filter (\<lambda>(k, _). now < k) ?d"
    using assms(2) sa_activate_due_eq [OF assms(1), of R now]
    by (auto simp: due_entries_def due_list_filter)
  show "distinct xs"
    using assms(1) by (simp add: xs deferred_ok_def distinct_map_filter)
  show set: "set xs = {x. \<exists>k \<le> now. due_map sa x = Some k}"
    by (force simp: xs due_map_iff [OF assms(1)])
  have ok': "deferred_ok (sa_deferred sa')"
    using assms(1) by (simp add: d' deferred_ok_filter)
  show "due_map sa' = due_map sa |` (- set xs)"
  proof (rule map_eqI_Some)
    fix x k
    have "due_map sa' x = Some k \<longleftrightarrow> due_map sa x = Some k \<and> now < k"
      by (auto simp: due_map_iff [OF ok'] due_map_iff [OF assms(1)] d' due_list_filter)
    also have "\<dots> \<longleftrightarrow> (due_map sa |` (- set xs)) x = Some k"
      by (auto simp: restrict_map_def set not_le [symmetric])
    finally show "due_map sa' x = Some k \<longleftrightarrow> (due_map sa |` (- set xs)) x = Some k" .
  qed
qed


section \<open>Invariant and reachable states\<close>

text \<open>
  \<open>sa_reach\<close>: the allocators that a history of operations can produce, from an empty one.
  The rules carry the conditions under which the engine calls an operation: ids below
  \<open>u32::MAX\<close> (see \<open>allocate_max_wraps\<close> below), and only dead slots are recycled.
\<close>

definition sa_used :: "'b roaring_ops \<Rightarrow> 'b slot_allocator \<Rightarrow> u32 set" where
  "sa_used R sa = vb_bits R (sa_alive sa) \<union> fst ` set (due_list (sa_deferred sa)) \<union> bits R (sa_clean sa)"

definition sa_inv :: "'b roaring_ops \<Rightarrow> 'b slot_allocator \<Rightarrow> bool" where
  "sa_inv R sa \<longleftrightarrow> vb_wf R (sa_alive sa) \<and> deferred_ok (sa_deferred sa) \<and>
     (\<forall>s \<in> sa_used R sa. s < sa_next_slot sa)"

inductive sa_reach :: "'b roaring_ops \<Rightarrow> 'b slot_allocator \<Rightarrow> bool" for R where
  init: "sa_reach R (sa_new R)"
| allocate: "sa_reach R sa \<Longrightarrow> i \<noteq> u32_MAX \<Longrightarrow> sa_allocate R sa i = Inr (s, sa') \<Longrightarrow> sa_reach R sa'"
| allocate_next: "sa_reach R sa \<Longrightarrow> sa_next_slot sa \<noteq> u32_MAX \<Longrightarrow>
    sa_allocate_next R sa = (s, sa') \<Longrightarrow> sa_reach R sa'"
| delete: "sa_reach R sa \<Longrightarrow> sa_delete R sa s = Inr sa' \<Longrightarrow> sa_reach R sa'"
| insert_bulk: "sa_reach R sa \<Longrightarrow> u32_MAX \<notin> set xs \<Longrightarrow> sa_reach R (sa_alive_insert_bulk R sa xs)"
| or_bitmap: "sa_reach R sa \<Longrightarrow> u32_MAX \<notin> bits R b \<Longrightarrow> sa_reach R (sa_alive_or_bitmap R sa b)"
| remove_one: "sa_reach R sa \<Longrightarrow> sa_reach R (sa_alive_remove_one R sa s)"
| merge: "sa_reach R sa \<Longrightarrow> sa_reach R (sa_merge_alive R sa)"
| mark_clean: "sa_reach R sa \<Longrightarrow> sa_was_ever_allocated sa s \<Longrightarrow> \<not> sa_is_alive R sa s \<Longrightarrow>
    sa_reach R (sa_mark_clean R sa s)"
| schedule: "sa_reach R sa \<Longrightarrow> s \<noteq> u32_MAX \<Longrightarrow> sa_reach R (sa_schedule_alive sa s t)"
| cancel: "sa_reach R sa \<Longrightarrow> sa_reach R (sa_cancel_deferred sa s)"
| activate: "sa_reach R sa \<Longrightarrow> sa_activate_due R sa now = (xs, sa') \<Longrightarrow> sa_reach R sa'"

lemma max_seen_props:
  assumes "u32_MAX \<notin> set xs"
  shows "m \<le> fold (\<lambda>slot mx. if mx \<le> slot then slot + 1 else mx) xs (m :: u32) \<and>
    (\<forall>x \<in> set xs. x < fold (\<lambda>slot mx. if mx \<le> slot then slot + 1 else mx) xs m)"
  using assms
proof (induction xs arbitrary: m)
  case Nil
  then show ?case by simp
next
  case (Cons x xs)
  have "x \<noteq> u32_MAX" using Cons.prems by auto
  then have "m \<le> (if m \<le> x then x + 1 else m)" "x < (if m \<le> x then x + 1 else m)"
    using less_u32_succ [of x] by (auto simp: not_le intro: order.trans less_imp_le)
  moreover have "(if m \<le> x then x + 1 else m) \<le>
      fold (\<lambda>slot mx. if mx \<le> slot then slot + 1 else mx) xs (if m \<le> x then x + 1 else m)"
    using Cons by simp
  ultimately show ?case
    using Cons.IH [of "if m \<le> x then x + 1 else m"] Cons.prems by auto
qed

context roaring
begin

lemma vb_bits_fold_insert [simp]:
  "vb_bits R (fold (\<lambda>slot v. vb_insert R v slot) xs v) = set xs \<union> vb_bits R v"
  by (induction xs arbitrary: v) auto

lemma vb_wf_fold_insert [simp]:
  "vb_wf R v \<Longrightarrow> vb_wf R (fold (\<lambda>slot v. vb_insert R v slot) xs v)"
  by (induction xs arbitrary: v) auto

lemma sa_inv_new: "sa_inv R (sa_new R)"
  by (simp add: sa_inv_def sa_used_def sa_new_def deferred_ok_def)

text \<open>Every operation adds a few slots to the ones in use and does not lower the mark.\<close>

lemma sa_invI:
  assumes "sa_inv R sa" and "vb_wf R (sa_alive sa')" and "deferred_ok (sa_deferred sa')"
    and "sa_used R sa' \<subseteq> sa_used R sa \<union> X" and "sa_next_slot sa \<le> sa_next_slot sa'"
    and "\<And>x. x \<in> X \<Longrightarrow> x < sa_next_slot sa'"
  shows "sa_inv R sa'"
  unfolding sa_inv_def
proof (intro conjI ballI assms(2,3))
  fix s assume "s \<in> sa_used R sa'"
  with assms(4) consider "s \<in> sa_used R sa" | "s \<in> X" by blast
  then show "s < sa_next_slot sa'"
  proof cases
    case 1
    then have "s < sa_next_slot sa" using assms(1) by (simp add: sa_inv_def)
    from less_le_trans [OF this assms(5)] show ?thesis .
  next
    case 2
    then show ?thesis by (rule assms(6))
  qed
qed

lemma sa_invD:
  assumes "sa_inv R sa"
  shows "vb_wf R (sa_alive sa)" and "deferred_ok (sa_deferred sa)"
    and "s \<in> sa_used R sa \<Longrightarrow> s < sa_next_slot sa"
  using assms by (auto simp: sa_inv_def)

text \<open>The mark after a slot at or above it was taken.\<close>

lemma bump_mark:
  fixes s m :: u32
  assumes "s \<noteq> u32_MAX"
  shows "m \<le> (if m \<le> s then s + 1 else m)" and "s < (if m \<le> s then s + 1 else m)"
  using less_u32_succ [OF assms, of m] less_u32_succ [OF assms, of s] by (auto simp: less_imp_le)

lemma sa_inv_allocate:
  assumes "sa_inv R sa" and "i \<noteq> u32_MAX" and "sa_allocate R sa i = Inr (s, sa')"
  shows "sa_inv R sa'"
proof -
  have sa': "sa' = sa\<lparr>sa_next_slot := (if sa_next_slot sa \<le> i then i + 1 else sa_next_slot sa),
      sa_clean := rb_remove R (sa_clean sa) i, sa_alive := vb_insert R (sa_alive sa) i\<rparr>"
    using assms(3) by (auto simp: sa_allocate_def Let_def)
  show ?thesis
    using sa_invD [OF assms(1)] bump_mark [OF assms(2), of "sa_next_slot sa"]
    by (intro sa_invI [OF assms(1), of _ "{i}"]) (auto simp: sa' sa_used_def)
qed

lemma sa_inv_allocate_next:
  assumes "sa_inv R sa" and "sa_next_slot sa \<noteq> u32_MAX" and "sa_allocate_next R sa = (s, sa')"
  shows "sa_inv R sa'"
proof (cases "rb_min R (sa_clean sa)")
  case None
  then have sa': "sa' = sa\<lparr>sa_next_slot := sa_next_slot sa + 1,
      sa_alive := vb_insert R (sa_alive sa) (sa_next_slot sa)\<rparr>"
    using assms(3) by (auto simp: sa_allocate_next_def Let_def)
  show ?thesis
    using sa_invD [OF assms(1)] bump_mark [OF assms(2), of "sa_next_slot sa"]
    by (intro sa_invI [OF assms(1), of _ "{sa_next_slot sa}"]) (auto simp: sa' sa_used_def)
next
  case (Some r)
  then have "r \<in> bits R (sa_clean sa)"
    by (rule min_in)
  then show ?thesis
    using assms(3) Some sa_invD [OF assms(1)]
    by (intro sa_invI [OF assms(1), of _ "{}"]) (auto simp: sa_allocate_next_def sa_used_def)
qed

lemma sa_inv_shrink:
  "sa_inv R sa \<Longrightarrow> sa_delete R sa s = Inr sa' \<Longrightarrow> sa_inv R sa'"
  "sa_inv R sa \<Longrightarrow> sa_inv R (sa_alive_remove_one R sa s)"
  "sa_inv R sa \<Longrightarrow> sa_inv R (sa_merge_alive R sa)"
  "sa_inv R sa \<Longrightarrow> sa_inv R (sa_cancel_deferred sa s)"
  by (rule sa_invI [of sa _ "{}"]; auto simp: sa_inv_def sa_used_def sa_delete_def sa_alive_remove_one_def
      sa_merge_alive_def sa_cancel_deferred_eq due_list_cancel split: if_splits)+

lemma sa_inv_mark_clean:
  "sa_inv R sa \<Longrightarrow> sa_was_ever_allocated sa s \<Longrightarrow> sa_inv R (sa_mark_clean R sa s)"
  by (rule sa_invI [of sa _ "{s}"])
     (auto simp: sa_inv_def sa_used_def sa_mark_clean_def sa_was_ever_allocated_def)

lemma sa_inv_insert_bulk:
  assumes "sa_inv R sa" and "u32_MAX \<notin> set xs"
  shows "sa_inv R (sa_alive_insert_bulk R sa xs)"
proof -
  let ?m = "fold (\<lambda>slot mx. if mx \<le> slot then slot + 1 else mx) xs (sa_next_slot sa)"
  have eqs: "sa_next_slot (sa_alive_insert_bulk R sa xs) = ?m"
    "sa_alive (sa_alive_insert_bulk R sa xs) = vb_insert_bulk R (sa_alive sa) xs"
    "sa_deferred (sa_alive_insert_bulk R sa xs) = sa_deferred sa"
    "sa_clean (sa_alive_insert_bulk R sa xs) = sa_clean sa"
    using max_seen_props [OF assms(2), of "sa_next_slot sa"]
    by (auto simp: sa_alive_insert_bulk_def Let_def)
  show ?thesis
    using sa_invD [OF assms(1)] max_seen_props [OF assms(2), of "sa_next_slot sa"]
    by (intro sa_invI [OF assms(1), of _ "set xs"]) (auto simp: eqs sa_used_def)
qed

lemma sa_inv_or_bitmap:
  assumes "sa_inv R sa" and "u32_MAX \<notin> bits R b"
  shows "sa_inv R (sa_alive_or_bitmap R sa b)"
proof (cases "bits R b = {}")
  case True
  then show ?thesis
    using sa_invD [OF assms(1)]
    by (intro sa_invI [OF assms(1), of _ "{}"])
       (auto simp: sa_used_def sa_alive_or_bitmap_def max_bits vb_bits_or_into_base Let_def)
next
  case False
  let ?M = "Max (bits R b)"
  have "?M \<in> bits R b" using False by (simp add: Max_in)
  then have "?M \<noteq> u32_MAX" using assms(2) by metis
  then have lt: "x < ?M + 1" if "x \<in> bits R b" for x
    using that by (simp add: less_u32_succ)
  show ?thesis
  proof (rule sa_invI [OF assms(1), of _ "bits R b"])
    show "x < sa_next_slot (sa_alive_or_bitmap R sa b)" if "x \<in> bits R b" for x
      using lt [OF that] False
      by (auto simp: sa_alive_or_bitmap_def max_bits Let_def not_less intro: less_le_trans)
  qed (use False sa_invD [OF assms(1)] in
    \<open>auto simp: sa_used_def sa_alive_or_bitmap_def max_bits vb_bits_or_into_base Let_def less_imp_le\<close>)
qed

lemma sa_inv_schedule:
  assumes "sa_inv R sa" and "s \<noteq> u32_MAX"
  shows "sa_inv R (sa_schedule_alive sa s t)"
proof (rule sa_invI [OF assms(1), of _ "{s}"])
  show "deferred_ok (sa_deferred (sa_schedule_alive sa s t))"
    using sa_invD(2) [OF assms(1)]
    by (simp add: sa_schedule_alive_eq deferred_ok_push cancelled_notin)
qed (use sa_invD [OF assms(1)] bump_mark [OF assms(2), of "sa_next_slot sa"] in
    \<open>auto simp: sa_schedule_alive_eq sa_used_def set_due_list_push due_list_cancel\<close>)

lemma sa_inv_activate:
  assumes "sa_inv R sa" and "sa_activate_due R sa now = (xs, sa')"
  shows "sa_inv R sa'"
proof (rule sa_invI [OF assms(1), of _ "{}"])
  note eq = sa_activate_due_eq [OF sa_invD(2) [OF assms(1)], of R now]
  show "deferred_ok (sa_deferred sa')"
    using sa_invD(2) [OF assms(1)] assms(2) eq by (auto simp: deferred_ok_filter)
  show "sa_used R sa' \<subseteq> sa_used R sa \<union> {}"
    using assms(2) unfolding eq sa_used_def due_entries_def due_list_filter
    by (auto simp: due_list_filter)
  show "vb_wf R (sa_alive sa')" "sa_next_slot sa \<le> sa_next_slot sa'"
    using sa_invD(1) [OF assms(1)] assms(2) eq by auto
qed simp

lemma sa_reach_inv: "sa_reach R sa \<Longrightarrow> sa_inv R sa"
  by (induction rule: sa_reach.induct)
     (auto intro: sa_inv_new sa_inv_allocate sa_inv_allocate_next sa_inv_shrink
       sa_inv_insert_bulk sa_inv_or_bitmap sa_inv_mark_clean sa_inv_schedule sa_inv_activate)

end

section \<open>Properties\<close>



text \<open>
  C28: the ordered map of activation lists implements a map from slots to activation times.
  Scheduling sets a slot's one time (a new date replaces the old one), cancelling removes
  the slot, and \<open>activate_due\<close> returns each due slot once, sets exactly those alive, and
  leaves exactly the later ones scheduled.
\<close>

theorem deferred_refines_map:
  assumes "roaring R" and "deferred_ok (sa_deferred sa)"
  shows "due_map (sa_schedule_alive sa s t) = (due_map sa)(s \<mapsto> t) \<and>
    due_map (sa_cancel_deferred sa s) = (due_map sa)(s := None) \<and>
    (let (xs, sa') = sa_activate_due R sa now in
       distinct xs \<and> set xs = {x. \<exists>k \<le> now. due_map sa x = Some k} \<and>
       vb_bits R (sa_alive sa') = vb_bits R (sa_alive sa) \<union> set xs \<and>
       due_map sa' = due_map sa |` (- set xs))"
proof -
  obtain xs sa' where act: "sa_activate_due R sa now = (xs, sa')" by fastforce
  moreover have "vb_bits R (sa_alive sa') = vb_bits R (sa_alive sa) \<union> set xs"
    using act sa_activate_due_eq [OF assms(2), of R now] roaring.vb_bits_fold_insert [OF assms(1)]
    by auto
  ultimately show ?thesis
    using due_map_activate [OF assms(2) act] due_map_schedule [OF assms(2)] due_map_cancel [OF assms(2)]
    by simp
qed

theorem deferred_refines_map_witness:
  "(let sa = (sa_new set_roaring)\<lparr>sa_deferred := [(70, [3]), (90, [8])]\<rparr>;
        (xs, sa') = sa_activate_due set_roaring sa 80
    in due_map (sa_schedule_alive sa 8 10) = [8 \<mapsto> 90, 3 \<mapsto> 70, 8 \<mapsto> 10] \<and>
       3 \<in> set xs \<and> 8 \<notin> set xs \<and> due_map sa' 3 = None \<and> due_map sa' 8 = Some 90)"
proof -
  let ?sa = "(sa_new set_roaring)\<lparr>sa_deferred := [(70, [3]), (90, [8])]\<rparr>"
  have ok: "deferred_ok (sa_deferred ?sa)" by (simp add: deferred_ok_def)
  have map: "due_map ?sa = [8 \<mapsto> 90, 3 \<mapsto> 70]" by (simp add: due_map_def)
  obtain xs sa' where act: "sa_activate_due set_roaring ?sa 80 = (xs, sa')" by fastforce
  note claim = deferred_refines_map [OF sr.roaring_axioms ok, of 8 10 80, unfolded map]
  have "set xs = {x. \<exists>k \<le> (80 :: u64). [8 \<mapsto> 90, 3 \<mapsto> 70] x = Some k}"
    "due_map sa' = [8 \<mapsto> 90, 3 \<mapsto> 70] |` (- set xs)"
    "due_map (sa_schedule_alive ?sa 8 10) = [8 \<mapsto> 90, 3 \<mapsto> 70, 8 \<mapsto> 10]"
    using claim act by (auto simp only: Let_def prod.case)
  moreover from this have "3 \<in> set xs" "8 \<notin> set xs" by simp_all
  ultimately show ?thesis by (simp add: act Let_def)
qed

text \<open>
  The two ends of the id range where the allocator does not keep its promises: allocating
  \<open>u32::MAX\<close> wraps the high-water mark to 0, and activation does not take a slot out of the
  clean bitmap, so \<open>allocate_next\<close> can hand out a slot that is alive.
\<close>

lemma allocate_max_wraps:
  "\<exists>sa'. sa_allocate R sa u32_MAX = Inr (u32_MAX, sa') \<and> sa_next_slot sa' = 0"
  by (simp add: sa_allocate_def Let_def u32_MAX_def)

lemma activated_slot_reallocated:
  "(let sa = fst (snd (sa_allocate_next set_roaring (sa_new set_roaring)), 0::nat);
        sa = sa_mark_clean set_roaring (sa_alive_remove_one set_roaring sa 0) 0;
        sa = snd (sa_activate_due set_roaring (sa_schedule_alive sa 0 50) 60)
    in vb_bits set_roaring (sa_alive sa) = {0} \<and> fst (sa_allocate_next set_roaring sa) = 0)"
  by (simp add: Let_def sa_new_def sa_allocate_next_def sa_mark_clean_def sa_alive_remove_one_def
      sa_schedule_alive_def sa_activate_due_def sa_cancel_deferred_def)

end
