(* ===== verification/Dictionary.thy ===== *)
theory Dictionary
  imports Prelude
begin

text \<open>
  Per-field string dictionaries (\<open>dictionary.rs\<close>): a concurrent map from lower-cased strings
  to integer keys, assigned on first use.  The two \<open>DashMap\<close>s are association lists, each
  call on them one atomic step.  \<open>fd_get_or_insert\<close> is the method as one caller runs it;
  \<open>fd_thread_step\<close> cuts it at its accesses to shared state, so that several callers
  interleave.  Reading and writing the JSON file is not modelled.

  Strings are lists of bytes.  \<open>to_lowercase\<close> folds the ASCII letters and leaves other bytes
  alone, so the model speaks of strings without upper-case letters outside ASCII.
\<close>

definition to_lowercase :: "string \<Rightarrow> string" where
  "to_lowercase s =
     map (\<lambda>c. let n = (of_char c :: nat) in if 65 \<le> n \<and> n \<le> 90 then char_of (n + 32) else c) s"

record field_dictionary =
  fd_map :: "(string, i64) hashmap"
  fd_originals :: "(string, string) hashmap"
  fd_next_key :: i64
  fd_dirty :: bool

record dictionary_snapshot =
  ds_forward :: "(string, i64) hashmap"
  ds_originals :: "(string, string) hashmap"

definition fd_new :: field_dictionary where
  "fd_new = \<lparr>fd_map = [], fd_originals = [], fd_next_key = 1, fd_dirty = False\<rparr>"

definition fd_from_snapshot :: "dictionary_snapshot \<Rightarrow> field_dictionary" where
  "fd_from_snapshot snapshot =
     (let (m, max_key) =
            fold (\<lambda>(lower, key) (m, max_key).
                (hm_insert lower key m, if max_key <s key then key else max_key))
              (ds_forward snapshot) ([], 0);
          originals = fold (\<lambda>(lower, original) os. hm_insert lower original os) (ds_originals snapshot) []
      in \<lparr>fd_map = m, fd_originals = originals, fd_next_key = max_key + 1, fd_dirty = False\<rparr>)"

definition fd_get_or_insert :: "field_dictionary \<Rightarrow> string \<Rightarrow> i64 \<times> field_dictionary" where
  "fd_get_or_insert d v =
     (let lower = to_lowercase v
      in case hm_get (fd_map d) lower of
           Some key \<Rightarrow> (key, d)
         | None \<Rightarrow>
             let key = fd_next_key d;
                 d = d\<lparr>fd_map := hm_insert lower key (fd_map d), fd_next_key := fd_next_key d + 1\<rparr>;
                 d = d\<lparr>fd_dirty := True\<rparr>;
                 d = (case hm_get (fd_originals d) lower of
                        None \<Rightarrow> d\<lparr>fd_originals := hm_insert lower v (fd_originals d)\<rparr>
                      | Some _ \<Rightarrow> d)
             in (key, d))"

definition fd_get :: "field_dictionary \<Rightarrow> string \<Rightarrow> i64 option" where
  "fd_get d v = hm_get (fd_map d) (to_lowercase v)"

definition fd_clear_dirty :: "field_dictionary \<Rightarrow> field_dictionary" where
  "fd_clear_dirty d = d\<lparr>fd_dirty := False\<rparr>"

definition fd_snapshot :: "field_dictionary \<Rightarrow> dictionary_snapshot" where
  "fd_snapshot d =
     \<lparr>ds_forward = fold (\<lambda>(k, v) m. hm_insert k v m) (fd_map d) [],
      ds_originals = fold (\<lambda>(k, v) m. hm_insert k v m) (fd_originals d) []\<rparr>"

definition ds_to_string_map :: "dictionary_snapshot \<Rightarrow> (string, i64) hashmap" where
  "ds_to_string_map s = ds_forward s"

definition ds_to_reverse_map :: "dictionary_snapshot \<Rightarrow> (i64, string) hashmap" where
  "ds_to_reverse_map s =
     fold (\<lambda>(lower, key) rev.
         case hm_get (ds_originals s) lower of
           Some original \<Rightarrow> hm_insert key original rev
         | None \<Rightarrow> hm_insert key lower rev)
       (ds_forward s) []"


section \<open>Concurrent callers\<close>

text \<open>
  A caller of \<open>get_or_insert\<close>: before the first lookup, before the \<open>entry\<close> call, before the
  store to the dirty flag, before the \<open>entry\<close> call on the original spellings, returned.
\<close>

datatype fd_thread =
    Looking string
  | Inserting string
  | Marking string i64 bool
  | Storing string i64
  | Got string i64

fun fd_thread_step :: "field_dictionary \<Rightarrow> fd_thread \<Rightarrow> (field_dictionary \<times> fd_thread) option" where
  "fd_thread_step d (Looking v) =
     (case hm_get (fd_map d) (to_lowercase v) of
        Some key \<Rightarrow> Some (d, Got v key)
      | None \<Rightarrow> Some (d, Inserting v))"
| "fd_thread_step d (Inserting v) =
     (case hm_get (fd_map d) (to_lowercase v) of
        Some key \<Rightarrow> Some (d, Marking v key False)
      | None \<Rightarrow>
          Some (d\<lparr>fd_map := hm_insert (to_lowercase v) (fd_next_key d) (fd_map d),
                  fd_next_key := fd_next_key d + 1\<rparr>, Marking v (fd_next_key d) True))"
| "fd_thread_step d (Marking v key inserted) =
     Some (if inserted then d\<lparr>fd_dirty := True\<rparr> else d, Storing v key)"
| "fd_thread_step d (Storing v key) =
     (case hm_get (fd_originals d) (to_lowercase v) of
        None \<Rightarrow> Some (d\<lparr>fd_originals := hm_insert (to_lowercase v) v (fd_originals d)\<rparr>, Got v key)
      | Some _ \<Rightarrow> Some (d, Got v key))"
| "fd_thread_step d (Got v key) = None"

inductive fd_step :: "field_dictionary \<times> fd_thread list \<Rightarrow> field_dictionary \<times> fd_thread list \<Rightarrow> bool" where
  "i < length ts \<Longrightarrow> fd_thread_step d (ts ! i) = Some (d', t') \<Longrightarrow> fd_step (d, ts) (d', ts[i := t'])"

inductive_cases fd_stepE: "fd_step (d, ts) s'"

text \<open>A caller that runs alone does what \<open>fd_get_or_insert\<close> says.\<close>

lemma get_or_insert_alone:
  "fd_step\<^sup>*\<^sup>* (d, [Looking v])
     (snd (fd_get_or_insert d v), [Got v (fst (fd_get_or_insert d v))])"
proof -
  have step: "fd_step (d, [t]) (d', [t'])" if "fd_thread_step d t = Some (d', t')" for d t d' t'
    using fd_step.intros [of 0 "[t]" d d' t'] that by simp
  show ?thesis
  proof (cases "hm_get (fd_map d) (to_lowercase v)")
    case (Some key)
    then show ?thesis by (auto intro!: r_into_rtranclp step simp: fd_get_or_insert_def)
  next
    case None
    let ?d1 = "d\<lparr>fd_map := hm_insert (to_lowercase v) (fd_next_key d) (fd_map d),
                 fd_next_key := fd_next_key d + 1\<rparr>"
    have "fd_step (d, [Looking v]) (d, [Inserting v])"
      by (rule step) (simp add: None)
    moreover have "fd_step (d, [Inserting v]) (?d1, [Marking v (fd_next_key d) True])"
      by (rule step) (simp add: None)
    moreover have "fd_step (?d1, [Marking v (fd_next_key d) True])
        (?d1\<lparr>fd_dirty := True\<rparr>, [Storing v (fd_next_key d)])"
      by (rule step) simp
    moreover have "fd_step (?d1\<lparr>fd_dirty := True\<rparr>, [Storing v (fd_next_key d)])
        (snd (fd_get_or_insert d v), [Got v (fst (fd_get_or_insert d v))])"
      by (rule step) (simp add: None fd_get_or_insert_def Let_def split: option.splits)
    ultimately show ?thesis by (meson converse_rtranclp_into_rtranclp r_into_rtranclp)
  qed
qed


section \<open>Invariant\<close>

text \<open>Keys are positive, below the next key, and no two strings share one.\<close>

definition fd_ok :: "field_dictionary \<Rightarrow> bool" where
  "fd_ok d \<longleftrightarrow> 0 < sint (fd_next_key d) \<and> hm_ok (fd_map d) \<and> hm_ok (fd_originals d) \<and>
     (\<forall>l k. hm_get (fd_map d) l = Some k \<longrightarrow> 0 < sint k \<and> sint k < sint (fd_next_key d)) \<and>
     (\<forall>l l' k. hm_get (fd_map d) l = Some k \<longrightarrow> hm_get (fd_map d) l' = Some k \<longrightarrow> l = l')"

fun fd_pending :: "fd_thread \<Rightarrow> bool" where
  "fd_pending (Looking _) = True"
| "fd_pending (Inserting _) = True"
| "fd_pending _ = False"

fun fd_thread_ok :: "field_dictionary \<Rightarrow> fd_thread \<Rightarrow> bool" where
  "fd_thread_ok d (Marking v k _) \<longleftrightarrow> hm_get (fd_map d) (to_lowercase v) = Some k"
| "fd_thread_ok d (Storing v k) \<longleftrightarrow> hm_get (fd_map d) (to_lowercase v) = Some k"
| "fd_thread_ok d (Got v k) \<longleftrightarrow> hm_get (fd_map d) (to_lowercase v) = Some k"
| "fd_thread_ok d _ \<longleftrightarrow> True"

definition fd_budget :: "fd_thread list \<Rightarrow> nat" where
  "fd_budget ts = length (filter fd_pending ts)"

text \<open>The invariant of a run that started from the map \<open>m\<close>: every caller can still insert once
  before the counter overflows.\<close>

definition fd_inv :: "(string \<rightharpoonup> i64) \<Rightarrow> field_dictionary \<times> fd_thread list \<Rightarrow> bool" where
  "fd_inv m = (\<lambda>(d, ts). fd_ok d \<and> m \<subseteq>\<^sub>m hm_get (fd_map d) \<and> list_all (fd_thread_ok d) ts \<and>
     sint (fd_next_key d) + int (fd_budget ts) < 2 ^ 63)"

lemma sint_add_1: "sint (x::i64) + 1 < 2 ^ 63 \<Longrightarrow> sint (x + 1) = sint x + 1"
  using sint_ge [of x] by (simp add: signed_word_eqI signed_take_bit_int_eq_self sint_word_ariths(1))

lemma fd_budget_update:
  assumes "i < length ts"
  shows "int (fd_budget (ts[i := t])) =
    int (fd_budget ts) - of_bool (fd_pending (ts ! i)) + of_bool (fd_pending t)"
proof -
  have "fd_budget ts = fd_budget (take i ts) + of_bool (fd_pending (ts ! i)) + fd_budget (drop (Suc i) ts)"
    by (subst id_take_nth_drop [OF assms]) (simp add: fd_budget_def)
  moreover have "fd_budget (ts[i := t]) =
      fd_budget (take i ts) + of_bool (fd_pending t) + fd_budget (drop (Suc i) ts)"
    using assms by (simp add: upd_conv_take_nth_drop fd_budget_def)
  ultimately show ?thesis by simp
qed

lemma fd_ok_insert:
  assumes "fd_ok d" and "hm_get (fd_map d) l = None" and "sint (fd_next_key d) + 1 < 2 ^ 63"
  shows "fd_ok (d\<lparr>fd_map := hm_insert l (fd_next_key d) (fd_map d), fd_next_key := fd_next_key d + 1\<rparr>)"
proof -
  have fresh: "hm_get (fd_map d) l' \<noteq> Some (fd_next_key d)" for l'
    using assms(1) unfolding fd_ok_def by fastforce
  have bound: "0 < sint k \<and> sint k \<le> sint (fd_next_key d)"
    if "hm_get (fd_map d) l' = Some k" for l' k
    using assms(1) that unfolding fd_ok_def by fastforce
  have inj: "l1 = l2" if "hm_get (fd_map d) l1 = Some k" "hm_get (fd_map d) l2 = Some k" for l1 l2 k
    using assms(1) that unfolding fd_ok_def by blast
  have pos: "0 < sint (fd_next_key d)" "hm_ok (fd_map d)" "hm_ok (fd_originals d)"
    using assms(1) by (simp_all add: fd_ok_def)
  show ?thesis
    unfolding fd_ok_def using pos
    by (auto simp: sint_add_1 [OF assms(3)] fresh fresh [symmetric] bound split: if_splits intro: inj)
qed

lemma fd_thread_ok_mono:
  "fd_thread_ok d t \<Longrightarrow> hm_get (fd_map d) \<subseteq>\<^sub>m hm_get (fd_map d') \<Longrightarrow> fd_thread_ok d' t"
  by (cases t) (auto simp: map_le_def dom_def)

text \<open>One step of one caller: the map only grows, and the caller's state stays consistent.\<close>

lemma fd_thread_step_props:
  assumes "fd_thread_step d t = Some (d', t')" and "fd_ok d" and "fd_thread_ok d t"
    and "fd_pending t \<Longrightarrow> sint (fd_next_key d) + 1 < 2 ^ 63"
  shows "fd_ok d'" and "hm_get (fd_map d) \<subseteq>\<^sub>m hm_get (fd_map d')" and "fd_thread_ok d' t'"
    and "sint (fd_next_key d') + of_bool (fd_pending t') \<le> sint (fd_next_key d) + of_bool (fd_pending t)"
proof -
  have "fd_ok d' \<and> hm_get (fd_map d) \<subseteq>\<^sub>m hm_get (fd_map d') \<and> fd_thread_ok d' t' \<and>
    sint (fd_next_key d') + of_bool (fd_pending t') \<le> sint (fd_next_key d) + of_bool (fd_pending t)"
  proof (cases t)
    case (Inserting v)
    then show ?thesis
      using assms fd_ok_insert [OF assms(2)]
      by (auto simp: sint_add_1 map_le_def split: option.splits)
  qed (use assms in \<open>auto simp: fd_ok_def split: option.splits if_splits\<close>)
  then show "fd_ok d'" "hm_get (fd_map d) \<subseteq>\<^sub>m hm_get (fd_map d')" "fd_thread_ok d' t'"
    "sint (fd_next_key d') + of_bool (fd_pending t') \<le> sint (fd_next_key d) + of_bool (fd_pending t)"
    by simp_all
qed

lemma fd_step_inv:
  assumes "fd_step s s'" and "fd_inv m s"
  shows "fd_inv m s'"
  using assms
proof (induction rule: fd_step.induct)
  case (1 i ts d d' t')
  then have inv: "fd_ok d" "m \<subseteq>\<^sub>m hm_get (fd_map d)" "list_all (fd_thread_ok d) ts"
      "sint (fd_next_key d) + int (fd_budget ts) < 2 ^ 63"
    by (simp_all add: fd_inv_def)
  have "0 < fd_budget ts" if "fd_pending (ts ! i)"
    using that 1(1) by (auto simp: fd_budget_def filter_empty_conv)
  then have room: "fd_pending (ts ! i) \<Longrightarrow> sint (fd_next_key d) + 1 < 2 ^ 63"
    using inv(4) by fastforce
  have ok: "fd_thread_ok d (ts ! i)" using inv(3) 1(1) by (simp add: list_all_length)
  note props = fd_thread_step_props [OF 1(2) inv(1) ok room]
  have "list_all (fd_thread_ok d') (ts[i := t'])"
    using inv(3) props(2,3) 1(1)
    by (auto simp: list_all_length nth_list_update intro: fd_thread_ok_mono)
  moreover have "sint (fd_next_key d') + int (fd_budget (ts[i := t'])) < 2 ^ 63"
    using inv(4) props(4) by (simp add: fd_budget_update [OF 1(1)])
  ultimately show ?case
    using props(1,2) inv(2) map_le_trans by (auto simp: fd_inv_def)
qed

lemma fd_steps_inv: "fd_step\<^sup>*\<^sup>* s s' \<Longrightarrow> fd_inv m s \<Longrightarrow> fd_inv m s'"
  by (induction rule: rtranclp_induct) (auto intro: fd_step_inv)


section \<open>Snapshots\<close>

lemma hm_get_fold_insert:
  assumes "hm_ok xs"
  shows "hm_get (fold (\<lambda>(k, v) m. hm_insert k v m) xs m) = hm_get m ++ hm_get xs"
  using assms
proof (induction xs arbitrary: m)
  case Nil
  then show ?case by simp
next
  case (Cons a xs)
  obtain k v where a: "a = (k, v)" by (cases a)
  with Cons.prems have "hm_get xs k = None" "hm_ok xs" by (auto simp: hm_ok_def map_of_eq_None_iff)
  with Cons.IH a show ?case by (auto simp: map_add_def fun_eq_iff split: option.splits)
qed

lemma hm_ok_fold_insert: "hm_ok m \<Longrightarrow> hm_ok (fold (\<lambda>(k, v) m. hm_insert k v m) xs m)"
  by (induction xs arbitrary: m) auto

lemma fold_pair:
  "fold (\<lambda>(l, k) (m, mx). (f l k m, g k mx)) xs (m, mx) =
     (fold (\<lambda>(l, k) m. f l k m) xs m, fold (\<lambda>(l, k) mx. g k mx) xs mx)"
  by (induction xs arbitrary: m mx) auto

lemma fold_max_key:
  fixes xs :: "('k \<times> i64) list"
  defines "r x \<equiv> fold (\<lambda>(l, k) mx. if mx <s k then k else mx) xs x"
  shows "r x = x \<or> r x \<in> snd ` set xs" and "sint x \<le> sint (r x)"
    and "k \<in> snd ` set xs \<Longrightarrow> sint k \<le> sint (r x)"
proof -
  have "(r x = x \<or> r x \<in> snd ` set xs) \<and> sint x \<le> sint (r x) \<and>
      (\<forall>k \<in> snd ` set xs. sint k \<le> sint (r x))"
    unfolding r_def
  proof (induction xs arbitrary: x)
    case Nil
    then show ?case by simp
  next
    case (Cons a xs)
    obtain l k where "a = (l, k)" by (cases a)
    with Cons [of "if x <s k then k else x"] show ?case
      by (cases "x <s k") (auto simp: word_sless_alt)
  qed
  then show "r x = x \<or> r x \<in> snd ` set xs" "sint x \<le> sint (r x)"
    "k \<in> snd ` set xs \<Longrightarrow> sint k \<le> sint (r x)" by auto
qed

lemma fd_snapshot_get:
  assumes "fd_ok d"
  shows "hm_get (ds_forward (fd_snapshot d)) = hm_get (fd_map d)"
    and "hm_get (ds_originals (fd_snapshot d)) = hm_get (fd_originals d)"
    and "hm_ok (ds_forward (fd_snapshot d))" and "hm_ok (ds_originals (fd_snapshot d))"
  using assms by (simp_all add: fd_ok_def fd_snapshot_def hm_get_fold_insert hm_ok_fold_insert)

lemma fd_from_snapshot_simps:
  "fd_map (fd_from_snapshot s) = fold (\<lambda>(l, k) m. hm_insert l k m) (ds_forward s) []"
  "fd_originals (fd_from_snapshot s) = fold (\<lambda>(l, k) m. hm_insert l k m) (ds_originals s) []"
  "fd_next_key (fd_from_snapshot s) =
     fold (\<lambda>(l, k) mx. if mx <s k then k else mx) (ds_forward s) 0 + 1"
  by (simp_all add: fd_from_snapshot_def fold_pair Let_def)

lemma fd_restored:
  assumes "fd_ok d"
  shows "hm_get (fd_map (fd_from_snapshot (fd_snapshot d))) = hm_get (fd_map d)"
    and "hm_get (fd_originals (fd_from_snapshot (fd_snapshot d))) = hm_get (fd_originals d)"
    and "fd_ok (fd_from_snapshot (fd_snapshot d))"
    and "sint (fd_next_key (fd_from_snapshot (fd_snapshot d))) \<le> sint (fd_next_key d)"
proof -
  let ?s = "fd_snapshot d" and ?d = "fd_from_snapshot (fd_snapshot d)"
  let ?mx = "fold (\<lambda>(l, k) mx. if mx <s k then k else mx) (ds_forward ?s) 0"
  note snap = fd_snapshot_get [OF assms]
  show m: "hm_get (fd_map ?d) = hm_get (fd_map d)"
    by (simp add: fd_from_snapshot_simps hm_get_fold_insert snap)
  show "hm_get (fd_originals ?d) = hm_get (fd_originals d)"
    by (simp add: fd_from_snapshot_simps hm_get_fold_insert snap)
  have key: "k \<in> snd ` set (ds_forward ?s) \<longleftrightarrow> (\<exists>l. hm_get (fd_map d) l = Some k)" for k
    using hm_get_in [OF snap(3), of _ k] unfolding snap(1) by force
  have "?mx = 0 \<or> (\<exists>l. hm_get (fd_map d) l = Some ?mx)"
    using fold_max_key(1) [of "ds_forward ?s" 0] key by auto
  then have lt: "sint ?mx < sint (fd_next_key d)"
  proof
    assume "?mx = 0"
    with assms show ?thesis by (simp add: fd_ok_def)
  next
    assume "\<exists>l. hm_get (fd_map d) l = Some ?mx"
    with assms show ?thesis unfolding fd_ok_def by blast
  qed
  then have nxt: "sint (fd_next_key ?d) = sint ?mx + 1"
    using sint_less [of "fd_next_key d"] by (simp add: fd_from_snapshot_simps sint_add_1)
  with lt show "sint (fd_next_key ?d) \<le> sint (fd_next_key d)" by simp
  have "0 \<le> sint ?mx" using fold_max_key(2) [of 0 "ds_forward ?s"] by simp
  moreover have "sint k \<le> sint ?mx" if "hm_get (fd_map d) l = Some k" for l k
    using fold_max_key(3) [of k "ds_forward ?s" 0] key that by auto
  moreover have "hm_ok (fd_map ?d)" "hm_ok (fd_originals ?d)"
    by (simp_all add: fd_from_snapshot_simps hm_ok_fold_insert)
  ultimately show "fd_ok ?d"
    using assms unfolding fd_ok_def m nxt by force
qed

lemma fd_assigned_fresh:
  assumes "fd_ok d" and "fd_get d v = None" and "fd_get d w = Some k"
  shows "fst (fd_get_or_insert d v) \<noteq> k"
  using assms by (fastforce simp: fd_get_def fd_get_or_insert_def fd_ok_def Let_def)

text \<open>
  C29: concurrent callers agree on keys.  However the accesses of any number of concurrent
  \<open>get_or_insert\<close> calls interleave, a finished call has returned the key that is in the map,
  two finished calls have the same key exactly if their strings are equal up to case, and no
  key assigned earlier has changed; the counter must be able to serve every caller.
\<close>

theorem concurrent_keys:
  assumes "fd_ok d" and "sint (fd_next_key d) + int (length vs) < 2 ^ 63"
    and "fd_step\<^sup>*\<^sup>* (d, map Looking vs) (d', ts)"
  shows "fd_ok d' \<and> (\<forall>v k. fd_get d v = Some k \<longrightarrow> fd_get d' v = Some k) \<and>
    (\<forall>v k. Got v k \<in> set ts \<longrightarrow> fd_get d' v = Some k) \<and>
    (\<forall>v k w k'. Got v k \<in> set ts \<longrightarrow> Got w k' \<in> set ts \<longrightarrow>
       (k = k' \<longleftrightarrow> to_lowercase v = to_lowercase w))"
proof -
  have "fd_inv (hm_get (fd_map d)) (d, map Looking vs)"
    using assms by (simp add: fd_inv_def list_all_iff fd_budget_def comp_def)
  from fd_steps_inv [OF assms(3) this]
  have inv: "fd_ok d'" "hm_get (fd_map d) \<subseteq>\<^sub>m hm_get (fd_map d')" "list_all (fd_thread_ok d') ts"
    by (simp_all add: fd_inv_def)
  have got: "fd_get d' v = Some k" if "Got v k \<in> set ts" for v k
    using inv(3) that unfolding list_all_iff fd_get_def by fastforce
  have kept: "fd_get d' v = Some k" if "fd_get d v = Some k" for v k
    using inv(2) that unfolding fd_get_def map_le_def dom_def by force
  have inj: "k = k' \<longleftrightarrow> to_lowercase v = to_lowercase w" if "Got v k \<in> set ts" "Got w k' \<in> set ts" for v k w k'
    using got [OF that(1)] got [OF that(2)] inv(1) unfolding fd_get_def fd_ok_def by auto
  show ?thesis using inv(1) got kept inj by blast
qed

theorem concurrent_keys_witness:
  "\<exists>d' ts. fd_step\<^sup>*\<^sup>* (fd_new, map Looking [''Ab'']) (d', ts) \<and> fd_get d' ''aB'' = Some 1"
proof -
  let ?d = "snd (fd_get_or_insert fd_new ''Ab'')"
  have run: "fd_step\<^sup>*\<^sup>* (fd_new, map Looking [''Ab'']) (?d, [Got ''Ab'' 1])"
    using get_or_insert_alone [of fd_new "''Ab''"] by (simp add: fd_get_or_insert_def fd_new_def Let_def)
  have "fd_ok fd_new" by (simp add: fd_ok_def fd_new_def)
  from concurrent_keys [OF this _ run] have "fd_get ?d ''Ab'' = Some 1"
    by (simp add: fd_new_def)
  moreover have "to_lowercase ''aB'' = to_lowercase ''Ab''"
    by code_simp
  ultimately show ?thesis using run by (auto simp: fd_get_def)
qed

text \<open>
  A dictionary survives a restart.  Restoring the snapshot of a consistent dictionary
  gives a consistent dictionary with the same key for every string and the same spellings,
  and the next string it has not seen gets a key that no string had.
\<close>

theorem dictionary_restart:
  assumes "fd_ok d"
  shows "let d' = fd_from_snapshot (fd_snapshot d) in fd_ok d' \<and> (\<forall>v. fd_get d' v = fd_get d v) \<and>
    hm_get (fd_originals d') = hm_get (fd_originals d) \<and>
    (\<forall>v w. fd_get d v = None \<longrightarrow> fd_get d w \<noteq> Some (fst (fd_get_or_insert d' v)))"
proof -
  note r = fd_restored [OF assms]
  have same: "fd_get (fd_from_snapshot (fd_snapshot d)) v = fd_get d v" for v
    by (simp add: fd_get_def r)
  show ?thesis
    using fd_assigned_fresh [OF r(3)] by (auto simp: Let_def r same)
qed

theorem dictionary_restart_witness:
  "fd_get (fd_from_snapshot (fd_snapshot (snd (fd_get_or_insert fd_new ''Ab'')))) ''AB'' = Some 1"
proof -
  let ?d = "snd (fd_get_or_insert fd_new ''Ab'')"
  have "fd_ok ?d"
    by (simp add: fd_ok_def fd_new_def fd_get_or_insert_def Let_def hm_ok_def split: option.splits)
  moreover have "fd_get ?d ''AB'' = Some 1" by code_simp
  ultimately show ?thesis using dictionary_restart [of ?d] by (simp add: Let_def)
qed

end
