(* ===== verification/Planner.thy ===== *)
theory Planner
  imports Query Slot_Allocator Dictionary
begin

text \<open>
  The query planner (\<open>planner.rs\<close>): cardinality estimates for filter clauses and the
  reordering of conjunctions by them.  Cardinalities are \<open>u64\<close> in the code and \<open>nat\<close> here;
  a bitmap has at most \<open>2^32\<close> elements, so a sum of them wraps only beyond \<open>2^32\<close> clauses.
\<close>

type_synonym string_maps = "(string, (string, i64) hashmap) hashmap"

record planner_context =
  pc_string_maps :: "string_maps option"
  pc_dictionaries :: "(string, field_dictionary) hashmap option"

definition SORT_FIRST_THRESHOLD :: nat where
  "SORT_FIRST_THRESHOLD = 1000"

fun value_to_bitmap_key :: "qvalue \<Rightarrow> u64 option" where
  "value_to_bitmap_key (VBool b) = Some (if b then 1 else 0)"
| "value_to_bitmap_key (VInteger v) = Some v"
| "value_to_bitmap_key (VFloat _) = None"
| "value_to_bitmap_key (VString _) = None"

text \<open>The lookup in the live dictionaries that ends \<open>resolve_value_key\<close>.\<close>

definition dictionary_key :: "(string, field_dictionary) hashmap option \<Rightarrow> string \<Rightarrow> string \<Rightarrow> u64 option" where
  "dictionary_key dicts field s =
     (case dicts of
        None \<Rightarrow> None
      | Some ds \<Rightarrow> (case hm_get ds field of None \<Rightarrow> None | Some dict \<Rightarrow> fd_get dict s))"

definition plan_resolve_value_key :: "string \<Rightarrow> qvalue \<Rightarrow> planner_context option \<Rightarrow> u64 option" where
  "plan_resolve_value_key field val ctx =
     (case value_to_bitmap_key val of
        Some key \<Rightarrow> Some key
      | None \<Rightarrow>
          (case val of
             VString s \<Rightarrow>
               (case ctx of
                  None \<Rightarrow> None
                | Some ctx \<Rightarrow>
                    (case pc_string_maps ctx of
                       None \<Rightarrow> dictionary_key (pc_dictionaries ctx) field s
                     | Some maps \<Rightarrow>
                         (case hm_get maps field of
                            None \<Rightarrow> dictionary_key (pc_dictionaries ctx) field s
                          | Some field_map \<Rightarrow>
                              (case hm_get field_map (to_lowercase s) of
                                 Some v \<Rightarrow> Some v
                               | None \<Rightarrow> dictionary_key (pc_dictionaries ctx) field s))))
           | _ \<Rightarrow> None))"

text \<open>The sum that the \<open>In\<close> and \<open>NotIn\<close> arms share.\<close>

definition estimate_values ::
    "'b roaring_ops \<Rightarrow> 'b filter_field \<Rightarrow> string \<Rightarrow> qvalue list \<Rightarrow> planner_context option \<Rightarrow> nat" where
  "estimate_values R ff field vs ctx =
     fold (\<lambda>v total. case plan_resolve_value_key field v ctx of
         Some key \<Rightarrow> total + ff_cardinality R ff key | None \<Rightarrow> total) vs 0"

fun estimate_cardinality ::
    "'b roaring_ops \<Rightarrow> 'b filter_index \<Rightarrow> nat \<Rightarrow> planner_context option \<Rightarrow> 'b filter_clause \<Rightarrow> nat" where
  "estimate_cardinality R filters alive_count ctx (CEq field v) =
     (case fi_get_field filters field of
        Some ff \<Rightarrow> (case plan_resolve_value_key field v ctx of
                     Some key \<Rightarrow> ff_cardinality R ff key | None \<Rightarrow> alive_count)
      | None \<Rightarrow> alive_count)"
| "estimate_cardinality R filters alive_count ctx (CNotEq field v) =
     (case fi_get_field filters field of
        Some ff \<Rightarrow> (case plan_resolve_value_key field v ctx of
                     Some key \<Rightarrow> alive_count - ff_cardinality R ff key | None \<Rightarrow> alive_count)
      | None \<Rightarrow> alive_count)"
| "estimate_cardinality R filters alive_count ctx (CIn field vs) =
     (case fi_get_field filters field of
        Some ff \<Rightarrow> min (estimate_values R ff field vs ctx) alive_count
      | None \<Rightarrow> alive_count)"
| "estimate_cardinality R filters alive_count ctx (CNotIn field vs) =
     (case fi_get_field filters field of
        Some ff \<Rightarrow> alive_count - min (estimate_values R ff field vs ctx) alive_count
      | None \<Rightarrow> alive_count)"
| "estimate_cardinality R filters alive_count ctx (CNot inner) =
     alive_count - estimate_cardinality R filters alive_count ctx inner"
| "estimate_cardinality R filters alive_count ctx (CAnd clauses) =
     (case map (estimate_cardinality R filters alive_count ctx) clauses of
        [] \<Rightarrow> 0 | e # es \<Rightarrow> fold min es e)"
| "estimate_cardinality R filters alive_count ctx (COr clauses) =
     min (sum_list (map (estimate_cardinality R filters alive_count ctx) clauses)) alive_count"
| "estimate_cardinality R filters alive_count ctx (CGt _ _) = alive_count div 2"
| "estimate_cardinality R filters alive_count ctx (CLt _ _) = alive_count div 2"
| "estimate_cardinality R filters alive_count ctx (CGte _ _) = alive_count div 2"
| "estimate_cardinality R filters alive_count ctx (CLte _ _) = alive_count div 2"
| "estimate_cardinality R filters alive_count ctx (CBucketBitmap _ _ bitmap) = rb_len R bitmap"
| "estimate_cardinality R filters alive_count ctx (CIsNull field) =
     (case fi_get_field filters field of
        Some ff \<Rightarrow> ff_cardinality R ff NULL_BITMAP_KEY
      | None \<Rightarrow> alive_count div 10)"
| "estimate_cardinality R filters alive_count ctx (CIsNotNull field) =
     alive_count - (case fi_get_field filters field of
        Some ff \<Rightarrow> ff_cardinality R ff NULL_BITMAP_KEY
      | None \<Rightarrow> alive_count div 10)"

record 'b query_plan =
  qp_ordered_clauses :: "'b filter_clause list"
  qp_use_simple_sort :: bool
  qp_estimated_result_size :: nat

text \<open>\<open>sort_by_key\<close> is stable, as \<open>sort_key\<close> is.\<close>

definition plan_query_with_context ::
    "'b roaring_ops \<Rightarrow> 'b filter_clause list \<Rightarrow> 'b filter_index \<Rightarrow> 'b slot_allocator \<Rightarrow>
     planner_context option \<Rightarrow> 'b query_plan" where
  "plan_query_with_context R clauses filters slots ctx =
     (let alive_count = sa_alive_count R slots
      in if clauses = [] then
           \<lparr>qp_ordered_clauses = [], qp_use_simple_sort = alive_count < SORT_FIRST_THRESHOLD,
            qp_estimated_result_size = alive_count\<rparr>
         else
           let clause_estimates =
                 sort_key snd (map (\<lambda>c. (c, estimate_cardinality R filters alive_count ctx c)) clauses);
               estimated_result_size =
                 (case clause_estimates of [] \<Rightarrow> alive_count | (_, est) # _ \<Rightarrow> est);
               ordered_clauses = map fst clause_estimates
           in \<lparr>qp_ordered_clauses = ordered_clauses,
               qp_use_simple_sort = estimated_result_size < SORT_FIRST_THRESHOLD,
               qp_estimated_result_size = estimated_result_size\<rparr>)"

definition plan_query ::
    "'b roaring_ops \<Rightarrow> 'b filter_clause list \<Rightarrow> 'b filter_index \<Rightarrow> 'b slot_allocator \<Rightarrow> 'b query_plan" where
  "plan_query R clauses filters slots = plan_query_with_context R clauses filters slots None"

definition optimize_and_clause ::
    "'b roaring_ops \<Rightarrow> 'b filter_clause list \<Rightarrow> 'b filter_index \<Rightarrow> nat \<Rightarrow> 'b filter_clause list" where
  "optimize_and_clause R clauses filters alive_count =
     map fst (sort_key snd
       (map (\<lambda>c. (c, estimate_cardinality R filters alive_count None c)) clauses))"

fun should_use_andnot :: "'b roaring_ops \<Rightarrow> 'b filter_index \<Rightarrow> nat \<Rightarrow> 'b filter_clause \<Rightarrow> bool" where
  "should_use_andnot R filters alive_count (CNot inner) \<longleftrightarrow>
     estimate_cardinality R filters alive_count None inner < alive_count div 10"
| "should_use_andnot R filters alive_count (CNotEq field v) \<longleftrightarrow>
     (case fi_get_field filters field of
        Some ff \<Rightarrow> (case value_to_bitmap_key v of
                     Some key \<Rightarrow> ff_cardinality R ff key < alive_count div 10
                   | None \<Rightarrow> False)
      | None \<Rightarrow> False)"
| "should_use_andnot R filters alive_count _ \<longleftrightarrow> False"


section \<open>Plans are permutations sorted by estimate\<close>

lemma map_fst_sort_key_pairs:
  "map fst (sort_key snd (map (\<lambda>c. (c, f c)) cs)) = sort_key f cs"
proof -
  have ins: "map fst (insort_key snd (c, f c) (map (\<lambda>c. (c, f c)) cs)) = insort_key f c cs" for c cs
    by (induction cs) (auto simp: comp_def)
  have rep: "sort_key snd (map (\<lambda>c. (c, f c)) cs) = map (\<lambda>c. (c, f c)) (sort_key f cs)" for cs
  proof (induction cs)
    case (Cons c cs)
    have "insort_key snd (c, f c) (map (\<lambda>c. (c, f c)) ds) = map (\<lambda>c. (c, f c)) (insort_key f c ds)" for ds
      by (induction ds) auto
    with Cons show ?case by simp
  qed simp
  show ?thesis by (simp add: rep comp_def)
qed

lemma optimize_and_eq:
  "optimize_and_clause R cs filters n = sort_key (estimate_cardinality R filters n None) cs"
  by (simp add: optimize_and_clause_def map_fst_sort_key_pairs)

lemma mset_optimize_and [simp]: "mset (optimize_and_clause R cs filters n) = mset cs"
  by (simp add: optimize_and_eq)

lemma set_optimize_and [simp]: "set (optimize_and_clause R cs filters n) = set cs"
  by (simp add: optimize_and_eq)

lemma plan_ordered_eq:
  "qp_ordered_clauses (plan_query_with_context R cs filters slots ctx) =
     sort_key (estimate_cardinality R filters (sa_alive_count R slots) ctx) cs"
  by (simp add: plan_query_with_context_def Let_def map_fst_sort_key_pairs)

lemma sort_key_hd_Min:
  assumes "cs \<noteq> []"
  shows "f (hd (sort_key f cs)) = Min (f ` set cs)"
proof -
  obtain d ds where ds: "sort_key f cs = d # ds"
    using assms by (cases "sort_key f cs") (auto dest: arg_cong [of _ _ length])
  have "set cs = insert d (set ds)" using ds by (metis list.simps(15) set_sort)
  moreover have "\<forall>x \<in> set ds. f d \<le> f x"
    using sorted_sort_key [of f cs] unfolding ds by simp
  ultimately show ?thesis unfolding ds by (auto intro!: Min_eqI [symmetric])
qed

text \<open>
  A plan changes only the order.  The planned clauses are a permutation of the query's,
  in ascending order of estimate, and the result estimate is the smallest of the estimates
  (the alive count for a query without clauses), which decides on the in-memory sort.
\<close>

theorem plan_reorders:
  "let est = estimate_cardinality R filters (sa_alive_count R slots) ctx;
       plan = plan_query_with_context R cs filters slots ctx
   in mset (qp_ordered_clauses plan) = mset cs \<and> sorted (map est (qp_ordered_clauses plan)) \<and>
     qp_estimated_result_size plan =
       (if cs = [] then sa_alive_count R slots else Min (est ` set cs)) \<and>
     (qp_use_simple_sort plan = (qp_estimated_result_size plan < 1000))"
proof -
  define est where "est = estimate_cardinality R filters (sa_alive_count R slots) ctx"
  define plan where "plan = plan_query_with_context R cs filters slots ctx"
  have ne: "sort_key est cs \<noteq> []" if "cs \<noteq> []"
    using that by (metis set_empty set_sort)
  have "qp_estimated_result_size plan = est (hd (sort_key est cs))" if "cs \<noteq> []"
  proof -
    let ?ps = "sort_key snd (map (\<lambda>c. (c, est c)) cs)"
    have fst_ps: "map fst ?ps = sort_key est cs" by (rule map_fst_sort_key_pairs)
    with ne [OF that] obtain p ps where ps: "?ps = p # ps" by (cases ?ps) auto
    have "p \<in> set ?ps" unfolding ps by simp
    then have "snd p = est (fst p)" by auto
    moreover have "fst p = hd (sort_key est cs)" using fst_ps unfolding ps by (metis list.sel(1) list.simps(9))
    ultimately show ?thesis
      using that ps
      by (simp add: plan_def plan_query_with_context_def Let_def case_prod_beta flip: est_def)
  qed
  moreover have "qp_estimated_result_size plan = sa_alive_count R slots" if "cs = []"
    using that by (simp add: plan_def plan_query_with_context_def Let_def)
  moreover have "qp_use_simple_sort plan \<longleftrightarrow> qp_estimated_result_size plan < 1000"
    by (simp add: plan_def plan_query_with_context_def Let_def SORT_FIRST_THRESHOLD_def)
  moreover have "qp_ordered_clauses plan = sort_key est cs"
    unfolding plan_def est_def by (rule plan_ordered_eq)
  ultimately show ?thesis
    unfolding est_def [symmetric] plan_def [symmetric] by (simp add: sort_key_hd_Min Let_def)
qed

end
