(* ===== verification/Executor.thy ===== *)
theory Executor
  imports Planner
begin

text \<open>
  The filter half of the query executor (\<open>executor.rs\<close>): evaluation of filter clauses to
  bitmaps, and the accumulator loop over a planned conjunction with its in-place fast paths.
  \<open>Executor_Page\<close> holds the other half.  Errors are values; the trace collector, the metrics
  counter and the log lines are left out.

  \<open>clause_set\<close> is the reference meaning of a clause, \<open>clause_ok\<close> says when evaluating it is
  not an error.  \<open>evaluate_clause\<close> computes exactly that; the fast paths agree with it under
  the conditions collected in \<open>fast_ok\<close>.
\<close>

record 'b query_executor =
  qe_slots :: "'b slot_allocator"
  qe_filters :: "'b filter_index"
  qe_sorts :: "'b sort_index"
  qe_max_page_size :: usize
  qe_time_buckets :: "'b time_bucket_manager option"
  qe_now_unix :: u64
  qe_string_maps :: "string_maps option"
  qe_case_sensitive_fields :: "string list option"
  qe_dictionaries :: "(string, field_dictionary) hashmap option"

definition qe_new ::
    "'b slot_allocator \<Rightarrow> 'b filter_index \<Rightarrow> 'b sort_index \<Rightarrow> usize \<Rightarrow> 'b query_executor" where
  "qe_new slots filters sorts max_page_size =
     \<lparr>qe_slots = slots, qe_filters = filters, qe_sorts = sorts, qe_max_page_size = max_page_size,
      qe_time_buckets = None, qe_now_unix = 0, qe_string_maps = None,
      qe_case_sensitive_fields = None, qe_dictionaries = None\<rparr>"

definition qe_with_string_maps :: "'b query_executor \<Rightarrow> string_maps \<Rightarrow> 'b query_executor" where
  "qe_with_string_maps ex maps = ex\<lparr>qe_string_maps := Some maps\<rparr>"

definition qe_with_case_sensitive_fields :: "'b query_executor \<Rightarrow> string list \<Rightarrow> 'b query_executor" where
  "qe_with_case_sensitive_fields ex fs = ex\<lparr>qe_case_sensitive_fields := Some fs\<rparr>"

definition qe_with_dictionaries ::
    "'b query_executor \<Rightarrow> (string, field_dictionary) hashmap \<Rightarrow> 'b query_executor" where
  "qe_with_dictionaries ex dicts = ex\<lparr>qe_dictionaries := Some dicts\<rparr>"

definition qe_with_time_buckets ::
    "'b query_executor \<Rightarrow> 'b time_bucket_manager \<Rightarrow> u64 \<Rightarrow> 'b query_executor" where
  "qe_with_time_buckets ex tb now = ex\<lparr>qe_time_buckets := Some tb, qe_now_unix := now\<rparr>"


section \<open>Values to keys\<close>

definition resolve_value_key :: "'b query_executor \<Rightarrow> string \<Rightarrow> qvalue \<Rightarrow> u64 option" where
  "resolve_value_key ex field val =
     (case value_to_bitmap_key val of
        Some key \<Rightarrow> Some key
      | None \<Rightarrow>
          (case val of
             VString s \<Rightarrow>
               (case qe_string_maps ex of
                  None \<Rightarrow> dictionary_key (qe_dictionaries ex) field s
                | Some maps \<Rightarrow>
                    (case hm_get maps field of
                       None \<Rightarrow> dictionary_key (qe_dictionaries ex) field s
                     | Some field_map \<Rightarrow>
                         let is_case_sensitive =
                               (case qe_case_sensitive_fields ex of
                                  None \<Rightarrow> False | Some cs \<Rightarrow> field \<in> set cs);
                             lookup = (if is_case_sensitive then s else to_lowercase s)
                         in case hm_get field_map lookup of
                              Some v \<Rightarrow> Some v
                            | None \<Rightarrow> dictionary_key (qe_dictionaries ex) field s))
           | _ \<Rightarrow> None))"

definition id_bitmap_single :: "'b roaring_ops \<Rightarrow> 'b query_executor \<Rightarrow> qvalue \<Rightarrow> 'b bresult" where
  "id_bitmap_single R ex v =
     (case v of
        VInteger v \<Rightarrow>
          let slot = (ucast v :: u32);
              alive = sa_alive_bitmap (qe_slots ex);
              bm = rb_new R
          in Inr (if rb_contains R alive slot then rb_insert R bm slot else bm)
      | _ \<Rightarrow> Inl (InvalidValue ''id'' ''id must be an integer''))"

definition id_bitmap_multi :: "'b roaring_ops \<Rightarrow> 'b query_executor \<Rightarrow> qvalue list \<Rightarrow> 'b bresult" where
  "id_bitmap_multi R ex vs =
     (let alive = sa_alive_bitmap (qe_slots ex)
      in Inr (fold (\<lambda>v bm. case v of
               VInteger i \<Rightarrow>
                 let slot = (ucast i :: u32)
                 in if rb_contains R alive slot then rb_insert R bm slot else bm
             | _ \<Rightarrow> bm) vs (rb_new R)))"


section \<open>Evaluation of one clause\<close>

definition range_scan ::
    "'b roaring_ops \<Rightarrow> 'b query_executor \<Rightarrow> string \<Rightarrow> qvalue \<Rightarrow> (u64 \<Rightarrow> u64 \<Rightarrow> bool) \<Rightarrow> 'b bresult" where
  "range_scan R ex field v predicate =
     (case fi_get_field (qe_filters ex) field of
        None \<Rightarrow> Inl (FieldNotFound field)
      | Some filter_field \<Rightarrow>
          let too_expensive =
                (case ffc_max_range_scan_values (ff_config filter_field) of
                   Some cap \<Rightarrow>
                     if cap < ff_loaded_value_count filter_field
                     then Some (QueryTooExpensive field (ff_loaded_value_count filter_field) cap) else None
                 | None \<Rightarrow> None)
          in case too_expensive of
               Some e \<Rightarrow> Inl e
             | None \<Rightarrow>
                 (case value_to_bitmap_key v of
                    None \<Rightarrow> Inl (InvalidValue field ''cannot convert to bitmap key for range filter'')
                  | Some target \<Rightarrow>
                      Inr (fold (\<lambda>(key, vb) result.
                          if key = NULL_BITMAP_KEY then result
                          else if predicate key target then
                            if vb_is_dirty R vb then rb_or R result (vb_fused R vb)
                            else rb_or R result (vb_base vb)
                          else result)
                        (ff_iter_versioned filter_field) (rb_new R))))"

text \<open>The bit pattern of the literal \<open>0.10\<close>.\<close>

definition f64_tenth :: f64 where
  "f64_tenth = 0x3FB999999999999A"

text \<open>The bucket fast paths of the \<open>Gt\<close>/\<open>Gte\<close> and of the \<open>Lt\<close>/\<open>Lte\<close> arm; \<open>None\<close> falls through
  to the range scan.\<close>

definition snap_recent :: "'b query_executor \<Rightarrow> string \<Rightarrow> qvalue \<Rightarrow> 'b option" where
  "snap_recent ex field v =
     (case qe_time_buckets ex of
        None \<Rightarrow> None
      | Some tb \<Rightarrow>
          if field = tbm_field_name tb then
            (case value_to_bitmap_key v of
               None \<Rightarrow> None
             | Some threshold \<Rightarrow>
                 let threshold = ts_secs_u64 threshold;
                     duration = saturating_sub (qe_now_unix ex) threshold
                 in case tbm_snap_duration tb duration f64_tenth of
                      None \<Rightarrow> None
                    | Some bucket_name \<Rightarrow> map_option tb_bitmap (tbm_get_bucket tb bucket_name))
          else None)"

definition snap_older :: "'b roaring_ops \<Rightarrow> 'b query_executor \<Rightarrow> string \<Rightarrow> qvalue \<Rightarrow> 'b option" where
  "snap_older R ex field v =
     (case qe_time_buckets ex of
        None \<Rightarrow> None
      | Some tb \<Rightarrow>
          if field = tbm_field_name tb then
            (case value_to_bitmap_key v of
               None \<Rightarrow> None
             | Some threshold \<Rightarrow>
                 let threshold = ts_secs_u64 threshold
                 in if qe_now_unix ex \<le> threshold then Some (sa_alive_bitmap (qe_slots ex))
                    else
                      let duration = saturating_sub (qe_now_unix ex) threshold
                      in case tbm_snap_duration tb duration f64_tenth of
                           None \<Rightarrow> None
                         | Some bucket_name \<Rightarrow>
                             map_option (\<lambda>bucket. rb_sub R (sa_alive_bitmap (qe_slots ex)) (tb_bitmap bucket))
                               (tbm_get_bucket tb bucket_name))
          else None)"

text \<open>The union over the values of an \<open>In\<close> list, added to \<open>result\<close>; the code writes it with and
  without an intermediate list of keys.\<close>

definition union_values ::
    "'b roaring_ops \<Rightarrow> 'b query_executor \<Rightarrow> 'b filter_field \<Rightarrow> string \<Rightarrow> qvalue list \<Rightarrow> 'b \<Rightarrow> 'b" where
  "union_values R ex ff field vs result =
     fold (\<lambda>v result. case resolve_value_key ex field v of
         Some key \<Rightarrow>
           (case ff_get_versioned ff key of
              Some vb \<Rightarrow> rb_or R result (vb_fused_cow R vb)
            | None \<Rightarrow> result)
       | None \<Rightarrow> result) vs result"

text \<open>Subtracting the null bitmap of a field, in the \<open>NotEq\<close> and \<open>NotIn\<close> arms.\<close>

definition sub_null :: "'b roaring_ops \<Rightarrow> 'b query_executor \<Rightarrow> string \<Rightarrow> 'b \<Rightarrow> 'b" where
  "sub_null R ex field result =
     (case fi_get_field (qe_filters ex) field of
        Some filter_field \<Rightarrow>
          (case ff_get_versioned filter_field NULL_BITMAP_KEY of
             Some null_vb \<Rightarrow> rb_sub R result (vb_fused_cow R null_vb)
           | None \<Rightarrow> result)
      | None \<Rightarrow> result)"

definition fused_or_default :: "'b roaring_ops \<Rightarrow> 'b filter_field \<Rightarrow> u64 \<Rightarrow> 'b" where
  "fused_or_default R ff key =
     (case ff_get_versioned ff key of Some vb \<Rightarrow> vb_fused R vb | None \<Rightarrow> rb_new R)"

text \<open>The arms of the \<open>Or\<close> loop that add a bitmap by reference; \<open>None\<close> falls through to the general
  evaluation.\<close>

fun or_by_ref :: "'b roaring_ops \<Rightarrow> 'b query_executor \<Rightarrow> 'b \<Rightarrow> 'b filter_clause \<Rightarrow> 'b option" where
  "or_by_ref R ex result (CEq field v) =
     (if field \<noteq> ''id'' then
        (case fi_get_field (qe_filters ex) field of
           Some ff \<Rightarrow>
             (case resolve_value_key ex field v of
                Some key \<Rightarrow>
                  (case ff_get_versioned ff key of
                     Some vb \<Rightarrow> Some (rb_or R result (vb_fused_cow R vb))
                   | None \<Rightarrow> Some result)
              | None \<Rightarrow> Some result)
         | None \<Rightarrow> None)
      else None)"
| "or_by_ref R ex result (CIn field vs) =
     (if field \<noteq> ''id'' then
        (case fi_get_field (qe_filters ex) field of
           Some ff \<Rightarrow> Some (union_values R ex ff field vs result)
         | None \<Rightarrow> None)
      else None)"
| "or_by_ref R ex result _ = None"

text \<open>Weights for the recursion: \<open>NotEq\<close> calls \<open>Eq\<close>, and a conjunction is reordered first.\<close>

fun clause_weight :: "'b filter_clause \<Rightarrow> nat" where
  "clause_weight (CNotEq _ _) = 2"
| "clause_weight (CNotIn _ _) = 2"
| "clause_weight (CNot c) = Suc (clause_weight c)"
| "clause_weight (CAnd cs) = 2 + sum_list (map clause_weight cs) + length cs"
| "clause_weight (COr cs) = 2 + sum_list (map clause_weight cs) + length cs"
| "clause_weight _ = 1"

definition clauses_weight :: "'b filter_clause list \<Rightarrow> nat" where
  "clauses_weight cs = 1 + sum_list (map clause_weight cs) + length cs"

lemma clauses_weight_optimize [simp]:
  "clauses_weight (optimize_and_clause R cs filters n) = clauses_weight cs"
proof -
  have "mset (map clause_weight (optimize_and_clause R cs filters n)) = mset (map clause_weight cs)"
    by simp
  then have "sum_list (map clause_weight (optimize_and_clause R cs filters n)) =
      sum_list (map clause_weight cs)"
    by (metis sum_mset_sum_list)
  moreover have "length (optimize_and_clause R cs filters n) = length cs"
    by (metis mset_optimize_and size_mset)
  ultimately show ?thesis by (simp add: clauses_weight_def)
qed

function (sequential) evaluate_clause ::
    "'b roaring_ops \<Rightarrow> 'b query_executor \<Rightarrow> 'b filter_clause \<Rightarrow> 'b bresult"
  and evaluate_and ::
    "'b roaring_ops \<Rightarrow> 'b query_executor \<Rightarrow> 'b filter_clause list \<Rightarrow> 'b option \<Rightarrow> 'b bresult"
  and evaluate_or ::
    "'b roaring_ops \<Rightarrow> 'b query_executor \<Rightarrow> 'b filter_clause list \<Rightarrow> 'b \<Rightarrow> 'b bresult" where
  "evaluate_clause R ex (CEq field v) =
     (if field = ''id'' then id_bitmap_single R ex v
      else
        case fi_get_field (qe_filters ex) field of
          Some filter_field \<Rightarrow>
            (case resolve_value_key ex field v of
               Some key \<Rightarrow> Inr (fused_or_default R filter_field key)
             | None \<Rightarrow> Inr (rb_new R))
        | None \<Rightarrow> Inl (FieldNotFound field))"
| "evaluate_clause R ex (CNotEq field v) =
     (case evaluate_clause R ex (CEq field v) of
        Inl e \<Rightarrow> Inl e
      | Inr eq_bitmap \<Rightarrow>
          Inr (sub_null R ex field (rb_sub R (sa_alive_bitmap (qe_slots ex)) eq_bitmap)))"
| "evaluate_clause R ex (CIn field vs) =
     (if field = ''id'' then id_bitmap_multi R ex vs
      else
        case fi_get_field (qe_filters ex) field of
          Some filter_field \<Rightarrow> Inr (union_values R ex filter_field field vs (rb_new R))
        | None \<Rightarrow> Inl (FieldNotFound field))"
| "evaluate_clause R ex (CNotIn field vs) =
     (case evaluate_clause R ex (CIn field vs) of
        Inl e \<Rightarrow> Inl e
      | Inr in_bitmap \<Rightarrow>
          Inr (sub_null R ex field (rb_sub R (sa_alive_bitmap (qe_slots ex)) in_bitmap)))"
| "evaluate_clause R ex (CNot inner) =
     (case evaluate_clause R ex inner of
        Inl e \<Rightarrow> Inl e
      | Inr inner_bitmap \<Rightarrow> Inr (rb_sub R (sa_alive_bitmap (qe_slots ex)) inner_bitmap))"
| "evaluate_clause R ex (CAnd clauses) =
     evaluate_and R ex
       (optimize_and_clause R clauses (qe_filters ex) (sa_alive_count R (qe_slots ex))) None"
| "evaluate_clause R ex (COr clauses) = evaluate_or R ex clauses (rb_new R)"
| "evaluate_clause R ex (CGt field v) =
     (case snap_recent ex field v of
        Some bm \<Rightarrow> Inr bm | None \<Rightarrow> range_scan R ex field v (\<lambda>k t. t < k))"
| "evaluate_clause R ex (CGte field v) =
     (case snap_recent ex field v of
        Some bm \<Rightarrow> Inr bm | None \<Rightarrow> range_scan R ex field v (\<lambda>k t. t \<le> k))"
| "evaluate_clause R ex (CLt field v) =
     (case snap_older R ex field v of
        Some bm \<Rightarrow> Inr bm | None \<Rightarrow> range_scan R ex field v (\<lambda>k t. k < t))"
| "evaluate_clause R ex (CLte field v) =
     (case snap_older R ex field v of
        Some bm \<Rightarrow> Inr bm | None \<Rightarrow> range_scan R ex field v (\<lambda>k t. k \<le> t))"
| "evaluate_clause R ex (CBucketBitmap _ _ bitmap) = Inr bitmap"
| "evaluate_clause R ex (CIsNull field) =
     (case fi_get_field (qe_filters ex) field of
        None \<Rightarrow> Inl (FieldNotFound field)
      | Some filter_field \<Rightarrow> Inr (fused_or_default R filter_field NULL_BITMAP_KEY))"
| "evaluate_clause R ex (CIsNotNull field) =
     (case fi_get_field (qe_filters ex) field of
        None \<Rightarrow> Inl (FieldNotFound field)
      | Some filter_field \<Rightarrow>
          Inr (rb_sub R (sa_alive_bitmap (qe_slots ex)) (fused_or_default R filter_field NULL_BITMAP_KEY)))"
| "evaluate_and R ex [] result = Inr (case result of Some r \<Rightarrow> r | None \<Rightarrow> rb_new R)"
| "evaluate_and R ex (clause # clauses) result =
     (case evaluate_clause R ex clause of
        Inl e \<Rightarrow> Inl e
      | Inr bitmap \<Rightarrow>
          evaluate_and R ex clauses
            (Some (case result of Some existing \<Rightarrow> rb_and R existing bitmap | None \<Rightarrow> bitmap)))"
| "evaluate_or R ex [] result = Inr result"
| "evaluate_or R ex (clause # clauses) result =
     (case or_by_ref R ex result clause of
        Some result \<Rightarrow> evaluate_or R ex clauses result
      | None \<Rightarrow>
          (case evaluate_clause R ex clause of
             Inl e \<Rightarrow> Inl e
           | Inr bitmap \<Rightarrow> evaluate_or R ex clauses (rb_or R result bitmap)))"
  by pat_completeness auto
termination
  by (relation "measure (case_sum (\<lambda>(R, ex, c). clause_weight c)
        (case_sum (\<lambda>(R, ex, cs, r). clauses_weight cs) (\<lambda>(R, ex, cs, r). clauses_weight cs)))")
     (auto simp: clauses_weight_def [symmetric], auto simp: clauses_weight_def)



section \<open>The accumulator loop\<close>

text \<open>\<open>evaluate_clause_with_candidates\<close>, its loop over a conjunction with the early break, and its
  loop over a disjunction.\<close>

definition restrict_values ::
    "'b roaring_ops \<Rightarrow> 'b query_executor \<Rightarrow> 'b filter_field \<Rightarrow> string \<Rightarrow> qvalue list \<Rightarrow> 'b \<Rightarrow> 'b" where
  "restrict_values R ex ff field vs candidates =
     fold (\<lambda>v result. case resolve_value_key ex field v of
         Some key \<Rightarrow>
           (case ff_get_versioned ff key of
              Some vb \<Rightarrow> rb_or R result (rb_and R candidates (vb_fused_cow R vb))
            | None \<Rightarrow> result)
       | None \<Rightarrow> result) vs (rb_new R)"

definition evaluate_within ::
    "'b roaring_ops \<Rightarrow> 'b query_executor \<Rightarrow> 'b filter_clause \<Rightarrow> 'b \<Rightarrow> 'b bresult" where
  "evaluate_within R ex clause candidates =
     (case evaluate_clause R ex clause of
        Inl e \<Rightarrow> Inl e
      | Inr full \<Rightarrow> Inr (rb_and R candidates full))"

fun evaluate_clause_with_candidates ::
    "'b roaring_ops \<Rightarrow> 'b query_executor \<Rightarrow> 'b filter_clause \<Rightarrow> 'b \<Rightarrow> 'b bresult"
  and candidates_and ::
    "'b roaring_ops \<Rightarrow> 'b query_executor \<Rightarrow> 'b filter_clause list \<Rightarrow> 'b \<Rightarrow> 'b bresult"
  and candidates_or ::
    "'b roaring_ops \<Rightarrow> 'b query_executor \<Rightarrow> 'b filter_clause list \<Rightarrow> 'b \<Rightarrow> 'b \<Rightarrow> 'b bresult" where
  "evaluate_clause_with_candidates R ex (CEq field v) candidates =
     (case fi_get_field (qe_filters ex) field of
        Some ff \<Rightarrow>
          (case resolve_value_key ex field v of
             Some key \<Rightarrow>
               (case ff_get_versioned ff key of
                  Some vb \<Rightarrow> Inr (rb_and R candidates (vb_fused_cow R vb))
                | None \<Rightarrow> Inr (rb_new R))
           | None \<Rightarrow> Inr (rb_new R))
      | None \<Rightarrow> evaluate_within R ex (CEq field v) candidates)"
| "evaluate_clause_with_candidates R ex (CIn field vs) candidates =
     (case fi_get_field (qe_filters ex) field of
        Some ff \<Rightarrow> Inr (restrict_values R ex ff field vs candidates)
      | None \<Rightarrow> evaluate_within R ex (CIn field vs) candidates)"
| "evaluate_clause_with_candidates R ex (CAnd inner) candidates = candidates_and R ex inner candidates"
| "evaluate_clause_with_candidates R ex (COr inner) candidates =
     candidates_or R ex inner candidates (rb_new R)"
| "evaluate_clause_with_candidates R ex clause candidates = evaluate_within R ex clause candidates"
| "candidates_and R ex [] result = Inr result"
| "candidates_and R ex (c # cs) result =
     (case evaluate_clause_with_candidates R ex c result of
        Inl e \<Rightarrow> Inl e
      | Inr result \<Rightarrow> if rb_is_empty R result then Inr result else candidates_and R ex cs result)"
| "candidates_or R ex [] candidates result = Inr result"
| "candidates_or R ex (c # cs) candidates result =
     (case evaluate_clause_with_candidates R ex c candidates of
        Inl e \<Rightarrow> Inl e
      | Inr hits \<Rightarrow> candidates_or R ex cs candidates (rb_or R result hits))"

text \<open>\<open>None\<close>: the clause has no fast path.  Otherwise the new accumulator, or an error.\<close>

fun try_and_by_ref ::
    "'b roaring_ops \<Rightarrow> 'b query_executor \<Rightarrow> 'b \<Rightarrow> 'b filter_clause \<Rightarrow> 'b bresult option" where
  "try_and_by_ref R ex acc (CEq field v) =
     (if field = ''id'' then None
      else
        case fi_get_field (qe_filters ex) field of
          None \<Rightarrow> None
        | Some ff \<Rightarrow>
            (case resolve_value_key ex field v of
               None \<Rightarrow> None
             | Some key \<Rightarrow>
                 (case ff_get_versioned ff key of
                    None \<Rightarrow> None
                  | Some vb \<Rightarrow> Some (Inr (rb_and R acc (vb_fused_cow R vb))))))"
| "try_and_by_ref R ex acc (CIn field vs) =
     (if field = ''id'' then None
      else
        case fi_get_field (qe_filters ex) field of
          None \<Rightarrow> None
        | Some ff \<Rightarrow> Some (Inr (restrict_values R ex ff field vs acc)))"
| "try_and_by_ref R ex acc (CBucketBitmap _ _ bitmap) = Some (Inr (rb_and R acc bitmap))"
| "try_and_by_ref R ex acc (CNot inner) =
     (case evaluate_clause_with_candidates R ex inner acc of
        Inr inner_hits \<Rightarrow> Some (Inr (rb_sub R acc inner_hits))
      | Inl e \<Rightarrow> Some (Inl e))"
| "try_and_by_ref R ex acc (CNotEq field v) =
     (if field = ''id'' then None
      else
        case fi_get_field (qe_filters ex) field of
          None \<Rightarrow> None
        | Some ff \<Rightarrow>
            (case resolve_value_key ex field v of
               None \<Rightarrow> None
             | Some key \<Rightarrow>
                 (case ff_get_versioned ff key of
                    None \<Rightarrow> None
                  | Some vb \<Rightarrow> Some (Inr (rb_sub R acc (vb_fused_cow R vb))))))"
| "try_and_by_ref R ex acc (CNotIn field vs) =
     (if field = ''id'' then None
      else
        case fi_get_field (qe_filters ex) field of
          None \<Rightarrow> None
        | Some ff \<Rightarrow>
            Some (Inr (fold (\<lambda>v acc. case resolve_value_key ex field v of
                Some key \<Rightarrow>
                  (case ff_get_versioned ff key of
                     Some vb \<Rightarrow> rb_sub R acc (vb_fused_cow R vb)
                   | None \<Rightarrow> acc)
              | None \<Rightarrow> acc) vs acc)))"
| "try_and_by_ref R ex acc _ = None"

fun compute_filters_loop ::
    "'b roaring_ops \<Rightarrow> 'b query_executor \<Rightarrow> 'b filter_clause list \<Rightarrow> 'b option \<Rightarrow> 'b bresult" where
  "compute_filters_loop R ex [] result = Inr (case result of Some r \<Rightarrow> r | None \<Rightarrow> rb_new R)"
| "compute_filters_loop R ex (clause # clauses) result =
     (if (case result of Some acc \<Rightarrow> rb_is_empty R acc | None \<Rightarrow> False)
      then compute_filters_loop R ex clauses result
      else
        case (case result of Some acc \<Rightarrow> try_and_by_ref R ex acc clause | None \<Rightarrow> None) of
          Some (Inl e) \<Rightarrow> Inl e
        | Some (Inr acc) \<Rightarrow>
            if rb_len R acc = 0 then Inr acc else compute_filters_loop R ex clauses (Some acc)
        | None \<Rightarrow>
            (case evaluate_clause R ex clause of
               Inl e \<Rightarrow> Inl e
             | Inr bitmap \<Rightarrow>
                 let is_first = (result = None);
                     acc = (case result of Some existing \<Rightarrow> rb_and R existing bitmap | None \<Rightarrow> bitmap)
                 in if rb_len R acc = 0 \<and> \<not> is_first then Inr acc
                    else compute_filters_loop R ex clauses (Some acc)))"

definition compute_filters ::
    "'b roaring_ops \<Rightarrow> 'b query_executor \<Rightarrow> 'b filter_clause list \<Rightarrow> 'b bresult" where
  "compute_filters R ex clauses =
     (if clauses = [] then Inr (sa_alive_bitmap (qe_slots ex))
      else compute_filters_loop R ex clauses None)"

fun slot_matches_filters ::
    "'b roaring_ops \<Rightarrow> 'b query_executor \<Rightarrow> u32 \<Rightarrow> 'b filter_clause list \<Rightarrow> bool bresult" where
  "slot_matches_filters R ex slot [] = Inr True"
| "slot_matches_filters R ex slot (clause # clauses) =
     (case evaluate_clause R ex clause of
        Inl e \<Rightarrow> Inl e
      | Inr bitmap \<Rightarrow>
          if \<not> rb_contains R bitmap slot then Inr False
          else slot_matches_filters R ex slot clauses)"


section \<open>The meaning of a clause\<close>

definition alive_set :: "'b roaring_ops \<Rightarrow> 'b query_executor \<Rightarrow> u32 set" where
  "alive_set R ex = bits R (sa_alive_bitmap (qe_slots ex))"

definition field_bits :: "'b roaring_ops \<Rightarrow> 'b query_executor \<Rightarrow> string \<Rightarrow> u64 \<Rightarrow> u32 set" where
  "field_bits R ex field key =
     (case fi_get_field (qe_filters ex) field of None \<Rightarrow> {} | Some ff \<Rightarrow> ff_bits R ff key)"

abbreviation null_set :: "'b roaring_ops \<Rightarrow> 'b query_executor \<Rightarrow> string \<Rightarrow> u32 set" where
  "null_set R ex field \<equiv> field_bits R ex field NULL_BITMAP_KEY"

definition value_set :: "'b roaring_ops \<Rightarrow> 'b query_executor \<Rightarrow> string \<Rightarrow> qvalue \<Rightarrow> u32 set" where
  "value_set R ex field v =
     (if field = ''id'' then (case v of VInteger i \<Rightarrow> alive_set R ex \<inter> {ucast i} | _ \<Rightarrow> {})
      else case resolve_value_key ex field v of None \<Rightarrow> {} | Some key \<Rightarrow> field_bits R ex field key)"

definition range_set ::
    "'b roaring_ops \<Rightarrow> 'b query_executor \<Rightarrow> string \<Rightarrow> qvalue \<Rightarrow> (u64 \<Rightarrow> u64 \<Rightarrow> bool) \<Rightarrow> u32 set" where
  "range_set R ex field v pred =
     {s. \<exists>key target. value_to_bitmap_key v = Some target \<and> key \<noteq> NULL_BITMAP_KEY \<and>
        pred key target \<and> s \<in> field_bits R ex field key}"

fun clause_set :: "'b roaring_ops \<Rightarrow> 'b query_executor \<Rightarrow> 'b filter_clause \<Rightarrow> u32 set" where
  "clause_set R ex (CEq field v) = value_set R ex field v"
| "clause_set R ex (CNotEq field v) = alive_set R ex - value_set R ex field v - null_set R ex field"
| "clause_set R ex (CIn field vs) = (\<Union>v \<in> set vs. value_set R ex field v)"
| "clause_set R ex (CNotIn field vs) =
     alive_set R ex - (\<Union>v \<in> set vs. value_set R ex field v) - null_set R ex field"
| "clause_set R ex (CNot c) = alive_set R ex - clause_set R ex c"
| "clause_set R ex (CAnd cs) = (if cs = [] then {} else (\<Inter>c \<in> set cs. clause_set R ex c))"
| "clause_set R ex (COr cs) = (\<Union>c \<in> set cs. clause_set R ex c)"
| "clause_set R ex (CGt field v) =
     (case snap_recent ex field v of Some bm \<Rightarrow> bits R bm | None \<Rightarrow> range_set R ex field v (\<lambda>k t. t < k))"
| "clause_set R ex (CGte field v) =
     (case snap_recent ex field v of Some bm \<Rightarrow> bits R bm | None \<Rightarrow> range_set R ex field v (\<lambda>k t. t \<le> k))"
| "clause_set R ex (CLt field v) =
     (case snap_older R ex field v of Some bm \<Rightarrow> bits R bm | None \<Rightarrow> range_set R ex field v (\<lambda>k t. k < t))"
| "clause_set R ex (CLte field v) =
     (case snap_older R ex field v of Some bm \<Rightarrow> bits R bm | None \<Rightarrow> range_set R ex field v (\<lambda>k t. k \<le> t))"
| "clause_set R ex (CBucketBitmap _ _ bitmap) = bits R bitmap"
| "clause_set R ex (CIsNull field) = null_set R ex field"
| "clause_set R ex (CIsNotNull field) = alive_set R ex - null_set R ex field"

definition field_known :: "'b query_executor \<Rightarrow> string \<Rightarrow> bool" where
  "field_known ex field \<longleftrightarrow> fi_get_field (qe_filters ex) field \<noteq> None"

text \<open>A range scan is allowed: the field exists, its value count is within the cap, and the
  bound is a number.\<close>

definition range_ok :: "'b query_executor \<Rightarrow> string \<Rightarrow> qvalue \<Rightarrow> bool" where
  "range_ok ex field v =
     (case fi_get_field (qe_filters ex) field of
        None \<Rightarrow> False
      | Some ff \<Rightarrow>
          (case ffc_max_range_scan_values (ff_config ff) of
             None \<Rightarrow> True | Some cap \<Rightarrow> ff_loaded_value_count ff \<le> cap) \<and>
          value_to_bitmap_key v \<noteq> None)"

definition value_ok :: "'b query_executor \<Rightarrow> string \<Rightarrow> qvalue \<Rightarrow> bool" where
  "value_ok ex field v = (if field = ''id'' then (case v of VInteger _ \<Rightarrow> True | _ \<Rightarrow> False) else field_known ex field)"

fun clause_ok :: "'b roaring_ops \<Rightarrow> 'b query_executor \<Rightarrow> 'b filter_clause \<Rightarrow> bool" where
  "clause_ok R ex (CEq field v) = value_ok ex field v"
| "clause_ok R ex (CNotEq field v) = value_ok ex field v"
| "clause_ok R ex (CIn field vs) = (field = ''id'' \<or> field_known ex field)"
| "clause_ok R ex (CNotIn field vs) = (field = ''id'' \<or> field_known ex field)"
| "clause_ok R ex (CNot c) = clause_ok R ex c"
| "clause_ok R ex (CAnd cs) = list_all (clause_ok R ex) cs"
| "clause_ok R ex (COr cs) = list_all (clause_ok R ex) cs"
| "clause_ok R ex (CGt field v) = (snap_recent ex field v \<noteq> None \<or> range_ok ex field v)"
| "clause_ok R ex (CGte field v) = (snap_recent ex field v \<noteq> None \<or> range_ok ex field v)"
| "clause_ok R ex (CLt field v) = (snap_older R ex field v \<noteq> None \<or> range_ok ex field v)"
| "clause_ok R ex (CLte field v) = (snap_older R ex field v \<noteq> None \<or> range_ok ex field v)"
| "clause_ok R ex (CBucketBitmap _ _ _) = True"
| "clause_ok R ex (CIsNull field) = field_known ex field"
| "clause_ok R ex (CIsNotNull field) = field_known ex field"

text \<open>The filter index of an executor is well formed.\<close>

definition filters_ok :: "'b roaring_ops \<Rightarrow> 'b query_executor \<Rightarrow> bool" where
  "filters_ok R ex \<longleftrightarrow> (\<forall>field ff. fi_get_field (qe_filters ex) field = Some ff \<longrightarrow> ff_ok R ff)"

text \<open>\<open>yields R r ok S\<close>: the result \<open>r\<close> is a bitmap of \<open>S\<close> if \<open>ok\<close>, and an error otherwise.\<close>

definition yields :: "'b roaring_ops \<Rightarrow> 'b bresult \<Rightarrow> bool \<Rightarrow> u32 set \<Rightarrow> bool" where
  "yields R r ok S = (case r of Inl e \<Rightarrow> \<not> ok | Inr b \<Rightarrow> ok \<and> bits R b = S)"

lemma yields_simps [simp]:
  "yields R (Inl e) ok S \<longleftrightarrow> \<not> ok"
  "yields R (Inr b) ok S \<longleftrightarrow> ok \<and> bits R b = S"
  by (simp_all add: yields_def)


lemma yields_iff:
  "yields R r ok S \<longleftrightarrow> (ok \<longrightarrow> (\<exists>b. r = Inr b \<and> bits R b = S)) \<and> (\<not> ok \<longrightarrow> (\<exists>e. r = Inl e))"
  by (cases r) auto

lemma in_ff_bits: "s \<in> ff_bits R f k \<longleftrightarrow> (\<exists>v. hm_get (ff_bitmaps f) k = Some v \<and> s \<in> vb_bits R v)"
  by (auto simp: ff_bits_def split: option.splits)

context roaring
begin

lemma fused_or_default_bits [simp]: "bits R (fused_or_default R ff key) = ff_bits R ff key"
  by (simp add: fused_or_default_def ff_get_versioned_def ff_bits_def split: option.splits)

lemma sub_null_bits [simp]: "bits R (sub_null R ex field b) = bits R b - null_set R ex field"
  by (auto simp: sub_null_def field_bits_def ff_get_versioned_def ff_bits_def split: option.splits)

lemma union_values_bits:
  assumes "field \<noteq> ''id''" and "fi_get_field (qe_filters ex) field = Some ff"
  shows "bits R (union_values R ex ff field vs b) = bits R b \<union> (\<Union>v \<in> set vs. value_set R ex field v)"
  using assms unfolding union_values_def
  by (induction vs arbitrary: b)
     (auto simp: value_set_def field_bits_def ff_get_versioned_def ff_bits_def split: option.splits)

lemma restrict_values_bits:
  assumes "field \<noteq> ''id''" and "fi_get_field (qe_filters ex) field = Some ff"
  shows "bits R (restrict_values R ex ff field vs c) = bits R c \<inter> (\<Union>v \<in> set vs. value_set R ex field v)"
proof -
  have "bits R (fold (\<lambda>v result. case resolve_value_key ex field v of
         Some key \<Rightarrow>
           (case ff_get_versioned ff key of
              Some vb \<Rightarrow> rb_or R result (rb_and R c (vb_fused_cow R vb))
            | None \<Rightarrow> result)
       | None \<Rightarrow> result) vs b) = bits R b \<union> bits R c \<inter> (\<Union>v \<in> set vs. value_set R ex field v)" for b
    using assms
    by (induction vs arbitrary: b)
       (auto simp: value_set_def field_bits_def ff_get_versioned_def ff_bits_def split: option.splits)
  then show ?thesis by (simp add: restrict_values_def)
qed

lemma id_single_yields: "yields R (id_bitmap_single R ex v) (value_ok ex ''id'' v) (value_set R ex ''id'' v)"
  by (auto simp: id_bitmap_single_def value_ok_def value_set_def alive_set_def contains_bits Let_def
      split: qvalue.splits)

lemma id_multi_yields: "yields R (id_bitmap_multi R ex vs) True (\<Union>v \<in> set vs. value_set R ex ''id'' v)"
proof -
  have "bits R (fold (\<lambda>v bm. case v of
      VInteger i \<Rightarrow> let slot = (ucast i :: u32)
        in if rb_contains R (sa_alive_bitmap (qe_slots ex)) slot then rb_insert R bm slot else bm
    | _ \<Rightarrow> bm) vs b) = bits R b \<union> (\<Union>v \<in> set vs. value_set R ex ''id'' v)" for b
    by (induction vs arbitrary: b)
       (auto simp: value_set_def alive_set_def contains_bits Let_def split: qvalue.splits)
  then show ?thesis by (simp add: id_bitmap_multi_def Let_def)
qed

lemma range_scan_yields:
  assumes "filters_ok R ex"
  shows "yields R (range_scan R ex field v pred) (range_ok ex field v) (range_set R ex field v pred)"
proof (cases "range_ok ex field v")
  case False
  then show ?thesis
    by (auto simp: range_scan_def range_ok_def Let_def split: option.splits)
next
  case True
  then obtain ff t where ff: "fi_get_field (qe_filters ex) field = Some ff"
      and t: "value_to_bitmap_key v = Some t"
    by (auto simp: range_ok_def split: option.splits)
  then have cap: "ff_loaded_value_count ff \<le> c" if "ffc_max_range_scan_values (ff_config ff) = Some c" for c
    using True that by (simp add: range_ok_def)
  let ?step = "\<lambda>(key, vb) result.
      if key = NULL_BITMAP_KEY then result
      else if pred key t then
        if vb_is_dirty R vb then rb_or R result (vb_fused R vb) else rb_or R result (vb_base vb)
      else result"
  have scan: "bits R (fold ?step xs b) =
      bits R b \<union> {s. \<exists>(key, vb) \<in> set xs. key \<noteq> NULL_BITMAP_KEY \<and> pred key t \<and> s \<in> vb_bits R vb}" for xs b
    by (induction xs arbitrary: b) (auto simp: clean_vb_bits split: if_splits)
  have "hm_ok (ff_bitmaps ff)" using assms ff by (auto simp: filters_ok_def ff_ok_def)
  then have "bits R (fold ?step (ff_bitmaps ff) (rb_new R)) = range_set R ex field v pred"
    unfolding scan
    by (fastforce simp: range_set_def t field_bits_def ff in_ff_bits simp flip: hm_get_in)
  moreover have "range_scan R ex field v pred = Inr (fold ?step (ff_bitmaps ff) (rb_new R))"
    using cap unfolding range_scan_def ff t ff_iter_versioned_def
    by (auto simp: Let_def split: option.splits dest: leD)
  ultimately show ?thesis using True by simp
qed

lemma or_by_ref_bits:
  assumes "or_by_ref R ex b c = Some b'"
  shows "clause_ok R ex c" and "bits R b' = bits R b \<union> clause_set R ex c"
proof -
  have "clause_ok R ex c \<and> bits R b' = bits R b \<union> clause_set R ex c"
  proof (cases c)
    case (CEq field v)
    with assms show ?thesis
      by (auto simp: value_ok_def field_known_def value_set_def field_bits_def ff_bits_def
          ff_get_versioned_def split: option.splits if_splits)
  next
    case (CIn field vs)
    with assms show ?thesis
      by (auto simp: field_known_def union_values_bits split: option.splits if_splits)
  qed (use assms in auto)
  then show "clause_ok R ex c" "bits R b' = bits R b \<union> clause_set R ex c" by auto
qed

lemma evaluate_eq_yields:
  "yields R (evaluate_clause R ex (CEq field v)) (value_ok ex field v) (value_set R ex field v)"
  using id_single_yields [of ex v]
  by (auto simp: value_ok_def value_set_def field_known_def field_bits_def split: option.splits)

lemma evaluate_in_yields:
  "yields R (evaluate_clause R ex (CIn field vs)) (field = ''id'' \<or> field_known ex field)
     (\<Union>v \<in> set vs. value_set R ex field v)"
  using id_multi_yields [of ex vs]
  by (auto simp: field_known_def union_values_bits split: option.splits)

end


text \<open>What the two loops compute from a partial result.\<close>

abbreviation and_set :: "'b roaring_ops \<Rightarrow> 'b query_executor \<Rightarrow> 'b filter_clause list \<Rightarrow> 'b option \<Rightarrow> u32 set" where
  "and_set R ex cs result \<equiv>
     (case result of
        None \<Rightarrow> if cs = [] then {} else (\<Inter>c \<in> set cs. clause_set R ex c)
      | Some r \<Rightarrow> bits R r \<inter> (\<Inter>c \<in> set cs. clause_set R ex c))"

lemma evaluate_yields:
  "roaring R \<Longrightarrow> filters_ok R ex \<Longrightarrow> yields R (evaluate_clause R ex c) (clause_ok R ex c) (clause_set R ex c)"
  "roaring R \<Longrightarrow> filters_ok R ex \<Longrightarrow>
     yields R (evaluate_and R ex cs result) (list_all (clause_ok R ex) cs) (and_set R ex cs result)"
  "roaring R \<Longrightarrow> filters_ok R ex \<Longrightarrow>
     yields R (evaluate_or R ex cs b) (list_all (clause_ok R ex) cs) (bits R b \<union> (\<Union>c \<in> set cs. clause_set R ex c))"
proof (induction R ex c and R ex cs result and R ex cs b rule: evaluate_clause_evaluate_and_evaluate_or.induct)
  case (1 R ex field v)
  then show ?case using roaring.evaluate_eq_yields [OF 1(1)] by (simp only: clause_ok.simps clause_set.simps)
next
  case (2 R ex field v)
  with roaring.evaluate_eq_yields [of R ex field v] show ?case
    unfolding evaluate_clause.simps(2) clause_ok.simps clause_set.simps
    by (cases "evaluate_clause R ex (CEq field v)")
       (simp_all add: roaring.sub_null_bits roaring.bits_sub alive_set_def del: evaluate_clause.simps)
next
  case (3 R ex field vs)
  then show ?case using roaring.evaluate_in_yields [OF 3(1)] by (simp only: clause_ok.simps clause_set.simps)
next
  case (4 R ex field vs)
  with roaring.evaluate_in_yields [of R ex field vs] show ?case
    unfolding evaluate_clause.simps(4) clause_ok.simps clause_set.simps
    by (cases "evaluate_clause R ex (CIn field vs)")
       (simp_all add: roaring.sub_null_bits roaring.bits_sub alive_set_def del: evaluate_clause.simps)
next
  case (5 R ex c)
  then show ?case by (auto simp: yields_iff roaring.bits_sub alive_set_def split: sum.splits)
next
  case (6 R ex cs)
  have "list_all P (optimize_and_clause R cs f n) = list_all P cs" for P f n
    by (simp add: list_all_iff)
  moreover have "optimize_and_clause R cs f n = [] \<longleftrightarrow> cs = []" for f n
    by (metis set_empty set_optimize_and)
  ultimately show ?case using 6 by (cases "cs = []") simp_all
next
  case (7 R ex cs)
  then show ?case by (simp add: roaring.bits_new)
next
  case (16 R ex c cs result)
  then show ?case
    by (cases "evaluate_clause R ex c"; cases result)
       (auto simp: yields_iff roaring.bits_and Int_assoc)
next
  case (18 R ex c cs b)
  show ?case
  proof (cases "or_by_ref R ex b c")
    case None
    with 18 show ?thesis
      by (cases "evaluate_clause R ex c") (auto simp: yields_iff roaring.bits_or Un_assoc)
  next
    case (Some b')
    from roaring.or_by_ref_bits [OF 18(4) Some] 18 Some show ?thesis
      by (simp add: Un_assoc)
  qed
qed (auto simp: roaring.range_scan_yields roaring.bits_new roaring.bits_sub roaring.fused_or_default_bits
       alive_set_def field_known_def field_bits_def split: option.splits)


text \<open>
  Where the fast paths agree with \<open>evaluate_clause\<close>: no filter field is called \<open>id\<close>, a negated
  clause contains no empty conjunction, and a field tested by \<open>NotEq\<close> or \<open>NotIn\<close> has no null slots.
\<close>

fun no_empty_and :: "'b filter_clause \<Rightarrow> bool" where
  "no_empty_and (CNot c) = no_empty_and c"
| "no_empty_and (CAnd cs) = (cs \<noteq> [] \<and> list_all no_empty_and cs)"
| "no_empty_and (COr cs) = list_all no_empty_and cs"
| "no_empty_and _ = True"

fun fast_ok :: "'b roaring_ops \<Rightarrow> 'b query_executor \<Rightarrow> 'b filter_clause \<Rightarrow> bool" where
  "fast_ok R ex (CNot c) = no_empty_and c"
| "fast_ok R ex (CNotEq field v) = (null_set R ex field = {})"
| "fast_ok R ex (CNotIn field vs) = (null_set R ex field = {})"
| "fast_ok R ex _ = True"

lemma evaluate_within_yields:
  assumes "roaring R" and "filters_ok R ex" and "clause_ok R ex c"
  shows "yields R (evaluate_within R ex c b) True (bits R b \<inter> clause_set R ex c)"
  using evaluate_yields(1) [OF assms(1,2), of c] assms
  by (auto simp: evaluate_within_def yields_iff roaring.bits_and)

lemma candidates_yields:
  "roaring R \<Longrightarrow> filters_ok R ex \<Longrightarrow> \<not> field_known ex ''id'' \<Longrightarrow> clause_ok R ex c \<Longrightarrow> no_empty_and c \<Longrightarrow>
     yields R (evaluate_clause_with_candidates R ex c b) True (bits R b \<inter> clause_set R ex c)"
  "roaring R \<Longrightarrow> filters_ok R ex \<Longrightarrow> \<not> field_known ex ''id'' \<Longrightarrow> list_all (clause_ok R ex) cs \<Longrightarrow>
     list_all no_empty_and cs \<Longrightarrow>
     yields R (candidates_and R ex cs b) True (bits R b \<inter> (\<Inter>c \<in> set cs. clause_set R ex c))"
  "roaring R \<Longrightarrow> filters_ok R ex \<Longrightarrow> \<not> field_known ex ''id'' \<Longrightarrow> list_all (clause_ok R ex) cs \<Longrightarrow>
     list_all no_empty_and cs \<Longrightarrow>
     yields R (candidates_or R ex cs b r) True (bits R r \<union> bits R b \<inter> (\<Union>c \<in> set cs. clause_set R ex c))"
proof (induction R ex c b and R ex cs b and R ex cs b r
    rule: evaluate_clause_with_candidates_candidates_and_candidates_or.induct)
  case (1 R ex field v b)
  show ?case
  proof (cases "fi_get_field (qe_filters ex) field")
    case None
    with evaluate_within_yields [OF 1(1,2,4)] show ?thesis by simp
  next
    case (Some ff)
    with 1 have "field \<noteq> ''id''" by (auto simp: field_known_def)
    with Some 1(1) show ?thesis
      by (auto simp: value_set_def field_bits_def ff_get_versioned_def ff_bits_def roaring.bits_new
          roaring.bits_and roaring.vb_fused_cow_bits split: option.splits)
  qed
next
  case (2 R ex field vs b)
  show ?case
  proof (cases "fi_get_field (qe_filters ex) field")
    case None
    with evaluate_within_yields [OF 2(1,2,4)] show ?thesis by simp
  next
    case (Some ff)
    with 2 have "field \<noteq> ''id''" by (auto simp: field_known_def)
    with Some 2(1) show ?thesis by (simp add: roaring.restrict_values_bits)
  qed
next
  case (3 R ex cs b)
  then show ?case by simp
next
  case (4 R ex cs b)
  then show ?case by (simp add: roaring.bits_new)
next
  case (7 R ex c cs b)
  then show ?case
    by (cases "evaluate_clause_with_candidates R ex c b")
       (auto simp: yields_iff roaring.is_empty_bits Int_assoc)
next
  case (9 R ex c cs b r)
  then show ?case
    by (cases "evaluate_clause_with_candidates R ex c b")
       (auto simp: yields_iff roaring.bits_or)
qed (simp_all only: evaluate_clause_with_candidates.simps candidates_and.simps candidates_or.simps
       evaluate_within_yields, simp_all)

lemma try_and_yields:
  assumes "roaring R" and "filters_ok R ex" and "\<not> field_known ex ''id''" and "clause_ok R ex c"
    and "fast_ok R ex c" and "bits R acc \<subseteq> alive_set R ex" and "try_and_by_ref R ex acc c = Some r"
  shows "yields R r True (bits R acc \<inter> clause_set R ex c)"
proof (cases c)
  case (CNot d)
  with candidates_yields(1) [OF assms(1,2,3), of d acc] assms show ?thesis
    by (auto simp: yields_iff roaring.bits_sub split: sum.splits)
next
  case (CNotIn field vs)
  with assms obtain ff where ff: "field \<noteq> ''id''" "fi_get_field (qe_filters ex) field = Some ff"
    by (auto split: option.splits if_splits)
  have "bits R (fold (\<lambda>v acc. case resolve_value_key ex field v of
                Some key \<Rightarrow>
                  (case ff_get_versioned ff key of
                     Some vb \<Rightarrow> rb_sub R acc (vb_fused_cow R vb)
                   | None \<Rightarrow> acc)
              | None \<Rightarrow> acc) vs a) = bits R a - (\<Union>v \<in> set vs. value_set R ex field v)" for a
    using assms(1) ff
    by (induction vs arbitrary: a)
       (auto simp: value_set_def field_bits_def ff_get_versioned_def ff_bits_def roaring.bits_sub
         roaring.vb_fused_cow_bits split: option.splits)
  with assms CNotIn ff show ?thesis by auto
qed (use assms in \<open>auto simp: value_set_def field_bits_def ff_get_versioned_def ff_bits_def
       roaring.bits_and roaring.bits_sub roaring.vb_fused_cow_bits roaring.restrict_values_bits
       split: option.splits if_splits\<close>)


text \<open>A conjunction the accumulator loop handles: every clause evaluates, its fast path agrees,
  and it holds only of alive slots.\<close>

definition clauses_ok :: "'b roaring_ops \<Rightarrow> 'b query_executor \<Rightarrow> 'b filter_clause list \<Rightarrow> bool" where
  "clauses_ok R ex cs \<longleftrightarrow> filters_ok R ex \<and> \<not> field_known ex ''id'' \<and>
     (\<forall>c \<in> set cs. clause_ok R ex c \<and> fast_ok R ex c \<and> clause_set R ex c \<subseteq> alive_set R ex)"

lemma clauses_ok_Cons:
  "clauses_ok R ex (c # cs) \<longleftrightarrow>
     clause_ok R ex c \<and> fast_ok R ex c \<and> clause_set R ex c \<subseteq> alive_set R ex \<and> clauses_ok R ex cs"
  by (auto simp: clauses_ok_def)

lemma compute_loop_yields:
  assumes "roaring R" and "clauses_ok R ex cs"
    and "\<And>acc. result = Some acc \<Longrightarrow> bits R acc \<subseteq> alive_set R ex"
  shows "yields R (compute_filters_loop R ex cs result) True (and_set R ex cs result)"
  using assms(2,3)
proof (induction cs arbitrary: result)
  case Nil
  then show ?case using assms(1) by (auto simp: roaring.bits_new split: option.splits)
next
  case (Cons c cs)
  note simps = assms(1) roaring.len_bits roaring.bits_and roaring.is_empty_bits
  have c: "filters_ok R ex" "\<not> field_known ex ''id''" "clause_ok R ex c" "fast_ok R ex c"
      "clause_set R ex c \<subseteq> alive_set R ex" and cs: "clauses_ok R ex cs"
    using Cons.prems(1) by (auto simp: clauses_ok_def)
  obtain b where b: "evaluate_clause R ex c = Inr b" "bits R b = clause_set R ex c"
    using evaluate_yields(1) [OF assms(1) c(1), of c] c(3) by (auto simp: yields_iff)
  show ?case
  proof (cases result)
    case None
    with Cons.IH [OF cs, of "Some b"] b c(5) show ?thesis by auto
  next
    case (Some acc)
    with Cons.prems(2) have acc: "bits R acc \<subseteq> alive_set R ex" by simp
    have IH: "yields R (compute_filters_loop R ex cs (Some a)) True
        (bits R a \<inter> (\<Inter>c \<in> set cs. clause_set R ex c))" if "bits R a \<subseteq> alive_set R ex" for a
      using Cons.IH [OF cs, of "Some a"] that by simp
    have fin: "rb_len R a = 0 \<longleftrightarrow> bits R a = {}" for a
      by (simp add: simps)
    consider (empty) "bits R acc = {}" | (slow) "bits R acc \<noteq> {}" "try_and_by_ref R ex acc c = None"
      | (fast) a where "bits R acc \<noteq> {}" "try_and_by_ref R ex acc c = Some (Inr a)"
          "bits R a = bits R acc \<inter> clause_set R ex c"
      using try_and_yields [OF assms(1) c(1-4) acc]
      by (cases "try_and_by_ref R ex acc c") (auto simp: yields_iff)
    then show ?thesis
    proof cases
      case empty
      with IH [OF acc] Some show ?thesis by (simp add: simps)
    next
      case slow
      with IH [of "rb_and R acc b"] Some b acc show ?thesis
        by (auto simp: fin simps Int_assoc Let_def)
    next
      case fast
      with IH [of a] Some acc show ?thesis
        by (auto simp: fin simps Int_assoc)
    qed
  qed
qed

text \<open>The slots a query matches.\<close>

definition query_set :: "'b roaring_ops \<Rightarrow> 'b query_executor \<Rightarrow> 'b filter_clause list \<Rightarrow> u32 set" where
  "query_set R ex cs = {s \<in> alive_set R ex. \<forall>c \<in> set cs. s \<in> clause_set R ex c}"

lemma compute_yields:
  assumes "roaring R" and "clauses_ok R ex cs"
  shows "yields R (compute_filters R ex cs) True (query_set R ex cs)"
proof (cases "cs = []")
  case True
  then show ?thesis by (simp add: compute_filters_def query_set_def alive_set_def)
next
  case False
  then have "(\<Inter>c \<in> set cs. clause_set R ex c) = query_set R ex cs"
    using assms(2) by (cases cs) (auto simp: query_set_def clauses_ok_def)
  with compute_loop_yields [OF assms, of None] False show ?thesis
    by (simp add: compute_filters_def)
qed

lemma clauses_ok_perm: "set cs = set cs' \<Longrightarrow> clauses_ok R ex cs = clauses_ok R ex cs'"
  by (simp add: clauses_ok_def)

lemma query_set_perm: "set cs = set cs' \<Longrightarrow> query_set R ex cs = query_set R ex cs'"
  by (simp add: query_set_def)


section \<open>Properties\<close>

text \<open>
  C4: evaluating a clause.  \<open>evaluate_clause\<close> succeeds exactly if every field the clause names
  exists, an \<open>id\<close> test has an integer, and every range scan is within its cap and has a
  numeric bound; the bitmap is then the clause's meaning, whatever is pending in the versioned
  bitmaps and in whatever order the planner puts the parts of a nested conjunction.
\<close>

theorem evaluate_clause_correct:
  assumes "roaring R" and "filters_ok R ex"
  shows "(clause_ok R ex c \<longrightarrow> (\<exists>b. evaluate_clause R ex c = Inr b \<and> bits R b = clause_set R ex c)) \<and>
    (\<not> clause_ok R ex c \<longrightarrow> (\<exists>e. evaluate_clause R ex c = Inl e))"
  using evaluate_yields(1) [OF assms] by (simp add: yields_iff)

definition tag_cfg :: filter_field_config where
  "tag_cfg = \<lparr>ffc_name = ''tag'', ffc_field_type = SingleValue, ffc_behaviors = None,
     ffc_eviction = None, ffc_eager_load = False, ffc_per_value_lazy = False,
     ffc_max_range_scan_values = Some 2\<rparr>"

definition tag_field :: "u32 set filter_field" where
  "tag_field = ff_insert set_roaring (ff_insert_bulk set_roaring
     (ff_insert_bulk set_roaring (ff_new tag_cfg) 1 [1, 2]) 2 [2, 3]) NULL_BITMAP_KEY 4"

definition flag_field :: "u32 set filter_field" where
  "flag_field = ff_insert_bulk set_roaring (ff_new tag_cfg) 1 [1, 3]"

definition small_index :: "u32 set query_executor" where
  "small_index = qe_new (sa_from_state set_roaring 5 {1, 2, 3, 4} {})
     [(''tag'', tag_field), (''flag'', flag_field)] [(''count'', field3)] 100"

lemma small_index_simps:
  "fi_get_field (qe_filters small_index) ''tag'' = Some tag_field"
  "fi_get_field (qe_filters small_index) ''flag'' = Some flag_field"
  "fi_get_field (qe_filters small_index) ''id'' = None"
  "qe_sorts small_index = [(''count'', field3)]" "qe_max_page_size small_index = 100"
  "alive_set set_roaring small_index = {1, 2, 3, 4}" "qe_time_buckets small_index = None"
  "sa_alive_bitmap (qe_slots small_index) = {1, 2, 3, 4}"
  by (simp_all add: small_index_def qe_new_def fi_get_field_def alive_set_def sa_from_state_def
      sa_alive_bitmap_def vb_new_def)

lemma tag_field_bits:
  "ff_bits set_roaring tag_field k =
    (if k = NULL_BITMAP_KEY then {4} else if k = 2 then {2, 3} else if k = 1 then {1, 2} else {})"
  "ff_bits set_roaring flag_field k = (if k = 1 then {1, 3} else {})"
proof -
  have "ff_bits set_roaring (ff_new tag_cfg) x = {}" for x by (simp add: ff_bits_def ff_new_def)
  then show "ff_bits set_roaring tag_field k =
    (if k = NULL_BITMAP_KEY then {4} else if k = 2 then {2, 3} else if k = 1 then {1, 2} else {})"
    "ff_bits set_roaring flag_field k = (if k = 1 then {1, 3} else {})"
    by (simp_all add: tag_field_def flag_field_def sr.ff_bits_insert sr.ff_bits_insert_bulk
        NULL_BITMAP_KEY_def u64_MAX_def)
qed

lemma small_index_filters: "filters_ok set_roaring small_index"
proof -
  have "ff_ok set_roaring tag_field" "ff_ok set_roaring flag_field"
    unfolding tag_field_def flag_field_def by (intro sr.ff_ok_writes sr.ff_ok_new)+
  then show ?thesis
    by (auto simp: filters_ok_def small_index_def qe_new_def fi_get_field_def split: if_splits)
qed

theorem evaluate_clause_correct_witness:
  "\<exists>b. evaluate_clause set_roaring small_index
      (CAnd [CNot (CEq ''tag'' (VInteger 1)), CEq ''flag'' (VInteger 1)]) = Inr b \<and>
    bits set_roaring b = {3}"
proof -
  let ?c = "CAnd [CNot (CEq ''tag'' (VInteger 1)), CEq ''flag'' (VInteger 1)]"
  have "clause_ok set_roaring small_index ?c"
    by (simp add: value_ok_def field_known_def small_index_simps)
  moreover have "clause_set set_roaring small_index ?c = {3}"
    by (simp add: value_set_def resolve_value_key_def field_bits_def small_index_simps tag_field_bits
        NULL_BITMAP_KEY_def u64_MAX_def insert_Diff_if)
  ultimately show ?thesis
    using evaluate_clause_correct [OF sr.roaring_axioms small_index_filters, of ?c]
    by (simp del: evaluate_clause.simps clause_ok.simps clause_set.simps)
qed



text \<open>
  The post-validation of a slot agrees with the query.  For clauses that evaluate,
  \<open>slot_matches_filters\<close> returns without error whether the slot satisfies all of them.
\<close>

theorem slot_matches_correct:
  assumes "roaring R" and "filters_ok R ex" and "list_all (clause_ok R ex) cs"
  shows "slot_matches_filters R ex slot cs = Inr (\<forall>c \<in> set cs. slot \<in> clause_set R ex c)"
  using assms(3)
proof (induction cs)
  case Nil
  then show ?case by simp
next
  case (Cons c cs)
  with evaluate_yields(1) [OF assms(1,2), of c] obtain b
    where "evaluate_clause R ex c = Inr b" "bits R b = clause_set R ex c" by (auto simp: yields_iff)
  with Cons show ?case by (simp add: roaring.contains_bits [OF assms(1)])
qed

theorem slot_matches_correct_witness:
  "slot_matches_filters set_roaring small_index 3
     [CEq ''tag'' (VInteger 2), CIn ''flag'' [VInteger 1, VInteger 9]] = Inr True"
proof -
  let ?cs = "[CEq ''tag'' (VInteger 2), CIn ''flag'' [VInteger 1, VInteger 9]]"
  have "list_all (clause_ok set_roaring small_index) ?cs"
    by (simp add: value_ok_def field_known_def small_index_simps)
  from slot_matches_correct [OF sr.roaring_axioms small_index_filters this, of 3] show ?thesis
    by (simp add: value_set_def resolve_value_key_def field_bits_def small_index_simps tag_field_bits
        NULL_BITMAP_KEY_def u64_MAX_def del: slot_matches_filters.simps)
qed

text \<open>
  Where a field has null slots the position of a \<open>NotEq\<close> clause matters.  As the first
  clause it excludes the slots whose value is null; as a later one, by the fast path, it
  keeps them, and the same conjunction has two results.
\<close>

theorem noteq_null_order:
  "(\<exists>b. compute_filters set_roaring small_index
      [CNotEq ''tag'' (VInteger 1), CIn ''id'' [VInteger 3, VInteger 4]] = Inr b \<and> bits set_roaring b = {3}) \<and>
   (\<exists>b. compute_filters set_roaring small_index
      [CIn ''id'' [VInteger 3, VInteger 4], CNotEq ''tag'' (VInteger 1)] = Inr b \<and> bits set_roaring b = {3, 4})"
proof -
  have tag1: "ff_get_versioned tag_field 1 \<noteq> None"
    by (simp add: tag_field_def ff_get_versioned_def ff_insert_def ff_insert_bulk_def)
  have eq: "fused_or_default set_roaring tag_field 1 = {1, 2}"
    using sr.fused_or_default_bits [of tag_field 1] by (simp add: tag_field_bits NULL_BITMAP_KEY_def u64_MAX_def)
  have null: "null_set set_roaring small_index ''tag'' = {4}"
    by (simp add: field_bits_def small_index_simps tag_field_bits)
  have sub: "sub_null set_roaring small_index ''tag'' b = b - {4}" for b
    using sr.sub_null_bits [of small_index "''tag''" b] null by simp
  obtain noteq where noteq: "evaluate_clause set_roaring small_index (CNotEq ''tag'' (VInteger 1)) = Inr noteq"
      "bits set_roaring noteq = {3}"
    by (simp add: small_index_simps resolve_value_key_def eq sub insert_Diff_if)
  obtain ids where ids: "evaluate_clause set_roaring small_index (CIn ''id'' [VInteger 3, VInteger 4]) = Inr ids"
      "bits set_roaring ids = {3, 4}"
    using sr.id_multi_yields [of small_index "[VInteger 3, VInteger 4]"]
    by (auto simp: yields_iff value_set_def small_index_simps)
  obtain vb where vb: "ff_get_versioned tag_field 1 = Some vb" "vb_bits set_roaring vb = {1, 2}"
    using tag1 sr.vb_fused_bits eq by (auto simp: fused_or_default_def split: option.splits)
  have "try_and_by_ref set_roaring small_index ids (CNotEq ''tag'' (VInteger 1)) =
      Some (Inr (rb_sub set_roaring ids (vb_fused_cow set_roaring vb)))"
    by (simp add: small_index_simps resolve_value_key_def vb)
  moreover have "try_and_by_ref set_roaring small_index noteq (CIn ''id'' [VInteger 3, VInteger 4]) = None"
    by simp
  ultimately show ?thesis
    using noteq ids vb sr.vb_fused_cow_bits [of vb]
    by (simp add: compute_filters_def Let_def insert_Diff_if Int_insert_right
        del: evaluate_clause.simps try_and_by_ref.simps)
qed

end
