(* ===== verification/Radix_Sort.thy ===== *)
theory Radix_Sort
  imports Query
begin

text \<open>
  The radix sort index (\<open>radix_sort.rs\<close>): slots in 256 buckets by the top eight bits of their
  sort value, with cumulative counts from either end.  The array of buckets is a list of
  length 256; counts are \<open>u32\<close>.  \<open>memory_bytes\<close> is an estimate of memory use and is left out.
\<close>

record 'b radix_sort_index =
  rx_buckets :: "'b option list"
  rx_cumulative_desc :: "u32 list"
  rx_cumulative_asc :: "u32 list"
  rx_counts_dirty :: bool

definition rx_prefix :: "u32 \<Rightarrow> usize" where
  "rx_prefix sort_value = unat (drop_bit 24 sort_value)"

definition rx_add :: "'b roaring_ops \<Rightarrow> 'b option list \<Rightarrow> u32 \<Rightarrow> u32 \<Rightarrow> 'b option list" where
  "rx_add R buckets slot sort_value =
     (let prefix = rx_prefix sort_value
      in buckets[prefix := Some (rb_insert R
           (case buckets ! prefix of None \<Rightarrow> rb_new R | Some bm \<Rightarrow> bm) slot)])"

text \<open>\<open>bm.len() as u32\<close>, 0 for an absent bucket.\<close>

definition rx_count :: "'b roaring_ops \<Rightarrow> 'b option \<Rightarrow> u32" where
  "rx_count R bucket = (case bucket of Some bm \<Rightarrow> of_nat (rb_len R bm) | None \<Rightarrow> 0)"

text \<open>The running sums of one direction, written at the indices visited.\<close>

fun rx_running :: "'b roaring_ops \<Rightarrow> 'b option list \<Rightarrow> nat list \<Rightarrow> u32 \<Rightarrow> u32 list \<Rightarrow> u32 list" where
  "rx_running R buckets [] running out = out"
| "rx_running R buckets (i # is) running out =
     (let running = running + rx_count R (buckets ! i)
      in rx_running R buckets is running (out[i := running]))"

definition rx_rebuild_counts :: "'b roaring_ops \<Rightarrow> 'b radix_sort_index \<Rightarrow> 'b radix_sort_index" where
  "rx_rebuild_counts R rx =
     rx\<lparr>rx_cumulative_desc := rx_running R (rx_buckets rx) (rev [0..<256]) 0 (rx_cumulative_desc rx),
        rx_cumulative_asc := rx_running R (rx_buckets rx) [0..<256] 0 (rx_cumulative_asc rx),
        rx_counts_dirty := False\<rparr>"

definition rx_from_entries :: "'b roaring_ops \<Rightarrow> (u32 \<times> u32) list \<Rightarrow> 'b radix_sort_index" where
  "rx_from_entries R entries =
     rx_rebuild_counts R
       \<lparr>rx_buckets = fold (\<lambda>(slot, v) buckets. rx_add R buckets slot v) entries (replicate 256 None),
        rx_cumulative_desc = replicate 256 0, rx_cumulative_asc = replicate 256 0,
        rx_counts_dirty = True\<rparr>"

definition rx_from_bitmap :: "'b roaring_ops \<Rightarrow> 'b \<Rightarrow> (u32 \<Rightarrow> u32) \<Rightarrow> 'b radix_sort_index" where
  "rx_from_bitmap R bitmap value_fn =
     rx_from_entries R (map (\<lambda>slot. (slot, value_fn slot)) (rb_iter R bitmap))"

definition rx_insert :: "'b roaring_ops \<Rightarrow> 'b radix_sort_index \<Rightarrow> u32 \<Rightarrow> u32 \<Rightarrow> 'b radix_sort_index" where
  "rx_insert R rx slot sort_value =
     rx\<lparr>rx_buckets := rx_add R (rx_buckets rx) slot sort_value, rx_counts_dirty := True\<rparr>"

definition rx_remove :: "'b roaring_ops \<Rightarrow> 'b radix_sort_index \<Rightarrow> u32 \<Rightarrow> u32 \<Rightarrow> 'b radix_sort_index" where
  "rx_remove R rx slot sort_value =
     (let prefix = rx_prefix sort_value;
          buckets =
            (case rx_buckets rx ! prefix of
               Some bm \<Rightarrow> (rx_buckets rx)[prefix := Some (rb_remove R bm slot)]
             | None \<Rightarrow> rx_buckets rx)
      in rx\<lparr>rx_buckets := buckets, rx_counts_dirty := True\<rparr>)"

text \<open>The first bucket that has the slot loses it; \<open>None\<close> when no bucket has it.\<close>

fun rx_remove_first :: "'b roaring_ops \<Rightarrow> u32 \<Rightarrow> 'b option list \<Rightarrow> 'b option list option" where
  "rx_remove_first R slot [] = None"
| "rx_remove_first R slot (None # bs) = map_option ((#) None) (rx_remove_first R slot bs)"
| "rx_remove_first R slot (Some bm # bs) =
     (if rb_contains R bm slot then Some (Some (rb_remove R bm slot) # bs)
      else map_option ((#) (Some bm)) (rx_remove_first R slot bs))"

definition rx_remove_blind :: "'b roaring_ops \<Rightarrow> 'b radix_sort_index \<Rightarrow> u32 \<Rightarrow> 'b radix_sort_index" where
  "rx_remove_blind R rx slot =
     (case rx_remove_first R slot (rx_buckets rx) of
        Some buckets \<Rightarrow> rx\<lparr>rx_buckets := buckets, rx_counts_dirty := True\<rparr>
      | None \<Rightarrow> rx)"

definition rx_total_slots :: "'b roaring_ops \<Rightarrow> 'b radix_sort_index \<Rightarrow> u32" where
  "rx_total_slots R rx =
     (if rx_counts_dirty rx then sum_list (map (rx_count R) (filter (\<lambda>b. b \<noteq> None) (rx_buckets rx)))
      else rx_cumulative_desc rx ! 0)"

fun rx_find_offset :: "u32 list \<Rightarrow> nat list \<Rightarrow> usize \<Rightarrow> usize \<Rightarrow> (u8 \<times> usize) option" where
  "rx_find_offset cumulative [] offset prev_cum = None"
| "rx_find_offset cumulative (i # is) offset prev_cum =
     (let cum = unat (cumulative ! i)
      in if offset < cum then Some (of_nat i, offset - prev_cum)
         else rx_find_offset cumulative is offset cum)"

definition rx_offset_to_bucket ::
    "'b roaring_ops \<Rightarrow> 'b radix_sort_index \<Rightarrow> usize \<Rightarrow> sort_direction \<Rightarrow>
     (u8 \<times> usize) option \<times> 'b radix_sort_index" where
  "rx_offset_to_bucket R rx offset direction =
     (let rx = (if rx_counts_dirty rx then rx_rebuild_counts R rx else rx)
      in case direction of
           Desc \<Rightarrow> (rx_find_offset (rx_cumulative_desc rx) (rev [0..<256]) offset 0, rx)
         | Asc \<Rightarrow> (rx_find_offset (rx_cumulative_asc rx) [0..<256] offset 0, rx))"

definition rx_bucket :: "'b radix_sort_index \<Rightarrow> u8 \<Rightarrow> 'b option" where
  "rx_bucket rx prefix = rx_buckets rx ! unat prefix"

text \<open>\<open>iter_buckets\<close> and \<open>RadixBucketIter::next\<close>, run to the end: the buckets that are present
  and not empty, from 255 down or from 0 up.\<close>

definition rx_iter_buckets ::
    "'b roaring_ops \<Rightarrow> 'b radix_sort_index \<Rightarrow> sort_direction \<Rightarrow> (u8 \<times> 'b) list" where
  "rx_iter_buckets R rx direction =
     List.map_filter
       (\<lambda>i. case rx_buckets rx ! i of
              Some bm \<Rightarrow> if \<not> rb_is_empty R bm then Some (of_nat i, bm) else None
            | None \<Rightarrow> None)
       (case direction of Desc \<Rightarrow> rev [0..<256] | Asc \<Rightarrow> [0..<256])"

definition rx_populated_buckets :: "'b radix_sort_index \<Rightarrow> usize" where
  "rx_populated_buckets rx = length (filter (\<lambda>b. b \<noteq> None) (rx_buckets rx))"



section \<open>Content and invariant\<close>

text \<open>The slots of one bucket, of all buckets, and the invariant relative to the values \<open>val\<close> that
  the slots were inserted with: a slot is in the bucket of its value's prefix only.\<close>

definition bucket_bits :: "'b roaring_ops \<Rightarrow> 'b option \<Rightarrow> u32 set" where
  "bucket_bits R bucket = (case bucket of None \<Rightarrow> {} | Some bm \<Rightarrow> bits R bm)"

definition rx_bits :: "'b roaring_ops \<Rightarrow> 'b radix_sort_index \<Rightarrow> u32 set" where
  "rx_bits R rx = (\<Union>b \<in> set (rx_buckets rx). bucket_bits R b)"

definition rx_sorted_in :: "'b roaring_ops \<Rightarrow> (u32 \<Rightarrow> u32) \<Rightarrow> 'b option list \<Rightarrow> bool" where
  "rx_sorted_in R val buckets \<longleftrightarrow> length buckets = 256 \<and>
     (\<forall>i < 256. \<forall>s \<in> bucket_bits R (buckets ! i). rx_prefix (val s) = i)"

text \<open>The counts are those of the buckets unless the dirty flag is set.\<close>

definition running_count :: "'b roaring_ops \<Rightarrow> 'b option list \<Rightarrow> nat list \<Rightarrow> u32" where
  "running_count R buckets is = sum_list (map (\<lambda>i. rx_count R (buckets ! i)) is)"

definition counts_ok :: "'b roaring_ops \<Rightarrow> 'b radix_sort_index \<Rightarrow> bool" where
  "counts_ok R rx \<longleftrightarrow> length (rx_cumulative_desc rx) = 256 \<and> length (rx_cumulative_asc rx) = 256 \<and>
     (\<not> rx_counts_dirty rx \<longrightarrow> (\<forall>i < 256.
        rx_cumulative_desc rx ! i = running_count R (rx_buckets rx) [i..<256] \<and>
        rx_cumulative_asc rx ! i = running_count R (rx_buckets rx) [0..<Suc i]))"

definition rx_ok :: "'b roaring_ops \<Rightarrow> (u32 \<Rightarrow> u32) \<Rightarrow> 'b radix_sort_index \<Rightarrow> bool" where
  "rx_ok R val rx \<longleftrightarrow> rx_sorted_in R val (rx_buckets rx) \<and> counts_ok R rx"

lemma rx_prefix_less: "rx_prefix v < 256"
proof -
  have "unat (drop_bit 24 v) = unat v div 2 ^ 24"
    unfolding unat_drop_bit_eq by (simp only: drop_bit_eq_div)
  moreover have "unat v < 2 ^ 32" using unsigned_less [where w = v and ?'a = nat] by simp
  ultimately show ?thesis by (simp add: rx_prefix_def less_mult_imp_div_less)
qed

lemma rx_running_length [simp]: "length (rx_running R bs is r out) = length out"
  by (induction "is" arbitrary: r out) (auto simp: Let_def)

lemma rx_running_nth:
  assumes "distinct is" and "\<forall>i \<in> set is. i < length out" and "k < length is"
  shows "rx_running R bs is r out ! (is ! k) = r + running_count R bs (take (Suc k) is)"
  using assms
proof (induction "is" arbitrary: r out k)
  case Nil
  then show ?case by simp
next
  case (Cons i "is")
  have keep: "rx_running R bs js r' out' ! j = out' ! j" if "j \<notin> set js" for js r' out' j
    using that by (induction js arbitrary: r' out') (auto simp: Let_def)
  show ?case
  proof (cases k)
    case 0
    with Cons.prems show ?thesis by (simp add: Let_def keep running_count_def)
  next
    case (Suc k')
    with Cons.prems Cons.IH [of "out[i := r + rx_count R (bs ! i)]" k' "r + rx_count R (bs ! i)"]
    show ?thesis by (simp add: Let_def running_count_def add.assoc)
  qed
qed

lemma running_count_rev: "running_count R bs (rev is) = running_count R bs is"
  by (simp add: running_count_def rev_map [symmetric])

lemma running_asc:
  assumes "i < n" and "length out = n"
  shows "rx_running R bs [0..<n] 0 out ! i = running_count R bs [0..<Suc i]"
  using rx_running_nth [of "[0..<n]" out i R bs 0] assms by (simp add: take_upt del: upt_Suc)

lemma running_desc:
  assumes "i < n" and "length out = n"
  shows "rx_running R bs (rev [0..<n]) 0 out ! i = running_count R bs [i..<n]"
proof -
  have "take (Suc (n - Suc i)) (rev [0..<n]) = rev [i..<n]"
    using assms(1) by (simp add: take_rev Suc_diff_Suc)
  moreover have "rev [0..<n] ! (n - Suc i) = i"
    using assms(1) by (simp add: rev_nth)
  ultimately show ?thesis
    using rx_running_nth [of "rev [0..<n]" out "n - Suc i" R bs 0] assms by (simp add: running_count_rev)
qed

lemma counts_rebuild:
  assumes "length (rx_cumulative_desc rx) = 256" and "length (rx_cumulative_asc rx) = 256"
  shows "counts_ok R (rx_rebuild_counts R rx)"
  using assms by (simp add: counts_ok_def rx_rebuild_counts_def running_asc running_desc del: upt_Suc)

context roaring
begin

lemma bucket_bits_simps [simp]:
  "bucket_bits R None = {}" "bucket_bits R (Some bm) = bits R bm"
  by (simp_all add: bucket_bits_def)

lemma rx_add_nth:
  assumes "length bs = 256" and "i < 256"
  shows "bucket_bits R (rx_add R bs slot v ! i) =
    (if i = rx_prefix v then insert slot (bucket_bits R (bs ! i)) else bucket_bits R (bs ! i))"
  using assms rx_prefix_less [of v] by (auto simp: rx_add_def Let_def split: option.splits)

lemma rx_add_length [simp]: "length (rx_add R bs slot v) = length bs"
  by (simp add: rx_add_def Let_def)

lemma rx_bits_nth: "length (rx_buckets rx) = 256 \<Longrightarrow> s \<in> rx_bits R rx \<longleftrightarrow> (\<exists>i < 256. s \<in> bucket_bits R (rx_buckets rx ! i))"
  unfolding rx_bits_def set_conv_nth by auto

lemma rx_sorted_add:
  assumes "rx_sorted_in R val bs" and "val slot = v"
  shows "rx_sorted_in R val (rx_add R bs slot v)"
  using assms by (auto simp: rx_sorted_in_def rx_add_nth split: if_splits)

lemma rx_bits_add:
  assumes "length (rx_buckets rx) = 256"
  shows "rx_bits R (rx\<lparr>rx_buckets := rx_add R (rx_buckets rx) slot v, rx_counts_dirty := d\<rparr>) =
    insert slot (rx_bits R rx)"
  using assms rx_prefix_less [of v]
  by (intro set_eqI) (auto simp: rx_bits_nth rx_add_nth split: if_splits)

lemma rx_fold_add:
  assumes "length bs = 256"
  shows "length (fold (\<lambda>(slot, v) bs. rx_add R bs slot v) es bs) = 256 \<and>
    (\<forall>i < 256. bucket_bits R (fold (\<lambda>(slot, v) bs. rx_add R bs slot v) es bs ! i) =
      bucket_bits R (bs ! i) \<union> {s. \<exists>v. (s, v) \<in> set es \<and> rx_prefix v = i})"
  using assms
proof (induction es arbitrary: bs)
  case Nil
  then show ?case by simp
next
  case (Cons e es)
  obtain s v where e: "e = (s, v)" by (cases e)
  from Cons.prems Cons.IH [of "rx_add R bs s v"] show ?case
    by (auto simp: e rx_add_nth)
qed

lemma rx_from_entries_props:
  assumes "\<And>s v. (s, v) \<in> set es \<Longrightarrow> val s = v"
  shows "rx_ok R val (rx_from_entries R es)" and "rx_bits R (rx_from_entries R es) = fst ` set es"
proof -
  let ?bs = "fold (\<lambda>(slot, v) bs. rx_add R bs slot v) es (replicate 256 None)"
  have bs: "length ?bs = 256" "\<And>i. i < 256 \<Longrightarrow> bucket_bits R (?bs ! i) = {s. \<exists>v. (s, v) \<in> set es \<and> rx_prefix v = i}"
    using rx_fold_add [of "replicate 256 None" es] by auto
  have buckets: "rx_buckets (rx_from_entries R es) = ?bs"
    by (simp add: rx_from_entries_def rx_rebuild_counts_def)
  have "counts_ok R (rx_from_entries R es)"
    unfolding rx_from_entries_def by (rule counts_rebuild) simp_all
  then show "rx_ok R val (rx_from_entries R es)"
    using bs assms by (auto simp: rx_ok_def rx_sorted_in_def buckets)
  show "rx_bits R (rx_from_entries R es) = fst ` set es"
    using bs rx_prefix_less by (force simp: rx_bits_nth buckets)
qed

lemma counts_ok_dirty:
  "counts_ok R rx \<Longrightarrow> counts_ok R (rx\<lparr>rx_buckets := bs, rx_counts_dirty := True\<rparr>)"
  by (simp add: counts_ok_def)

lemma rx_insert_props:
  assumes "rx_ok R val rx" and "val slot = v"
  shows "rx_ok R val (rx_insert R rx slot v)" and "rx_bits R (rx_insert R rx slot v) = insert slot (rx_bits R rx)"
  using assms rx_bits_add [where rx = rx and slot = slot and v = v and d = True]
    rx_sorted_add [where bs = "rx_buckets rx"]
  by (auto simp: rx_ok_def rx_insert_def counts_ok_dirty rx_sorted_in_def)

text \<open>Removing a slot from the bucket at \<open>i\<close>, where it must be if it is anywhere.\<close>

lemma rx_remove_at:
  assumes "rx_ok R val rx" and "i < 256" and "rx_buckets rx ! i = Some bm"
    and "\<And>j. j < 256 \<Longrightarrow> slot \<in> bucket_bits R (rx_buckets rx ! j) \<Longrightarrow> j = i"
  defines "rx' \<equiv> rx\<lparr>rx_buckets := (rx_buckets rx)[i := Some (rb_remove R bm slot)], rx_counts_dirty := True\<rparr>"
  shows "rx_ok R val rx'" and "rx_bits R rx' = rx_bits R rx - {slot}"
proof -
  have len: "length (rx_buckets rx) = 256" using assms(1) by (simp add: rx_ok_def rx_sorted_in_def)
  have nth: "bucket_bits R (rx_buckets rx' ! j) = bucket_bits R (rx_buckets rx ! j) - {slot}" if "j < 256" for j
  proof (cases "j = i")
    case True
    with assms(2,3) len show ?thesis by (simp add: rx'_def)
  next
    case False
    then have "slot \<notin> bucket_bits R (rx_buckets rx ! j)" using assms(4) that by blast
    with False show ?thesis by (simp add: rx'_def)
  qed
  have len': "length (rx_buckets rx') = 256" by (simp add: rx'_def len)
  show "rx_ok R val rx'"
    using assms(1) nth len' by (auto simp: rx_ok_def rx_sorted_in_def) (simp add: rx'_def counts_ok_dirty)
  show "rx_bits R rx' = rx_bits R rx - {slot}"
    unfolding set_eq_iff rx_bits_nth [OF len'] Diff_iff rx_bits_nth [OF len] using nth by blast
qed

lemma rx_remove_props:
  assumes "rx_ok R val rx" and "val slot = v"
  shows "rx_ok R val (rx_remove R rx slot v)" and "rx_bits R (rx_remove R rx slot v) = rx_bits R rx - {slot}"
proof -
  have only: "j = rx_prefix v" if "j < 256" "slot \<in> bucket_bits R (rx_buckets rx ! j)" for j
    using assms that by (auto simp: rx_ok_def rx_sorted_in_def)
  have "rx_ok R val (rx_remove R rx slot v) \<and> rx_bits R (rx_remove R rx slot v) = rx_bits R rx - {slot}"
  proof (cases "rx_buckets rx ! rx_prefix v")
    case None
    have len: "length (rx_buckets rx) = 256" using assms(1) by (simp add: rx_ok_def rx_sorted_in_def)
    have "slot \<notin> rx_bits R rx" using None only by (auto simp: rx_bits_nth [OF len])
    then show ?thesis
      using assms(1) None by (auto simp: rx_remove_def Let_def rx_ok_def counts_ok_def rx_bits_def)
  next
    case (Some bm)
    with rx_remove_at [OF assms(1) rx_prefix_less Some only] show ?thesis
      by (simp add: rx_remove_def Let_def)
  qed
  then show "rx_ok R val (rx_remove R rx slot v)" "rx_bits R (rx_remove R rx slot v) = rx_bits R rx - {slot}"
    by simp_all
qed

lemma rx_remove_first_eq:
  "case rx_remove_first R slot bs of
     None \<Rightarrow> \<forall>b \<in> set bs. slot \<notin> bucket_bits R b
   | Some bs' \<Rightarrow> \<exists>i bm. i < length bs \<and> bs ! i = Some bm \<and> slot \<in> bits R bm \<and>
       bs' = bs[i := Some (rb_remove R bm slot)]"
proof (induction bs)
  case Nil
  then show ?case by simp
next
  case (Cons b bs)
  have step: ?case if "rx_remove_first R slot (b # bs) = map_option ((#) b) (rx_remove_first R slot bs)"
      "slot \<notin> bucket_bits R b"
  proof (cases "rx_remove_first R slot bs")
    case None
    with Cons that show ?thesis by simp
  next
    case (Some bs')
    with Cons obtain i bm where i: "i < length bs" "bs ! i = Some bm" "slot \<in> bits R bm"
        "bs' = bs[i := Some (rb_remove R bm slot)]" by auto
    have "\<exists>j bm. j < length (b # bs) \<and> (b # bs) ! j = Some bm \<and> slot \<in> bits R bm \<and>
        b # bs' = (b # bs)[j := Some (rb_remove R bm slot)]"
      by (rule exI [of _ "Suc i"], rule exI [of _ bm]) (simp add: i)
    with Some that show ?thesis by simp
  qed
  show ?case
  proof (cases b)
    case None
    then show ?thesis by (intro step) simp_all
  next
    case (Some bm)
    show ?thesis
    proof (cases "slot \<in> bits R bm")
      case True
      then show ?thesis
        using Some by (auto simp: contains_bits intro!: exI [of _ "0::nat"])
    next
      case False
      with Some show ?thesis by (intro step) (simp_all add: contains_bits)
    qed
  qed
qed

lemma rx_remove_blind_props:
  assumes "rx_ok R val rx"
  shows "rx_ok R val (rx_remove_blind R rx slot)" and "rx_bits R (rx_remove_blind R rx slot) = rx_bits R rx - {slot}"
proof -
  have len: "length (rx_buckets rx) = 256" using assms by (simp add: rx_ok_def rx_sorted_in_def)
  have "rx_ok R val (rx_remove_blind R rx slot) \<and> rx_bits R (rx_remove_blind R rx slot) = rx_bits R rx - {slot}"
  proof (cases "rx_remove_first R slot (rx_buckets rx)")
    case None
    with rx_remove_first_eq [where slot = slot and bs = "rx_buckets rx"] have "slot \<notin> rx_bits R rx"
      by (simp add: rx_bits_def)
    with None assms show ?thesis by (simp add: rx_remove_blind_def)
  next
    case (Some bs')
    with rx_remove_first_eq [where slot = slot and bs = "rx_buckets rx"] len obtain i bm where
      i: "i < 256" "rx_buckets rx ! i = Some bm" "slot \<in> bits R bm"
        "bs' = (rx_buckets rx)[i := Some (rb_remove R bm slot)]" by auto
    have prefix: "rx_prefix (val s) = k" if "k < 256" "s \<in> bucket_bits R (rx_buckets rx ! k)" for s k
      using assms that by (auto simp: rx_ok_def rx_sorted_in_def)
    have "j = i" if "j < 256" "slot \<in> bucket_bits R (rx_buckets rx ! j)" for j
      using prefix [OF that] prefix [of i slot] i by simp
    from rx_remove_at [OF assms i(1,2) this] Some i(4) show ?thesis
      by (simp add: rx_remove_blind_def)
  qed
  then show "rx_ok R val (rx_remove_blind R rx slot)" "rx_bits R (rx_remove_blind R rx slot) = rx_bits R rx - {slot}"
    by simp_all
qed

end


section \<open>The sorted order, bucket by bucket\<close>

lemma sorted_wrt_concat:
  assumes "\<forall>xs \<in> set xss. sorted_wrt P xs"
    and "sorted_wrt (\<lambda>xs ys. \<forall>x \<in> set xs. \<forall>y \<in> set ys. P x y) xss"
  shows "sorted_wrt P (concat xss)"
  using assms by (induction xss) (auto simp: sorted_wrt_append)

lemma prefix_less_before:
  assumes "if desc then rx_prefix (val b) < rx_prefix (val a) else rx_prefix (val a) < rx_prefix (val b)"
  shows "before desc val a b"
proof -
  have "val x < val y" if "rx_prefix (val x) < rx_prefix (val y)" for x y
    using that drop_bit_less_imp_less [of 24 "val x" "val y"] by (simp add: rx_prefix_def word_less_nat_alt)
  with assms show ?thesis by (auto simp: before_def split: if_splits)
qed

definition bucket_order :: "bool \<Rightarrow> nat list" where
  "bucket_order desc = (if desc then rev [0..<256] else [0..<256])"

lemma set_bucket_order [simp]: "set (bucket_order desc) = {0..<256}"
  by (simp add: bucket_order_def atLeast0LessThan)

lemma sorted_bucket_order: "sorted_wrt (\<lambda>i j. if desc then j < i else i < j) (bucket_order desc)"
  by (simp add: bucket_order_def sorted_wrt_rev)

lemma page_order_buckets:
  assumes "\<And>i s. i < 256 \<Longrightarrow> s \<in> B i \<Longrightarrow> rx_prefix (val s) = i"
  shows "page_order desc val (\<Union>i < 256. B i) =
    concat (map (\<lambda>i. page_order desc val (B i)) (bucket_order desc))"
proof (rule page_order_unique [symmetric])
  show "sorted_wrt (before desc val) (concat (map (\<lambda>i. page_order desc val (B i)) (bucket_order desc)))"
  proof (rule sorted_wrt_concat)
    show "sorted_wrt (\<lambda>xs ys. \<forall>x \<in> set xs. \<forall>y \<in> set ys. before desc val x y)
        (map (\<lambda>i. page_order desc val (B i)) (bucket_order desc))"
      unfolding sorted_wrt_map
    proof (rule sorted_wrt_mono_rel [OF _ sorted_bucket_order])
      fix i j
      assume "i \<in> set (bucket_order desc)" "j \<in> set (bucket_order desc)" "if desc then j < i else i < j"
      then show "\<forall>x \<in> set (page_order desc val (B i)). \<forall>y \<in> set (page_order desc val (B j)). before desc val x y"
        using assms by (auto intro!: prefix_less_before)
    qed
  qed (auto simp: sorted_page_order)
qed auto

lemma find_offset_concat:
  assumes "\<And>k. k < length is \<Longrightarrow> unat (c ! (is ! k)) = p + length (concat (map G (take (Suc k) is)))"
    and "p \<le> offset"
  shows "case rx_find_offset c is offset p of
      None \<Rightarrow> p + length (concat (map G is)) \<le> offset
    | Some (b, w) \<Rightarrow> offset < p + length (concat (map G is)) \<and>
        (\<exists>i \<in> set is. b = of_nat i \<and> w < length (G i) \<and> concat (map G is) ! (offset - p) = G i ! w)"
  using assms
proof (induction "is" arbitrary: p)
  case Nil
  then show ?case by simp
next
  case (Cons i "is")
  let ?cum = "unat (c ! i)"
  have cum: "?cum = p + length (G i)" using Cons.prems(1) [of 0] by simp
  show ?case
  proof (cases "offset < ?cum")
    case True
    with cum Cons.prems(2) show ?thesis by (auto simp: nth_append)
  next
    case False
    have rest: "unat (c ! (is ! k)) = ?cum + length (concat (map G (take (Suc k) is)))" if "k < length is" for k
      using Cons.prems(1) [of "Suc k"] that by (simp add: cum)
    have "concat (map G (i # is)) ! (offset - p) = concat (map G is) ! (offset - ?cum)"
    proof -
      have "\<not> offset - p < length (G i)" "offset - p - length (G i) = offset - ?cum"
        using False cum by linarith+
      then show ?thesis by (simp add: nth_append)
    qed
    with Cons.IH [OF rest] False cum show ?thesis
      by (auto simp: Let_def split: option.splits)
  qed
qed


lemma unat_of_nat_u32: "n < 2 ^ 32 \<Longrightarrow> unat (of_nat n :: u32) = n"
  by (simp add: unsigned_of_nat take_bit_nat_eq_self)

text \<open>The cumulative counts at the \<open>k\<close>-th bucket visited.\<close>

lemma sum_counts:
  assumes "roaring R"
  shows "running_count R bs is = of_nat (\<Sum>i \<leftarrow> is. card (bucket_bits R (bs ! i)))"
proof -
  have "rx_count R b = of_nat (card (bucket_bits R b))" for b
    using assms by (cases b) (simp_all add: rx_count_def bucket_bits_def roaring.len_bits)
  then show ?thesis by (induction "is") (simp_all add: running_count_def)
qed

lemma cumulative_concat:
  assumes "roaring R" and "card (rx_bits R rx) < 2 ^ 32" and "rx_ok R val rx" and "\<not> rx_counts_dirty rx"
    and "k < 256"
    and c: "c = (if desc then rx_cumulative_desc rx else rx_cumulative_asc rx)"
    and G: "G = (\<lambda>i. page_order desc val (bucket_bits R (rx_buckets rx ! i)))"
  shows "unat (c ! (bucket_order desc ! k)) = length (concat (map G (take (Suc k) (bucket_order desc))))"
proof -
  let ?B = "\<lambda>i. bucket_bits R (rx_buckets rx ! i)"
  let ?is = "take (Suc k) (bucket_order desc)"
  have sorted: "\<And>i s. i < 256 \<Longrightarrow> s \<in> ?B i \<Longrightarrow> rx_prefix (val s) = i" and len: "length (rx_buckets rx) = 256"
    using assms(3) by (auto simp: rx_ok_def rx_sorted_in_def)
  have all: "rx_bits R rx = (\<Union>i < 256. ?B i)"
    using roaring.rx_bits_nth [OF assms(1) len] by blast
  have "length (concat (map G (bucket_order desc))) = card (rx_bits R rx)"
    using page_order_buckets [of ?B val desc, OF sorted] length_page_order [of desc val "rx_bits R rx"]
    by (simp add: G all)
  moreover have "length (concat (map G ?is)) \<le> length (concat (map G (bucket_order desc)))"
    by (subst append_take_drop_id [of "Suc k" "bucket_order desc", symmetric]) (simp del: append_take_drop_id)
  ultimately have small: "length (concat (map G ?is)) < 2 ^ 32" using assms(2) by linarith
  have "length (concat (map G ?is)) = (\<Sum>i \<leftarrow> ?is. card (?B i))"
    by (simp add: length_concat G comp_def)
  then have run: "running_count R (rx_buckets rx) ?is = of_nat (length (concat (map G ?is)))"
    by (simp add: sum_counts [OF assms(1)])
  have "c ! (bucket_order desc ! k) = running_count R (rx_buckets rx) ?is"
  proof (cases desc)
    case True
    have "take (Suc k) (rev [0..<256]) = rev [255 - k..<256]"
      using assms(5) by (simp add: take_rev)
    moreover have "rev [0..<256] ! k = 255 - k"
      using assms(5) by (simp add: rev_nth)
    ultimately show ?thesis
      using True assms(3,4,5) by (simp add: bucket_order_def c rx_ok_def counts_ok_def running_count_rev)
  next
    case False
    have "take (Suc k) [0..<256] = [0..<Suc k]" using assms(5) by (simp add: take_upt del: upt_Suc)
    with False assms(3,4,5) show ?thesis
      by (simp add: bucket_order_def c rx_ok_def counts_ok_def del: upt_Suc)
  qed
  then have "unat (c ! (bucket_order desc ! k)) = unat (of_nat (length (concat (map G ?is))) :: u32)"
    by (simp only: run)
  also have "\<dots> = length (concat (map G ?is))"
    using small by (rule unat_of_nat_u32)
  finally show ?thesis .
qed


lemma rebuild_simps [simp]:
  "rx_buckets (rx_rebuild_counts R rx) = rx_buckets rx" "\<not> rx_counts_dirty (rx_rebuild_counts R rx)"
  "rx_bits R (rx_rebuild_counts R rx) = rx_bits R rx"
  by (simp_all add: rx_rebuild_counts_def rx_bits_def)

lemma rx_ok_rebuild: "rx_ok R val rx \<Longrightarrow> rx_ok R val (rx_rebuild_counts R rx)"
  using counts_rebuild [of rx R] by (simp add: rx_ok_def counts_ok_def)

section \<open>Properties\<close>

text \<open>
  C33: the radix index is kept up to date.  Building it from slots and their values gives an
  index of exactly those slots, with each slot in the bucket of its value's top eight bits
  and correct cumulative counts; inserting and removing (with or without the value) change
  the set of slots by that slot and keep the invariant, and so does rebuilding the counts.
\<close>

theorem radix_maintained:
  assumes "roaring R" and "rx_ok R val rx"
  shows "rx_ok R val (rx_from_bitmap R b val) \<and> rx_bits R (rx_from_bitmap R b val) = bits R b \<and>
    rx_ok R val (rx_insert R rx slot (val slot)) \<and>
    rx_bits R (rx_insert R rx slot (val slot)) = insert slot (rx_bits R rx) \<and>
    rx_ok R val (rx_remove R rx slot (val slot)) \<and>
    rx_bits R (rx_remove R rx slot (val slot)) = rx_bits R rx - {slot} \<and>
    rx_ok R val (rx_remove_blind R rx slot) \<and>
    rx_bits R (rx_remove_blind R rx slot) = rx_bits R rx - {slot} \<and>
    rx_ok R val (rx_rebuild_counts R rx) \<and> rx_bits R (rx_rebuild_counts R rx) = rx_bits R rx"
proof -
  let ?es = "map (\<lambda>s. (s, val s)) (rb_iter R b)"
  have "val s = v" if "(s, v) \<in> set ?es" for s v using that by auto
  note built = roaring.rx_from_entries_props [OF assms(1) this, of ?es]
  have "fst ` set ?es = bits R b" by (simp add: image_image roaring.set_iter [OF assms(1)])
  with built have "rx_ok R val (rx_from_entries R ?es)" "rx_bits R (rx_from_entries R ?es) = bits R b"
    by simp_all
  then show ?thesis
    using roaring.rx_insert_props [OF assms refl] roaring.rx_remove_props [OF assms refl]
      roaring.rx_remove_blind_props [OF assms] rx_ok_rebuild [OF assms(2)]
    by (simp add: rx_from_bitmap_def)
qed

definition radix3 :: "u32 set radix_sort_index" where
  "radix3 = rx_from_bitmap set_roaring {1, 2, 7} (\<lambda>s. push_bit 24 (s div 2))"

lemma radix3_ok: "rx_ok set_roaring (\<lambda>s. push_bit 24 (s div 2)) radix3"
  and radix3_bits: "rx_bits set_roaring radix3 = {1, 2, 7}"
proof -
  let ?val = "\<lambda>s :: u32. push_bit 24 (s div 2) :: u32"
  let ?es = "map (\<lambda>s. (s, ?val s)) (rb_iter set_roaring {1, 2, 7})"
  have "?val s = v" if "(s, v) \<in> set ?es" for s v using that by auto
  note built = sr.rx_from_entries_props [OF this, of ?es]
  have "fst ` set ?es = {1, 2, 7}" by (simp only: set_map image_image sr.set_iter) simp
  with built show "rx_ok set_roaring ?val radix3" "rx_bits set_roaring radix3 = {1, 2, 7}"
    unfolding radix3_def rx_from_bitmap_def by simp_all
qed

theorem radix_maintained_witness:
  "rx_bits set_roaring (rx_remove_blind set_roaring radix3 2) = {1, 7}"
proof -
  have "{1, 2, 7} - {2} = {1, 7 :: u32}" by auto
  then show ?thesis
    using radix_maintained [OF sr.roaring_axioms radix3_ok, of "{}" 2] by (simp add: radix3_bits)
qed

text \<open>
  C34: \<open>offset_to_bucket\<close> finds the bucket of an offset.  For an index of fewer than \<open>2^32\<close> slots it
  returns a bucket and a position in it such that the slot at that position of the bucket,
  in sort order, is the slot at the offset in the sort order of the whole index; it returns
  nothing exactly if the offset is past the end.
\<close>

theorem radix_offset:
  assumes "roaring R" and "rx_ok R val rx" and "card (rx_bits R rx) < 2 ^ 32"
  shows "case fst (rx_offset_to_bucket R rx offset dir) of
      None \<Rightarrow> card (rx_bits R rx) \<le> offset
    | Some (prefix, w) \<Rightarrow> offset < card (rx_bits R rx) \<and>
        page_order (dir = Desc) val (rx_bits R rx) ! offset =
          page_order (dir = Desc) val (bucket_bits R (rx_bucket rx prefix)) ! w"
proof -
  define rx' where "rx' = (if rx_counts_dirty rx then rx_rebuild_counts R rx else rx)"
  let ?desc = "dir = Desc"
  let ?B = "\<lambda>i. bucket_bits R (rx_buckets rx ! i)"
  let ?G = "\<lambda>i. page_order ?desc val (?B i)"
  let ?c = "if ?desc then rx_cumulative_desc rx' else rx_cumulative_asc rx'"
  have rx': "rx_ok R val rx'" "\<not> rx_counts_dirty rx'" "rx_buckets rx' = rx_buckets rx" "rx_bits R rx' = rx_bits R rx"
    using assms(2) by (simp_all add: rx'_def rx_ok_rebuild)
  have sorted: "\<And>i s. i < 256 \<Longrightarrow> s \<in> ?B i \<Longrightarrow> rx_prefix (val s) = i" and len: "length (rx_buckets rx) = 256"
    using assms(2) by (auto simp: rx_ok_def rx_sorted_in_def)
  have all: "page_order ?desc val (rx_bits R rx) = concat (map ?G (bucket_order ?desc))"
  proof -
    have "rx_bits R rx = (\<Union>i < 256. ?B i)" using roaring.rx_bits_nth [OF assms(1) len] by blast
    with page_order_buckets [of ?B val ?desc, OF sorted] show ?thesis by simp
  qed
  have "unat (?c ! (bucket_order ?desc ! k)) = 0 + length (concat (map ?G (take (Suc k) (bucket_order ?desc))))"
    if "k < length (bucket_order ?desc)" for k
  proof -
    have "length (bucket_order ?desc) = 256" by (simp add: bucket_order_def)
    with that have "k < 256" by simp
    moreover have "card (rx_bits R rx') < 2 ^ 32" using assms(3) rx'(4) by simp
    ultimately show ?thesis
      using cumulative_concat [OF assms(1) _ rx'(1,2) _ refl refl, of k ?desc] by (simp add: rx'(3))
  qed
  from find_offset_concat [OF this le0, of offset] have spec:
    "case rx_find_offset ?c (bucket_order ?desc) offset 0 of
      None \<Rightarrow> card (rx_bits R rx) \<le> offset
    | Some (b, w) \<Rightarrow> offset < card (rx_bits R rx) \<and>
        (\<exists>i \<in> set (bucket_order ?desc). b = of_nat i \<and> w < length (?G i) \<and>
           page_order ?desc val (rx_bits R rx) ! offset = ?G i ! w)"
    by (simp only: all [symmetric] length_page_order add_0 minus_nat.diff_0)
  have found: "rx_find_offset ?c (bucket_order ?desc) offset 0 = fst (rx_offset_to_bucket R rx offset dir)"
    by (cases dir) (simp_all add: rx_offset_to_bucket_def Let_def rx'_def bucket_order_def)
  have "rx_bucket rx (of_nat i) = rx_buckets rx ! i" if "i < 256" for i
    using that by (simp add: rx_bucket_def unsigned_of_nat take_bit_nat_eq_self)
  with spec [unfolded found] show ?thesis
    by (cases "fst (rx_offset_to_bucket R rx offset dir)") auto
qed

theorem radix_offset_witness:
  "\<exists>prefix w. fst (rx_offset_to_bucket set_roaring radix3 1 Desc) = Some (prefix, w) \<and>
     page_order True (\<lambda>s. push_bit 24 (s div 2)) (bucket_bits set_roaring (rx_bucket radix3 prefix)) ! w = 2"
proof -
  let ?val = "\<lambda>s :: u32. push_bit 24 (s div 2) :: u32"
  have "page_order True ?val {1, 2, 7} = [7, 2, 1]"
    by (rule page_order_unique [symmetric]) (auto simp: before_def)
  moreover have "card (rx_bits set_roaring radix3) = 3"
    by (simp add: radix3_bits)
  ultimately show ?thesis
    using radix_offset [OF sr.roaring_axioms radix3_ok, of 1 Desc]
    by (auto simp: radix3_bits split: option.splits)
qed

end
