(* ===== verification/Executor_Page.thy ===== *)
theory Executor_Page
  imports Executor Radix_Sort
begin

text \<open>
  The paging half of the query executor (\<open>executor.rs\<close>): the four ways a page is cut from a
  result (bit-layer traversal, in-memory sort, pre-sorted keys, radix buckets) and the page
  in slot order, and \<open>execute\<close>, which plans, filters, sorts and paginates.

  \<open>top_n\<close> fills the fused view of the sort field it reads, so the sorted paths return the
  sort index as well.  Log lines are left out.
\<close>

type_synonym page = "i64 list \<times> cursor_position option"

definition slot_order_paginate_dir ::
    "'b roaring_ops \<Rightarrow> 'b \<Rightarrow> usize \<Rightarrow> cursor_position option \<Rightarrow> bool \<Rightarrow> page" where
  "slot_order_paginate_dir R candidates limit cursor ascending =
     (let narrowed =
        (case cursor of
           Some cursor \<Rightarrow>
             if ascending then rb_remove_range R candidates 0 (cp_slot_id cursor)
             else rb_remove_range R candidates (cp_slot_id cursor) u32_MAX
         | None \<Rightarrow> candidates)
      in if rb_is_empty R narrowed then ([], None)
         else
           let ids = map (ucast :: u32 \<Rightarrow> i64)
                 (take limit (if ascending then rb_iter R narrowed else rev (rb_iter R narrowed)));
               next_cursor =
                 (if ids = [] then None
                  else Some \<lparr>cp_sort_value = last ids, cp_slot_id = ucast (last ids)\<rparr>)
           in (ids, next_cursor))"

definition slot_order_paginate :: "'b roaring_ops \<Rightarrow> 'b \<Rightarrow> usize \<Rightarrow> cursor_position option \<Rightarrow> page" where
  "slot_order_paginate R candidates limit cursor = slot_order_paginate_dir R candidates limit cursor False"

text \<open>The cursor that the sorted paths return: value and id of the last slot of the page.\<close>

definition last_cursor :: "'b roaring_ops \<Rightarrow> 'b sort_field \<Rightarrow> u32 list \<Rightarrow> cursor_position option" where
  "last_cursor R sort_field slots =
     (if slots = [] then None
      else Some \<lparr>cp_sort_value = ucast (sf_reconstruct_value R sort_field (last slots)),
                 cp_slot_id = last slots\<rparr>)"

definition cursor_param :: "cursor_position option \<Rightarrow> (u64 \<times> u32) option" where
  "cursor_param cursor = map_option (\<lambda>c. (cp_sort_value c, cp_slot_id c)) cursor"

definition sort_and_paginate ::
    "'b roaring_ops \<Rightarrow> 'b query_executor \<Rightarrow> 'b \<Rightarrow> sort_clause \<Rightarrow> usize \<Rightarrow> cursor_position option \<Rightarrow>
     (page \<times> 'b sort_index) bresult" where
  "sort_and_paginate R ex candidates srt limit cursor =
     (case si_get_field (qe_sorts ex) (sc_field srt) of
        None \<Rightarrow> Inl (FieldNotFound (sc_field srt))
      | Some sort_field \<Rightarrow>
          let descending = (sc_direction srt = Desc);
              (sorted_slots, sort_field) =
                sf_top_n R sort_field candidates limit descending (cursor_param cursor)
          in Inr ((map ucast sorted_slots, last_cursor R sort_field sorted_slots),
                  si_modify_field (qe_sorts ex) (sc_field srt) (\<lambda>_. sort_field)))"

definition simple_sort_and_paginate ::
    "'b roaring_ops \<Rightarrow> 'b query_executor \<Rightarrow> 'b \<Rightarrow> sort_clause \<Rightarrow> usize \<Rightarrow> cursor_position option \<Rightarrow>
     page bresult" where
  "simple_sort_and_paginate R ex candidates srt limit cursor =
     (case si_get_field (qe_sorts ex) (sc_field srt) of
        None \<Rightarrow> Inl (FieldNotFound (sc_field srt))
      | Some sort_field \<Rightarrow>
          let descending = (sc_direction srt = Desc);
              entries = map (\<lambda>slot. (slot, sf_reconstruct_value R sort_field slot)) (rb_iter R candidates);
              entries =
                (if descending then sort_by (\<lambda>a b. (snd b, fst b) \<le> (snd a, fst a)) entries
                 else sort_by (\<lambda>a b. (snd a, fst a) \<le> (snd b, fst b)) entries);
              entries =
                (case cursor of
                   None \<Rightarrow> entries
                 | Some cursor \<Rightarrow>
                     let cursor_value = (ucast (cp_sort_value cursor) :: u32);
                         cursor_slot = cp_slot_id cursor
                     in filter (\<lambda>(slot, v).
                          if descending then v < cursor_value \<or> (v = cursor_value \<and> slot < cursor_slot)
                          else cursor_value < v \<or> (v = cursor_value \<and> cursor_slot < slot)) entries);
              result_slots = map fst (take limit entries)
          in Inr (map ucast result_slots, last_cursor R sort_field result_slots))"

definition execute_from_bitmap_inner ::
    "'b roaring_ops \<Rightarrow> 'b query_executor \<Rightarrow> 'b \<Rightarrow> sort_clause option \<Rightarrow> usize \<Rightarrow> cursor_position option \<Rightarrow>
     bool \<Rightarrow> (query_result \<times> 'b sort_index) bresult" where
  "execute_from_bitmap_inner R ex filter_bitmap srt limit cursor use_simple_sort =
     (let total_matched = rb_len R filter_bitmap;
          use_simple_sort = (use_simple_sort \<or> total_matched < 1000)
      in bbind
           (case srt of
              Some sort_clause \<Rightarrow>
                if use_simple_sort then
                  bbind (simple_sort_and_paginate R ex filter_bitmap sort_clause limit cursor)
                    (\<lambda>page. Inr (page, qe_sorts ex))
                else sort_and_paginate R ex filter_bitmap sort_clause limit cursor
            | None \<Rightarrow> Inr (slot_order_paginate R filter_bitmap limit cursor, qe_sorts ex))
           (\<lambda>((ids, next_cursor), sorts).
              Inr (\<lparr>qr_ids = ids, qr_cursor = next_cursor, qr_total_matched = total_matched\<rparr>, sorts)))"

definition execute_from_bitmap ::
    "'b roaring_ops \<Rightarrow> 'b query_executor \<Rightarrow> 'b \<Rightarrow> sort_clause option \<Rightarrow> usize \<Rightarrow> cursor_position option \<Rightarrow>
     bool \<Rightarrow> (query_result \<times> 'b sort_index) bresult" where
  "execute_from_bitmap R ex filter_bitmap srt limit cursor use_simple_sort =
     execute_from_bitmap_inner R ex filter_bitmap srt (min limit (qe_max_page_size ex)) cursor use_simple_sort"

definition execute_from_bitmap_unclamped ::
    "'b roaring_ops \<Rightarrow> 'b query_executor \<Rightarrow> 'b \<Rightarrow> sort_clause option \<Rightarrow> usize \<Rightarrow> cursor_position option \<Rightarrow>
     bool \<Rightarrow> (query_result \<times> 'b sort_index) bresult" where
  "execute_from_bitmap_unclamped R ex filter_bitmap srt limit cursor use_simple_sort =
     execute_from_bitmap_inner R ex filter_bitmap srt limit cursor use_simple_sort"

definition execute ::
    "'b roaring_ops \<Rightarrow> 'b query_executor \<Rightarrow> 'b filter_clause list \<Rightarrow> sort_clause option \<Rightarrow> usize \<Rightarrow>
     cursor_position option \<Rightarrow> (query_result \<times> 'b sort_index) bresult" where
  "execute R ex filters srt limit cursor =
     (let limit = min limit (qe_max_page_size ex);
          ctx = \<lparr>pc_string_maps = qe_string_maps ex, pc_dictionaries = qe_dictionaries ex\<rparr>;
          plan = plan_query_with_context R filters (qe_filters ex) (qe_slots ex) (Some ctx)
      in bbind (compute_filters R ex (qp_ordered_clauses plan)) (\<lambda>filter_bitmap.
           let total_matched = rb_len R filter_bitmap;
               use_simple_sort = (qp_use_simple_sort plan \<or> total_matched < 1000)
           in bbind
                (case srt of
                   Some sort_clause \<Rightarrow>
                     if use_simple_sort then
                       bbind (simple_sort_and_paginate R ex filter_bitmap sort_clause limit cursor)
                         (\<lambda>page. Inr (page, qe_sorts ex))
                     else sort_and_paginate R ex filter_bitmap sort_clause limit cursor
                 | None \<Rightarrow> Inr (slot_order_paginate R filter_bitmap limit cursor, qe_sorts ex))
                (\<lambda>((ids, next_cursor), sorts).
                   Inr (\<lparr>qr_ids = ids, qr_cursor = next_cursor, qr_total_matched = total_matched\<rparr>, sorts))))"

text \<open>
  \<open>execute_from_sorted_keys\<close>.  \<open>partition_point\<close> returns the length of the prefix that satisfies
  the predicate, for a slice that the predicate splits in two.  \<open>None\<close> is the panic of
  \<open>sorted_keys[end_idx - 1]\<close> at \<open>end_idx = 0\<close>.
\<close>

definition partition_point :: "('a \<Rightarrow> bool) \<Rightarrow> 'a list \<Rightarrow> usize" where
  "partition_point P xs = length (takeWhile P xs)"

definition execute_from_sorted_keys ::
    "'b query_executor \<Rightarrow> u64 list \<Rightarrow> sort_direction \<Rightarrow> usize \<Rightarrow> cursor_position option \<Rightarrow> nat \<Rightarrow>
     query_result option" where
  "execute_from_sorted_keys ex sorted_keys direction limit cursor total_matched =
     (let limit = min limit (qe_max_page_size ex);
          start_idx =
            (case cursor of
               Some cursor \<Rightarrow>
                 let cursor_key = push_bit 32 (cp_sort_value cursor) OR ucast (cp_slot_id cursor)
                 in case direction of
                      Desc \<Rightarrow> partition_point (\<lambda>k. cursor_key \<le> k) sorted_keys
                    | Asc \<Rightarrow> partition_point (\<lambda>k. k \<le> cursor_key) sorted_keys
             | None \<Rightarrow> 0);
          end_idx = min (start_idx + limit) (length sorted_keys);
          ids = map (\<lambda>key. key AND 0xFFFFFFFF) (take (end_idx - start_idx) (drop start_idx sorted_keys))
      in if end_idx < length sorted_keys then
           if end_idx = 0 then None
           else
             let last_key = sorted_keys ! (end_idx - 1)
             in Some \<lparr>qr_ids = ids,
                      qr_cursor = Some \<lparr>cp_sort_value = drop_bit 32 last_key,
                                        cp_slot_id = ucast (last_key AND 0xFFFFFFFF)\<rparr>,
                      qr_total_matched = total_matched\<rparr>
         else Some \<lparr>qr_ids = ids, qr_cursor = None, qr_total_matched = total_matched\<rparr>)"

text \<open>The loop of \<open>execute_from_radix\<close> over the buckets.  The inner loop pushes every slot \<open>top_n\<close>
  returned, at most \<open>remaining\<close> of them.\<close>

fun radix_loop ::
    "'b roaring_ops \<Rightarrow> sort_direction \<Rightarrow> cursor_position option \<Rightarrow> (u8 \<times> 'b) list \<Rightarrow> 'b sort_field \<Rightarrow>
     u32 list \<Rightarrow> usize \<Rightarrow> u32 list \<times> 'b sort_field" where
  "radix_loop R direction cursor [] sort_field result remaining = (result, sort_field)"
| "radix_loop R direction cursor ((prefix, bucket_bm) # bs) sort_field result remaining =
     (if remaining = 0 then (result, sort_field)
      else
        let cursor_prefix = map_option (\<lambda>c. (ucast (drop_bit 24 (cp_sort_value c)) :: u8)) cursor
        in if (case cursor_prefix of
                 Some cp \<Rightarrow> (case direction of Desc \<Rightarrow> cp < prefix | Asc \<Rightarrow> prefix < cp)
               | None \<Rightarrow> False)
           then radix_loop R direction cursor bs sort_field result remaining
           else
             let bucket_cursor = (if cursor_prefix = Some prefix then cursor_param cursor else None);
                 (sorted_slots, sort_field) =
                   sf_top_n R sort_field bucket_bm remaining (direction = Desc) bucket_cursor;
                 pushed = take remaining sorted_slots
             in radix_loop R direction cursor bs sort_field (result @ pushed) (remaining - length pushed))"

definition execute_from_radix ::
    "'b roaring_ops \<Rightarrow> 'b query_executor \<Rightarrow> 'b radix_sort_index \<Rightarrow> sort_clause \<Rightarrow> usize \<Rightarrow>
     cursor_position option \<Rightarrow> nat \<Rightarrow> (query_result \<times> 'b sort_index) bresult" where
  "execute_from_radix R ex radix sort_clause limit cursor total_matched =
     (case si_get_field (qe_sorts ex) (sc_field sort_clause) of
        None \<Rightarrow> Inl (FieldNotFound (sc_field sort_clause))
      | Some sort_field \<Rightarrow>
          let limit = min limit (qe_max_page_size ex);
              (slots, sort_field) =
                radix_loop R (sc_direction sort_clause) cursor
                  (rx_iter_buckets R radix (sc_direction sort_clause)) sort_field [] limit
          in Inr (\<lparr>qr_ids = map ucast slots, qr_cursor = last_cursor R sort_field slots,
                   qr_total_matched = total_matched\<rparr>,
                  si_modify_field (qe_sorts ex) (sc_field sort_clause) (\<lambda>_. sort_field)))"



section \<open>Every sorted path cuts the same page\<close>

lemma u32_of_u64 [simp]: "ucast (ucast (x :: u32) :: u64) = x"
  by (rule bit_word_eqI) (simp add: bit_unsigned_iff)


text \<open>A cursor as the sorted paths read it, and the cursors whose value fits the field: those the
  executor returns do.\<close>

definition cursor32 :: "cursor_position option \<Rightarrow> (u32 \<times> u32) option" where
  "cursor32 cursor = map_option (\<lambda>c. (ucast (cp_sort_value c), cp_slot_id c)) cursor"

definition cursor_fits :: "'b sort_field \<Rightarrow> cursor_position option \<Rightarrow> bool" where
  "cursor_fits f cursor =
     (case cursor of None \<Rightarrow> True
      | Some c \<Rightarrow> take_bit (sf_num_bits f) (ucast (cp_sort_value c) :: u32) = ucast (cp_sort_value c))"

definition page_slots ::
    "bool \<Rightarrow> (u32 \<Rightarrow> u32) \<Rightarrow> (u32 \<times> u32) option \<Rightarrow> usize \<Rightarrow> u32 set \<Rightarrow> u32 list" where
  "page_slots desc val cur limit S = take limit (page_order desc val (after_cursor desc val cur S))"

text \<open>The fused view is all that \<open>top_n\<close> changes.\<close>

lemma top_n_field:
  "sf_reconstruct_value R (snd (sf_top_n R f cand limit desc cursor)) = sf_reconstruct_value R f"
  "sf_num_bits (snd (sf_top_n R f cand limit desc cursor)) = sf_num_bits f"
proof -
  obtain layers f' where fl: "sf_fused_layers R f = (layers, f')" by fastforce
  then have f': "sf_bit_layers f' = sf_bit_layers f" "sf_num_bits f' = sf_num_bits f"
    by (auto simp: sf_fused_layers_def Let_def split: option.splits)
  have "snd (sf_top_n R f cand limit desc cursor) \<in> {f, f'}"
    by (simp add: sf_top_n_def fl Let_def)
  with f' show "sf_reconstruct_value R (snd (sf_top_n R f cand limit desc cursor)) = sf_reconstruct_value R f"
    "sf_num_bits (snd (sf_top_n R f cand limit desc cursor)) = sf_num_bits f"
    by (auto simp: sf_reconstruct_value_def fun_eq_iff)
qed

lemma filter_page_order:
  "filter P (page_order desc val A) = page_order desc val {s \<in> A. P s}"
  by (rule page_order_unique) (auto simp: sorted_page_order sorted_wrt_filter)

lemma page_order_Nil_iff: "page_order desc val A = [] \<longleftrightarrow> card A = 0"
  by (metis length_0_conv length_page_order)

context roaring
begin

lemma sort_entries_page:
  "map fst (if desc then sort_by (\<lambda>a b. (snd b, fst b) \<le> (snd a, fst a)) (map (\<lambda>s. (s, val s)) (rb_iter R C))
            else sort_by (\<lambda>a b. (snd a, fst a) \<le> (snd b, fst b)) (map (\<lambda>s. (s, val s)) (rb_iter R C))) =
    page_order desc val (bits R C)"
proof -
  let ?entries = "map (\<lambda>s. (s, val s)) (rb_iter R C)"
  let ?le = "\<lambda>a b. if desc then (snd b, fst b) \<le> (snd a, fst a) else (snd a, fst a) \<le> (snd b, fst b)"
  have "map fst (sort_by ?le ?entries) = sort_by (\<lambda>a b. \<not> before desc val b a) (map fst ?entries)"
    by (rule map_sort_by) (auto simp: before_def not_less not_le)
  then show ?thesis
    by (cases desc) (simp_all add: page_order_def iter_eq comp_def)
qed

lemma simple_page:
  assumes "si_get_field (qe_sorts ex) (sc_field srt) = Some f"
    and val_def: "val = sf_reconstruct_value R f"
    and slots_def: "slots = page_slots (sc_direction srt = Desc) val (cursor32 cursor) limit (bits R C)"
  shows "simple_sort_and_paginate R ex C srt limit cursor = Inr (map ucast slots, last_cursor R f slots)"
proof -
  let ?desc = "sc_direction srt = Desc"
  define entries where "entries = (if ?desc
      then sort_by (\<lambda>a b. (snd b, fst b) \<le> (snd a, fst a)) (map (\<lambda>s. (s, val s)) (rb_iter R C))
      else sort_by (\<lambda>a b. (snd a, fst a) \<le> (snd b, fst b)) (map (\<lambda>s. (s, val s)) (rb_iter R C)))"
  define keep where "keep = (\<lambda>(slot, v :: u32). case cursor of None \<Rightarrow> True | Some c \<Rightarrow>
      if ?desc then v < ucast (cp_sort_value c) \<or> (v = ucast (cp_sort_value c) \<and> slot < cp_slot_id c)
      else ucast (cp_sort_value c) < v \<or> (v = ucast (cp_sort_value c) \<and> cp_slot_id c < slot))"
  have pairs: "v = val s" if "(s, v) \<in> set entries" for s v
    using that by (auto simp: entries_def split: if_splits)
  have "map fst (filter keep entries) = filter (\<lambda>s. keep (s, val s)) (map fst entries)"
    unfolding filter_map comp_def
    by (rule arg_cong [where f = "map fst"], rule filter_cong) (auto dest: pairs)
  also have "\<dots> = page_order ?desc val {s \<in> bits R C. keep (s, val s)}"
    unfolding entries_def sort_entries_page filter_page_order ..
  also have "{s \<in> bits R C. keep (s, val s)} = after_cursor ?desc val (cursor32 cursor) (bits R C)"
    by (auto simp: keep_def after_cursor_def cursor32_def split: option.splits)
  finally have slots: "map fst (take limit (filter keep entries)) = slots"
    by (simp add: slots_def page_slots_def take_map [symmetric])
  have kept: "filter keep entries = (case cursor of None \<Rightarrow> entries | Some cursor \<Rightarrow>
      filter (\<lambda>(slot, v). if ?desc then v < ucast (cp_sort_value cursor) \<or>
             (v = ucast (cp_sort_value cursor) \<and> slot < cp_slot_id cursor)
          else ucast (cp_sort_value cursor) < v \<or>
             (v = ucast (cp_sort_value cursor) \<and> cp_slot_id cursor < slot)) entries)"
    by (cases cursor) (simp_all add: keep_def)
  show ?thesis
    unfolding simple_sort_and_paginate_def assms(1) option.case Let_def val_def [symmetric]
      entries_def [symmetric] kept [symmetric] slots ..
qed

lemma top_n_slots:
  assumes "sf_ok R f" and "cursor_fits f cursor"
  shows "fst (sf_top_n R f C limit desc (cursor_param cursor)) =
    page_slots desc (sf_reconstruct_value R f) (cursor32 cursor) limit (bits R C)"
proof -
  have val: "sf_reconstruct_value R f = sf_value R f"
    using reconstruct_value_eq [OF assms(1)] by blast
  have "map_option (\<lambda>(v, s). (take_bit (sf_num_bits f) (ucast v), s)) (cursor_param cursor) = cursor32 cursor"
    using assms(2) by (cases cursor) (simp_all add: cursor_param_def cursor32_def cursor_fits_def)
  with top_n_eq [OF assms(1)] show ?thesis by (simp add: page_slots_def val)
qed

lemma layered_page:
  assumes "si_get_field (qe_sorts ex) (sc_field srt) = Some f" and "sf_ok R f" and "cursor_fits f cursor"
    and slots_def: "slots = page_slots (sc_direction srt = Desc) (sf_reconstruct_value R f) (cursor32 cursor) limit (bits R C)"
  shows "\<exists>f'. sort_and_paginate R ex C srt limit cursor =
      Inr ((map ucast slots, last_cursor R f slots), hm_insert (sc_field srt) f' (qe_sorts ex)) \<and>
    sf_ok R f' \<and> sf_num_bits f' = sf_num_bits f \<and> sf_reconstruct_value R f' = sf_reconstruct_value R f"
proof -
  let ?desc = "sc_direction srt = Desc"
  obtain xs f' where top: "sf_top_n R f C limit ?desc (cursor_param cursor) = (xs, f')" by fastforce
  have "xs = slots"
    using top_n_slots [OF assms(2,3), of C limit ?desc] by (simp add: top slots_def)
  moreover have "sf_reconstruct_value R f' = sf_reconstruct_value R f" "sf_num_bits f' = sf_num_bits f"
    "sf_ok R f'"
    using top_n_field [of R f C limit ?desc "cursor_param cursor"]
      sf_ok_top_n [OF assms(2), of C limit ?desc "cursor_param cursor"] by (simp_all add: top)
  moreover have "si_modify_field (qe_sorts ex) (sc_field srt) (\<lambda>_. f') = hm_insert (sc_field srt) f' (qe_sorts ex)"
    using assms(1) by (simp add: si_modify_field_def si_get_field_def)
  ultimately show ?thesis
    using assms(1) top by (auto simp: sort_and_paginate_def Let_def last_cursor_def)
qed

end

text \<open>The result of a sorted query: a page of the matching slots, and the sort index with the same
  content.\<close>

definition sorts_agree :: "'b roaring_ops \<Rightarrow> 'b sort_index \<Rightarrow> 'b sort_index \<Rightarrow> bool" where
  "sorts_agree R s s' \<longleftrightarrow> (\<forall>name f. si_get_field s name = Some f \<longrightarrow> sf_ok R f \<longrightarrow>
     (\<exists>f'. si_get_field s' name = Some f' \<and> sf_ok R f' \<and> sf_num_bits f' = sf_num_bits f \<and>
        sf_reconstruct_value R f' = sf_reconstruct_value R f))"

definition sorted_result ::
    "'b roaring_ops \<Rightarrow> 'b sort_field \<Rightarrow> bool \<Rightarrow> cursor_position option \<Rightarrow> usize \<Rightarrow> u32 set \<Rightarrow> query_result" where
  "sorted_result R f desc cursor limit S =
     (let slots = page_slots desc (sf_reconstruct_value R f) (cursor32 cursor) limit S
      in \<lparr>qr_ids = map ucast slots, qr_cursor = last_cursor R f slots, qr_total_matched = card S\<rparr>)"

lemma from_bitmap_page:
  assumes "roaring R" and "si_get_field (qe_sorts ex) (sc_field srt) = Some f" and "sf_ok R f"
    and "cursor_fits f cursor"
  shows "\<exists>sorts. execute_from_bitmap_inner R ex C (Some srt) limit cursor simple =
      Inr (sorted_result R f (sc_direction srt = Desc) cursor limit (bits R C), sorts) \<and>
    sorts_agree R (qe_sorts ex) sorts"
proof -
  obtain f' where f': "sort_and_paginate R ex C srt limit cursor =
      Inr ((map ucast (page_slots (sc_direction srt = Desc) (sf_reconstruct_value R f) (cursor32 cursor) limit (bits R C)),
        last_cursor R f (page_slots (sc_direction srt = Desc) (sf_reconstruct_value R f) (cursor32 cursor) limit (bits R C))),
        hm_insert (sc_field srt) f' (qe_sorts ex))"
      "sf_ok R f'" "sf_num_bits f' = sf_num_bits f" "sf_reconstruct_value R f' = sf_reconstruct_value R f"
    using roaring.layered_page [OF assms refl] by blast
  have "sorts_agree R (qe_sorts ex) (hm_insert (sc_field srt) f' (qe_sorts ex))"
    using f'(2-4) assms(2) by (auto simp: sorts_agree_def si_get_field_def)
  moreover have "sorts_agree R (qe_sorts ex) (qe_sorts ex)"
    by (auto simp: sorts_agree_def)
  ultimately show ?thesis
    by (simp add: execute_from_bitmap_inner_def Let_def roaring.simple_page [OF assms(1,2) refl refl] f'(1)
        roaring.len_bits [OF assms(1)] sorted_result_def)
qed


lemma execute_eq:
  "execute R ex filters srt limit cursor =
     (let plan = plan_query_with_context R filters (qe_filters ex) (qe_slots ex)
            (Some \<lparr>pc_string_maps = qe_string_maps ex, pc_dictionaries = qe_dictionaries ex\<rparr>)
      in bbind (compute_filters R ex (qp_ordered_clauses plan)) (\<lambda>bm.
           execute_from_bitmap R ex bm srt limit cursor (qp_use_simple_sort plan)))"
  by (simp add: execute_def execute_from_bitmap_def execute_from_bitmap_inner_def Let_def)

lemma planned_filters:
  assumes "roaring R" and "clauses_ok R ex cs"
  shows "\<exists>bm. compute_filters R ex (qp_ordered_clauses (plan_query_with_context R cs fs sl ctx)) = Inr bm \<and>
    bits R bm = query_set R ex cs"
proof -
  let ?cs = "qp_ordered_clauses (plan_query_with_context R cs fs sl ctx)"
  have "set ?cs = set cs" by (simp add: plan_ordered_eq)
  then have "clauses_ok R ex ?cs" "query_set R ex ?cs = query_set R ex cs"
    using assms(2) clauses_ok_perm query_set_perm by metis+
  with compute_yields [OF assms(1), of ex ?cs] show ?thesis by (simp add: yields_iff)
qed

lemma execute_sorted:
  assumes "roaring R" and "clauses_ok R ex cs" and "si_get_field (qe_sorts ex) (sc_field srt) = Some f"
    and "sf_ok R f" and "cursor_fits f cursor"
  shows "\<exists>sorts. execute R ex cs (Some srt) limit cursor =
      Inr (sorted_result R f (sc_direction srt = Desc) cursor (min limit (qe_max_page_size ex))
        (query_set R ex cs), sorts) \<and> sorts_agree R (qe_sorts ex) sorts"
proof -
  define plan where "plan = plan_query_with_context R cs (qe_filters ex) (qe_slots ex)
      (Some \<lparr>pc_string_maps = qe_string_maps ex, pc_dictionaries = qe_dictionaries ex\<rparr>)"
  obtain bm where bm: "compute_filters R ex (qp_ordered_clauses plan) = Inr bm"
      "bits R bm = query_set R ex cs"
    using planned_filters [OF assms(1,2)] unfolding plan_def by blast
  from from_bitmap_page [OF assms(1,3,4,5), of bm "min limit (qe_max_page_size ex)" "qp_use_simple_sort plan"]
  show ?thesis
    by (simp add: execute_eq Let_def plan_def [symmetric] bm execute_from_bitmap_def)
qed

text \<open>The page in slot order is the page of the order by descending slot.\<close>

lemma slot_order_page:
  assumes "roaring R"
  shows "slot_order_paginate R C limit cursor =
    (let slots = page_slots True (\<lambda>_. 0) (map_option (\<lambda>c. (0, cp_slot_id c)) cursor) limit (bits R C)
     in (map ucast slots, if slots = [] then None
         else Some \<lparr>cp_sort_value = ucast (last slots), cp_slot_id = last slots\<rparr>))"
proof -
  define N where "N = (case cursor of Some cursor \<Rightarrow> rb_remove_range R C (cp_slot_id cursor) u32_MAX | None \<Rightarrow> C)"
  let ?A = "after_cursor True (\<lambda>_. 0) (map_option (\<lambda>c. (0, cp_slot_id c)) cursor) (bits R C)"
  have N: "bits R N = ?A"
    using assms by (cases cursor) (auto simp: N_def after_cursor_def roaring.bits_remove_range)
  have "rev (rb_iter R N) = page_order True (\<lambda>_. 0) ?A"
  proof (rule page_order_unique)
    show "sorted_wrt (before True (\<lambda>_. 0)) (rev (rb_iter R N))"
      using roaring.iter_sorted [OF assms, of N] by (simp add: sorted_wrt_rev before_def)
  qed (simp add: roaring.set_iter [OF assms] N)
  then have slots: "take limit (rev (rb_iter R N)) =
      page_slots True (\<lambda>_. 0) (map_option (\<lambda>c. (0, cp_slot_id c)) cursor) limit (bits R C)"
    by (simp add: page_slots_def)
  have empty: "rb_is_empty R N \<longleftrightarrow> ?A = {}"
    by (simp add: roaring.is_empty_bits [OF assms] N)
  show ?thesis
  proof (cases "?A = {}")
    case True
    then show ?thesis
      using empty by (cases cursor) (simp_all add: slot_order_paginate_def slot_order_paginate_dir_def N_def
          page_slots_def page_order_def sort_by_def Let_def)
  next
    case False
    have "slot_order_paginate R C limit cursor = (let ids = map (ucast :: u32 \<Rightarrow> i64) (take limit (rev (rb_iter R N)))
        in (ids, if ids = [] then None else Some \<lparr>cp_sort_value = last ids, cp_slot_id = ucast (last ids)\<rparr>))"
      using False empty by (cases cursor) (simp_all add: slot_order_paginate_def slot_order_paginate_dir_def N_def Let_def)
    then show ?thesis by (simp add: slots Let_def last_map)
  qed
qed

section \<open>Paging through a result\<close>

text \<open>
  A client that asks for page after page, each time with the cursor it was given, until a page
  is empty; \<open>n\<close> bounds the number of requests.
\<close>

fun fetch_pages ::
    "'b roaring_ops \<Rightarrow> 'b query_executor \<Rightarrow> 'b filter_clause list \<Rightarrow> sort_clause option \<Rightarrow> usize \<Rightarrow>
     cursor_position option \<Rightarrow> nat \<Rightarrow> i64 list list option" where
  "fetch_pages R ex cs srt limit cursor 0 = None"
| "fetch_pages R ex cs srt limit cursor (Suc n) =
     (case execute R ex cs srt limit cursor of
        Inl e \<Rightarrow> None
      | Inr (r, sorts) \<Rightarrow>
          if qr_ids r = [] then Some []
          else map_option ((#) (qr_ids r))
                 (fetch_pages R (ex\<lparr>qe_sorts := sorts\<rparr>) cs srt limit (qr_cursor r) n))"

text \<open>Filtering does not read the sort index.\<close>

lemma sorts_irrelevant_sets [simp]:
  "alive_set R (ex\<lparr>qe_sorts := s\<rparr>) = alive_set R ex"
  "field_bits R (ex\<lparr>qe_sorts := s\<rparr>) = field_bits R ex"
  "resolve_value_key (ex\<lparr>qe_sorts := s\<rparr>) = resolve_value_key ex"
  "value_set R (ex\<lparr>qe_sorts := s\<rparr>) = value_set R ex"
  "range_set R (ex\<lparr>qe_sorts := s\<rparr>) = range_set R ex"
  "snap_recent (ex\<lparr>qe_sorts := s\<rparr>) = snap_recent ex"
  "snap_older R (ex\<lparr>qe_sorts := s\<rparr>) = snap_older R ex"
  "field_known (ex\<lparr>qe_sorts := s\<rparr>) = field_known ex"
  "range_ok (ex\<lparr>qe_sorts := s\<rparr>) = range_ok ex"
  "value_ok (ex\<lparr>qe_sorts := s\<rparr>) = value_ok ex"
  "filters_ok R (ex\<lparr>qe_sorts := s\<rparr>) = filters_ok R ex"
proof -
  let ?ex = "ex\<lparr>qe_sorts := s\<rparr>"
  have sel: "qe_slots ?ex = qe_slots ex" "qe_filters ?ex = qe_filters ex" "qe_time_buckets ?ex = qe_time_buckets ex"
    "qe_now_unix ?ex = qe_now_unix ex" "qe_string_maps ?ex = qe_string_maps ex"
    "qe_case_sensitive_fields ?ex = qe_case_sensitive_fields ex" "qe_dictionaries ?ex = qe_dictionaries ex"
    by simp_all
  note defs = alive_set_def field_bits_def resolve_value_key_def value_set_def range_set_def
    snap_recent_def snap_older_def field_known_def range_ok_def value_ok_def filters_ok_def
  show "alive_set R ?ex = alive_set R ex" "field_bits R ?ex = field_bits R ex"
    "resolve_value_key ?ex = resolve_value_key ex" "value_set R ?ex = value_set R ex"
    "range_set R ?ex = range_set R ex" "snap_recent ?ex = snap_recent ex" "snap_older R ?ex = snap_older R ex"
    "field_known ?ex = field_known ex" "range_ok ?ex = range_ok ex" "value_ok ?ex = value_ok ex"
    "filters_ok R ?ex = filters_ok R ex"
    unfolding fun_eq_iff defs sel by simp_all
qed

lemma sorts_irrelevant_clause [simp]:
  "clause_set R (ex\<lparr>qe_sorts := s\<rparr>) c = clause_set R ex c"
  "clause_ok R (ex\<lparr>qe_sorts := s\<rparr>) c = clause_ok R ex c"
  by (induction c) (auto simp: list_all_iff split: option.splits)

lemma sorts_irrelevant_query [simp]:
  "fast_ok R (ex\<lparr>qe_sorts := s\<rparr>) c = fast_ok R ex c"
  "clauses_ok R (ex\<lparr>qe_sorts := s\<rparr>) cs = clauses_ok R ex cs"
  "query_set R (ex\<lparr>qe_sorts := s\<rparr>) cs = query_set R ex cs"
proof -
  show f: "fast_ok R (ex\<lparr>qe_sorts := s\<rparr>) c = fast_ok R ex c" for c by (cases c) auto
  show "clauses_ok R (ex\<lparr>qe_sorts := s\<rparr>) cs = clauses_ok R ex cs"
    "query_set R (ex\<lparr>qe_sorts := s\<rparr>) cs = query_set R ex cs"
    by (simp_all add: clauses_ok_def query_set_def f)
qed

text \<open>After the last slot of a page comes what the page left over.\<close>

lemma after_last:
  assumes "0 < limit" and "page_slots desc val cur limit S \<noteq> []"
  defines "l \<equiv> last (page_slots desc val cur limit S)"
  shows "page_order desc val (after_cursor desc val (Some (val l, l)) S) =
    drop limit (page_order desc val (after_cursor desc val cur S))"
proof -
  let ?A = "after_cursor desc val cur S"
  let ?xs = "page_order desc val ?A"
  have l: "l = last (take (min limit (length ?xs)) ?xs)"
    by (simp add: l_def page_slots_def min_def)
  have "?xs \<noteq> []" using assms(2) by (auto simp: page_slots_def)
  then have ne: "0 < card ?A" by (metis length_greater_0_conv length_page_order)
  have "l \<in> ?A"
  proof -
    have "l \<in> set (take limit ?xs)"
      unfolding l_def page_slots_def using assms(2) by (intro last_in_set) (simp add: page_slots_def)
    then show ?thesis using set_take_subset by fastforce
  qed
  then have "after_cursor desc val (Some (val l, l)) S = {s \<in> ?A. before desc val l s}"
    by (auto simp: after_cursor_def before_def split: option.splits if_splits)
  then have "page_order desc val (after_cursor desc val (Some (val l, l)) S) = filter (before desc val l) ?xs"
    by (simp add: filter_page_order)
  also have "\<dots> = drop (min limit (length ?xs)) ?xs"
    unfolding l using assms(1) ne
    by (intro page.filter_after_last sorted_page_order) auto
  finally show ?thesis by (simp add: min_def)
qed

lemma fetch_from:
  assumes "roaring R" and "0 < limit" and "0 < qe_max_page_size ex" and "clauses_ok R ex cs"
    and "si_get_field (qe_sorts ex) (sc_field srt) = Some f" and "sf_ok R f" and "cursor_fits f cursor"
    and "val = sf_reconstruct_value R f" and "desc \<longleftrightarrow> sc_direction srt = Desc"
    and "card (after_cursor desc val (cursor32 cursor) (query_set R ex cs)) < n"
  shows "\<exists>ps. fetch_pages R ex cs (Some srt) limit cursor n = Some ps \<and>
    concat ps = map ucast (page_order desc val (after_cursor desc val (cursor32 cursor) (query_set R ex cs)))"
  using assms(3-10)
proof (induction n arbitrary: ex f cursor)
  case 0
  then show ?case by simp
next
  case (Suc n)
  let ?S = "query_set R ex cs" and ?lim = "min limit (qe_max_page_size ex)"
  let ?A = "after_cursor desc val (cursor32 cursor) ?S"
  let ?slots = "page_slots desc val (cursor32 cursor) ?lim ?S"
  obtain sorts where ex: "execute R ex cs (Some srt) limit cursor =
      Inr (sorted_result R f desc cursor ?lim ?S, sorts)" "sorts_agree R (qe_sorts ex) sorts"
    using execute_sorted [OF assms(1) Suc.prems(2-5), of limit] Suc.prems(7) by auto
  obtain f' where f': "si_get_field sorts (sc_field srt) = Some f'" "sf_ok R f'"
      "sf_num_bits f' = sf_num_bits f" "sf_reconstruct_value R f' = val"
    using ex(2) Suc.prems(3,4,6) by (auto simp: sorts_agree_def)
  have lim: "0 < ?lim" using assms(2) Suc.prems(1) by simp
  show ?case
  proof (cases "?slots = []")
    case True
    then have "page_order desc val ?A = []" using lim by (auto simp: page_slots_def)
    with True ex(1) Suc.prems(6) show ?thesis by (simp add: sorted_result_def Let_def)
  next
    case False
    define l where "l = last ?slots"
    let ?c = "Some \<lparr>cp_sort_value = ucast (val l), cp_slot_id = l\<rparr>"
    have rest: "page_order desc val (after_cursor desc val (Some (val l, l)) ?S) = drop ?lim (page_order desc val ?A)"
      unfolding l_def by (rule after_last [OF lim False])
    have c32: "cursor32 ?c = Some (val l, l)" by (simp add: cursor32_def)
    have "take_bit (sf_num_bits f) (val l) = val l"
      using drop_bit_sf_value [OF Suc.prems(4), of l] sf_okD(2) [OF Suc.prems(4)]
        roaring.reconstruct_value_eq [OF assms(1) Suc.prems(4), of l] Suc.prems(6)
      by (simp add: take_bit_eq_self_iff_drop_bit_eq_0)
    then have fits: "cursor_fits f' ?c"
      by (simp add: cursor_fits_def f'(3))
    have "0 < card ?A" using False by (auto simp: page_slots_def card_gt_0_iff page_order_def sort_by_def)
    then have fewer: "card (after_cursor desc val (Some (val l, l)) ?S) < n"
      using arg_cong [OF rest, of length] lim Suc.prems(8) unfolding length_drop length_page_order by linarith
    let ?ex = "ex\<lparr>qe_sorts := sorts\<rparr>"
    have "\<exists>ps. fetch_pages R ?ex cs (Some srt) limit ?c n = Some ps \<and>
        concat ps = map ucast (page_order desc val (after_cursor desc val (cursor32 ?c) (query_set R ?ex cs)))"
      by (rule Suc.IH [of ?ex f' ?c]) (use Suc.prems(1,2,7) f' fits fewer in \<open>simp_all add: c32\<close>)
    then obtain ps where "fetch_pages R ?ex cs (Some srt) limit ?c n = Some ps"
        "concat ps = map ucast (drop ?lim (page_order desc val ?A))"
      unfolding c32 sorts_irrelevant_query rest by blast
    moreover have "last_cursor R f ?slots = ?c"
      using False Suc.prems(6) by (simp add: last_cursor_def l_def)
    ultimately show ?thesis
      using ex(1) False Suc.prems(6)
      by (simp add: sorted_result_def Let_def page_slots_def flip: map_append)
  qed
qed



section \<open>Packed keys\<close>

text \<open>A packed key is \<open>(sort_value << 32) | slot_id\<close>; comparing keys compares value, then slot.\<close>

definition pack_key :: "u32 \<Rightarrow> u32 \<Rightarrow> u64" where
  "pack_key v s = push_bit 32 (ucast v) OR ucast s"

lemma pack_key_parts [simp]:
  "drop_bit 32 (pack_key v s) = ucast v" "take_bit 32 (pack_key v s) = ucast s"
  "ucast (pack_key v s) = s" "pack_key v s AND 0xFFFFFFFF = ucast s"
proof -
  show "drop_bit 32 (pack_key v s) = ucast v"
    by (rule bit_word_eqI) (auto simp: pack_key_def bit_simps dest: bit_imp_le_length)
  show t: "take_bit 32 (pack_key v s) = ucast s"
    by (rule bit_word_eqI) (auto simp: pack_key_def bit_simps dest: bit_imp_le_length)
  show "ucast (pack_key v s) = s"
    by (rule bit_word_eqI) (auto simp: pack_key_def bit_simps dest: bit_imp_le_length)
  have "(0xFFFFFFFF :: u64) = mask 32" by (simp add: mask_eq_exp_minus_1)
  then show "pack_key v s AND 0xFFFFFFFF = ucast s"
    using t by (simp add: take_bit_eq_mask)
qed

lemma unat_u64_of_u32 [simp]: "unat (ucast (v :: u32) :: u64) = unat v"
proof -
  have "unat v < 2 ^ 32" using unsigned_less [where w = v and ?'a = nat] by simp
  then have "unat v < 2 ^ 64" by simp
  then show ?thesis by (simp add: unsigned_ucast_eq take_bit_nat_eq_self)
qed

lemma unat_pack_key: "unat (pack_key v s) = unat v * 2 ^ 32 + unat s"
proof -
  have "unat (pack_key v s) = unat (drop_bit 32 (pack_key v s)) * 2 ^ 32 + unat (take_bit 32 (pack_key v s))"
    unfolding unat_drop_bit_eq unsigned_take_bit_eq
    by (simp only: drop_bit_eq_div take_bit_eq_mod div_mult_mod_eq)
  then show ?thesis by simp
qed

lemma pack_key_less: "pack_key v s < pack_key v' s' \<longleftrightarrow> (v, s) < (v', s')"
proof -
  have "unat s < 2 ^ 32" "unat s' < 2 ^ 32" using unsigned_less [where w = s and ?'a = nat] unsigned_less [where w = s' and ?'a = nat] by simp_all
  then have "unat v * 2 ^ 32 + unat s < unat v' * 2 ^ 32 + unat s' \<longleftrightarrow>
      unat v < unat v' \<or> unat v = unat v' \<and> unat s < unat s'"
    by auto
  then show ?thesis
    by (auto simp: word_less_nat_alt word_le_nat_alt unat_pack_key)
qed

lemma pack_key_le: "pack_key v s \<le> pack_key v' s' \<longleftrightarrow> (v, s) \<le> (v', s')"
  using pack_key_less [of v' s' v s] by (simp add: not_less [symmetric])

definition packed_page :: "bool \<Rightarrow> (u32 \<Rightarrow> u32) \<Rightarrow> u32 set \<Rightarrow> u64 list" where
  "packed_page desc val S = map (\<lambda>s. pack_key (val s) s) (page_order desc val S)"

text \<open>The keys up to the cursor are skipped, the rest is what comes after it.\<close>

lemma drop_takeWhile_sorted:
  assumes "sorted_wrt lt xs" and "\<And>x y. x \<in> set xs \<Longrightarrow> y \<in> set xs \<Longrightarrow> \<not> P x \<Longrightarrow> lt x y \<Longrightarrow> \<not> P y"
  shows "drop (length (takeWhile P xs)) xs = filter (\<lambda>x. \<not> P x) xs"
  using assms
proof (induction xs)
  case Nil
  then show ?case by simp
next
  case (Cons x xs)
  show ?case
  proof (cases "P x")
    case True
    have "drop (length (takeWhile P xs)) xs = filter (\<lambda>x. \<not> P x) xs"
    proof (rule Cons.IH)
      show "sorted_wrt lt xs" using Cons.prems(1) by simp
      show "\<not> P b" if "a \<in> set xs" "b \<in> set xs" "\<not> P a" "lt a b" for a b
        using Cons.prems(2) [of a b] that by simp
    qed
    with True show ?thesis by simp
  next
    case False
    have "\<not> P y" if "y \<in> set xs" for y
      using Cons.prems(1) Cons.prems(2) [of x y] that False by simp
    then have "\<forall>y \<in> set xs. \<not> P y" by blast
    with False show ?thesis by simp
  qed
qed

lemma skip_to_cursor:
  assumes "before_cursor = (\<lambda>s. if desc then (cv, cs) \<le> (val s, s) else (val s, s) \<le> (cv, cs))"
  shows "drop (length (takeWhile before_cursor (page_order desc val S))) (page_order desc val S) =
    page_order desc val (after_cursor desc val (Some (cv, cs)) S)"
proof -
  let ?xs = "page_order desc val S"
  have "drop (length (takeWhile before_cursor ?xs)) ?xs = filter (\<lambda>s. \<not> before_cursor s) ?xs"
  proof (rule drop_takeWhile_sorted [OF sorted_page_order])
    show "\<not> before_cursor y" if "\<not> before_cursor x" "before desc val x y" for x y
      using that by (auto simp: assms before_def split: if_splits)
  qed
  also have "\<dots> = page_order desc val (after_cursor desc val (Some (cv, cs)) S)"
    unfolding filter_page_order
    by (rule arg_cong [where f = "page_order desc val"]) (auto simp: assms after_cursor_def)
  finally show ?thesis .
qed

lemma sorted_keys_start:
  assumes "\<And>c. cursor = Some c \<Longrightarrow> drop_bit 32 (cp_sort_value c) = 0"
    and key_def: "\<And>c. key c = push_bit 32 (cp_sort_value c) OR ucast (cp_slot_id c)"
    and start_def: "start = (case cursor of Some c \<Rightarrow> (case dir of
        Desc \<Rightarrow> partition_point (\<lambda>k. key c \<le> k) (packed_page (dir = Desc) val S)
      | Asc \<Rightarrow> partition_point (\<lambda>k. k \<le> key c) (packed_page (dir = Desc) val S)) | None \<Rightarrow> 0)"
  shows "drop start (packed_page (dir = Desc) val S) =
    packed_page (dir = Desc) val (after_cursor (dir = Desc) val (cursor32 cursor) S)"
proof (cases cursor)
  case None
  then show ?thesis by (simp add: start_def cursor32_def after_cursor_def)
next
  case (Some c)
  let ?cv = "ucast (cp_sort_value c) :: u32" and ?cs = "cp_slot_id c"
  have "take_bit 32 (cp_sort_value c) = cp_sort_value c"
    using assms(1) [OF Some] by (simp add: take_bit_eq_self_iff_drop_bit_eq_0)
  then have "ucast ?cv = cp_sort_value c"
    by (simp add: unsigned_ucast_eq)
  then have key: "key c = pack_key ?cv ?cs" by (simp add: key_def pack_key_def)
  show ?thesis
    using skip_to_cursor [OF refl, of "dir = Desc" ?cv ?cs val S]
    by (cases dir) (simp_all add: start_def Some key partition_point_def packed_page_def takeWhile_map
        comp_def pack_key_le drop_map cursor32_def)
qed



section \<open>Radix buckets\<close>

lemma unat_prefix: "unat (ucast (drop_bit 24 (v :: u32)) :: u8) = rx_prefix v"
  using rx_prefix_less [of v] by (simp add: rx_prefix_def unsigned_ucast_eq take_bit_nat_eq_self)

lemma cursor_prefix_u32: "(ucast (drop_bit 24 (v :: u64)) :: u8) = ucast (drop_bit 24 (ucast v :: u32))"
  by (rule bit_word_eqI) (simp add: bit_simps)

lemma prefix_less_value: "rx_prefix a < rx_prefix b \<Longrightarrow> a < b"
  using drop_bit_less_imp_less [of 24 a b] by (simp add: rx_prefix_def word_less_nat_alt)

text \<open>What the cursor leaves of one bucket, as the loop decides it by the prefix alone.\<close>

lemma bucket_after_cursor:
  fixes val :: "u32 \<Rightarrow> u32"
  assumes "\<And>s. s \<in> B \<Longrightarrow> p = ucast (drop_bit 24 (val s))"
    and "cp = map_option (\<lambda>c. (ucast (drop_bit 24 (cp_sort_value c)) :: u8)) cursor"
    and "skip \<longleftrightarrow> (case cp of Some cp \<Rightarrow> (case dir of Desc \<Rightarrow> cp < p | Asc \<Rightarrow> p < cp) | None \<Rightarrow> False)"
  shows "after_cursor (dir = Desc) val (cursor32 cursor) B =
    (if skip then {} else after_cursor (dir = Desc) val (cursor32 (if cp = Some p then cursor else None)) B)"
proof (cases cursor)
  case None
  with assms(2,3) show ?thesis by simp
next
  case (Some c)
  let ?cv = "ucast (cp_sort_value c) :: u32"
  have cp: "cp = Some (ucast (drop_bit 24 ?cv))" using assms(2) Some by (simp add: cursor_prefix_u32)
  have p: "unat p = rx_prefix (val s)" if "s \<in> B" for s
    using assms(1) [OF that] by (simp add: unat_prefix)
  show ?thesis
  proof (cases "cp = Some p")
    case True
    then have "\<not> skip" using assms(3) by (cases dir) simp_all
    with True show ?thesis by simp
  next
    case False
    have "unat p \<noteq> rx_prefix ?cv"
      using False cp unat_prefix [of ?cv] by (metis word_unat_eq_iff)
    moreover have "skip \<longleftrightarrow> (case dir of Desc \<Rightarrow> rx_prefix ?cv < unat p | Asc \<Rightarrow> unat p < rx_prefix ?cv)"
      using assms(3) cp by (cases dir) (simp_all add: word_less_nat_alt unat_prefix)
    ultimately have "after_cursor (dir = Desc) val (Some (?cv, cp_slot_id c)) B = (if skip then {} else B)"
      using p prefix_less_value [of ?cv] prefix_less_value [of _ ?cv]
      by (cases dir) (fastforce simp: after_cursor_def dest: less_asym)+
    with False Some show ?thesis by (simp add: cursor32_def after_cursor_def)
  qed
qed

lemma radix_loop_page:
  assumes "roaring R" and "val = sf_reconstruct_value R f" and "sf_ok R f" and "cursor_fits f cursor"
    and "\<And>p bm s. (p, bm) \<in> set bs \<Longrightarrow> s \<in> bits R bm \<Longrightarrow> p = ucast (drop_bit 24 (val s))"
  shows "\<exists>f'. radix_loop R dir cursor bs f result remaining =
      (result @ take remaining (concat (map (\<lambda>(p, bm).
         page_order (dir = Desc) val (after_cursor (dir = Desc) val (cursor32 cursor) (bits R bm))) bs)), f') \<and>
    sf_ok R f' \<and> sf_num_bits f' = sf_num_bits f \<and> sf_reconstruct_value R f' = val"
  using assms(2-5)
proof (induction bs arbitrary: f result remaining)
  case Nil
  then show ?case by simp
next
  case (Cons b bs)
  obtain p bm where b: "b = (p, bm)" by (cases b)
  let ?desc = "dir = Desc"
  let ?page = "\<lambda>bm. page_order ?desc val (after_cursor ?desc val (cursor32 cursor) (bits R bm))"
  let ?rest = "concat (map (\<lambda>(p, bm). ?page bm) bs)"
  define cp where "cp = map_option (\<lambda>c. (ucast (drop_bit 24 (cp_sort_value c)) :: u8)) cursor"
  define skip where "skip \<longleftrightarrow> (case cp of Some cp \<Rightarrow> (case dir of Desc \<Rightarrow> cp < p | Asc \<Rightarrow> p < cp) | None \<Rightarrow> False)"
  have pre: "p = ucast (drop_bit 24 (val s))" if "s \<in> bits R bm" for s
    using Cons.prems(4) [of p bm s] that b by simp
  note bucket = bucket_after_cursor [OF pre cp_def skip_def]
  have rest: "q = ucast (drop_bit 24 (val s))" if "(q, bm') \<in> set bs" "s \<in> bits R bm'" for q bm' s
    using Cons.prems(4) [of q bm' s] that by simp
  have IH: "\<exists>f'. radix_loop R dir cursor bs g res m = (res @ take m ?rest, f') \<and>
      sf_ok R f' \<and> sf_num_bits f' = sf_num_bits g \<and> sf_reconstruct_value R f' = val"
    if "val = sf_reconstruct_value R g" "sf_ok R g" "cursor_fits g cursor" for g res m
    by (rule Cons.IH [OF that]) (rule rest)
  show ?case
  proof (cases "remaining = 0")
    case True
    with Cons.prems b show ?thesis by simp
  next
    case False
    show ?thesis
    proof (cases skip)
      case True
      with bucket have "?page bm = []" by (simp add: page_order_def sort_by_def)
      with IH [OF Cons.prems(1-3), of result remaining] False True b show ?thesis
        by (simp add: cp_def [symmetric] skip_def [symmetric])
    next
      case noskip: False
      let ?cur = "if cp = Some p then cursor else None"
      obtain xs f1 where top: "sf_top_n R f bm remaining ?desc (cursor_param ?cur) = (xs, f1)" by fastforce
      have fits: "cursor_fits f ?cur" using Cons.prems(3) by (simp add: cursor_fits_def)
      have left: "after_cursor ?desc val (cursor32 cursor) (bits R bm) = after_cursor ?desc val (cursor32 ?cur) (bits R bm)"
        using bucket noskip by (simp only: if_False)
      have xs: "xs = take remaining (?page bm)"
        unfolding left using roaring.top_n_slots [OF assms(1) Cons.prems(2) fits, of bm remaining ?desc]
        by (simp only: top page_slots_def fst_conv Cons.prems(1) [symmetric])
      have f1: "sf_reconstruct_value R f1 = val" "sf_num_bits f1 = sf_num_bits f" "sf_ok R f1"
        using top_n_field [of R f bm remaining ?desc "cursor_param ?cur"] Cons.prems(1,2)
          roaring.sf_ok_top_n [OF assms(1) Cons.prems(2), of bm remaining ?desc "cursor_param ?cur"]
        by (simp_all add: top)
      have fits1: "cursor_fits f1 cursor" using Cons.prems(3) unfolding cursor_fits_def f1(2) .
      have par: "(if cp = Some p then cursor_param cursor else None) = cursor_param ?cur" by (simp add: cursor_param_def)
      have pushed: "take remaining xs = xs" using xs by simp
      have loop: "radix_loop R dir cursor (b # bs) f result remaining =
          radix_loop R dir cursor bs f1 (result @ xs) (remaining - length xs)"
        using False noskip
        by (simp only: b radix_loop.simps if_False Let_def cp_def [symmetric] skip_def [symmetric] par top prod.case pushed)
      have "take remaining (?page bm @ ?rest) = xs @ take (remaining - length xs) ?rest"
        by (simp add: xs min_def)
      with IH [OF f1(1) [symmetric] f1(3) fits1, of "result @ xs" "remaining - length xs"] f1(2) show ?thesis
        unfolding loop by (simp add: b)
    qed
  qed
qed

lemma rx_iter_page:
  assumes "roaring R" and "rx_ok R val rx"
  shows "concat (map (\<lambda>(p, bm). page_order (dir = Desc) val (after_cursor (dir = Desc) val cur (bits R bm)))
      (rx_iter_buckets R rx dir)) =
    page_order (dir = Desc) val (after_cursor (dir = Desc) val cur (rx_bits R rx))"
proof -
  let ?desc = "dir = Desc"
  let ?B = "\<lambda>i. after_cursor ?desc val cur (bucket_bits R (rx_buckets rx ! i))"
  have empty: "page_order ?desc val (after_cursor ?desc val cur {}) = []"
    by (simp add: after_cursor_def page_order_def sort_by_def split: option.splits)
  have "(case case rx_buckets rx ! i of Some bm \<Rightarrow> if \<not> rb_is_empty R bm then Some (of_nat i :: u8, bm) else None
        | None \<Rightarrow> None of None \<Rightarrow> [] | Some y \<Rightarrow> case y of (p, bm) \<Rightarrow>
          page_order ?desc val (after_cursor ?desc val cur (bits R bm))) = page_order ?desc val (?B i)" for i
    by (simp add: empty bucket_bits_def roaring.is_empty_bits [OF assms(1)] split: option.splits)
  then have "concat (map (\<lambda>(p, bm). page_order ?desc val (after_cursor ?desc val cur (bits R bm)))
      (rx_iter_buckets R rx dir)) = concat (map (\<lambda>i. page_order ?desc val (?B i)) (bucket_order ?desc))"
    unfolding rx_iter_buckets_def concat_map_filter by (cases dir) (simp_all add: bucket_order_def)
  also have "\<dots> = page_order ?desc val (\<Union>i < 256. ?B i)"
    by (rule page_order_buckets [symmetric])
      (use assms(2) in \<open>auto simp: rx_ok_def rx_sorted_in_def after_cursor_def split: option.splits\<close>)
  also have "(\<Union>i < 256. ?B i) = after_cursor ?desc val cur (rx_bits R rx)"
    using roaring.rx_bits_nth [OF assms(1), of rx] assms(2)
    by (auto simp: rx_ok_def rx_sorted_in_def after_cursor_def split: option.splits)
  finally show ?thesis .
qed

lemma rx_iter_prefix:
  assumes "rx_ok R val rx" and "(p, bm) \<in> set (rx_iter_buckets R rx dir)" and "s \<in> bits R bm"
  shows "p = ucast (drop_bit 24 (val s))"
proof -
  have "\<exists>i < 256. rx_buckets rx ! i = Some bm \<and> p = of_nat i"
    using assms(2) by (cases dir) (auto simp: rx_iter_buckets_def in_map_filter split: option.splits if_splits)
  then obtain i where i: "i < 256" "rx_buckets rx ! i = Some bm" "p = of_nat i" by blast
  then have "rx_prefix (val s) = i"
    using assms(1,3) by (auto simp: rx_ok_def rx_sorted_in_def bucket_bits_def)
  then have "unat (ucast (drop_bit 24 (val s)) :: u8) = i" by (simp add: unat_prefix)
  with i(3) show ?thesis by (metis of_nat_unat ucast_id)
qed

lemma from_radix_page:
  assumes "roaring R" and "si_get_field (qe_sorts ex) (sc_field srt) = Some f" and "sf_ok R f"
    and "cursor_fits f cursor" and "rx_ok R (sf_reconstruct_value R f) rx"
  shows "\<exists>sorts. execute_from_radix R ex rx srt limit cursor matched =
      Inr (sorted_result R f (sc_direction srt = Desc) cursor (min limit (qe_max_page_size ex)) (rx_bits R rx)
        \<lparr>qr_total_matched := matched\<rparr>, sorts) \<and>
    sorts_agree R (qe_sorts ex) sorts"
proof -
  let ?dir = "sc_direction srt" and ?val = "sf_reconstruct_value R f" and ?lim = "min limit (qe_max_page_size ex)"
  let ?bs = "rx_iter_buckets R rx ?dir"
  let ?slots = "page_slots (?dir = Desc) ?val (cursor32 cursor) ?lim (rx_bits R rx)"
  have prefix: "p = ucast (drop_bit 24 (?val s))" if "(p, bm) \<in> set ?bs" "s \<in> bits R bm" for p bm s
    using assms(5) that by (rule rx_iter_prefix)
  have "\<exists>f'. radix_loop R ?dir cursor ?bs f [] ?lim = ([] @ take ?lim (concat (map (\<lambda>(p, bm).
         page_order (?dir = Desc) ?val (after_cursor (?dir = Desc) ?val (cursor32 cursor) (bits R bm))) ?bs)), f') \<and>
      sf_ok R f' \<and> sf_num_bits f' = sf_num_bits f \<and> sf_reconstruct_value R f' = ?val"
    by (rule radix_loop_page [OF assms(1) refl assms(3,4)]) (rule prefix)
  then obtain f' where loop: "radix_loop R ?dir cursor ?bs f [] ?lim = (?slots, f')"
      and f': "sf_ok R f'" "sf_num_bits f' = sf_num_bits f" "sf_reconstruct_value R f' = ?val"
    unfolding rx_iter_page [OF assms(1,5)] page_slots_def append_Nil by blast
  have last: "last_cursor R f' ?slots = last_cursor R f ?slots" by (simp add: last_cursor_def f'(3))
  have "sorts_agree R (qe_sorts ex) (hm_insert (sc_field srt) f' (qe_sorts ex))"
    using f' assms(2) by (auto simp: sorts_agree_def si_get_field_def)
  then show ?thesis
    using assms(2) last
    by (simp add: execute_from_radix_def Let_def loop sorted_result_def si_modify_field_def si_get_field_def)
qed

lemma from_sorted_keys_page:
  assumes "0 < min limit (qe_max_page_size ex)"
    and "\<And>c. cursor = Some c \<Longrightarrow> drop_bit 32 (cp_sort_value c) = 0"
    and slots_def: "slots = page_slots (dir = Desc) val (cursor32 cursor) (min limit (qe_max_page_size ex)) S"
  shows "execute_from_sorted_keys ex (packed_page (dir = Desc) val S) dir limit cursor matched =
    Some \<lparr>qr_ids = map ucast slots,
          qr_cursor = (if length slots < card (after_cursor (dir = Desc) val (cursor32 cursor) S)
                       then Some \<lparr>cp_sort_value = ucast (val (last slots)), cp_slot_id = last slots\<rparr> else None),
          qr_total_matched = matched\<rparr>"
proof -
  let ?desc = "dir = Desc" and ?lim = "min limit (qe_max_page_size ex)"
  let ?ks = "packed_page ?desc val S"
  let ?rest = "page_order ?desc val (after_cursor ?desc val (cursor32 cursor) S)"
  define start where "start = (case cursor of Some c \<Rightarrow> (case dir of
        Desc \<Rightarrow> partition_point (\<lambda>k. push_bit 32 (cp_sort_value c) OR ucast (cp_slot_id c) \<le> k) ?ks
      | Asc \<Rightarrow> partition_point (\<lambda>k. k \<le> push_bit 32 (cp_sort_value c) OR ucast (cp_slot_id c)) ?ks) | None \<Rightarrow> 0)"
  have rest: "drop start ?ks = map (\<lambda>s. pack_key (val s) s) ?rest"
    using sorted_keys_start [OF assms(2) refl start_def] unfolding packed_page_def .
  have le: "start \<le> length ?ks"
    by (auto simp: start_def partition_point_def length_takeWhile_le split: option.splits sort_direction.splits)
  have len: "length ?ks = start + length ?rest"
    using arg_cong [OF rest, of length] le by simp
  have slots: "slots = take ?lim ?rest" by (simp add: slots_def page_slots_def)
  define e where "e = min (start + ?lim) (length ?ks)"
  have e: "e = start + length slots" using len by (simp add: e_def slots min_def)
  have ids: "map (\<lambda>key. key AND 0xFFFFFFFF) (take (e - start) (drop start ?ks)) = map ucast slots"
    by (simp add: e rest slots take_map comp_def min_def)
  have last: "slots \<noteq> [] \<and> ?ks ! (e - 1) = pack_key (val (last slots)) (last slots)" if "length slots < length ?rest"
  proof -
    have ne: "slots \<noteq> []" using that assms(1) by (auto simp: slots page_order_Nil_iff)
    have "length slots - 1 < ?lim" using assms(1) length_take [of ?lim ?rest] unfolding slots by linarith
    then have at_last: "?rest ! (length slots - 1) = slots ! (length slots - 1)" unfolding slots by simp
    have "?ks ! (e - 1) = drop start ?ks ! (length slots - 1)"
      using ne le by (cases slots) (simp_all add: e)
    also have "\<dots> = pack_key (val (last slots)) (last slots)"
      unfolding rest using that by (subst nth_map) (linarith, simp only: at_last last_conv_nth [OF ne])
    finally show ?thesis using ne by simp
  qed
  show ?thesis
    unfolding execute_from_sorted_keys_def start_def [symmetric] Let_def e_def [symmetric] ids
    using last len by (auto simp: e)
qed

section \<open>Properties\<close>

text \<open>
  C1: a sorted query is answered correctly end to end.  For any filter clauses the executor
  accepts, \<open>execute\<close> (which plans, filters, picks the in-memory or the bit-layer sort and cuts
  the page) returns the slots that satisfy all clauses, in the order of the sort field with
  ties broken by slot, those after the cursor, at most \<open>limit\<close> and at most \<open>max_page_size\<close> of
  them, the cursor of the last one, and the number of all matches; the sort index it leaves
  has the same content.
\<close>

theorem execute_page:
  assumes "roaring R" and "clauses_ok R ex cs" and "si_get_field (qe_sorts ex) (sc_field srt) = Some f"
    and "sf_ok R f" and "cursor_fits f cursor"
    and slots_def: "slots = take (min limit (qe_max_page_size ex))
      (page_order (sc_direction srt = Desc) (sf_reconstruct_value R f)
        (after_cursor (sc_direction srt = Desc) (sf_reconstruct_value R f) (cursor32 cursor) (query_set R ex cs)))"
  shows "\<exists>sorts. execute R ex cs (Some srt) limit cursor =
      Inr (\<lparr>qr_ids = map ucast slots, qr_cursor = last_cursor R f slots,
            qr_total_matched = card (query_set R ex cs)\<rparr>, sorts) \<and>
    sorts_agree R (qe_sorts ex) sorts"
  using execute_sorted [OF assms(1-5), of limit] by (simp add: sorted_result_def page_slots_def slots_def Let_def)

text \<open>A query on the small index: everything with flag 1 or tag 2, by count.\<close>

definition small_clauses :: "u32 set filter_clause list" where
  "small_clauses = [COr [CEq ''flag'' (VInteger 1), CEq ''tag'' (VInteger 2)]]"

lemma small_clauses_ok: "clauses_ok set_roaring small_index small_clauses"
  using small_index_filters
  by (auto simp: small_clauses_def clauses_ok_def value_ok_def field_known_def value_set_def resolve_value_key_def
      field_bits_def small_index_simps tag_field_bits NULL_BITMAP_KEY_def u64_MAX_def)

lemma small_query_set: "query_set set_roaring small_index small_clauses = {1, 2, 3}"
  by (auto simp: query_set_def small_clauses_def value_set_def resolve_value_key_def field_bits_def
      small_index_simps tag_field_bits NULL_BITMAP_KEY_def u64_MAX_def)

lemma small_sort: "si_get_field (qe_sorts small_index) ''count'' = Some field3"
  by (simp add: small_index_simps si_get_field_def)

lemma small_page: "page_order True (sf_reconstruct_value set_roaring field3) {1, 2, 3} = [1, 2, 3]"
  by (rule page_order_unique [symmetric]) (auto simp: before_def field3_value)

theorem execute_page_witness:
  "\<exists>sorts. execute set_roaring small_index small_clauses (Some \<lparr>sc_field = ''count'', sc_direction = Desc\<rparr>) 2 None =
     Inr (\<lparr>qr_ids = [1, 2], qr_cursor = Some \<lparr>cp_sort_value = 3, cp_slot_id = 2\<rparr>, qr_total_matched = 3\<rparr>, sorts)"
proof -
  let ?srt = "\<lparr>sc_field = ''count'', sc_direction = Desc\<rparr>"
  have "si_get_field (qe_sorts small_index) (sc_field ?srt) = Some field3" using small_sort by simp
  from execute_page [OF sr.roaring_axioms small_clauses_ok this field3_ok _ refl, of None 2] show ?thesis
    by (auto simp: cursor_fits_def cursor32_def after_cursor_def small_query_set small_page small_index_simps
        last_cursor_def field3_value)
qed

text \<open>
  C2: paging terminates and loses nothing.  A client that starts without a cursor, passes
  every returned cursor to the next request and stops at the first empty page gets there
  after at most one request more than there are matches, and the pages together are all
  matching slots in order, each exactly once.
\<close>

theorem pages_enumerate:
  assumes "roaring R" and "0 < limit" and "0 < qe_max_page_size ex" and "clauses_ok R ex cs"
    and "si_get_field (qe_sorts ex) (sc_field srt) = Some f" and "sf_ok R f"
    and "card (query_set R ex cs) < n"
  shows "\<exists>ps. fetch_pages R ex cs (Some srt) limit None n = Some ps \<and>
    concat ps = map ucast (page_order (sc_direction srt = Desc) (sf_reconstruct_value R f) (query_set R ex cs)) \<and>
    distinct (concat ps) \<and> set (concat ps) = ucast ` query_set R ex cs"
proof -
  let ?xs = "page_order (sc_direction srt = Desc) (sf_reconstruct_value R f) (query_set R ex cs)"
  have none: "after_cursor d val (cursor32 None) S = S" for d val S by (simp add: after_cursor_def cursor32_def)
  have "inj (ucast :: u32 \<Rightarrow> i64)" by (rule inj_on_inverseI [where g = ucast]) simp
  then have "distinct (map (ucast :: u32 \<Rightarrow> i64) ?xs)"
    by (simp add: distinct_map inj_on_subset [OF _ subset_UNIV])
  moreover have "set (map (ucast :: u32 \<Rightarrow> i64) ?xs) = ucast ` query_set R ex cs" by simp
  moreover have "cursor_fits f None" by (simp add: cursor_fits_def)
  ultimately show ?thesis
    using fetch_from [OF assms(1-6) _ refl refl, of None n] assms(7) unfolding none by metis
qed

theorem pages_enumerate_witness:
  "\<exists>ps. fetch_pages set_roaring small_index small_clauses (Some \<lparr>sc_field = ''count'', sc_direction = Desc\<rparr>) 2 None 4 = Some ps \<and>
     concat ps = [1, 2, 3]"
proof -
  let ?srt = "\<lparr>sc_field = ''count'', sc_direction = Desc\<rparr>"
  have "si_get_field (qe_sorts small_index) (sc_field ?srt) = Some field3" using small_sort by simp
  from pages_enumerate [OF sr.roaring_axioms _ _ small_clauses_ok this field3_ok, of 2 4] show ?thesis
    by (auto simp: small_query_set small_page small_index_simps)
qed

text \<open>
  C32: the two cached fast paths answer like the full sort.  For a cached list of packed keys
  in sort order, and for a radix index of the field, the page is the one that
  \<open>execute_from_bitmap\<close> cuts from the bitmap of the same slots; the key list returns no cursor
  after the last page, where the other two return the cursor of the last slot.
\<close>

theorem fast_paths_agree:
  assumes "roaring R" and "si_get_field (qe_sorts ex) (sc_field srt) = Some f" and "sf_ok R f"
    and "cursor_fits f cursor" and "\<And>c. cursor = Some c \<Longrightarrow> drop_bit 32 (cp_sort_value c) = 0"
    and "0 < limit" and "0 < qe_max_page_size ex"
    and rx: "rx_ok R (sf_reconstruct_value R f) rx" "rx_bits R rx = bits R bm"
    and ks: "ks = packed_page (sc_direction srt = Desc) (sf_reconstruct_value R f) (bits R bm)"
  shows "\<exists>r sorts sorts' r'. execute_from_bitmap R ex bm (Some srt) limit cursor simple = Inr (r, sorts) \<and>
    execute_from_radix R ex rx srt limit cursor (rb_len R bm) = Inr (r, sorts') \<and>
    execute_from_sorted_keys ex ks (sc_direction srt) limit cursor (rb_len R bm) = Some r' \<and>
    qr_ids r' = qr_ids r \<and> qr_total_matched r' = qr_total_matched r \<and>
    (qr_cursor r' = qr_cursor r \<or> qr_cursor r' = None \<and>
       length (qr_ids r) = card (after_cursor (sc_direction srt = Desc) (sf_reconstruct_value R f) (cursor32 cursor) (bits R bm)))"
proof -
  let ?desc = "sc_direction srt = Desc" and ?lim = "min limit (qe_max_page_size ex)" and ?val = "sf_reconstruct_value R f"
  let ?r = "sorted_result R f ?desc cursor ?lim (bits R bm)"
  let ?slots = "page_slots ?desc ?val (cursor32 cursor) ?lim (bits R bm)"
  have len: "rb_len R bm = card (bits R bm)" by (simp add: roaring.len_bits [OF assms(1)])
  obtain sorts where s1: "execute_from_bitmap R ex bm (Some srt) limit cursor simple = Inr (?r, sorts)"
    using from_bitmap_page [OF assms(1-4), of bm ?lim simple] by (auto simp: execute_from_bitmap_def)
  obtain sorts' where s2: "execute_from_radix R ex rx srt limit cursor (rb_len R bm) = Inr (?r, sorts')"
    using from_radix_page [OF assms(1-4) rx(1), of limit "rb_len R bm"]
    by (auto simp: rx(2) len sorted_result_def Let_def)
  have lim: "0 < ?lim" using assms(6,7) by simp
  have short: "length ?slots \<le> card (after_cursor ?desc ?val (cursor32 cursor) (bits R bm))"
    by (simp add: page_slots_def)
  have ne: "?slots \<noteq> []" if "length ?slots < card (after_cursor ?desc ?val (cursor32 cursor) (bits R bm))"
    using that lim by (auto simp: page_slots_def page_order_Nil_iff)
  show ?thesis
    using s1 s2 from_sorted_keys_page [OF lim assms(5) refl, where dir = "sc_direction srt" and val = ?val and S = "bits R bm"
        and matched = "rb_len R bm"] short ne
    unfolding ks by (auto simp: sorted_result_def Let_def len last_cursor_def)
qed

theorem fast_paths_agree_witness:
  "\<exists>r sorts sorts' r'. execute_from_bitmap set_roaring small_index {1, 2, 3}
      (Some \<lparr>sc_field = ''count'', sc_direction = Desc\<rparr>) 2 None False = Inr (r, sorts) \<and>
    execute_from_radix set_roaring small_index
      (rx_from_bitmap set_roaring {1, 2, 3} (sf_reconstruct_value set_roaring field3))
      \<lparr>sc_field = ''count'', sc_direction = Desc\<rparr> 2 None 3 = Inr (r, sorts') \<and>
    execute_from_sorted_keys small_index [pack_key 5 1, pack_key 3 2, pack_key 0 3] Desc 2 None 3 = Some r' \<and>
    qr_ids r' = qr_ids r"
proof -
  let ?val = "sf_reconstruct_value set_roaring field3"
  let ?srt = "\<lparr>sc_field = ''count'', sc_direction = Desc\<rparr>"
  let ?rx = "rx_from_bitmap set_roaring {1, 2, 3} ?val"
  let ?es = "map (\<lambda>s. (s, ?val s)) (rb_iter set_roaring {1, 2, 3})"
  have "?val s = v" if "(s, v) \<in> set ?es" for s v using that by auto
  note built = sr.rx_from_entries_props [OF this, of ?es]
  have "fst ` set ?es = {1, 2, 3}" by (simp only: set_map image_image sr.set_iter) simp
  with built have rx: "rx_ok set_roaring ?val ?rx" "rx_bits set_roaring ?rx = bits set_roaring {1, 2, 3}"
    unfolding rx_from_bitmap_def by simp_all
  have ks: "[pack_key 5 1, pack_key 3 2, pack_key 0 3] = packed_page (sc_direction ?srt = Desc) ?val (bits set_roaring {1, 2, 3})"
    by (simp add: packed_page_def small_page field3_value)
  have f: "si_get_field (qe_sorts small_index) (sc_field ?srt) = Some field3" using small_sort by simp
  have "cursor_fits field3 None" by (simp add: cursor_fits_def)
  from fast_paths_agree [OF sr.roaring_axioms f field3_ok this _ _ _ rx ks, of 2 False] show ?thesis
    by (simp add: small_index_simps numeral_3_eq_3) blast
qed



text \<open>
  An unsorted query returns the newest slots first: the matching slots in descending slot
  order, below the cursor's slot, at most \<open>limit\<close> and \<open>max_page_size\<close> of them.
\<close>

theorem execute_slot_order:
  assumes "roaring R" and "clauses_ok R ex cs"
    and slots_def: "slots = take (min limit (qe_max_page_size ex)) (rev (sorted_list_of_set
      {s \<in> query_set R ex cs. case cursor of None \<Rightarrow> True | Some c \<Rightarrow> s < cp_slot_id c}))"
  shows "execute R ex cs None limit cursor =
    Inr (\<lparr>qr_ids = map ucast slots,
          qr_cursor = (if slots = [] then None
            else Some \<lparr>cp_sort_value = ucast (last slots), cp_slot_id = last slots\<rparr>),
          qr_total_matched = card (query_set R ex cs)\<rparr>, qe_sorts ex)"
proof -
  define plan where "plan = plan_query_with_context R cs (qe_filters ex) (qe_slots ex)
      (Some \<lparr>pc_string_maps = qe_string_maps ex, pc_dictionaries = qe_dictionaries ex\<rparr>)"
  obtain bm where bm: "compute_filters R ex (qp_ordered_clauses plan) = Inr bm"
      "bits R bm = query_set R ex cs"
    using planned_filters [OF assms(1,2)] unfolding plan_def by blast
  let ?A = "after_cursor True (\<lambda>_. 0) (map_option (\<lambda>c. (0, cp_slot_id c)) cursor) (query_set R ex cs)"
  have "rev (sorted_list_of_set ?A) = page_order True (\<lambda>_. 0) ?A"
    by (rule page_order_unique) (simp_all add: before_def sorted_wrt_rev)
  moreover have "?A = {s \<in> query_set R ex cs. case cursor of None \<Rightarrow> True | Some c \<Rightarrow> s < cp_slot_id c}"
    by (auto simp: after_cursor_def split: option.splits)
  ultimately have "slots = page_slots True (\<lambda>_. 0) (map_option (\<lambda>c. (0, cp_slot_id c)) cursor)
      (min limit (qe_max_page_size ex)) (bits R bm)"
    by (simp add: slots_def page_slots_def bm(2))
  then show ?thesis
    by (simp add: execute_eq Let_def plan_def [symmetric] bm execute_from_bitmap_def execute_from_bitmap_inner_def
        slot_order_page [OF assms(1)] roaring.len_bits [OF assms(1)])
qed

theorem execute_slot_order_witness:
  "execute set_roaring small_index small_clauses None 5 (Some \<lparr>cp_sort_value = 3, cp_slot_id = 3\<rparr>) =
     Inr (\<lparr>qr_ids = [2, 1], qr_cursor = Some \<lparr>cp_sort_value = 1, cp_slot_id = 1\<rparr>, qr_total_matched = 3\<rparr>,
          [(''count'', field3)])"
proof -
  have "{s \<in> {1, 2, 3 :: u32}. s < 3} = {1, 2}" by auto
  then show ?thesis
    using execute_slot_order [OF sr.roaring_axioms small_clauses_ok refl, of 5 "Some \<lparr>cp_sort_value = 3, cp_slot_id = 3\<rparr>"]
    by (simp add: small_query_set small_index_simps)
qed

end
