(* ===== verification/Sync_Ops.thy ===== *)
theory Sync_Ops
  imports Prelude
begin

text \<open>
  The ops of the sync pipeline (\<open>pg_sync/ops.rs\<close>) and their deduplication
  (\<open>pg_sync/op_dedup.rs\<close>), which runs both before a batch is sent and before it is applied.

  The JSON values that ops carry belong to the \<open>serde_json\<close> crate.  Deduplication only compares
  and prints them, so their type is a type variable and the calls into the crate are the fields
  of a record \<open>json_text\<close>.
\<close>

section \<open>Ops\<close>

datatype 'v sync_op =
    SetOp string 'v
  | RemoveOp string 'v
  | AddOp string 'v
  | DeleteOp
  | AliveOp
  | QueryOpSet "string option" "'v sync_op list"

record 'v entity_ops =
  eo_entity_id :: i64
  eo_ops :: "'v sync_op list"
  eo_creates_slot :: bool

definition eo_new :: "i64 \<Rightarrow> 'v sync_op list \<Rightarrow> 'v entity_ops" where
  "eo_new i ops = \<lparr>eo_entity_id = i, eo_ops = ops, eo_creates_slot = False\<rparr>"

definition eo_with_alive :: "i64 \<Rightarrow> 'v sync_op list \<Rightarrow> 'v entity_ops" where
  "eo_with_alive i ops = \<lparr>eo_entity_id = i, eo_ops = ops, eo_creates_slot = True\<rparr>"

text \<open>\<open>value.to_string()\<close>, \<open>serde_json::from_str\<close> and the constructor \<open>Value::String\<close>.\<close>

record 'v json_text =
  jt_to_string :: "'v \<Rightarrow> string"
  jt_from_str :: "string \<Rightarrow> 'v option"
  jt_string :: "string \<Rightarrow> 'v"


section \<open>Deduplication of one entity\<close>

text \<open>The local tables of \<open>dedup_entity_ops\<close>.\<close>

record 'v dedup_state =
  ds_last_set :: "(string, 'v) hashmap"
  ds_last_remove :: "(string, 'v) hashmap"
  ds_last_is_set :: "(string, bool) hashmap"
  ds_scalar_order :: "string list"
  ds_net :: "(string \<times> string, int) hashmap"
  ds_multi_order :: "(string \<times> string) list"
  ds_query_ops :: "(string option, 'v sync_op list) hashmap"
  ds_query_order :: "string option list"

definition ds_new :: "'v dedup_state" where
  "ds_new = \<lparr>ds_last_set = [], ds_last_remove = [], ds_last_is_set = [], ds_scalar_order = [],
     ds_net = [], ds_multi_order = [], ds_query_ops = [], ds_query_order = []\<rparr>"

definition touch_multi_value_key :: "'k list \<Rightarrow> 'k \<Rightarrow> 'k list" where
  "touch_multi_value_key order key = remove1 key order @ [key]"

fun set_field_of :: "'v sync_op \<Rightarrow> string option" where
  "set_field_of (SetOp f v) = Some f"
| "set_field_of _ = None"

definition set_fields :: "'v sync_op list \<Rightarrow> string list" where
  "set_fields ops = List.map_filter set_field_of ops"

definition count_multi :: "'v json_text \<Rightarrow> string \<Rightarrow> 'v \<Rightarrow> int \<Rightarrow> 'v dedup_state \<Rightarrow> 'v dedup_state" where
  "count_multi J f v d st =
     (let key = (f, jt_to_string J v)
      in st\<lparr>ds_multi_order := touch_multi_value_key (ds_multi_order st) key,
            ds_net := hm_upsert key 0 (\<lambda>n. n + d) (ds_net st)\<rparr>)"

fun dedup_step :: "'v json_text \<Rightarrow> string list \<Rightarrow> 'v sync_op \<Rightarrow> 'v dedup_state \<Rightarrow> 'v dedup_state" where
  "dedup_step J scalars (SetOp f v) st =
     (let fresh = hm_get (ds_last_set st) f = None \<and> hm_get (ds_last_remove st) f = None
      in st\<lparr>ds_last_set := hm_insert f v (ds_last_set st),
            ds_scalar_order := ds_scalar_order st @ (if fresh then [f] else []),
            ds_last_is_set := hm_insert f True (ds_last_is_set st)\<rparr>)"
| "dedup_step J scalars (RemoveOp f v) st =
     (if f \<in> set scalars
      then let fresh = hm_get (ds_last_remove st) f = None \<and> hm_get (ds_last_set st) f = None
           in st\<lparr>ds_last_remove := hm_insert f v (ds_last_remove st),
                 ds_scalar_order := ds_scalar_order st @ (if fresh then [f] else []),
                 ds_last_is_set := hm_insert f False (ds_last_is_set st)\<rparr>
      else count_multi J f v (- 1) st)"
| "dedup_step J scalars (AddOp f v) st = count_multi J f v 1 st"
| "dedup_step J scalars (QueryOpSet q nested) st =
     st\<lparr>ds_query_order := ds_query_order st @ (if hm_get (ds_query_ops st) q = None then [q] else []),
        ds_query_ops := hm_upsert q [] (\<lambda>ops. ops @ nested) (ds_query_ops st)\<rparr>"
| "dedup_step J scalars DeleteOp st = st"
| "dedup_step J scalars AliveOp st = st"

definition dedup_tables :: "'v json_text \<Rightarrow> 'v sync_op list \<Rightarrow> 'v dedup_state" where
  "dedup_tables J ops = fold (dedup_step J (set_fields ops)) ops ds_new"

definition scalar_removes :: "'v dedup_state \<Rightarrow> 'v sync_op list" where
  "scalar_removes st =
     List.map_filter (\<lambda>f. map_option (RemoveOp f) (hm_get (ds_last_remove st) f)) (ds_scalar_order st)"

definition scalar_sets :: "'v dedup_state \<Rightarrow> 'v sync_op list" where
  "scalar_sets st =
     List.map_filter
       (\<lambda>f. if hm_get (ds_last_is_set st) f \<noteq> Some True then None
            else map_option (SetOp f) (hm_get (ds_last_set st) f))
       (ds_scalar_order st)"

definition multi_op :: "'v json_text \<Rightarrow> 'v dedup_state \<Rightarrow> string \<times> string \<Rightarrow> 'v sync_op option" where
  "multi_op J st key =
     (let net = (case hm_get (ds_net st) key of None \<Rightarrow> 0 | Some n \<Rightarrow> n);
          v = (case jt_from_str J (snd key) of None \<Rightarrow> jt_string J (snd key) | Some v \<Rightarrow> v)
      in if net = 0 then None
         else if net > 0 then Some (AddOp (fst key) v)
         else Some (RemoveOp (fst key) v))"

definition multi_ops :: "'v json_text \<Rightarrow> 'v dedup_state \<Rightarrow> 'v sync_op list" where
  "multi_ops J st = List.map_filter (multi_op J st) (ds_multi_order st)"

text \<open>The nested ops of one query are part of the ops that are deduplicated.\<close>

abbreviation ops_size :: "'v sync_op list \<Rightarrow> nat" where
  "ops_size \<equiv> size_list (size_sync_op (\<lambda>_. 0))"

lemma ops_size_append: "ops_size (xs @ ys) = ops_size xs + ops_size ys"
  by (induction xs) simp_all

lemma nested_size_fold:
  assumes "hm_get (ds_query_ops (fold (dedup_step J sc) ops st)) q = Some nested"
  shows "(\<exists>old. hm_get (ds_query_ops st) q = Some old \<and> ops_size nested \<le> ops_size old + ops_size ops) \<or>
    ops_size nested < ops_size ops"
  using assms
proof (induction ops arbitrary: st)
  case Nil
  then show ?case by auto
next
  case (Cons op ops)
  have step: "hm_get (ds_query_ops (fold (dedup_step J sc) ops (dedup_step J sc op st))) q = Some nested"
    using Cons.prems by simp
  have q: "hm_get (ds_query_ops (dedup_step J sc op st)) q =
      (case op of QueryOpSet q' ns \<Rightarrow> if q' = q
         then Some ((case hm_get (ds_query_ops st) q of None \<Rightarrow> [] | Some old \<Rightarrow> old) @ ns)
         else hm_get (ds_query_ops st) q
       | _ \<Rightarrow> hm_get (ds_query_ops st) q)"
    by (cases op) (auto simp: count_multi_def Let_def)
  from Cons.IH [OF step] show ?case
    unfolding q by (auto simp: ops_size_append split: sync_op.splits option.splits if_splits)
qed

lemma nested_size:
  "hm_get (ds_query_ops (dedup_tables J ops)) q = Some nested \<Longrightarrow> ops_size nested < ops_size ops"
  unfolding dedup_tables_def using nested_size_fold [of J "set_fields ops" ops ds_new q nested]
  by (auto simp: ds_new_def)

function dedup_entity_ops :: "'v json_text \<Rightarrow> 'v sync_op list \<Rightarrow> 'v sync_op list" where
  "dedup_entity_ops J ops =
     (if ops = [] then []
      else if DeleteOp \<in> set ops then [DeleteOp]
      else scalar_removes (dedup_tables J ops) @ scalar_sets (dedup_tables J ops) @
        multi_ops J (dedup_tables J ops) @
        concat (map (\<lambda>q. case hm_get (ds_query_ops (dedup_tables J ops)) q of
              None \<Rightarrow> []
            | Some nested \<Rightarrow>
                if dedup_entity_ops J nested = [] then []
                else [QueryOpSet q (dedup_entity_ops J nested)])
          (ds_query_order (dedup_tables J ops))))"
  by pat_completeness auto
termination
  by (relation "measure (\<lambda>(J, ops). ops_size ops)") (auto dest: nested_size)

declare dedup_entity_ops.simps [simp del]


section \<open>Deduplication of a batch\<close>

record 'v entity_merge =
  em_ops :: "(i64, 'v sync_op list) hashmap"
  em_creates :: "(i64, bool) hashmap"
  em_order :: "i64 list"

definition em_new :: "'v entity_merge" where
  "em_new = \<lparr>em_ops = [], em_creates = [], em_order = []\<rparr>"

definition merge_entity :: "'v entity_ops \<Rightarrow> 'v entity_merge \<Rightarrow> 'v entity_merge" where
  "merge_entity entry em =
     em\<lparr>em_order := em_order em @ (if hm_get (em_ops em) (eo_entity_id entry) = None then [eo_entity_id entry] else []),
        em_ops := hm_upsert (eo_entity_id entry) [] (\<lambda>ops. ops @ eo_ops entry) (em_ops em),
        em_creates := (if eo_creates_slot entry then hm_insert (eo_entity_id entry) True (em_creates em)
                       else em_creates em)\<rparr>"

definition rebuild_entity :: "'v entity_merge \<Rightarrow> (i64, 'v sync_op list) hashmap \<Rightarrow> i64 \<Rightarrow> 'v entity_ops option" where
  "rebuild_entity em deduped i =
     (case hm_get deduped i of
        None \<Rightarrow> None
      | Some ops \<Rightarrow>
          if ops = [] then None
          else Some \<lparr>eo_entity_id = i, eo_ops = ops,
                     eo_creates_slot = (case hm_get (em_creates em) i of None \<Rightarrow> False | Some b \<Rightarrow> b)\<rparr>)"

definition dedup_ops :: "'v json_text \<Rightarrow> 'v entity_ops list \<Rightarrow> 'v entity_ops list" where
  "dedup_ops J batch =
     (let em = fold merge_entity batch em_new;
          deduped = hm_map (dedup_entity_ops J) (em_ops em)
      in List.map_filter (rebuild_entity em deduped) (em_order em))"


section \<open>What a sequence of ops means\<close>

text \<open>
  A scalar field is a register: its last set or remove decides.  A multi-value field is a set of
  values, compared by their text; the bitmaps of a filter field see every op this way.
\<close>

fun reg_step :: "string \<Rightarrow> 'v sync_op \<Rightarrow> 'v option \<Rightarrow> 'v option" where
  "reg_step f (SetOp g v) r = (if g = f then Some v else r)"
| "reg_step f (RemoveOp g v) r = (if g = f then None else r)"
| "reg_step f _ r = r"

definition register_after :: "string \<Rightarrow> 'v sync_op list \<Rightarrow> 'v option \<Rightarrow> 'v option" where
  "register_after f ops r = fold (reg_step f) ops r"

fun mem_step :: "'v json_text \<Rightarrow> string \<Rightarrow> string \<Rightarrow> 'v sync_op \<Rightarrow> bool \<Rightarrow> bool" where
  "mem_step J f s (SetOp g v) a = (if g = f \<and> jt_to_string J v = s then True else a)"
| "mem_step J f s (AddOp g v) a = (if g = f \<and> jt_to_string J v = s then True else a)"
| "mem_step J f s (RemoveOp g v) a = (if g = f \<and> jt_to_string J v = s then False else a)"
| "mem_step J f s _ a = a"

definition member_after :: "'v json_text \<Rightarrow> string \<Rightarrow> string \<Rightarrow> 'v sync_op list \<Rightarrow> bool \<Rightarrow> bool" where
  "member_after J f s ops a = fold (mem_step J f s) ops a"

text \<open>Inserts into and deletes from a join table alternate for every value.\<close>

fun alternates :: "'v json_text \<Rightarrow> string \<Rightarrow> string \<Rightarrow> 'v sync_op list \<Rightarrow> bool \<Rightarrow> bool" where
  "alternates J f s [] a \<longleftrightarrow> True"
| "alternates J f s (AddOp g v # ops) a \<longleftrightarrow>
     (if g = f \<and> jt_to_string J v = s then \<not> a \<and> alternates J f s ops True else alternates J f s ops a)"
| "alternates J f s (RemoveOp g v # ops) a \<longleftrightarrow>
     (if g = f \<and> jt_to_string J v = s then a \<and> alternates J f s ops False else alternates J f s ops a)"
| "alternates J f s (op # ops) a \<longleftrightarrow> alternates J f s ops a"

definition entity_stream :: "'v entity_ops list \<Rightarrow> i64 \<Rightarrow> 'v sync_op list" where
  "entity_stream batch i = concat (map eo_ops (filter (\<lambda>e. eo_entity_id e = i) batch))"

definition creates_in :: "'v entity_ops list \<Rightarrow> i64 \<Rightarrow> bool" where
  "creates_in batch i \<longleftrightarrow> (\<exists>e \<in> set batch. eo_entity_id e = i \<and> eo_creates_slot e)"


section \<open>Scalar fields\<close>

abbreviation tables_after :: "'v json_text \<Rightarrow> string list \<Rightarrow> 'v sync_op list \<Rightarrow> 'v dedup_state" where
  "tables_after J sc ops \<equiv> fold (dedup_step J sc) ops ds_new"

lemma set_field_of_Some: "set_field_of op = Some f \<longleftrightarrow> (\<exists>v. op = SetOp f v)"
  by (cases op) auto

lemma in_set_fields: "f \<in> set (set_fields ops) \<longleftrightarrow> (\<exists>v. SetOp f v \<in> set ops)"
  unfolding set_fields_def in_map_filter set_field_of_Some by auto

lemma set_fields_snoc:
  "set (set_fields (ops @ [op])) = set (set_fields ops) \<union> (case set_field_of op of None \<Rightarrow> {} | Some f \<Rightarrow> {f})"
  by (auto simp: set_fields_def in_map_filter split: option.splits)

lemma scalar_register:
  assumes "f \<in> set sc"
  shows "case hm_get (ds_last_is_set (tables_after J sc ops)) f of
      None \<Rightarrow> register_after f ops r = r
    | Some True \<Rightarrow> \<exists>v. register_after f ops r = Some v \<and> hm_get (ds_last_set (tables_after J sc ops)) f = Some v
    | Some False \<Rightarrow> register_after f ops r = None \<and> hm_get (ds_last_remove (tables_after J sc ops)) f \<noteq> None"
proof (induction ops rule: rev_induct)
  case Nil
  then show ?case by (simp add: ds_new_def register_after_def)
next
  case (snoc op ops)
  with assms show ?case
    by (cases op) (auto simp: register_after_def count_multi_def Let_def split: option.splits bool.splits)
qed

lemma scalar_order:
  "set (ds_scalar_order (tables_after J sc ops)) =
     {f. hm_get (ds_last_set (tables_after J sc ops)) f \<noteq> None \<or> hm_get (ds_last_remove (tables_after J sc ops)) f \<noteq> None}"
proof (induction ops rule: rev_induct)
  case Nil
  then show ?case by (simp add: ds_new_def)
next
  case (snoc op ops)
  then show ?case
    by (cases op) (auto simp: count_multi_def Let_def split: if_splits)
qed

lemma scalar_order_fields:
  assumes "set (set_fields ops) \<subseteq> set sc"
  shows "set (ds_scalar_order (tables_after J sc ops)) \<subseteq> set sc"
  using assms
proof (induction ops rule: rev_induct)
  case Nil
  then show ?case by (simp add: ds_new_def)
next
  case (snoc op ops)
  then show ?case
    by (cases op) (auto simp: count_multi_def Let_def set_fields_snoc)
qed

lemma register_untouched:
  "(\<And>op. op \<in> set ops \<Longrightarrow> reg_step f op = id) \<Longrightarrow> register_after f ops r = r"
  unfolding register_after_def by (induction ops arbitrary: r) simp_all

lemma register_of_sets:
  assumes "\<And>op. op \<in> set ops \<Longrightarrow> \<exists>g w. op = SetOp g w \<and> (g = f \<longrightarrow> w = v)" and "SetOp f v \<in> set ops"
  shows "register_after f ops r = Some v"
proof -
  have "register_after f ops r = (if SetOp f v \<in> set ops then Some v else r)"
    using assms(1) unfolding register_after_def
  proof (induction ops arbitrary: r)
    case Nil
    then show ?case by simp
  next
    case (Cons op ops)
    from Cons.prems [of op] obtain g w where op: "op = SetOp g w" "g = f \<longrightarrow> w = v" by auto
    have IH: "fold (reg_step f) ops r' = (if SetOp f v \<in> set ops then Some v else r')" for r'
      by (rule Cons.IH) (simp add: Cons.prems)
    from op(2) show ?case
      by (cases "g = f") (simp_all add: op(1) IH)
  qed
  with assms(2) show ?thesis by simp
qed

lemma register_of_removes:
  assumes "\<And>op. op \<in> set ops \<Longrightarrow> \<exists>g w. op = RemoveOp g w" and "RemoveOp f v \<in> set ops"
  shows "register_after f ops r = None"
proof -
  have "fold (reg_step f) xs None = None" if "\<And>op. op \<in> set xs \<Longrightarrow> \<exists>g w. op = RemoveOp g w" for xs
    using that by (induction xs) fastforce+
  with assms show ?thesis
    unfolding register_after_def by (induction ops arbitrary: r) fastforce+
qed

lemma scalar_seen:
  assumes "f \<in> set (set_fields ops)"
  shows "hm_get (ds_last_is_set (tables_after J sc ops)) f \<noteq> None"
  using assms
proof (induction ops rule: rev_induct)
  case Nil
  then show ?case by (simp add: in_set_fields)
next
  case (snoc op ops)
  then show ?case
    by (cases op) (auto simp: count_multi_def Let_def set_fields_snoc)
qed

lemma register_append: "register_after f (xs @ ys) r = register_after f ys (register_after f xs r)"
  by (simp add: register_after_def)


section \<open>Multi-value fields\<close>

fun net_step :: "'v json_text \<Rightarrow> string \<Rightarrow> string \<Rightarrow> 'v sync_op \<Rightarrow> int" where
  "net_step J f s (AddOp g v) = of_bool (g = f \<and> jt_to_string J v = s)"
| "net_step J f s (RemoveOp g v) = - of_bool (g = f \<and> jt_to_string J v = s)"
| "net_step J f s _ = 0"

abbreviation net_count :: "'v dedup_state \<Rightarrow> string \<times> string \<Rightarrow> int" where
  "net_count st key \<equiv> (case hm_get (ds_net st) key of None \<Rightarrow> 0 | Some n \<Rightarrow> n)"

lemma net_of_ops:
  assumes "f \<notin> set sc"
  shows "net_count (tables_after J sc ops) (f, s) = sum_list (map (net_step J f s) ops)"
proof (induction ops rule: rev_induct)
  case Nil
  then show ?case by (simp add: ds_new_def)
next
  case (snoc op ops)
  with assms show ?case
    by (cases op) (auto simp: count_multi_def Let_def hm_upsert_def split: option.splits)
qed

lemma net_scalar_nonneg:
  assumes "f \<in> set sc"
  shows "0 \<le> net_count (tables_after J sc ops) (f, s)"
proof (induction ops rule: rev_induct)
  case Nil
  then show ?case by (simp add: ds_new_def)
next
  case (snoc op ops)
  with assms show ?case
    by (cases op) (auto simp: count_multi_def Let_def hm_upsert_def split: option.splits)
qed

lemma set_touch [simp]: "set (touch_multi_value_key xs k) = insert k (set xs)"
  unfolding touch_multi_value_key_def
  by (induction xs) auto

lemma multi_order_keys:
  "set (ds_multi_order (tables_after J sc ops)) = {key. hm_get (ds_net (tables_after J sc ops)) key \<noteq> None}"
proof (induction ops rule: rev_induct)
  case Nil
  then show ?case by (simp add: ds_new_def)
next
  case (snoc op ops)
  then show ?case
    by (cases op) (auto simp: count_multi_def Let_def hm_upsert_def)
qed

lemma multi_order_text:
  "key \<in> set (ds_multi_order (tables_after J sc ops)) \<Longrightarrow> \<exists>v. snd key = jt_to_string J v"
proof (induction ops rule: rev_induct)
  case Nil
  then show ?case by (simp add: ds_new_def)
next
  case (snoc op ops)
  then show ?case
    by (cases op) (auto simp: count_multi_def Let_def split: if_splits)
qed

lemma member_append: "member_after J f s (xs @ ys) a = member_after J f s ys (member_after J f s xs a)"
  by (simp add: member_after_def)

lemma member_untouched:
  "(\<And>op. op \<in> set ops \<Longrightarrow> mem_step J f s op = id) \<Longrightarrow> member_after J f s ops a = a"
  unfolding member_after_def by (induction ops arbitrary: a) simp_all

lemma member_decided:
  assumes "\<And>op. op \<in> set ops \<Longrightarrow> mem_step J f s op = id \<or> mem_step J f s op = (\<lambda>_. b)"
    and "op \<in> set ops" and "mem_step J f s op = (\<lambda>_. b)"
  shows "member_after J f s ops a = b"
  using assms unfolding member_after_def
proof (induction ops arbitrary: a)
  case Nil
  then show ?case by simp
next
  case (Cons x ops)
  have keep: "fold (mem_step J f s) xs b = b"
    if "\<And>op. op \<in> set xs \<Longrightarrow> mem_step J f s op = id \<or> mem_step J f s op = (\<lambda>_. b)" for xs
    using that by (induction xs) fastforce+
  show ?case
  proof (cases "mem_step J f s x = (\<lambda>_. b)")
    case True
    with keep [of ops] Cons.prems(1) show ?thesis by simp
  next
    case False
    with Cons.prems have "op \<in> set ops" by auto
    with Cons show ?thesis by simp
  qed
qed

lemma alternates_net:
  assumes "alternates J f s ops a" and "f \<notin> set (set_fields ops)"
  shows "of_bool (member_after J f s ops a) = of_bool a + sum_list (map (net_step J f s) ops)"
  using assms unfolding member_after_def
proof (induction J f s ops a rule: alternates.induct)
  case (1 J f s a)
  then show ?case by simp
qed (auto simp: in_set_fields split: if_splits)


section \<open>Deduplication preserves the meaning of the ops\<close>

text \<open>The ops that deduplication emits, by kind.\<close>

abbreviation query_part :: "'v json_text \<Rightarrow> 'v sync_op list \<Rightarrow> 'v sync_op list" where
  "query_part J ops \<equiv>
     concat (map (\<lambda>q. case hm_get (ds_query_ops (dedup_tables J ops)) q of
              None \<Rightarrow> []
            | Some nested \<Rightarrow>
                if dedup_entity_ops J nested = [] then []
                else [QueryOpSet q (dedup_entity_ops J nested)])
          (ds_query_order (dedup_tables J ops)))"

lemma dedup_Nil [simp]: "dedup_entity_ops J [] = []"
  by (simp add: dedup_entity_ops.simps)

lemma dedup_parts:
  assumes "DeleteOp \<notin> set ops"
  shows "dedup_entity_ops J ops =
    scalar_removes (dedup_tables J ops) @ scalar_sets (dedup_tables J ops) @
    multi_ops J (dedup_tables J ops) @ query_part J ops"
proof (cases "ops = []")
  case True
  then show ?thesis
    by (simp add: scalar_removes_def scalar_sets_def multi_ops_def dedup_tables_def ds_new_def)
next
  case False
  with assms show ?thesis by (subst dedup_entity_ops.simps) simp
qed

lemma query_part_kind: "op \<in> set (query_part J ops) \<Longrightarrow> \<exists>q ns. op = QueryOpSet q ns"
  by (auto split: option.splits if_splits)

lemma scalar_removes_kind:
  "op \<in> set (scalar_removes st) \<Longrightarrow>
     \<exists>f v. op = RemoveOp f v \<and> f \<in> set (ds_scalar_order st) \<and> hm_get (ds_last_remove st) f = Some v"
  by (auto simp: scalar_removes_def in_map_filter)

lemma scalar_sets_kind:
  "op \<in> set (scalar_sets st) \<longleftrightarrow>
     (\<exists>f v. op = SetOp f v \<and> f \<in> set (ds_scalar_order st) \<and> hm_get (ds_last_is_set st) f = Some True \<and>
        hm_get (ds_last_set st) f = Some v)"
  by (auto simp: scalar_sets_def in_map_filter)

lemma multi_op_kind:
  "multi_op J st key = Some op \<Longrightarrow>
     \<exists>v. op = (if net_count st key > 0 then AddOp (fst key) v else RemoveOp (fst key) v) \<and> net_count st key \<noteq> 0 \<and>
       v = (case jt_from_str J (snd key) of None \<Rightarrow> jt_string J (snd key) | Some v \<Rightarrow> v)"
  by (auto simp: multi_op_def Let_def split: if_splits)

lemma dedup_register:
  assumes del: "DeleteOp \<notin> set ops" and f: "f \<in> set (set_fields ops)"
  shows "register_after f (dedup_entity_ops J ops) r = register_after f ops r'"
proof -
  let ?T = "dedup_tables J ops"
  have multi: "register_after f (multi_ops J ?T) x = x" for x
  proof (rule register_untouched)
    fix op assume "op \<in> set (multi_ops J ?T)"
    then obtain g s where key: "multi_op J ?T (g, s) = Some op"
      by (auto simp: multi_ops_def in_map_filter)
    from net_scalar_nonneg [OF f, of J ops s] have "g = f \<Longrightarrow> 0 \<le> net_count ?T (g, s)"
      by (simp add: dedup_tables_def)
    with multi_op_kind [OF key] show "reg_step f op = id"
      by (auto simp: fun_eq_iff)
  qed
  have query: "register_after f (query_part J ops) x = x" for x
    by (rule register_untouched, drule query_part_kind) (auto simp: fun_eq_iff)
  have order: "f \<in> set (ds_scalar_order ?T)"
    if "hm_get (ds_last_set ?T) f \<noteq> None \<or> hm_get (ds_last_remove ?T) f \<noteq> None"
    using that unfolding dedup_tables_def scalar_order by simp
  from scalar_seen [OF f] obtain b where b: "hm_get (ds_last_is_set ?T) f = Some b"
    unfolding dedup_tables_def by blast
  note reg = scalar_register [OF f, where J = J and ops = ops and r = r', folded dedup_tables_def]
  show ?thesis
  proof (cases b)
    case True
    with reg b obtain v where v: "register_after f ops r' = Some v" "hm_get (ds_last_set ?T) f = Some v" by auto
    have "register_after f (scalar_sets ?T) x = Some v" for x
      by (rule register_of_sets) (use v b True order in \<open>auto simp: scalar_sets_kind\<close>)
    then show ?thesis
      by (simp add: dedup_parts [OF del] register_append multi query v)
  next
    case False
    with reg b obtain v where v: "register_after f ops r' = None" "hm_get (ds_last_remove ?T) f = Some v" by auto
    have "RemoveOp f v \<in> set (scalar_removes ?T)"
      using v order by (auto simp: scalar_removes_def in_map_filter)
    then have "register_after f (scalar_removes ?T) x = None" for x
      by (rule register_of_removes [rotated]) (auto dest: scalar_removes_kind)
    moreover have "register_after f (scalar_sets ?T) x = x" for x
      by (rule register_untouched) (use b False in \<open>auto simp: scalar_sets_kind fun_eq_iff\<close>)
    ultimately show ?thesis
      by (simp add: dedup_parts [OF del] register_append multi query v)
  qed
qed

lemma dedup_member:
  assumes trip: "\<And>v. jt_from_str J (jt_to_string J v) = Some v"
    and del: "DeleteOp \<notin> set ops" and f: "f \<notin> set (set_fields ops)" and alt: "alternates J f s ops a"
  shows "member_after J f s (dedup_entity_ops J ops) a = member_after J f s ops a"
proof -
  let ?T = "dedup_tables J ops"
  have order: "f \<notin> set (ds_scalar_order ?T)"
    using scalar_order_fields [of ops "set_fields ops" J] f by (auto simp: dedup_tables_def)
  have removes: "member_after J f s (scalar_removes ?T) x = x" for x
    by (rule member_untouched) (use order in \<open>auto dest!: scalar_removes_kind simp: fun_eq_iff split: if_splits\<close>)
  have sets: "member_after J f s (scalar_sets ?T) x = x" for x
    by (rule member_untouched) (use order in \<open>auto simp: scalar_sets_kind fun_eq_iff split: if_splits\<close>)
  have query: "member_after J f s (query_part J ops) x = x" for x
    by (rule member_untouched, drule query_part_kind) (auto simp: fun_eq_iff)
  define n where "n = sum_list (map (net_step J f s) ops)"
  have net: "net_count ?T (f, s) = n"
    using net_of_ops [OF f, of J ops s] by (simp add: dedup_tables_def n_def)
  have step: "mem_step J f s op = (if key = (f, s) then (\<lambda>_. n > 0) else id)"
    if "key \<in> set (ds_multi_order ?T)" "multi_op J ?T key = Some op" for key op
  proof -
    from multi_order_text [of key J "set_fields ops" ops] that(1) obtain v where v: "snd key = jt_to_string J v"
      by (auto simp: dedup_tables_def)
    with multi_op_kind [OF that(2)] trip [of v] net show ?thesis
      by (cases key) (auto simp: fun_eq_iff)
  qed
  have "member_after J f s (multi_ops J ?T) a = (if n = 0 then a else n > 0)"
  proof (cases "n = 0")
    case True
    then show ?thesis
      using step net by (auto intro!: member_untouched simp: multi_ops_def in_map_filter multi_op_def)
  next
    case False
    then have mem: "(f, s) \<in> set (ds_multi_order ?T)"
      using net unfolding dedup_tables_def multi_order_keys by (auto split: option.splits)
    have "multi_op J ?T (f, s) \<noteq> None"
      using False net by (simp add: multi_op_def Let_def)
    then obtain op where op: "multi_op J ?T (f, s) = Some op" by blast
    have "member_after J f s (multi_ops J ?T) a = (n > 0)"
    proof (rule member_decided)
      show "mem_step J f s x = id \<or> mem_step J f s x = (\<lambda>_. 0 < n)" if "x \<in> set (multi_ops J ?T)" for x
        using that step by (auto simp: multi_ops_def in_map_filter)
      show "op \<in> set (multi_ops J ?T)"
        using mem op by (auto simp: multi_ops_def in_map_filter)
      show "mem_step J f s op = (\<lambda>_. 0 < n)"
        using step [OF mem op] by simp
    qed
    with False show ?thesis by simp
  qed
  moreover have "of_bool (member_after J f s ops a) = of_bool a + n"
    unfolding n_def by (rule alternates_net [OF alt f])
  ultimately show ?thesis
    by (cases a; cases "member_after J f s ops a")
      (simp_all add: dedup_parts [OF del] member_append removes sets query)
qed


section \<open>Batches\<close>

abbreviation batch_ids :: "'v entity_ops list \<Rightarrow> i64 set" where
  "batch_ids batch \<equiv> eo_entity_id ` set batch"

lemma stream_absent: "i \<notin> batch_ids batch \<Longrightarrow> entity_stream batch i = []"
  by (induction batch) (auto simp: entity_stream_def)

lemma merged_entities:
  defines "em \<equiv> \<lambda>batch. fold merge_entity batch em_new"
  shows "hm_get (em_ops (em batch)) i = (if i \<in> batch_ids batch then Some (entity_stream batch i) else None) \<and>
    hm_get (em_creates (em batch)) i = (if creates_in batch i then Some True else None) \<and>
    set (em_order (em batch)) = batch_ids batch \<and> distinct (em_order (em batch))"
proof (induction batch arbitrary: i rule: rev_induct)
  case Nil
  then show ?case by (simp add: em_def em_new_def creates_in_def)
next
  case (snoc e batch)
  have em: "em (batch @ [e]) = merge_entity e (em batch)" by (simp add: em_def)
  have IH: "hm_get (em_ops (em batch)) j = (if j \<in> batch_ids batch then Some (entity_stream batch j) else None)"
    "hm_get (em_creates (em batch)) j = (if creates_in batch j then Some True else None)"
    "set (em_order (em batch)) = batch_ids batch" "distinct (em_order (em batch))" for j
    using snoc.IH [of j] by auto
  have stream: "entity_stream (batch @ [e]) i = entity_stream batch i @ (if eo_entity_id e = i then eo_ops e else [])"
    by (simp add: entity_stream_def)
  have creates: "creates_in (batch @ [e]) i \<longleftrightarrow> creates_in batch i \<or> eo_entity_id e = i \<and> eo_creates_slot e"
    by (auto simp: creates_in_def)
  show ?case
    unfolding em stream creates using stream_absent [of i batch]
    by (auto simp: merge_entity_def IH)
qed

lemma stream_of_rebuilt:
  assumes "\<And>k e. g k = Some e \<Longrightarrow> eo_entity_id e = k" and "distinct order"
  shows "entity_stream (List.map_filter g order) i =
    (if i \<in> set order then case g i of None \<Rightarrow> [] | Some e \<Rightarrow> eo_ops e else [])"
  using assms(2)
proof (induction order)
  case Nil
  then show ?case by (simp add: entity_stream_def List.map_filter_def)
next
  case (Cons k order)
  then show ?case
    using assms(1) by (auto simp: entity_stream_def map_filter_simps split: option.splits)
qed

lemma rebuilt_id: "rebuild_entity em m k = Some e \<Longrightarrow> eo_entity_id e = k"
  by (auto simp: rebuild_entity_def split: option.splits if_splits)

lemma dedup_stream: "entity_stream (dedup_ops J batch) i = dedup_entity_ops J (entity_stream batch i)"
  using merged_entities [of batch i] stream_absent [of i batch] unfolding dedup_ops_def Let_def
  by (simp add: stream_of_rebuilt [OF rebuilt_id], auto simp: rebuild_entity_def)

lemma distinct_rebuilt:
  assumes "\<And>k e. g k = Some e \<Longrightarrow> eo_entity_id e = k" and "distinct order"
  shows "distinct (map eo_entity_id (List.map_filter g order))"
  using assms(2)
proof (induction order)
  case Nil
  then show ?case by (simp add: List.map_filter_def)
next
  case (Cons k order)
  then show ?case
    using assms(1) by (auto simp: map_filter_simps in_map_filter split: option.splits)
qed

lemma dedup_entities:
  "distinct (map eo_entity_id (dedup_ops J batch)) \<and>
   (\<forall>e \<in> set (dedup_ops J batch). eo_creates_slot e = creates_in batch (eo_entity_id e))"
proof
  show "distinct (map eo_entity_id (dedup_ops J batch))"
    using merged_entities [of batch undefined] unfolding dedup_ops_def Let_def
    by (intro distinct_rebuilt) (auto dest: rebuilt_id)
  show "\<forall>e \<in> set (dedup_ops J batch). eo_creates_slot e = creates_in batch (eo_entity_id e)"
  proof
    fix e assume "e \<in> set (dedup_ops J batch)"
    then obtain k where k: "rebuild_entity (fold merge_entity batch em_new)
        (hm_map (dedup_entity_ops J) (em_ops (fold merge_entity batch em_new))) k = Some e"
      by (auto simp: dedup_ops_def Let_def in_map_filter)
    with merged_entities [of batch k] show "eo_creates_slot e = creates_in batch (eo_entity_id e)"
      by (auto simp: rebuild_entity_def split: option.splits if_splits)
  qed
qed

lemma dedup_delete: "DeleteOp \<in> set ops \<Longrightarrow> dedup_entity_ops J ops = [DeleteOp]"
  by (subst dedup_entity_ops.simps) auto


definition plain_text :: "string json_text" where
  "plain_text = \<lparr>jt_to_string = id, jt_from_str = Some, jt_string = id\<rparr>"

definition sample_batch :: "string entity_ops list" where
  "sample_batch = [eo_with_alive 1 [SetOp ''level'' ''8'', AddOp ''tags'' ''42''],
     eo_new 2 [DeleteOp], eo_new 1 [SetOp ''level'' ''16'', RemoveOp ''tags'' ''42'']]"


text \<open>
  Two updates of one scalar field in a batch, read as a filter field: the original value \<open>A\<close>
  was removed first, but deduplication keeps only the remove of the intermediate value, and
  \<open>A\<close> stays set beside the new value.
\<close>

lemma dedup_drops_first_remove:
  defines "ops \<equiv> [RemoveOp ''type'' ''A'', SetOp ''type'' ''B'', RemoveOp ''type'' ''B'', SetOp ''type'' ''C'']"
  shows "\<not> member_after plain_text ''type'' ''A'' ops True \<and>
    dedup_entity_ops plain_text ops = [RemoveOp ''type'' ''B'', SetOp ''type'' ''C''] \<and>
    member_after plain_text ''type'' ''A'' (dedup_entity_ops plain_text ops) True"
  unfolding ops_def
  by (simp add: member_after_def dedup_entity_ops.simps dedup_tables_def ds_new_def set_fields_def
      scalar_removes_def scalar_sets_def multi_ops_def plain_text_def map_filter_simps)

text \<open>A delete also absorbs the ops that follow it, and an entry whose only op is the alive signal
  vanishes although it is to create a slot.\<close>

lemma dedup_loses_inserts:
  "dedup_entity_ops plain_text [DeleteOp, SetOp ''type'' ''A''] = [DeleteOp]"
  "dedup_ops plain_text [eo_with_alive 7 [AliveOp]] = []"
  by (simp_all add: dedup_entity_ops.simps dedup_ops_def merge_entity_def em_new_def eo_with_alive_def
      dedup_tables_def ds_new_def set_fields_def scalar_removes_def scalar_sets_def multi_ops_def
      map_filter_simps rebuild_entity_def hm_upsert_def hm_map_def)

end
