(* ===== verification/Encoding.thy ===== *)
theory Encoding
  imports Prelude
begin

text \<open>
  The parts of Rust's standard library that the file formats and the parsers use:
  \<open>to_le_bytes\<close> and \<open>from_le_bytes\<close>, decimal printing and \<open>str::parse\<close> of integers, \<open>trim\<close> and
  \<open>split_once\<close>, with their round trips.  A string is a list of bytes; \<open>trim\<close> removes ASCII white
  space.
\<close>

section \<open>Little-endian words\<close>

definition to_le_bytes :: "nat \<Rightarrow> 'a::len word \<Rightarrow> u8 list" where
  "to_le_bytes n w = map (\<lambda>i. ucast (drop_bit (8 * i) w)) [0..<n]"

fun from_le_bytes :: "u8 list \<Rightarrow> 'a::len word" where
  "from_le_bytes [] = 0"
| "from_le_bytes (b # bs) = ucast b OR push_bit 8 (from_le_bytes bs)"

lemma length_to_le_bytes [simp]: "length (to_le_bytes n w) = n"
  by (simp add: to_le_bytes_def)

lemma bit_from_le_bytes:
  "bit (from_le_bytes bs :: 'a::len word) n \<longleftrightarrow>
     n < LENGTH('a) \<and> n div 8 < length bs \<and> bit (bs ! (n div 8)) (n mod 8)"
proof (induction bs arbitrary: n)
  case Nil
  then show ?case by simp
next
  case (Cons b bs)
  show ?case
  proof (cases "n < 8")
    case True
    then show ?thesis by (auto simp: bit_or_iff bit_push_bit_iff bit_unsigned_iff)
  next
    case False
    then obtain m where n: "n = m + 8" by (metis add.commute le_Suc_ex not_less)
    have "\<not> bit b (m + 8)" by (auto dest: bit_imp_le_length)
    moreover have "bit (push_bit 8 (from_le_bytes bs :: 'a word)) (m + 8) \<longleftrightarrow>
        m + 8 < LENGTH('a) \<and> bit (from_le_bytes bs :: 'a word) m"
      by (auto simp: bit_push_bit_iff)
    moreover have "(m + 8) div 8 = Suc (m div 8)" by simp
    ultimately show ?thesis
      unfolding n by (auto simp: bit_or_iff bit_unsigned_iff Cons.IH simp del: div_add_self2)
  qed
qed

lemma from_to_le_bytes:
  assumes "LENGTH('a::len) = 8 * n"
  shows "from_le_bytes (to_le_bytes n w) = (w :: 'a word)"
proof (rule bit_word_eqI)
  fix k assume k: "k < LENGTH('a)"
  then have "k div 8 < n" using assms by (simp add: less_mult_imp_div_less mult.commute)
  with k show "bit (from_le_bytes (to_le_bytes n w) :: 'a word) k = bit w k"
    by (simp add: bit_from_le_bytes to_le_bytes_def bit_unsigned_iff bit_drop_bit_eq)
qed

lemma from_to_le_u32 [simp]: "from_le_bytes (to_le_bytes 4 w) = (w :: u32)"
  by (rule from_to_le_bytes) simp

lemma from_to_le_u64 [simp]: "from_le_bytes (to_le_bytes 8 w) = (w :: u64)"
  by (rule from_to_le_bytes) simp


section \<open>Decimal numbers\<close>

definition digit_val :: "char \<Rightarrow> nat option" where
  "digit_val c = (let k = of_char c in if 48 \<le> k \<and> k \<le> 57 then Some (k - 48) else None)"

fun parse_digits :: "nat \<Rightarrow> string \<Rightarrow> nat option" where
  "parse_digits n [] = Some n"
| "parse_digits n (c # cs) =
     (case digit_val c of None \<Rightarrow> None | Some d \<Rightarrow> parse_digits (10 * n + d) cs)"

text \<open>\<open>str::parse\<close> for an unsigned type: an optional plus sign, at least one digit, nothing else,
  and a value that fits.\<close>

definition parse_nat :: "string \<Rightarrow> nat option" where
  "parse_nat s =
     (case s of [] \<Rightarrow> None
      | c # cs \<Rightarrow> if c = CHR ''+'' then (if cs = [] then None else parse_digits 0 cs) else parse_digits 0 s)"

definition parse_word :: "string \<Rightarrow> 'a::len word option" where
  "parse_word s =
     (case parse_nat s of None \<Rightarrow> None
      | Some n \<Rightarrow> if n < 2 ^ LENGTH('a) then Some (of_nat n) else None)"

definition show_word :: "'a::len word \<Rightarrow> string" where
  "show_word w = show_nat (unat w)"

lemma digit_val_char [simp]: "d < 10 \<Longrightarrow> digit_val (digit_char d) = Some d"
  by (simp add: digit_val_def digit_char_def Let_def)

lemma parse_digits_append:
  "parse_digits n (s @ t) = (case parse_digits n s of None \<Rightarrow> None | Some m \<Rightarrow> parse_digits m t)"
  by (induction n s rule: parse_digits.induct) (auto split: option.splits)

lemma parse_show_digits: "parse_digits 0 (show_nat n) = Some n"
proof (induction n rule: show_nat.induct)
  case (1 n)
  show ?case
  proof (cases "n < 10")
    case True
    then show ?thesis by (subst show_nat.simps) simp
  next
    case False
    with 1 show ?thesis
      by (subst show_nat.simps) (simp add: parse_digits_append)
  qed
qed

lemma show_nat_chars: "c \<in> set (show_nat n) \<Longrightarrow> \<exists>d < 10. c = digit_char d"
proof (induction n rule: show_nat.induct)
  case (1 n)
  show ?case
  proof (cases "n < 10")
    case True
    with "1.prems" show ?thesis by (subst (asm) show_nat.simps) auto
  next
    case False
    with "1.prems" have "c \<in> set (show_nat (n div 10)) \<or> c = digit_char (n mod 10)"
      by (subst (asm) show_nat.simps) auto
    moreover have "n mod 10 < 10" by simp
    ultimately show ?thesis using 1 False by blast
  qed
qed

lemma show_nat_not_Nil [simp]: "show_nat n \<noteq> []"
  by (subst show_nat.simps) simp

lemma digit_char_neq [simp]:
  "d < 10 \<Longrightarrow> digit_char d \<noteq> CHR ''+''" "d < 10 \<Longrightarrow> digit_char d \<noteq> CHR ''-''"
  "d < 10 \<Longrightarrow> digit_char d \<noteq> CHR '':''"
proof -
  have inj: "digit_val c = None \<Longrightarrow> d < 10 \<Longrightarrow> digit_char d \<noteq> c" for c
    by (metis digit_val_char option.distinct(1))
  show "d < 10 \<Longrightarrow> digit_char d \<noteq> CHR ''+''" "d < 10 \<Longrightarrow> digit_char d \<noteq> CHR ''-''"
    "d < 10 \<Longrightarrow> digit_char d \<noteq> CHR '':''"
    by (rule inj; simp add: digit_val_def Let_def)+
qed

lemma parse_nat_digits:
  assumes "s \<noteq> []" and "\<And>c. c \<in> set s \<Longrightarrow> \<exists>d < 10. c = digit_char d"
  shows "parse_nat s = parse_digits 0 s"
proof (cases s)
  case Nil
  with assms(1) show ?thesis by simp
next
  case (Cons c cs)
  with assms(2) [of c] have "c \<noteq> CHR ''+''" by auto
  with Cons show ?thesis by (simp add: parse_nat_def)
qed

lemma parse_show_nat [simp]: "parse_nat (show_nat n) = Some n"
  by (subst parse_nat_digits) (auto dest: show_nat_chars simp: parse_show_digits)

lemma parse_show_word [simp]: "parse_word (show_word w) = Some (w :: 'a::len word)"
  by (simp add: parse_word_def show_word_def)

text \<open>Padding with zeros to a minimum width (\<open>{:06}\<close>).\<close>

definition zero_pad :: "nat \<Rightarrow> string \<Rightarrow> string" where
  "zero_pad n s = replicate (n - length s) (digit_char 0) @ s"

lemma parse_zeros: "parse_digits 0 (replicate k (digit_char 0) @ s) = parse_digits 0 s"
  by (induction k) simp_all

lemma parse_zero_pad [simp]: "parse_nat (zero_pad k (show_nat n)) = Some n"
proof -
  have "parse_nat (zero_pad k (show_nat n)) = parse_digits 0 (zero_pad k (show_nat n))"
    by (rule parse_nat_digits) (auto simp: zero_pad_def dest: show_nat_chars intro: exI [of _ 0])
  then show ?thesis by (simp add: zero_pad_def parse_zeros parse_show_digits)
qed


section \<open>Strings\<close>

definition is_space :: "char \<Rightarrow> bool" where
  "is_space c \<longleftrightarrow> of_char c \<in> {9, 10, 11, 12, 13, 32 :: nat}"

definition trim_start :: "string \<Rightarrow> string" where
  "trim_start s = dropWhile is_space s"

definition trim_end :: "string \<Rightarrow> string" where
  "trim_end s = rev (dropWhile is_space (rev s))"

definition trim_str :: "string \<Rightarrow> string" where
  "trim_str s = trim_end (trim_start s)"

fun split_once :: "char \<Rightarrow> string \<Rightarrow> (string \<times> string) option" where
  "split_once c [] = None"
| "split_once c (x # xs) =
     (if x = c then Some ([], xs)
      else map_option (\<lambda>(a, b). (x # a, b)) (split_once c xs))"

definition strip_prefix :: "string \<Rightarrow> string \<Rightarrow> string option" where
  "strip_prefix p s = (if take (length p) s = p then Some (drop (length p) s) else None)"

definition strip_suffix :: "string \<Rightarrow> string \<Rightarrow> string option" where
  "strip_suffix p s =
     (if length p \<le> length s \<and> drop (length s - length p) s = p then Some (take (length s - length p) s) else None)"

lemma digit_not_space [simp]: "d < 10 \<Longrightarrow> \<not> is_space (digit_char d)"
  by (auto simp: is_space_def digit_char_def)

lemma show_word_chars: "c \<in> set (show_word w) \<Longrightarrow> \<exists>d < 10. c = digit_char d"
  by (simp add: show_word_def show_nat_chars)

lemma show_word_not_Nil [simp]: "show_word w \<noteq> []"
  by (simp add: show_word_def)

lemma show_word_ends [simp]: "\<not> is_space (hd (show_word w))" "\<not> is_space (last (show_word w))"
proof -
  have "\<not> is_space c" if "c \<in> set (show_word w)" for c
    using show_word_chars [OF that] by auto
  then show "\<not> is_space (hd (show_word w))" "\<not> is_space (last (show_word w))" by simp_all
qed

lemma show_word_no_colon [simp]: "CHR '':'' \<notin> set (show_word w)"
  using show_word_chars [of "CHR '':''" w] digit_char_neq(3) by metis

lemma split_once_append:
  "c \<notin> set a \<Longrightarrow> split_once c (a @ c # b) = Some (a, b)"
  by (induction a) auto

lemma trim_str_same:
  assumes "s \<noteq> []" and "\<not> is_space (hd s)" and "\<not> is_space (last s)"
  shows "trim_str s = s"
proof -
  have "trim_start s = s"
    using assms(1,2) by (cases s) (simp_all add: trim_start_def)
  moreover have "trim_end s = s"
    using assms(1,3) by (cases s rule: rev_cases) (simp_all add: trim_end_def)
  ultimately show ?thesis by (simp add: trim_str_def)
qed

lemma strip_prefix_append [simp]: "strip_prefix p (p @ s) = Some s"
  by (simp add: strip_prefix_def)

lemma strip_suffix_append [simp]: "strip_suffix p (s @ p) = Some s"
  by (simp add: strip_suffix_def)

end
