(* ===== verification/Ops_Wal.thy ===== *)
theory Ops_Wal
  imports Sync_Ops Encoding
begin

text \<open>
  The write-ahead log of sync ops (\<open>ops_wal.rs\<close>): the record format, the writer with its rotation
  of generation files, the cursor and its text form, and the reader.

  A directory is a map from file names to contents; calls of the file system are taken to
  succeed, and a crash during an append leaves a prefix of the bytes.  The serialisation of ops
  by \<open>serde_json\<close> and the checksum of \<open>crc32fast\<close> are the fields of a record \<open>wal_codec\<close>.
\<close>

section \<open>Files and generations\<close>

type_synonym wal_dir = "(string, u8 list) hashmap"

definition HEADER_SIZE :: nat where "HEADER_SIZE = 13"
definition CRC_SIZE :: nat where "CRC_SIZE = 4"
definition FLAG_CREATES_SLOT :: u8 where "FLAG_CREATES_SLOT = 1"
definition DEFAULT_ROTATION_SIZE :: u64 where "DEFAULT_ROTATION_SIZE = 100 * 1024 * 1024"

definition wal_filename :: "u32 \<Rightarrow> string" where
  "wal_filename gen = ''ops_'' @ zero_pad 6 (show_nat (unat gen)) @ ''.wal''"

definition parse_generation :: "string \<Rightarrow> u32 option" where
  "parse_generation name =
     (if name = ''ops.wal'' then Some 0
      else case strip_prefix ''ops_'' name of
             None \<Rightarrow> None
           | Some s \<Rightarrow> (case strip_suffix ''.wal'' s of None \<Rightarrow> None | Some t \<Rightarrow> parse_word t))"

definition list_generations :: "wal_dir \<Rightarrow> u32 list" where
  "list_generations dir = sort (List.map_filter (\<lambda>(name, _). parse_generation name) dir)"

definition gen_path :: "wal_dir \<Rightarrow> u32 \<Rightarrow> string" where
  "gen_path dir gen =
     (if gen = 0 \<and> hm_get dir ''ops.wal'' \<noteq> None then ''ops.wal'' else wal_filename gen)"


section \<open>The cursor\<close>

record wal_cursor =
  cur_generation :: u32
  cur_offset :: u64

definition cursor_new :: "u32 \<Rightarrow> u64 \<Rightarrow> wal_cursor" where
  "cursor_new gen off = \<lparr>cur_generation = gen, cur_offset = off\<rparr>"

definition or_zero :: "'a::len word option \<Rightarrow> 'a word" where
  "or_zero p = (case p of None \<Rightarrow> 0 | Some w \<Rightarrow> w)"

definition cursor_parse :: "string \<Rightarrow> wal_cursor" where
  "cursor_parse s =
     (case split_once CHR '':'' (trim_str s) of
        Some (g, off) \<Rightarrow> \<lparr>cur_generation = or_zero (parse_word g), cur_offset = or_zero (parse_word off)\<rparr>
      | None \<Rightarrow> \<lparr>cur_generation = 0, cur_offset = or_zero (parse_word (trim_str s))\<rparr>)"

definition cursor_serialize :: "wal_cursor \<Rightarrow> string" where
  "cursor_serialize c = show_word (cur_generation c) @ '':'' @ show_word (cur_offset c)"

text \<open>\<open>load_cursor\<close> on the contents of the cursor file, if there is one.\<close>

definition load_cursor :: "string option \<Rightarrow> wal_cursor" where
  "load_cursor file = (case file of None \<Rightarrow> cursor_new 0 0 | Some s \<Rightarrow> cursor_parse s)"


section \<open>The writer\<close>

record 'v wal_codec =
  wl_to_vec :: "'v sync_op list \<Rightarrow> u8 list option"
  wl_from_slice :: "u8 list \<Rightarrow> 'v sync_op list option"
  wl_crc :: "u8 list \<Rightarrow> u32"

record wal_writer =
  ww_generation :: u32
  ww_rotation_size :: u64

datatype io_error = InvalidData

definition ww_with_rotation_size :: "wal_dir \<Rightarrow> u64 \<Rightarrow> wal_writer" where
  "ww_with_rotation_size dir rotation_size =
     (let gens = list_generations dir
      in \<lparr>ww_generation = max (if gens = [] then 1 else last gens) 1, ww_rotation_size = rotation_size\<rparr>)"

definition ww_new :: "wal_dir \<Rightarrow> wal_writer" where
  "ww_new dir = ww_with_rotation_size dir DEFAULT_ROTATION_SIZE"

definition encode_record :: "'v wal_codec \<Rightarrow> i64 \<Rightarrow> bool \<Rightarrow> u8 list \<Rightarrow> u8 list" where
  "encode_record C entity_id creates_slot ops_json =
     (let payload_len = (of_nat (length ops_json) :: u32);
          eid = to_le_bytes 8 entity_id;
          flags = (if creates_slot then FLAG_CREATES_SLOT else 0);
          crc = wl_crc C (eid @ [flags] @ ops_json)
      in to_le_bytes 4 payload_len @ eid @ [flags] @ ops_json @ to_le_bytes 4 crc)"

text \<open>The write loop: the bytes that reach the file, and the total or the error that ended it.\<close>

fun write_entries :: "'v wal_codec \<Rightarrow> 'v entity_ops list \<Rightarrow> u64 \<Rightarrow> u8 list \<times> (io_error + u64)" where
  "write_entries C [] n = ([], Inr n)"
| "write_entries C (entry # batch) n =
     (case wl_to_vec C (eo_ops entry) of
        None \<Rightarrow> ([], Inl InvalidData)
      | Some ops_json \<Rightarrow>
          let bytes = encode_record C (eo_entity_id entry) (eo_creates_slot entry) ops_json;
              (rest, res) = write_entries C batch (n + of_nat (HEADER_SIZE + length ops_json + CRC_SIZE))
          in (bytes @ rest, res))"

definition file_of :: "wal_dir \<Rightarrow> string \<Rightarrow> u8 list" where
  "file_of dir path = (case hm_get dir path of None \<Rightarrow> [] | Some bytes \<Rightarrow> bytes)"

definition rotate_writer :: "wal_writer \<Rightarrow> wal_dir \<Rightarrow> wal_writer" where
  "rotate_writer w dir =
     (if length (file_of dir (wal_filename (ww_generation w))) \<ge> unat (ww_rotation_size w)
      then w\<lparr>ww_generation := ww_generation w + 1\<rparr> else w)"

definition append_batch ::
    "'v wal_codec \<Rightarrow> wal_writer \<Rightarrow> wal_dir \<Rightarrow> 'v entity_ops list \<Rightarrow> wal_dir \<times> wal_writer \<times> (io_error + u64)" where
  "append_batch C w dir batch =
     (if batch = [] then (dir, w, Inr 0)
      else let w = rotate_writer w dir;
               path = wal_filename (ww_generation w);
               (bytes, res) = write_entries C batch 0
           in (hm_insert path (file_of dir path @ bytes) dir, w, res))"

definition ww_file_size :: "wal_writer \<Rightarrow> wal_dir \<Rightarrow> nat" where
  "ww_file_size w dir = length (file_of dir (wal_filename (ww_generation w)))"


section \<open>The reader\<close>

record 'v wal_batch =
  wbt_entries :: "'v entity_ops list"
  wbt_new_cursor :: wal_cursor
  wbt_bytes_read :: u64
  wbt_crc_failures :: u64

definition slice :: "'a list \<Rightarrow> nat \<Rightarrow> nat \<Rightarrow> 'a list" where
  "slice xs a b = take (b - a) (drop a xs)"

text \<open>The loop of \<open>read_file\<close>: position, entries and checksum failures so far.\<close>

function read_loop ::
    "'v wal_codec \<Rightarrow> nat \<Rightarrow> u8 list \<Rightarrow> nat \<Rightarrow> 'v entity_ops list \<Rightarrow> u64 \<Rightarrow> 'v entity_ops list \<times> nat \<times> u64" where
  "read_loop C mx data pos entries crc_failures =
     (if length entries < mx \<and> pos + HEADER_SIZE \<le> length data
      then let plen = unat (from_le_bytes (slice data pos (pos + 4)) :: u32);
               eid = from_le_bytes (slice data (pos + 4) (pos + 12));
               flags = data ! (pos + 12);
               creates = (flags AND FLAG_CREATES_SLOT \<noteq> 0);
               fin = pos + HEADER_SIZE + plen + CRC_SIZE
           in if fin > length data then (entries, pos, crc_failures)
              else let crc_in = slice data (pos + 4) (pos + HEADER_SIZE + plen);
                       stored = from_le_bytes (slice data (pos + HEADER_SIZE + plen) fin)
                   in if stored \<noteq> wl_crc C crc_in then read_loop C mx data fin entries (crc_failures + 1)
                      else case wl_from_slice C (slice data (pos + HEADER_SIZE) (pos + HEADER_SIZE + plen)) of
                             Some ops \<Rightarrow> read_loop C mx data fin
                               (entries @ [\<lparr>eo_entity_id = eid, eo_ops = ops, eo_creates_slot = creates\<rparr>]) crc_failures
                           | None \<Rightarrow> read_loop C mx data fin entries (crc_failures + 1)
      else (entries, pos, crc_failures))"
  by pat_completeness auto
termination
  by (relation "measure (\<lambda>(C, mx, data, pos, entries, c). length data - pos)")
    (auto simp: HEADER_SIZE_def CRC_SIZE_def)

declare read_loop.simps [simp del]

definition read_file :: "'v wal_codec \<Rightarrow> u8 list \<Rightarrow> wal_cursor \<Rightarrow> nat \<Rightarrow> wal_cursor \<times> 'v wal_batch" where
  "read_file C content cur mx =
     (if unat (cur_offset cur) \<ge> length content
      then (cur, \<lparr>wbt_entries = [], wbt_new_cursor = cur, wbt_bytes_read = 0, wbt_crc_failures = 0\<rparr>)
      else let data = drop (unat (cur_offset cur)) content;
               (entries, pos, crc_failures) = read_loop C mx data 0 [] 0;
               cur = cur\<lparr>cur_offset := cur_offset cur + of_nat pos\<rparr>
           in (cur, \<lparr>wbt_entries = entries, wbt_new_cursor = cur, wbt_bytes_read = of_nat pos,
                     wbt_crc_failures = crc_failures\<rparr>))"

definition next_gen :: "wal_dir \<Rightarrow> wal_cursor \<Rightarrow> u32 option" where
  "next_gen dir cur = find (\<lambda>g. g > cur_generation cur) (list_generations dir)"

lemma read_file_generation [simp]: "cur_generation (fst (read_file C content cur mx)) = cur_generation cur"
  by (simp add: read_file_def Let_def split: prod.splits)

lemma next_gen_Some: "next_gen dir cur = Some g \<Longrightarrow> g \<in> set (list_generations dir) \<and> g > cur_generation cur"
  unfolding next_gen_def by (induction "list_generations dir") (auto simp: find_Some_iff)

lemma next_gen_measure:
  assumes "next_gen dir cur = Some g"
  shows "length (filter (\<lambda>x. x > g) (list_generations dir)) <
    length (filter (\<lambda>x. x > cur_generation cur) (list_generations dir))"
proof -
  note g = next_gen_Some [OF assms]
  have "filter (\<lambda>x. x > g) (list_generations dir) =
      filter (\<lambda>x. x > g) (filter (\<lambda>x. x > cur_generation cur) (list_generations dir))"
    using g by (auto intro!: filter_cong)
  moreover have "g \<in> set (filter (\<lambda>x. x > cur_generation cur) (list_generations dir))" using g by simp
  then have "length (filter (\<lambda>x. x > g) (filter (\<lambda>x. x > cur_generation cur) (list_generations dir))) <
      length (filter (\<lambda>x. x > cur_generation cur) (list_generations dir))"
    by (rule length_filter_less) simp
  ultimately show ?thesis by simp
qed

text \<open>The loop of \<open>read_batch\<close> over the generations.  It goes on only into a later generation.\<close>

function read_gens ::
    "'v wal_codec \<Rightarrow> wal_dir \<Rightarrow> nat \<Rightarrow> wal_cursor \<Rightarrow> 'v entity_ops list \<Rightarrow> u64 \<Rightarrow> u64 \<Rightarrow> wal_cursor \<times> 'v entity_ops list \<times> u64 \<times> u64" where
  "read_gens C dir mx cur entries bytes crcs =
     (case hm_get dir (gen_path dir (cur_generation cur)) of
        None \<Rightarrow>
          (case next_gen dir cur of
             Some g \<Rightarrow> read_gens C dir mx (cursor_new g 0) entries bytes crcs
           | None \<Rightarrow> (cur, entries, bytes, crcs))
      | Some content \<Rightarrow>
          if unat (cur_offset cur) \<ge> length content
          then (case next_gen dir cur of
                  Some g \<Rightarrow> read_gens C dir mx (cursor_new g 0) entries bytes crcs
                | None \<Rightarrow> (cur, entries, bytes, crcs))
          else let r = read_file C content cur (mx - length entries);
                   entries = entries @ wbt_entries (snd r);
                   bytes = bytes + wbt_bytes_read (snd r);
                   crcs = crcs + wbt_crc_failures (snd r)
               in if length entries \<ge> mx then (fst r, entries, bytes, crcs)
                  else if unat (cur_offset (fst r)) \<ge> length content \<or> cur_offset (fst r) = cur_offset cur
                  then (case next_gen dir (fst r) of
                          Some g \<Rightarrow> read_gens C dir mx (cursor_new g 0) entries bytes crcs
                        | None \<Rightarrow> (fst r, entries, bytes, crcs))
                  else (fst r, entries, bytes, crcs))"
  by pat_completeness auto
termination
  by (relation "measure (\<lambda>(C, dir, mx, cur, _). length (filter (\<lambda>x. x > cur_generation cur) (list_generations dir)))")
    (auto simp: cursor_new_def dest: next_gen_measure)

declare read_gens.simps [simp del]

definition read_batch :: "'v wal_codec \<Rightarrow> wal_dir \<Rightarrow> wal_cursor \<Rightarrow> nat \<Rightarrow> wal_cursor \<times> 'v wal_batch" where
  "read_batch C dir cur max_records =
     (let (cur, entries, bytes, crcs) = read_gens C dir max_records cur [] 0 0
      in (cur, \<lparr>wbt_entries = entries, wbt_new_cursor = cur, wbt_bytes_read = bytes, wbt_crc_failures = crcs\<rparr>))"

definition delete_gens_below :: "wal_dir \<Rightarrow> u32 \<Rightarrow> wal_dir" where
  "delete_gens_below dir durable_gen =
     fold (\<lambda>g dir. if g < durable_gen then hm_remove (gen_path dir g) dir else dir) (list_generations dir) dir"

definition has_more :: "wal_dir \<Rightarrow> wal_cursor \<Rightarrow> bool" where
  "has_more dir cur \<longleftrightarrow>
     unat (cur_offset cur) < length (file_of dir (gen_path dir (cur_generation cur))) \<or> next_gen dir cur \<noteq> None"


section \<open>Frames: what the bytes of a file hold\<close>

text \<open>
  Every byte string is a sequence of length-framed records followed by a tail that holds no
  complete record.  A frame decodes to an entry, or to nothing if its checksum or its payload is
  corrupt.
\<close>

definition frame_len :: "u8 list \<Rightarrow> nat" where
  "frame_len bs = 17 + unat (from_le_bytes (take 4 bs) :: u32)"

definition has_frame :: "u8 list \<Rightarrow> bool" where
  "has_frame bs \<longleftrightarrow> 13 \<le> length bs \<and> frame_len bs \<le> length bs"

function frames :: "u8 list \<Rightarrow> u8 list list" where
  "frames bs = (if has_frame bs then take (frame_len bs) bs # frames (drop (frame_len bs) bs) else [])"
  by pat_completeness auto
termination by (relation "measure length") (auto simp: has_frame_def frame_len_def)

declare frames.simps [simp del]

definition tail_of :: "u8 list \<Rightarrow> u8 list" where
  "tail_of bs = drop (length (concat (frames bs))) bs"

definition decode_frame :: "'v wal_codec \<Rightarrow> u8 list \<Rightarrow> 'v entity_ops option" where
  "decode_frame C f =
     (if from_le_bytes (drop (length f - 4) f) \<noteq> wl_crc C (slice f 4 (length f - 4)) then None
      else map_option (\<lambda>ops. \<lparr>eo_entity_id = from_le_bytes (slice f 4 12), eo_ops = ops,
          eo_creates_slot = (f ! 12 AND FLAG_CREATES_SLOT \<noteq> 0)\<rparr>)
        (wl_from_slice C (slice f 13 (length f - 4))))"

definition record_log :: "'v wal_codec \<Rightarrow> u8 list \<Rightarrow> 'v entity_ops list" where
  "record_log C bs = List.map_filter (decode_frame C) (frames bs)"

lemma frames_step: "has_frame bs \<Longrightarrow> frames bs = take (frame_len bs) bs # frames (drop (frame_len bs) bs)"
  by (subst frames.simps) simp

lemma frames_stop: "\<not> has_frame bs \<Longrightarrow> frames bs = []"
  by (subst frames.simps) simp

lemma frames_Nil [simp]: "frames [] = []"
  by (simp add: frames_stop has_frame_def)

lemma frames_tail: "concat (frames bs) @ tail_of bs = bs"
proof -
  have "length (concat (frames bs)) \<le> length bs \<and> take (length (concat (frames bs))) bs = concat (frames bs)"
  proof (induction bs rule: frames.induct)
    case (1 bs)
    show ?case
    proof (cases "has_frame bs")
      case True
      with 1 show ?thesis
        by (auto simp: frames_step has_frame_def take_add)
    next
      case False
      then show ?thesis by (simp add: frames_stop)
    qed
  qed
  then show ?thesis unfolding tail_of_def by (metis append_take_drop_id)
qed

lemma tail_step: "has_frame bs \<Longrightarrow> tail_of bs = tail_of (drop (frame_len bs) bs)"
  unfolding tail_of_def by (simp add: frames_step has_frame_def add.commute)

lemma tail_stop: "\<not> has_frame bs \<Longrightarrow> tail_of bs = bs"
  by (simp add: tail_of_def frames_stop)

lemma has_frame_append: "has_frame a \<Longrightarrow> has_frame (a @ b) \<and> frame_len (a @ b) = frame_len a"
  by (auto simp: has_frame_def frame_len_def)

lemma frames_append:
  assumes "tail_of a = []"
  shows "frames (a @ b) = frames a @ frames b \<and> tail_of (a @ b) = tail_of b"
  using assms
proof (induction a rule: frames.induct)
  case (1 a)
  show ?case
  proof (cases "has_frame a")
    case True
    then have "frame_len a \<le> length a" by (simp add: has_frame_def)
    with 1 True has_frame_append [OF True, of b] show ?thesis
      by (simp add: frames_step tail_step)
  next
    case False
    with 1 show ?thesis by (simp add: tail_stop)
  qed
qed

lemma frames_drop:
  "k \<le> length (frames bs) \<Longrightarrow>
     frames (drop (length (concat (take k (frames bs)))) bs) = drop k (frames bs) \<and>
     tail_of (drop (length (concat (take k (frames bs)))) bs) = tail_of bs"
proof (induction k arbitrary: bs)
  case 0
  then show ?case by simp
next
  case (Suc k)
  then have "has_frame bs" by (metis frames_stop le_zero_eq list.size(3) nat.distinct(1))
  with Suc.prems Suc.IH [of "drop (frame_len bs) bs"] show ?case
    by (simp add: frames_step tail_step has_frame_def add.commute)
qed

lemma frames_not_Nil: "f \<in> set (frames bs) \<Longrightarrow> 17 \<le> length f"
proof (induction bs rule: frames.induct)
  case (1 bs)
  show ?case
  proof (cases "has_frame bs")
    case True
    with 1 show ?thesis by (auto simp: frames_step has_frame_def frame_len_def)
  next
    case False
    with 1 show ?thesis by (simp add: frames_stop)
  qed
qed


section \<open>What one file delivers\<close>

text \<open>The loop over the frames of the file, until enough entries are there.\<close>

fun take_frames :: "'v wal_codec \<Rightarrow> nat \<Rightarrow> u8 list list \<Rightarrow> 'v entity_ops list \<times> nat \<times> u64" where
  "take_frames C mx [] = ([], 0, 0)"
| "take_frames C 0 (f # fs) = ([], 0, 0)"
| "take_frames C (Suc mx) (f # fs) =
     (case decode_frame C f of
        None \<Rightarrow> (let (es, n, c) = take_frames C (Suc mx) fs in (es, length f + n, 1 + c))
      | Some e \<Rightarrow> (let (es, n, c) = take_frames C mx fs in (e # es, length f + n, c)))"

lemma decode_at:
  assumes "has_frame (drop pos data)"
  defines "plen \<equiv> unat (from_le_bytes (slice data pos (pos + 4)) :: u32)"
  defines "f \<equiv> take (frame_len (drop pos data)) (drop pos data)"
  shows "frame_len (drop pos data) = 17 + plen" "length f = 17 + plen" "pos + 17 + plen \<le> length data"
    "drop (length f - 4) f = slice data (pos + HEADER_SIZE + plen) (pos + HEADER_SIZE + plen + CRC_SIZE)"
    "slice f 4 (length f - 4) = slice data (pos + 4) (pos + HEADER_SIZE + plen)"
    "slice f 13 (length f - 4) = slice data (pos + HEADER_SIZE) (pos + HEADER_SIZE + plen)"
    "slice f 4 12 = slice data (pos + 4) (pos + 12)" "f ! 12 = data ! (pos + 12)"
proof -
  show len: "frame_len (drop pos data) = 17 + plen"
    by (simp add: frame_len_def plen_def slice_def)
  show lenf: "length f = 17 + plen"
    using assms(1) len by (simp add: f_def has_frame_def)
  show bound: "pos + 17 + plen \<le> length data"
    using assms(1) len by (auto simp: has_frame_def)
  show "drop (length f - 4) f = slice data (pos + HEADER_SIZE + plen) (pos + HEADER_SIZE + plen + CRC_SIZE)"
    unfolding lenf unfolding f_def len by (simp add: slice_def drop_take HEADER_SIZE_def CRC_SIZE_def add.commute add.left_commute)
  show "slice f 4 (length f - 4) = slice data (pos + 4) (pos + HEADER_SIZE + plen)"
    unfolding lenf unfolding f_def len by (simp add: slice_def drop_take HEADER_SIZE_def add.commute add.left_commute)
  show "slice f 13 (length f - 4) = slice data (pos + HEADER_SIZE) (pos + HEADER_SIZE + plen)"
    unfolding lenf unfolding f_def len by (simp add: slice_def drop_take HEADER_SIZE_def add.commute add.left_commute)
  show "slice f 4 12 = slice data (pos + 4) (pos + 12)"
    unfolding f_def len by (simp add: slice_def drop_take add.commute)
  show "f ! 12 = data ! (pos + 12)"
    using bound unfolding f_def len by simp
qed


lemma read_loop_step:
  assumes mx: "length es < mx" and fr: "has_frame (drop pos data)"
  shows "read_loop C mx data pos es c =
    (case decode_frame C (take (frame_len (drop pos data)) (drop pos data)) of
       None \<Rightarrow> read_loop C mx data (pos + frame_len (drop pos data)) es (c + 1)
     | Some e \<Rightarrow> read_loop C mx data (pos + frame_len (drop pos data)) (es @ [e]) c)"
proof -
  note at = decode_at [OF fr]
  let ?plen = "unat (from_le_bytes (slice data pos (pos + 4)) :: u32)"
  have guard: "length es < mx \<and> pos + HEADER_SIZE \<le> length data"
    "\<not> length data < pos + HEADER_SIZE + ?plen + CRC_SIZE"
    using mx at(3) by (auto simp: HEADER_SIZE_def CRC_SIZE_def)
  have fin: "pos + frame_len (drop pos data) = pos + HEADER_SIZE + ?plen + CRC_SIZE"
    unfolding at(1) by (simp add: HEADER_SIZE_def CRC_SIZE_def)
  show ?thesis
    unfolding decode_frame_def at(4-8) fin
    by (subst read_loop.simps) (simp only: guard Let_def if_True if_False simp_thms split: if_split option.split, simp)
qed

lemma read_loop_stop:
  "\<not> (length es < mx \<and> has_frame (drop pos data)) \<Longrightarrow> read_loop C mx data pos es c = (es, pos, c)"
  by (subst read_loop.simps)
    (auto simp: Let_def has_frame_def frame_len_def slice_def HEADER_SIZE_def CRC_SIZE_def)

lemma read_loop_frames:
  "read_loop C mx data pos es c =
     (let (es', n, c') = take_frames C (mx - length es) (frames (drop pos data)) in (es @ es', pos + n, c + c'))"
proof (induction "frames (drop pos data)" arbitrary: pos es c)
  case Nil
  then have "\<not> has_frame (drop pos data)" by (metis frames_step list.distinct(1))
  then show ?case by (simp add: read_loop_stop frames_stop)
next
  case (Cons f fs)
  from Cons.hyps(2) have fr: "has_frame (drop pos data)" by (metis frames_stop list.distinct(1))
  have f: "f = take (frame_len (drop pos data)) (drop pos data)"
    "fs = frames (drop (pos + frame_len (drop pos data)) data)"
    using Cons.hyps(2) unfolding frames_step [OF fr] by (simp_all add: add.commute)
  have len: "length f = frame_len (drop pos data)" using fr unfolding f by (simp add: has_frame_def)
  note IH = Cons.hyps(1) [OF f(2), folded f(2)]
  show ?case
  proof (cases "length es < mx")
    case True
    then obtain k where k: "mx - length es = Suc k" "mx - Suc (length es) = k" by (cases "mx - length es") auto
    show ?thesis
      unfolding read_loop_step [OF True fr] Cons.hyps(2) [symmetric] f(1) [symmetric]
      by (cases "decode_frame C f") (simp_all add: k IH len split: prod.split)
  next
    case False
    then have "take_frames C (mx - length es) (frames (drop pos data)) = ([], 0, 0)"
      unfolding Cons.hyps(2) [symmetric] by simp
    with False show ?thesis by (simp add: read_loop_stop)
  qed
qed

lemma take_frames_log:
  assumes "take_frames C mx fs = (es, n, c)"
  shows "\<exists>k \<le> length fs. n = length (concat (take k fs)) \<and> es = take mx (List.map_filter (decode_frame C) fs) \<and>
    List.map_filter (decode_frame C) (drop k fs) = drop mx (List.map_filter (decode_frame C) fs) \<and>
    (0 < mx \<longrightarrow> fs \<noteq> [] \<longrightarrow> 0 < k)"
  using assms
proof (induction C mx fs arbitrary: es n c rule: take_frames.induct)
  case (1 C mx)
  then show ?case by (simp add: List.map_filter_def)
next
  case (2 C f fs)
  then show ?case by auto
next
  case (3 C mx f fs)
  show ?case
  proof (cases "decode_frame C f")
    case None
    with "3.prems" obtain n' c' where tf: "take_frames C (Suc mx) fs = (es, n', c')" "n = length f + n'"
      by (auto split: prod.splits)
    from "3.IH"(1) [OF None tf(1)] obtain k where "k \<le> length fs" "n' = length (concat (take k fs))"
      "es = take (Suc mx) (List.map_filter (decode_frame C) fs)"
      "List.map_filter (decode_frame C) (drop k fs) = drop (Suc mx) (List.map_filter (decode_frame C) fs)" by blast
    with None tf(2) show ?thesis by (intro exI [of _ "Suc k"]) (simp add: map_filter_simps)
  next
    case (Some e)
    with "3.prems" obtain es' n' where tf: "take_frames C mx fs = (es', n', c)" "n = length f + n'" "es = e # es'"
      by (auto split: prod.splits)
    from "3.IH"(2) [OF Some tf(1)] obtain k where "k \<le> length fs" "n' = length (concat (take k fs))"
      "es' = take mx (List.map_filter (decode_frame C) fs)"
      "List.map_filter (decode_frame C) (drop k fs) = drop mx (List.map_filter (decode_frame C) fs)" by blast
    with Some tf(2,3) show ?thesis by (intro exI [of _ "Suc k"]) (simp add: map_filter_simps)
  qed
qed


lemma read_file_log:
  fixes cur :: wal_cursor and C :: "'v wal_codec" and mx :: nat
  assumes off: "unat (cur_offset cur) < length content" and small: "length content < 2 ^ 64"
  defines "r \<equiv> read_file C content cur mx"
  shows "wbt_entries (snd r) = take mx (record_log C (drop (unat (cur_offset cur)) content)) \<and>
    record_log C (drop (unat (cur_offset (fst r))) content) =
      drop mx (record_log C (drop (unat (cur_offset cur)) content)) \<and>
    tail_of (drop (unat (cur_offset (fst r))) content) = tail_of (drop (unat (cur_offset cur)) content) \<and>
    unat (cur_offset cur) \<le> unat (cur_offset (fst r)) \<and> unat (cur_offset (fst r)) \<le> length content \<and>
    (0 < mx \<longrightarrow> cur_offset (fst r) = cur_offset cur \<longrightarrow> record_log C (drop (unat (cur_offset cur)) content) = [])"
proof -
  define data where "data = drop (unat (cur_offset cur)) content"
  obtain es n c where tf: "take_frames C mx (frames data) = (es, n, c)" by (cases "take_frames C mx (frames data)")
  from take_frames_log [OF tf] obtain k where k: "k \<le> length (frames data)"
    "n = length (concat (take k (frames data)))" "es = take mx (record_log C data)"
    "List.map_filter (decode_frame C) (drop k (frames data)) = drop mx (record_log C data)"
    "0 < mx \<longrightarrow> frames data \<noteq> [] \<longrightarrow> 0 < k"
    unfolding record_log_def by blast
  have "concat (take k (frames data)) @ concat (drop k (frames data)) @ tail_of data = data"
    by (metis append.assoc append_take_drop_id concat_append frames_tail)
  then have n: "n \<le> length data" unfolding k(2) by (metis length_append le_add1)
  have r: "r = (cur\<lparr>cur_offset := cur_offset cur + of_nat n\<rparr>,
      \<lparr>wbt_entries = es, wbt_new_cursor = cur\<lparr>cur_offset := cur_offset cur + of_nat n\<rparr>,
       wbt_bytes_read = of_nat n, wbt_crc_failures = c\<rparr>)"
    using off by (simp add: r_def read_file_def read_loop_frames Let_def tf flip: data_def)
  have "unat (cur_offset cur) + n \<le> length content" using n off by (simp add: data_def)
  then have sum: "unat (cur_offset cur + of_nat n) = unat (cur_offset cur) + n"
    using small by (subst unat_add_lem [THEN iffD1]) (simp_all add: unat_of_nat take_bit_nat_eq_self)
  have drop: "drop (unat (cur_offset cur) + n) content = drop n data"
    unfolding data_def by (simp add: add.commute)
  have "n = 0 \<Longrightarrow> k = 0 \<or> frames data = []"
    using k(2) frames_not_Nil [of _ data] by (cases "frames data"; cases k) fastforce+
  then have stuck: "0 < mx \<longrightarrow> cur_offset cur + of_nat n = cur_offset cur \<longrightarrow> record_log C data = []"
    using k(5) sum by (auto simp: record_log_def List.map_filter_def)
  show ?thesis
    using frames_drop [OF k(1), folded k(2)] k(3,4) sum stuck \<open>unat (cur_offset cur) + n \<le> length content\<close>
    unfolding r by (simp add: drop record_log_def flip: data_def)
qed


section \<open>What the log delivers\<close>

definition gens_after :: "wal_dir \<Rightarrow> u32 \<Rightarrow> u32 list" where
  "gens_after dir g = filter (\<lambda>x. g < x) (remdups (list_generations dir))"

definition gen_file :: "wal_dir \<Rightarrow> u32 \<Rightarrow> u8 list" where
  "gen_file dir g = file_of dir (gen_path dir g)"

definition pending :: "'v wal_codec \<Rightarrow> wal_dir \<Rightarrow> wal_cursor \<Rightarrow> 'v entity_ops list" where
  "pending C dir cur =
     record_log C (drop (unat (cur_offset cur)) (gen_file dir (cur_generation cur))) @
     concat (map (\<lambda>g. record_log C (gen_file dir g)) (gens_after dir (cur_generation cur)))"

definition wal_left :: "wal_dir \<Rightarrow> wal_cursor \<Rightarrow> nat" where
  "wal_left dir cur =
     (length (gen_file dir (cur_generation cur)) - unat (cur_offset cur)) +
     sum_list (map (\<lambda>g. Suc (length (gen_file dir g))) (gens_after dir (cur_generation cur)))"

definition files_small :: "wal_dir \<Rightarrow> bool" where
  "files_small dir \<longleftrightarrow> (\<forall>path. length (file_of dir path) < 2 ^ 64)"

lemma sorted_gens: "sorted (list_generations dir)"
  by (simp add: list_generations_def)

lemma sorted_filter_head:
  fixes xs :: "'a::linorder list"
  assumes "sorted xs" and "distinct xs" and "filter (\<lambda>x. c < x) xs = y # ys"
  shows "filter (\<lambda>x. y < x) xs = ys"
proof -
  have y: "c < y" using assms(3) by (metis filter_eq_Cons_iff)
  have "sorted (y # ys)" "distinct (y # ys)" using assms by (metis sorted_wrt_filter, metis distinct_filter)
  then have ys: "\<forall>x \<in> set ys. y < x" by (auto simp: less_le)
  have "filter (\<lambda>x. y < x) xs = filter (\<lambda>x. y < x) (filter (\<lambda>x. c < x) xs)"
    using y by (auto intro!: filter_cong)
  also have "\<dots> = ys" unfolding assms(3) using ys by simp
  finally show ?thesis .
qed

lemma next_gen_after: "next_gen dir cur = (case gens_after dir (cur_generation cur) of [] \<Rightarrow> None | g # _ \<Rightarrow> Some g)"
proof -
  have first: "find P xs = (case filter P (remdups xs) of [] \<Rightarrow> None | x # _ \<Rightarrow> Some x)" if "sorted xs" for P and xs :: "u32 list"
    using that
  proof (induction xs)
    case Nil
    then show ?case by simp
  next
    case (Cons x xs)
    show ?case
    proof (cases "P x \<and> x \<in> set xs")
      case True
      with Cons have "\<And>y. y \<in> set xs \<Longrightarrow> x \<le> y" by simp
      with True Cons.prems have "xs \<noteq> [] \<and> hd xs = x" by (cases xs) (auto intro: antisym)
      with True have "find P xs = Some x" by (cases xs) simp_all
      moreover have "find P xs = (case filter P (remdups xs) of [] \<Rightarrow> None | x # _ \<Rightarrow> Some x)"
        using Cons by simp
      ultimately show ?thesis using True by simp
    next
      case False
      with Cons show ?thesis by auto
    qed
  qed
  show ?thesis unfolding next_gen_def gens_after_def by (rule first [OF sorted_gens])
qed

lemma gens_after_head: "gens_after dir c = g # gs \<Longrightarrow> gens_after dir g = gs"
  unfolding gens_after_def by (rule sorted_filter_head) (auto simp: sorted_remdups sorted_gens)

lemma next_gen_pending:
  assumes "next_gen dir cur = Some g"
  shows "pending C dir (cursor_new g 0) =
      concat (map (\<lambda>g. record_log C (gen_file dir g)) (gens_after dir (cur_generation cur)))"
    and "wal_left dir (cursor_new g 0) <
      sum_list (map (\<lambda>g. Suc (length (gen_file dir g))) (gens_after dir (cur_generation cur)))"
proof -
  from assms obtain gs where gs: "gens_after dir (cur_generation cur) = g # gs"
    by (auto simp: next_gen_after split: list.splits)
  show "pending C dir (cursor_new g 0) =
      concat (map (\<lambda>g. record_log C (gen_file dir g)) (gens_after dir (cur_generation cur)))"
    "wal_left dir (cursor_new g 0) <
      sum_list (map (\<lambda>g. Suc (length (gen_file dir g))) (gens_after dir (cur_generation cur)))"
    using gens_after_head [OF gs] by (simp_all add: gs pending_def wal_left_def cursor_new_def)
qed


text \<open>A cursor that stands in generation \<open>w\<close> stands on a record boundary of a file without a torn
  tail.\<close>

definition cursor_clean :: "wal_dir \<Rightarrow> u32 \<Rightarrow> wal_cursor \<Rightarrow> bool" where
  "cursor_clean dir w cur \<longleftrightarrow> tail_of (gen_file dir w) = [] \<and>
     (cur_generation cur = w \<longrightarrow> unat (cur_offset cur) \<le> length (gen_file dir w) \<and>
        tail_of (drop (unat (cur_offset cur)) (gen_file dir w)) = [])"

text \<open>Between two states of the read loop nothing is lost, repeated or reordered, and the cursor
  only moves forward.\<close>

definition delivers ::
    "'v wal_codec \<Rightarrow> wal_dir \<Rightarrow> nat \<Rightarrow> 'v entity_ops list \<Rightarrow> wal_cursor \<Rightarrow> 'v entity_ops list \<Rightarrow> wal_cursor \<Rightarrow> bool" where
  "delivers C dir mx es cur es' cur' \<longleftrightarrow>
     es' @ pending C dir cur' = es @ pending C dir cur \<and> length es' \<le> mx \<and>
     (cur' \<noteq> cur \<longrightarrow> wal_left dir cur' < wal_left dir cur) \<and>
     cur_generation cur' \<in> insert (cur_generation cur) (set (list_generations dir)) \<and>
     (\<forall>w. cursor_clean dir w cur \<longrightarrow> cursor_clean dir w cur')"

lemma delivers_hop:
  assumes g: "next_gen dir c = Some g" and gen: "cur_generation c = cur_generation cur"
    and es: "es1 @ concat (map (\<lambda>g. record_log C (gen_file dir g)) (gens_after dir (cur_generation cur))) =
      es @ pending C dir cur"
    and rest: "delivers C dir mx es1 (cursor_new g 0) es' cur'"
  shows "delivers C dir mx es cur es' cur' \<and> cur' \<noteq> cur"
proof -
  note n = next_gen_pending(1) [OF g, unfolded gen, where C = C] next_gen_pending(2) [OF g, unfolded gen]
  have less: "wal_left dir cur' < wal_left dir cur"
    using rest n(2) unfolding delivers_def wal_left_def [of dir cur] by (cases "cur' = cursor_new g 0") auto
  have "cursor_clean dir w (cursor_new g 0)" if "cursor_clean dir w cur" for w
    using that by (auto simp: cursor_clean_def cursor_new_def)
  moreover have "cur_generation (cursor_new g 0) \<in> set (list_generations dir)"
    using next_gen_Some [OF g] by (simp add: cursor_new_def)
  moreover have "es' @ pending C dir cur' = es @ pending C dir cur"
    using rest es n(1) by (simp add: delivers_def)
  ultimately show ?thesis
    using rest less unfolding delivers_def by auto
qed

lemma delivers_read_file:
  fixes C :: "'v wal_codec"
  assumes held: "hm_get dir (gen_path dir (cur_generation cur)) = Some content"
    and off: "unat (cur_offset cur) < length content" and small: "length content < 2 ^ 64" and mx: "length es \<le> mx"
  defines "r \<equiv> read_file C content cur (mx - length es)"
  shows "delivers C dir mx es cur (es @ wbt_entries (snd r)) (fst r)"
    and "length (es @ wbt_entries (snd r)) < mx \<Longrightarrow>
      (es @ wbt_entries (snd r)) @ concat (map (\<lambda>g. record_log C (gen_file dir g)) (gens_after dir (cur_generation cur))) =
      es @ pending C dir cur"
    and "fst r = cur \<Longrightarrow> length es < mx \<Longrightarrow> wbt_entries (snd r) = []"
proof -
  have gf: "gen_file dir (cur_generation cur) = content"
    by (simp add: gen_file_def file_of_def held)
  note r = read_file_log [OF off small, of C "mx - length es", folded r_def]
  have gen: "cur_generation (fst r) = cur_generation cur" by (simp add: r_def)
  have pend: "wbt_entries (snd r) @ pending C dir (fst r) = pending C dir cur"
    using r by (simp add: pending_def gen gf)
  have stay: "fst r = cur \<longleftrightarrow> cur_offset (fst r) = cur_offset cur"
    using gen by (cases "fst r"; cases cur) auto
  show "fst r = cur \<Longrightarrow> length es < mx \<Longrightarrow> wbt_entries (snd r) = []"
    using r by simp
  show "(es @ wbt_entries (snd r)) @ concat (map (\<lambda>g. record_log C (gen_file dir g)) (gens_after dir (cur_generation cur))) =
      es @ pending C dir cur" if "length (es @ wbt_entries (snd r)) < mx"
  proof -
    have "length (record_log C (drop (unat (cur_offset cur)) content)) < mx - length es"
      using that r by (simp add: min_def split: if_splits)
    then show ?thesis using r by (simp add: pending_def gf)
  qed
  have "unat (cur_offset cur) < unat (cur_offset (fst r))" if "fst r \<noteq> cur"
    using that r unfolding stay by (metis le_neq_implies_less word_unat_eq_iff)
  then have "wal_left dir (fst r) < wal_left dir cur" if "fst r \<noteq> cur"
    using that r unfolding wal_left_def gen gf by (intro add_strict_right_mono diff_less_mono2) auto
  moreover have "length (es @ wbt_entries (snd r)) \<le> mx" using r mx by auto
  moreover have "cursor_clean dir w (fst r)" if "cursor_clean dir w cur" for w
    using that r by (auto simp: cursor_clean_def gen gf)
  ultimately show "delivers C dir mx es cur (es @ wbt_entries (snd r)) (fst r)"
    using pend gen by (simp add: delivers_def)
qed

lemma read_gens_delivers:
  assumes "files_small dir" and "length es \<le> mx" and "read_gens C dir mx cur es bytes crcs = (cur', es', bytes', crcs')"
  shows "delivers C dir mx es cur es' cur' \<and> (cur' = cur \<longrightarrow> length es < mx \<longrightarrow> pending C dir cur = [])"
  using assms
proof (induction C dir mx cur es bytes crcs rule: read_gens.induct)
  case (1 C dir mx cur es bytes crcs)
  let ?file = "hm_get dir (gen_path dir (cur_generation cur))"
  show ?case
  proof (cases "\<exists>content. ?file = Some content \<and> unat (cur_offset cur) < length content")
    case False
    have log: "record_log C (drop (unat (cur_offset cur)) (gen_file dir (cur_generation cur))) = []"
      using False by (cases ?file) (simp_all add: gen_file_def file_of_def record_log_def List.map_filter_def not_less)
    then have pend: "pending C dir cur =
        concat (map (\<lambda>g. record_log C (gen_file dir g)) (gens_after dir (cur_generation cur)))"
      by (simp add: pending_def)
    show ?thesis
    proof (cases "next_gen dir cur")
      case None
      with False "1.prems"(3) have "cur' = cur" "es' = es"
        by (auto simp: read_gens.simps [of C dir mx cur] not_less split: option.splits)
      moreover have "pending C dir cur = []" using None by (simp add: pend next_gen_after split: list.splits)
      ultimately show ?thesis using "1.prems"(2) by (simp add: delivers_def)
    next
      case (Some g)
      with False "1.prems"(3) have step: "read_gens C dir mx (cursor_new g 0) es bytes crcs = (cur', es', bytes', crcs')"
        by (auto simp: read_gens.simps [of C dir mx cur] not_less split: option.splits)
      have "delivers C dir mx es (cursor_new g 0) es' cur'"
        using 1 False Some step by (cases ?file) (auto simp: not_less)
      with Some pend show ?thesis using delivers_hop [of dir cur g cur es C es mx es' cur'] by simp
    qed
  next
    case True
    then obtain content where content: "?file = Some content" "unat (cur_offset cur) < length content" by blast
    have small: "length content < 2 ^ 64"
      using "1.prems"(1) content(1) unfolding files_small_def file_of_def by (metis option.simps(5))
    define r where "r = read_file C content cur (mx - length es)"
    note d = delivers_read_file [OF content small "1.prems"(2), of C, folded r_def]
    define es1 where "es1 = es @ wbt_entries (snd r)"
    have loop: "read_gens C dir mx cur es bytes crcs =
        (if length es1 < mx \<and> (length content \<le> unat (cur_offset (fst r)) \<or> cur_offset (fst r) = cur_offset cur)
         then case next_gen dir (fst r) of
                Some g \<Rightarrow> read_gens C dir mx (cursor_new g 0) es1 (bytes + wbt_bytes_read (snd r)) (crcs + wbt_crc_failures (snd r))
              | None \<Rightarrow> (fst r, es1, bytes + wbt_bytes_read (snd r), crcs + wbt_crc_failures (snd r))
         else (fst r, es1, bytes + wbt_bytes_read (snd r), crcs + wbt_crc_failures (snd r)))"
      unfolding es1_def using content
      by (subst read_gens.simps) (auto simp: Let_def not_le not_less simp flip: r_def)
    show ?thesis
    proof (cases "\<exists>g. length es1 < mx \<and> (length content \<le> unat (cur_offset (fst r)) \<or> cur_offset (fst r) = cur_offset cur) \<and>
        next_gen dir (fst r) = Some g")
      case True
      then obtain g where g: "next_gen dir (fst r) = Some g" by blast
      have "delivers C dir mx es1 (cursor_new g 0) es' cur'"
        using "1.IH"(3) [OF content(1), of r] content(2) g True "1.prems" loop d(1)
        by (simp add: r_def es1_def not_le)
      with delivers_hop [OF g, of cur es1 C es mx es' cur'] d(2) True show ?thesis
        by (simp add: r_def es1_def)
    next
      case False
      then have res: "cur' = fst r" "es' = es1"
        using "1.prems"(3) unfolding loop by (auto split: if_splits option.splits)
      have "pending C dir cur = []" if "fst r = cur" "length es < mx"
      proof -
        have "wbt_entries (snd r) = []" using d(3) that by blast
        with that False have "length es1 < mx" "next_gen dir cur = None" by (auto simp: es1_def)
        with d(2) \<open>wbt_entries (snd r) = []\<close> show ?thesis
          by (simp add: es1_def next_gen_after split: list.splits)
      qed
      with d(1) res show ?thesis by (simp add: es1_def)
    qed
  qed
qed



section \<open>Appending\<close>

text \<open>Deserialising what was serialised gives the ops back, and no payload exceeds the length field.\<close>

definition codec_ok :: "'v wal_codec \<Rightarrow> bool" where
  "codec_ok C \<longleftrightarrow> (\<forall>ops bs. wl_to_vec C ops = Some bs \<longrightarrow> wl_from_slice C bs = Some ops)"

definition batch_fits :: "'v wal_codec \<Rightarrow> 'v entity_ops list \<Rightarrow> bool" where
  "batch_fits C batch \<longleftrightarrow>
     (\<forall>e \<in> set batch. case wl_to_vec C (eo_ops e) of None \<Rightarrow> True | Some bs \<Rightarrow> length bs < 2 ^ 32)"

lemma encode_length: "length (encode_record C i cs j) = 17 + length j"
  by (simp add: encode_record_def Let_def)

lemma encode_frame_len: "length j < 2 ^ 32 \<Longrightarrow> frame_len (encode_record C i cs j) = 17 + length j"
  by (simp add: frame_len_def encode_record_def Let_def unat_of_nat take_bit_nat_eq_self)

lemma encode_frames:
  assumes "length j < 2 ^ 32"
  shows "frames (encode_record C i cs j) = [encode_record C i cs j]" and "tail_of (encode_record C i cs j) = []"
proof -
  have "has_frame (encode_record C i cs j)"
    using encode_frame_len [OF assms, of C i cs] by (simp add: has_frame_def encode_length)
  then show "frames (encode_record C i cs j) = [encode_record C i cs j]" "tail_of (encode_record C i cs j) = []"
    using encode_frame_len [OF assms, of C i cs]
    by (simp_all add: frames_step tail_step tail_of_def encode_length)
qed

lemma decode_encode:
  assumes "wl_from_slice C j = Some ops"
  shows "decode_frame C (encode_record C i cs j) = Some \<lparr>eo_entity_id = i, eo_ops = ops, eo_creates_slot = cs\<rparr>"
proof -
  define flags :: u8 where "flags = (if cs then FLAG_CREATES_SLOT else 0)"
  define crc where "crc = wl_crc C (to_le_bytes 8 i @ [flags] @ j)"
  define n :: u32 where "n = of_nat (length j)"
  have e: "encode_record C i cs j = to_le_bytes 4 n @ to_le_bytes 8 i @ [flags] @ j @ to_le_bytes 4 crc"
    by (simp add: encode_record_def Let_def flags_def crc_def n_def)
  have "length (encode_record C i cs j) - 4 = 13 + length j" by (simp add: encode_length)
  then show ?thesis
    using assms unfolding decode_frame_def e by (simp add: slice_def crc_def flags_def FLAG_CREATES_SLOT_def nth_append)
qed

text \<open>The entries of a batch before the first one that cannot be serialised, and the bytes that
  reach the file if the write stops after \<open>k\<close> of them.\<close>

definition written :: "'v wal_codec \<Rightarrow> 'v entity_ops list \<Rightarrow> 'v entity_ops list" where
  "written C batch = takeWhile (\<lambda>e. wl_to_vec C (eo_ops e) \<noteq> None) batch"

lemma write_entries_Cons:
  assumes "codec_ok C" and "batch_fits C (e # batch)" and "wl_to_vec C (eo_ops e) = Some j"
  defines "bytes \<equiv> encode_record C (eo_entity_id e) (eo_creates_slot e) j"
  shows "frames bytes = [bytes]" "tail_of bytes = []" "decode_frame C bytes = Some e"
    "fst (write_entries C (e # batch) n) =
      bytes @ fst (write_entries C batch (n + of_nat (HEADER_SIZE + length j + CRC_SIZE)))"
proof -
  have small: "length j < 2 ^ 32"
    using assms(2,3) by (auto simp: batch_fits_def)
  show "frames bytes = [bytes]" "tail_of bytes = []"
    unfolding bytes_def by (rule encode_frames [OF small])+
  show "decode_frame C bytes = Some e"
    using assms(1,3) unfolding bytes_def by (subst decode_encode) (auto simp: codec_ok_def)
  show "fst (write_entries C (e # batch) n) =
      bytes @ fst (write_entries C batch (n + of_nat (HEADER_SIZE + length j + CRC_SIZE)))"
    using assms(3) by (simp add: bytes_def Let_def split: prod.split)
qed

lemma batch_fits_Cons: "batch_fits C (e # batch) \<Longrightarrow> batch_fits C batch"
  by (simp add: batch_fits_def)

lemma write_entries_log:
  assumes "codec_ok C" and "batch_fits C batch"
  shows "tail_of (fst (write_entries C batch n)) = [] \<and> record_log C (fst (write_entries C batch n)) = written C batch"
  using assms(2)
proof (induction batch arbitrary: n)
  case Nil
  then show ?case by (simp add: tail_of_def record_log_def List.map_filter_def written_def)
next
  case (Cons e batch)
  show ?case
  proof (cases "wl_to_vec C (eo_ops e)")
    case None
    then show ?thesis by (simp add: tail_of_def record_log_def List.map_filter_def written_def)
  next
    case (Some j)
    note w = write_entries_Cons [OF assms(1) Cons.prems Some]
    show ?thesis
      unfolding w(4) using frames_append [OF w(2)] Cons.IH [OF batch_fits_Cons [OF Cons.prems]] Some
      by (simp add: record_log_def w(1,3) map_filter_simps written_def)
  qed
qed

lemma torn_no_frame:
  assumes "frames bytes = [bytes]" and "n < length bytes"
  shows "frames (take n bytes) = []"
proof -
  have "has_frame bytes" using assms(1) by (metis frames_stop list.distinct(1))
  with assms(1) have "frame_len bytes = length bytes"
    by (simp add: frames_step has_frame_def)
  then have "\<not> has_frame (take n bytes)"
    using assms(2) by (auto simp: has_frame_def frame_len_def min_def)
  then show ?thesis by (rule frames_stop)
qed

lemma write_entries_torn:
  assumes "codec_ok C" and "batch_fits C batch"
  shows "\<exists>k. record_log C (take n (fst (write_entries C batch m))) = take k batch"
  using assms(2)
proof (induction batch arbitrary: n m)
  case Nil
  then show ?case by (simp add: record_log_def List.map_filter_def)
next
  case (Cons e batch)
  show ?case
  proof (cases "wl_to_vec C (eo_ops e)")
    case None
    then show ?thesis by (intro exI [of _ 0]) (simp add: record_log_def List.map_filter_def)
  next
    case (Some j)
    note w = write_entries_Cons [OF assms(1) Cons.prems Some]
    let ?enc = "encode_record C (eo_entity_id e) (eo_creates_slot e) j"
    show ?thesis
    proof (cases "n < length ?enc")
      case True
      then show ?thesis
        unfolding w(4) by (intro exI [of _ 0]) (simp add: record_log_def torn_no_frame [OF w(1)] List.map_filter_def)
    next
      case False
      then obtain k where "record_log C (take (n - length ?enc) (fst (write_entries C batch (m + of_nat (HEADER_SIZE + length j + CRC_SIZE))))) =
          take k batch"
        using Cons.IH [OF batch_fits_Cons [OF Cons.prems]] by blast
      with False show ?thesis
        unfolding w(4) using frames_append [OF w(2)]
        by (intro exI [of _ "Suc k"]) (simp add: record_log_def w(1,3) map_filter_simps)
    qed
  qed
qed

lemma record_log_append:
  "tail_of a = [] \<Longrightarrow> record_log C (a @ b) = record_log C a @ record_log C b"
  by (simp add: record_log_def frames_append List.map_filter_def)


section \<open>File names\<close>

lemma parse_filename [simp]: "parse_generation (wal_filename g) = Some g"
proof -
  have name: "wal_filename g = ''ops_'' @ (zero_pad 6 (show_nat (unat g)) @ ''.wal'')"
    by (simp add: wal_filename_def)
  have "wal_filename g \<noteq> ''ops.wal''" by (simp add: wal_filename_def)
  moreover have "strip_prefix ''ops_'' (wal_filename g) = Some (zero_pad 6 (show_nat (unat g)) @ ''.wal'')"
    unfolding name by (rule strip_prefix_append)
  moreover have "parse_word (zero_pad 6 (show_nat (unat g))) = Some g"
    using unsigned_less [of g] by (simp add: parse_word_def)
  ultimately show ?thesis
    by (simp add: parse_generation_def)
qed

lemma filename_inj [simp]: "wal_filename g = wal_filename h \<longleftrightarrow> g = h"
  by (metis option.inject parse_filename)

lemma filename_not_legacy [simp]: "wal_filename g \<noteq> ''ops.wal''" "''ops.wal'' \<noteq> wal_filename g"
  by (simp_all add: wal_filename_def)

lemma set_generations: "set (list_generations dir) = {g. \<exists>name \<in> fst ` set dir. parse_generation name = Some g}"
  by (force simp: list_generations_def in_map_filter)

lemma parse_gen_path [simp]: "parse_generation (gen_path dir g) = Some g"
  by (simp add: gen_path_def parse_generation_def [of "''ops.wal''"])

lemma gen_path_inj: "gen_path dir g = gen_path dir h \<Longrightarrow> g = h"
  by (metis option.inject parse_gen_path)

lemma gens_after_set:
  assumes "set (list_generations dir') = set (list_generations dir)"
  shows "gens_after dir' c = gens_after dir c"
proof -
  have "remdups (list_generations dir') = remdups (list_generations dir)"
    using assms by (intro sorted_distinct_set_unique) (auto simp: sorted_remdups sorted_gens)
  then show ?thesis by (simp add: gens_after_def)
qed

lemma gens_after_snoc:
  assumes "set (list_generations dir') = insert w (set (list_generations dir))"
    and "\<forall>g \<in> set (list_generations dir). g < w" and "c < w"
  shows "gens_after dir' c = gens_after dir c @ [w]"
proof -
  have "remdups (list_generations dir') = remdups (list_generations dir) @ [w]"
    using assms(1,2) by (intro sorted_distinct_set_unique) (auto simp: sorted_remdups sorted_gens sorted_append less_imp_le)
  with assms(3) show ?thesis by (simp add: gens_after_def)
qed



section \<open>Writer and reader together\<close>

definition wal_inv :: "wal_dir \<Rightarrow> u32 \<Rightarrow> wal_cursor \<Rightarrow> bool" where
  "wal_inv dir w cur \<longleftrightarrow>
     w \<noteq> 0 \<and> (\<forall>g \<in> set (list_generations dir). g \<le> w) \<and> cur_generation cur \<le> w \<and> cursor_clean dir w cur"

lemma gen_file_filename: "w \<noteq> 0 \<Longrightarrow> gen_file dir w = file_of dir (wal_filename w)"
  by (simp add: gen_file_def gen_path_def)

lemma gen_file_missing: "g \<notin> set (list_generations dir) \<Longrightarrow> gen_file dir g = []"
proof -
  have "hm_get dir (gen_path dir g) = None" if "g \<notin> set (list_generations dir)"
    using that unfolding set_generations map_of_eq_None_iff by (metis (mono_tags) mem_Collect_eq parse_gen_path)
  then show "g \<notin> set (list_generations dir) \<Longrightarrow> gen_file dir g = []"
    by (simp add: gen_file_def file_of_def)
qed

lemma gens_after_upto:
  assumes "\<forall>g \<in> set (list_generations dir). g \<le> w" and "c < w"
  shows "concat (map f (gens_after dir c)) =
    concat (map f (filter (\<lambda>g. g < w) (gens_after dir c))) @ (if w \<in> set (list_generations dir) then f w else [])"
proof -
  define ys where "ys = filter (\<lambda>g. g < w) (gens_after dir c)"
  have eq: "gens_after dir c = ys @ (if w \<in> set (list_generations dir) then [w] else [])"
    unfolding ys_def using assms
    by (intro sorted_distinct_set_unique)
      (auto simp: gens_after_def sorted_wrt_filter sorted_gens sorted_append less_imp_le less_le)
  show ?thesis unfolding ys_def [symmetric] by (simp add: eq)
qed

lemma file_of_insert: "file_of (hm_insert p b dir) q = (if q = p then b else file_of dir q)"
  by (simp add: file_of_def)

lemma gen_path_insert: "gen_path (hm_insert (wal_filename w) b dir) g = gen_path dir g"
  by (simp add: gen_path_def)

lemma set_generations_insert:
  "set (list_generations (hm_insert (wal_filename w) b dir)) = insert w (set (list_generations dir))"
  unfolding set_generations by (auto simp: dom_update [unfolded dom_map_of_conv_image_fst] simp flip: dom_map_of_conv_image_fst)

lemma gen_file_insert:
  assumes "w \<noteq> 0"
  shows "gen_file (hm_insert (wal_filename w) b dir) g = (if g = w then b else gen_file dir g)"
proof -
  have "gen_path dir g = wal_filename w \<longleftrightarrow> g = w"
    using assms by (metis gen_path_def option.inject parse_filename parse_gen_path)
  then show ?thesis by (simp add: gen_file_def file_of_insert gen_path_insert)
qed

lemma extend_pending:
  fixes C :: "'v wal_codec" and bytes :: "u8 list"
  assumes inv: "wal_inv dir w cur"
  defines "dir' \<equiv> hm_insert (wal_filename w) (file_of dir (wal_filename w) @ bytes) dir"
  shows "pending C dir' cur = pending C dir cur @ record_log C bytes"
    and "tail_of bytes = [] \<Longrightarrow> wal_inv dir' w cur"
proof -
  have w: "w \<noteq> 0" and old: "\<forall>g \<in> set (list_generations dir). g \<le> w"
    and clean: "tail_of (gen_file dir w) = []" using inv by (auto simp: wal_inv_def cursor_clean_def)
  have gfile: "gen_file dir' g = (if g = w then gen_file dir w @ bytes else gen_file dir g)" for g
    unfolding dir'_def by (simp add: gen_file_insert w gen_file_filename)
  have gens: "set (list_generations dir') = insert w (set (list_generations dir))"
    unfolding dir'_def by (rule set_generations_insert)
  show "pending C dir' cur = pending C dir cur @ record_log C bytes"
  proof (cases "cur_generation cur = w")
    case True
    have none: "gens_after dir' w = []" "gens_after dir w = []"
      using old by (auto simp: gens_after_def filter_empty_conv gens not_less)
    have "unat (cur_offset cur) \<le> length (gen_file dir w)"
      "tail_of (drop (unat (cur_offset cur)) (gen_file dir w)) = []"
      using inv True by (auto simp: wal_inv_def cursor_clean_def)
    then show ?thesis
      by (simp add: pending_def True none gfile record_log_append)
  next
    case False
    then have c: "cur_generation cur < w" using inv by (simp add: wal_inv_def less_le)
    have same: "filter (\<lambda>g. g < w) (gens_after dir' (cur_generation cur)) = filter (\<lambda>g. g < w) (gens_after dir (cur_generation cur))"
      by (intro sorted_distinct_set_unique)
        (auto simp: gens_after_def sorted_wrt_filter sorted_remdups sorted_gens gens)
    have logs: "map (\<lambda>g. record_log C (gen_file dir' g)) (filter (\<lambda>g. g < w) (gens_after dir (cur_generation cur))) =
        map (\<lambda>g. record_log C (gen_file dir g)) (filter (\<lambda>g. g < w) (gens_after dir (cur_generation cur)))"
      by (auto simp: gfile)
    have here: "gen_file dir' w = gen_file dir w @ bytes"
      "gen_file dir' (cur_generation cur) = gen_file dir (cur_generation cur)"
      using False by (simp_all add: gfile)
    have "w \<notin> set (list_generations dir) \<Longrightarrow> record_log C (gen_file dir w) = []"
      by (simp add: gen_file_missing record_log_def List.map_filter_def)
    then show ?thesis
      using gens_after_upto [of dir' w "cur_generation cur" "\<lambda>g. record_log C (gen_file dir' g)"]
        gens_after_upto [of dir w "cur_generation cur" "\<lambda>g. record_log C (gen_file dir g)"] old c gens False clean
      by (auto simp: pending_def same logs here record_log_append)
  qed
  show "wal_inv dir' w cur" if "tail_of bytes = []"
    using inv that frames_append [OF clean, of bytes]
      frames_append [of "drop (unat (cur_offset cur)) (gen_file dir w)" bytes]
    by (auto simp: wal_inv_def cursor_clean_def gens gfile)
qed


lemma rotate_inv:
  assumes inv: "wal_inv dir (ww_generation w) cur" and room: "ww_generation w \<noteq> u32_MAX"
  shows "wal_inv dir (ww_generation (rotate_writer w dir)) cur"
proof (cases "rotate_writer w dir = w")
  case True
  with inv show ?thesis by simp
next
  case False
  then have new: "ww_generation (rotate_writer w dir) = ww_generation w + 1"
    by (auto simp: rotate_writer_def split: if_splits)
  have less: "x \<le> ww_generation w \<Longrightarrow> x < ww_generation w + 1" for x
    using room by (simp add: less_u32_succ)
  have "gen_file dir (ww_generation w + 1) = []"
    using inv less by (intro gen_file_missing) (force simp: wal_inv_def)
  moreover have "ww_generation w + 1 \<noteq> 0" using less [of "ww_generation w"] by auto
  ultimately show ?thesis
    using inv less unfolding new by (force simp: wal_inv_def cursor_clean_def tail_of_def less_imp_le)
qed

lemma append_inv:
  assumes inv: "wal_inv dir (ww_generation w) cur" and room: "ww_generation w \<noteq> u32_MAX"
    and codec: "codec_ok C" and fits: "batch_fits C batch" and step: "append_batch C w dir batch = (dir', w', res)"
  shows "wal_inv dir' (ww_generation w') cur \<and> pending C dir' cur = pending C dir cur @ written C batch"
proof (cases "batch = []")
  case True
  with inv step show ?thesis by (simp add: append_batch_def written_def)
next
  case False
  let ?bytes = "fst (write_entries C batch 0)"
  have dir': "dir' = hm_insert (wal_filename (ww_generation w'))
      (file_of dir (wal_filename (ww_generation w')) @ ?bytes) dir" "w' = rotate_writer w dir"
    using step False by (auto simp: append_batch_def Let_def split: prod.splits)
  note ext = extend_pending [OF rotate_inv [OF inv room, folded dir'(2)], where bytes = ?bytes, folded dir'(1)]
  show ?thesis
    using ext(1) [of C] ext(2) write_entries_log [OF codec fits, of 0] by simp
qed


text \<open>Deleting generations below a bound leaves the others as they are.\<close>

definition same_from :: "u32 \<Rightarrow> wal_dir \<Rightarrow> wal_dir \<Rightarrow> bool" where
  "same_from d dir dir' \<longleftrightarrow>
     (\<forall>g \<ge> d. gen_file dir' g = gen_file dir g \<and>
        (g \<in> set (list_generations dir') \<longleftrightarrow> g \<in> set (list_generations dir))) \<and>
     set (list_generations dir') \<subseteq> set (list_generations dir)"

lemma set_generations_dom:
  "g \<in> set (list_generations dir) \<longleftrightarrow> (\<exists>name b. hm_get dir name = Some b \<and> parse_generation name = Some g)"
proof -
  have "g \<in> set (list_generations dir) \<longleftrightarrow> (\<exists>name \<in> dom (hm_get dir). parse_generation name = Some g)"
    by (simp add: set_generations dom_map_of_conv_image_fst)
  then show ?thesis by (simp add: dom_def)
qed

lemma remove_same_from:
  assumes "x < d"
  shows "same_from d dir (hm_remove (gen_path dir x) dir)"
proof -
  let ?dir' = "hm_remove (gen_path dir x) dir"
  have sub: "set (list_generations ?dir') \<subseteq> set (list_generations dir)"
    by (auto simp: set_generations_dom split: if_splits) blast
  have "gen_file ?dir' g = gen_file dir g \<and> (g \<in> set (list_generations ?dir') \<longleftrightarrow> g \<in> set (list_generations dir))" if "d \<le> g" for g
  proof -
    have "g \<noteq> 0" "g \<noteq> x" using that assms by auto
    have "gen_path ?dir' g = gen_path dir g" using \<open>g \<noteq> 0\<close> by (simp add: gen_path_def)
    moreover have "gen_path dir g \<noteq> gen_path dir x" using \<open>g \<noteq> x\<close> gen_path_inj by blast
    ultimately have file_eq: "gen_file ?dir' g = gen_file dir g" by (simp add: gen_file_def file_of_def)
    have "hm_get ?dir' name = Some b \<and> parse_generation name = Some g \<longleftrightarrow>
        hm_get dir name = Some b \<and> parse_generation name = Some g" for name b
      using \<open>g \<noteq> x\<close> by (cases "name = gen_path dir x") auto
    then show ?thesis using file_eq by (simp only: set_generations_dom)
  qed
  with sub show ?thesis by (simp add: same_from_def)
qed

lemma delete_same_from: "same_from d dir (delete_gens_below dir d)"
proof -
  have "same_from d dir (fold (\<lambda>g dir. if g < d then hm_remove (gen_path dir g) dir else dir) gs dir')"
    if "same_from d dir dir'" for gs dir'
    using that
  proof (induction gs arbitrary: dir')
    case Nil
    then show ?case by simp
  next
    case (Cons g gs)
    have "same_from d dir (hm_remove (gen_path dir' g) dir')" if "g < d"
      using Cons.prems remove_same_from [OF that, of dir'] by (auto simp: same_from_def)
    with Cons show ?case by simp
  qed
  moreover have "same_from d dir dir" by (simp add: same_from_def)
  ultimately show ?thesis by (simp add: delete_gens_below_def)
qed

lemma same_from_pending:
  assumes same: "same_from d dir dir'" and d: "d \<le> cur_generation cur"
  shows "pending C dir' cur = pending C dir cur"
proof -
  have "gens_after dir' (cur_generation cur) = gens_after dir (cur_generation cur)"
    using same d
    by (intro sorted_distinct_set_unique)
      (auto simp: gens_after_def sorted_wrt_filter sorted_gens same_from_def)
  moreover have "gen_file dir' g = gen_file dir g" if "cur_generation cur \<le> g" for g
    using that same d by (auto simp: same_from_def)
  ultimately show ?thesis
    by (auto simp: pending_def gens_after_def less_imp_le intro!: arg_cong [of _ _ concat] map_cong)
qed

lemma same_from_inv: "same_from d dir dir' \<Longrightarrow> d \<le> cur_generation cur \<Longrightarrow> wal_inv dir w cur \<Longrightarrow> wal_inv dir' w cur"
  by (auto simp: wal_inv_def cursor_clean_def same_from_def)

lemma cursor_roundtrip [simp]: "load_cursor (Some (cursor_serialize cur)) = cur"
proof -
  let ?g = "show_word (cur_generation cur)" and ?o = "show_word (cur_offset cur)"
  have "trim_str (cursor_serialize cur) = cursor_serialize cur"
    unfolding cursor_serialize_def by (intro trim_str_same) auto
  moreover have "split_once CHR '':'' (cursor_serialize cur) = Some (?g, ?o)"
    by (simp add: cursor_serialize_def split_once_append)
  ultimately show ?thesis
    by (simp add: load_cursor_def cursor_parse_def or_zero_def)
qed


section \<open>Histories of the log\<close>

text \<open>
  A history of one writer and one reader: appends (with the entries that were written, all of
  them unless serialisation failed), reads, the deletion of generations before the cursor, and a
  restart that opens the directory again and loads the cursor from its file.  \<open>sent\<close> and \<open>got\<close>
  are the entries written and read so far.
\<close>

inductive wal_run ::
    "'v wal_codec \<Rightarrow> wal_dir \<Rightarrow> wal_writer \<Rightarrow> wal_cursor \<Rightarrow> 'v entity_ops list \<Rightarrow> 'v entity_ops list \<Rightarrow> bool" for C where
  start: "wal_run C [] (ww_with_rotation_size [] rs) (cursor_new 0 0) [] []"
| append: "wal_run C dir w cur sent got \<Longrightarrow> ww_generation w \<noteq> u32_MAX \<Longrightarrow> batch_fits C batch \<Longrightarrow>
    append_batch C w dir batch = (dir', w', res) \<Longrightarrow> wal_run C dir' w' cur (sent @ written C batch) got"
| read: "wal_run C dir w cur sent got \<Longrightarrow> files_small dir \<Longrightarrow>
    read_batch C dir cur mx = (cur', b) \<Longrightarrow> wal_run C dir w cur' sent (got @ wbt_entries b)"
| cleanup: "wal_run C dir w cur sent got \<Longrightarrow> durable \<le> cur_generation cur \<Longrightarrow>
    wal_run C (delete_gens_below dir durable) w cur sent got"
| restart: "wal_run C dir w cur sent got \<Longrightarrow>
    wal_run C dir (ww_with_rotation_size dir rs) (load_cursor (Some (cursor_serialize cur))) sent got"

definition writer_last :: "wal_dir \<Rightarrow> wal_writer \<Rightarrow> bool" where
  "writer_last dir w \<longleftrightarrow>
     (if set (list_generations dir) = {} then ww_generation w = 1 else ww_generation w \<in> set (list_generations dir))"

lemma sorted_le_last: "sorted xs \<Longrightarrow> x \<in> set xs \<Longrightarrow> x \<le> last xs"
  by (induction xs) (auto split: if_splits)

lemma restart_generation:
  assumes "wal_inv dir (ww_generation w) cur" and "writer_last dir w"
  shows "ww_generation (ww_with_rotation_size dir rs) = ww_generation w"
proof (cases "list_generations dir = []")
  case True
  with assms show ?thesis by (simp add: writer_last_def ww_with_rotation_size_def)
next
  case False
  have "last (list_generations dir) = ww_generation w"
  proof (rule antisym)
    show "last (list_generations dir) \<le> ww_generation w"
      using assms(1) False by (simp add: wal_inv_def)
    have "ww_generation w \<in> set (list_generations dir)"
      using assms(2) False by (simp add: writer_last_def)
    with sorted_gens [of dir] show "ww_generation w \<le> last (list_generations dir)"
      by (rule sorted_le_last)
  qed
  moreover have "1 \<le> ww_generation w" using assms(1) by (simp add: wal_inv_def word_le_nat_alt Suc_le_eq unat_gt_0)
  ultimately show ?thesis using False by (simp add: ww_with_rotation_size_def Let_def max_def)
qed


lemma wal_run_inv:
  assumes codec: "codec_ok C" and run: "wal_run C dir w cur sent got"
  shows "wal_inv dir (ww_generation w) cur \<and> writer_last dir w \<and> got @ pending C dir cur = sent"
  using run
proof (induction rule: wal_run.induct)
  case (start rs)
  have "ww_generation (ww_with_rotation_size [] rs) = 1"
    by (simp add: ww_with_rotation_size_def list_generations_def List.map_filter_def)
  then show ?case
    by (simp add: wal_inv_def writer_last_def cursor_clean_def cursor_new_def pending_def gen_file_def file_of_def
        list_generations_def List.map_filter_def gens_after_def tail_of_def record_log_def)
next
  case (append dir w cur sent got batch dir' w' res)
  have "writer_last dir' w'"
  proof (cases "batch = []")
    case True
    with append show ?thesis by (simp add: append_batch_def)
  next
    case False
    with append.hyps(4) have "ww_generation w' \<in> set (list_generations dir')"
      by (auto simp: append_batch_def Let_def set_generations_insert split: prod.splits)
    then show ?thesis by (auto simp: writer_last_def)
  qed
  with append append_inv [OF _ append.hyps(2) codec append.hyps(3,4), of cur] show ?case by auto
next
  case (read dir w cur sent got mx cur' b)
  obtain es bytes crcs where r: "read_gens C dir mx cur [] 0 0 = (cur', es, bytes, crcs)" "wbt_entries b = es"
    using read.hyps(3) by (auto simp: read_batch_def split: prod.splits)
  note d = conjunct1 [OF read_gens_delivers [OF read.hyps(2) _ r(1)], simplified]
  have "cur_generation cur' \<le> ww_generation w"
    using d read.IH by (auto simp: delivers_def wal_inv_def)
  with d read.IH r(2) show ?case by (auto simp: delivers_def wal_inv_def)
next
  case (cleanup dir w cur sent got durable)
  note same = delete_same_from [of durable dir]
  have "durable \<le> ww_generation w" using cleanup by (auto simp: wal_inv_def)
  then have "writer_last (delete_gens_below dir durable) w"
    using cleanup.IH same by (auto simp: writer_last_def same_from_def split: if_splits)
  with cleanup same_from_inv [OF same] same_from_pending [OF same cleanup.hyps(2), of C] show ?case by simp
next
  case (restart dir w cur sent got rs)
  then show ?case using restart_generation [of dir w cur rs] by (simp add: writer_last_def)
qed

text \<open>Reading until enough batches were taken.\<close>

fun wal_drain :: "'v wal_codec \<Rightarrow> wal_dir \<Rightarrow> nat \<Rightarrow> nat \<Rightarrow> wal_cursor \<Rightarrow> 'v entity_ops list" where
  "wal_drain C dir mx 0 cur = []"
| "wal_drain C dir mx (Suc n) cur =
     (let (cur', b) = read_batch C dir cur mx in wbt_entries b @ wal_drain C dir mx n cur')"


lemma wal_drain_pending:
  assumes small: "files_small dir" and mx: "0 < mx"
  shows "wal_left dir cur < n \<Longrightarrow> wal_drain C dir mx n cur = pending C dir cur"
proof (induction n arbitrary: cur)
  case 0
  then show ?case by simp
next
  case (Suc n)
  obtain cur' es bytes crcs where r: "read_gens C dir mx cur [] 0 0 = (cur', es, bytes, crcs)"
    by (cases "read_gens C dir mx cur [] 0 0")
  note d = read_gens_delivers [OF small _ r, simplified]
  have drain: "wal_drain C dir mx (Suc n) cur = es @ wal_drain C dir mx n cur'"
    by (simp add: read_batch_def r)
  show ?case
  proof (cases "cur' = cur")
    case True
    have "wal_drain C dir mx k cur = []" for k
      using d mx r True by (induction k) (auto simp: delivers_def read_batch_def)
    with d mx True show ?thesis unfolding drain by (auto simp: delivers_def)
  next
    case False
    with d Suc have "wal_left dir cur' < n" by (auto simp: delivers_def)
    from Suc.IH [OF this] d show ?thesis unfolding drain by (simp add: delivers_def)
  qed
qed

text \<open>C7: the log is a queue.  In every history of appends, reads, clean-ups and restarts, what was
  read is a prefix of what was written, in order and without repetition, across rotations; and
  enough further reads of any positive size deliver exactly the rest.\<close>

theorem wal_fifo:
  assumes "codec_ok C" and "wal_run C dir w cur sent got" and "files_small dir" and "0 < mx"
  shows "got @ wal_drain C dir mx (Suc (wal_left dir cur)) cur = sent"
  using wal_run_inv [OF assms(1,2)] wal_drain_pending [OF assms(3,4), of cur "Suc (wal_left dir cur)" C] by simp

text \<open>A codec for the witnesses: it serialises only empty lists of ops.\<close>

definition empty_codec :: "nat wal_codec" where
  "empty_codec = \<lparr>wl_to_vec = \<lambda>ops. if ops = [] then Some [] else None,
     wl_from_slice = \<lambda>bs. if bs = [] then Some [] else None,
     wl_crc = \<lambda>bs. 7 + of_nat (sum_list (map unat bs))\<rparr>"

lemma empty_codec_ok: "codec_ok empty_codec" "batch_fits empty_codec batch"
  by (auto simp: codec_ok_def batch_fits_def empty_codec_def split: option.splits if_splits)

definition sample_entries :: "nat entity_ops list" where
  "sample_entries = [eo_new 5 [], eo_with_alive 9 []]"

definition sample_wal :: "wal_dir \<times> wal_writer \<times> (io_error + u64)" where
  "sample_wal = append_batch empty_codec (ww_with_rotation_size [] 30) [] sample_entries"

theorem wal_fifo_witness:
  "[] @ wal_drain empty_codec (fst sample_wal) 1 (Suc (wal_left (fst sample_wal) (cursor_new 0 0))) (cursor_new 0 0) =
     sample_entries"
proof -
  obtain dir w res where wal: "sample_wal = (dir, w, res)" by (cases sample_wal)
  have room: "ww_generation (ww_with_rotation_size [] 30) \<noteq> u32_MAX"
    by (simp add: ww_with_rotation_size_def list_generations_def List.map_filter_def u32_MAX_def)
  have "wal_run empty_codec dir w (cursor_new 0 0) ([] @ written empty_codec sample_entries) []"
    by (rule wal_run.append [OF wal_run.start room empty_codec_ok(2)]) (use wal in \<open>simp add: sample_wal_def\<close>)
  moreover have "written empty_codec sample_entries = sample_entries"
    by (simp add: written_def sample_entries_def eo_new_def eo_with_alive_def empty_codec_def)
  moreover have "files_small dir"
  proof -
    have "fst sample_wal = [(wal_filename 1, fst (write_entries empty_codec sample_entries 0))]"
      by (simp add: sample_wal_def append_batch_def sample_entries_def rotate_writer_def file_of_def
          ww_with_rotation_size_def list_generations_def List.map_filter_def Let_def split: prod.split)
    moreover have "length (fst (write_entries empty_codec sample_entries 0)) < 2 ^ 64"
      by (simp add: sample_entries_def eo_new_def eo_with_alive_def empty_codec_def encode_length split: prod.split)
    ultimately show ?thesis by (simp add: wal files_small_def file_of_def)
  qed
  ultimately show ?thesis
    using wal_fifo [OF empty_codec_ok(1), of dir w "cursor_new 0 0" sample_entries "[]" 1] by (simp add: wal)
qed

text \<open>An append whose write stopped after \<open>n\<close> bytes.\<close>

definition crashed_append :: "'v wal_codec \<Rightarrow> wal_writer \<Rightarrow> wal_dir \<Rightarrow> 'v entity_ops list \<Rightarrow> nat \<Rightarrow> wal_dir" where
  "crashed_append C w dir batch n =
     (let path = wal_filename (ww_generation (rotate_writer w dir))
      in hm_insert path (file_of dir path @ take n (fst (write_entries C batch 0))) dir)"



text \<open>
  After such a crash the writer opens the same generation again and appends behind the torn
  record.  The reader takes the first bytes of the new record for the rest of the torn one and
  loses the new entry, although its append succeeded.
\<close>

definition torn_wal :: wal_dir where
  "torn_wal = [(wal_filename 1, take 13 (fst (write_entries empty_codec [eo_new 5 []] 0)))]"

definition torn_then_appended :: "wal_dir \<times> wal_writer \<times> (io_error + u64)" where
  "torn_then_appended = append_batch empty_codec (ww_with_rotation_size torn_wal 100) torn_wal [eo_new 9 []]"

lemma sample_bytes:
  "fst (write_entries empty_codec [eo_new 5 []] 0) = [0, 0, 0, 0, 5, 0, 0, 0, 0, 0, 0, 0, 0, 12, 0, 0, 0]"
  "write_entries empty_codec [eo_new 9 []] 0 = ([0, 0, 0, 0, 9, 0, 0, 0, 0, 0, 0, 0, 0, 16, 0, 0, 0], Inr 17)"
  by (simp_all add: empty_codec_def eo_new_def encode_record_def to_le_bytes_def upt_rec HEADER_SIZE_def CRC_SIZE_def)

lemma torn_content:
  "torn_wal = [(wal_filename 1, [0, 0, 0, 0, 5, 0, 0, 0, 0, 0, 0, 0, 0])]"
  unfolding torn_wal_def sample_bytes by simp

lemma torn_tail_loses_append:
  "snd (snd torn_then_appended) = Inr 17 \<and> pending empty_codec (fst torn_then_appended) (cursor_new 0 0) = []"
proof -
  have gens: "list_generations [(wal_filename 1, b)] = [1]" for b
    by (simp add: list_generations_def map_filter_simps)
  let ?file = "[0, 0, 0, 0, 5, 0, 0, 0, 0, 0, 0, 0, 0, 0, 0, 0, 0, 9, 0, 0, 0, 0, 0, 0, 0, 0, 16, 0, 0, 0] :: u8 list"
  have step: "torn_then_appended = ([(wal_filename 1, ?file)], \<lparr>ww_generation = 1, ww_rotation_size = 100\<rparr>, Inr 17)"
    unfolding torn_then_appended_def append_batch_def torn_content sample_bytes
    by (simp add: ww_with_rotation_size_def gens rotate_writer_def file_of_def Let_def)
  have "record_log empty_codec ?file = []"
    by (simp add: record_log_def frames.simps has_frame_def frame_len_def decode_frame_def slice_def empty_codec_def
        map_filter_simps)
  then show ?thesis
    by (simp add: step pending_def gens_after_def gens gen_file_def gen_path_def file_of_def cursor_new_def
        record_log_def [of _ "[]"] map_filter_simps)
qed

end
