(* ===== verification/Shard_Store.thy ===== *)
theory Shard_Store
  imports Encoding
begin

text \<open>
  The generic shard store (\<open>shard_store.rs\<close>): one file per shard, holding a header, a snapshot
  section and a log of ops with length prefixes and checksums.

  The traits \<open>SnapshotCodec\<close> and \<open>OpCodec\<close> are the record \<open>shard_codec\<close>, whose laws are the locale
  \<open>shard_codec\<close>; the codecs of the document and of the bitmap store interpret it.  The trait
  \<open>ShardingStrategy\<close> is a function from keys to paths.  The file system is a map from paths to
  contents.  The checksum belongs to the \<open>crc32fast\<close> crate and is a field of the codec.

  A failing call of the source returns an error or panics (a slice out of range); reading the log
  stops at an error and passes a panic on, so the two are kept apart.
\<close>

datatype io_kind = NotFound | UnexpectedEof | BadData

datatype io_fault = IoErr io_kind | Panicked

type_synonym 'a io = "io_fault + 'a"

definition io_bind :: "'a io \<Rightarrow> ('a \<Rightarrow> 'b io) \<Rightarrow> 'b io" where
  "io_bind r f = (case r of Inl e \<Rightarrow> Inl e | Inr x \<Rightarrow> f x)"

lemma io_bind_simps [simp]: "io_bind (Inl e) f = Inl e" "io_bind (Inr x) f = f x"
  by (simp_all add: io_bind_def)

record ('s, 'o) shard_codec =
  cd_encode :: "'s \<Rightarrow> u8 list"
  cd_decode :: "u8 list \<Rightarrow> 's io"
  cd_empty :: 's
  cd_encode_op :: "'o \<Rightarrow> u8 list"
  cd_decode_op :: "u8 list \<Rightarrow> 'o io"
  cd_apply :: "'o \<Rightarrow> 's \<Rightarrow> 's"
  cd_crc :: "u8 list \<Rightarrow> u32"

type_synonym store_dir = "(string, u8 list) hashmap"


section \<open>Files\<close>

definition SHARD_MAGIC :: "u8 list" where "SHARD_MAGIC = [0x42, 0x44, 0x53, 0x53]"
definition SHARD_VERSION :: u32 where "SHARD_VERSION = 1"
definition SHARD_HEADER_SIZE :: nat where "SHARD_HEADER_SIZE = 28"
definition HEADER_OPS_COUNT_OFFSET :: nat where "HEADER_OPS_COUNT_OFFSET = 20"
definition DEFAULT_COMPACT_THRESHOLD :: u32 where "DEFAULT_COMPACT_THRESHOLD = 100000"

record shard_header =
  hd_version :: u32
  hd_ops_section_offset :: u64
  hd_snapshot_len :: u32
  hd_ops_count :: u32
  hd_flags :: u32

definition hd_encode :: "shard_header \<Rightarrow> u8 list" where
  "hd_encode h = SHARD_MAGIC @ to_le_bytes 4 (hd_version h) @ to_le_bytes 8 (hd_ops_section_offset h) @
     to_le_bytes 4 (hd_snapshot_len h) @ to_le_bytes 4 (hd_ops_count h) @ to_le_bytes 4 (hd_flags h)"

definition sub_bytes :: "u8 list \<Rightarrow> nat \<Rightarrow> nat \<Rightarrow> u8 list" where
  "sub_bytes bytes a b = take (b - a) (drop a bytes)"

definition hd_decode :: "u8 list \<Rightarrow> shard_header io" where
  "hd_decode bytes =
     (if length bytes < SHARD_HEADER_SIZE then Inl (IoErr UnexpectedEof)
      else if sub_bytes bytes 0 4 \<noteq> SHARD_MAGIC then Inl (IoErr BadData)
      else let version = from_le_bytes (sub_bytes bytes 4 8)
        in if version \<noteq> SHARD_VERSION then Inl (IoErr BadData)
           else Inr \<lparr>hd_version = version,
                  hd_ops_section_offset = from_le_bytes (sub_bytes bytes 8 16),
                  hd_snapshot_len = from_le_bytes (sub_bytes bytes 16 20),
                  hd_ops_count = from_le_bytes (sub_bytes bytes 20 24),
                  hd_flags = from_le_bytes (sub_bytes bytes 24 28)\<rparr>)"

definition write_op_entry :: "('s, 'o) shard_codec \<Rightarrow> 'o \<Rightarrow> u8 list" where
  "write_op_entry C op =
     (let payload = cd_encode_op C op
      in to_le_bytes 4 (of_nat (length payload) :: u32) @ payload @ to_le_bytes 4 (cd_crc C payload))"

text \<open>The loop of \<open>read_op_entries\<close> on the bytes from the current position on.\<close>

function read_op_entries :: "('s, 'o) shard_codec \<Rightarrow> u8 list \<Rightarrow> 'o list io" where
  "read_op_entries C bytes =
     (if length bytes < 4 then Inr []
      else let payload_len = unat (from_le_bytes (take 4 bytes) :: u32); rest = drop 4 bytes
        in if length rest < payload_len + 4 then Inr []
           else let payload = take payload_len rest;
                    stored_crc = from_le_bytes (take 4 (drop payload_len rest))
             in if stored_crc \<noteq> cd_crc C payload then Inr []
                else (case cd_decode_op C payload of
                        Inl (IoErr _) \<Rightarrow> Inr []
                      | Inl Panicked \<Rightarrow> Inl Panicked
                      | Inr op \<Rightarrow> io_bind (read_op_entries C (drop (payload_len + 4) rest)) (\<lambda>ops. Inr (op # ops))))"
  by pat_completeness auto
termination
  by (relation "measure (\<lambda>(C, bytes). length bytes)") auto

declare read_op_entries.simps [simp del]

definition read_shard_file_raw :: "u8 list \<Rightarrow> (shard_header \<times> u8 list \<times> u8 list) io" where
  "read_shard_file_raw content =
     (if length content < SHARD_HEADER_SIZE then Inl (IoErr UnexpectedEof)
      else io_bind (hd_decode (take SHARD_HEADER_SIZE content)) (\<lambda>header.
        let snapshot_end = SHARD_HEADER_SIZE + unat (hd_snapshot_len header);
            ops_offset = unat (hd_ops_section_offset header)
        in if snapshot_end > length content then Inl (IoErr UnexpectedEof)
           else Inr (header, sub_bytes content SHARD_HEADER_SIZE snapshot_end,
                  if ops_offset \<le> length content then drop ops_offset content else [])))"

text \<open>\<open>Path::with_extension\<close>: the extension starts at the last dot of the file name, unless the
  name starts with it.\<close>

definition with_extension :: "string \<Rightarrow> string \<Rightarrow> string" where
  "with_extension path ext =
     (case dropWhile (\<lambda>c. c \<noteq> CHR ''.'' \<and> c \<noteq> CHR ''/'') (rev path) of
        c # stem \<Rightarrow>
          if c = CHR ''.'' \<and> stem \<noteq> [] \<and> hd stem \<noteq> CHR ''/'' then rev stem @ CHR ''.'' # ext
          else path @ CHR ''.'' # ext
      | [] \<Rightarrow> path @ CHR ''.'' # ext)"

definition new_path :: "string \<Rightarrow> string" where
  "new_path path = with_extension path ''new''"

definition shard_file_bytes :: "shard_header \<Rightarrow> u8 list \<Rightarrow> u8 list \<Rightarrow> u8 list" where
  "shard_file_bytes header snapshot_bytes ops_bytes = hd_encode header @ snapshot_bytes @ ops_bytes"

text \<open>\<open>write_shard_file_atomic\<close>: the bytes go to the \<open>.new\<close> file, which is then renamed.\<close>

definition write_shard_file_atomic :: "string \<Rightarrow> shard_header \<Rightarrow> u8 list \<Rightarrow> u8 list \<Rightarrow> store_dir \<Rightarrow> store_dir" where
  "write_shard_file_atomic path header snapshot_bytes ops_bytes dir =
     (let buf = shard_file_bytes header snapshot_bytes ops_bytes;
          dir = hm_insert (new_path path) buf dir
      in hm_insert path buf (hm_remove (new_path path) dir))"

definition is_valid_shard_file :: "store_dir \<Rightarrow> string \<Rightarrow> bool" where
  "is_valid_shard_file dir path \<longleftrightarrow> (case hm_get dir path of Some content \<Rightarrow> length content \<ge> SHARD_HEADER_SIZE | None \<Rightarrow> False)"

definition write_at :: "nat \<Rightarrow> u8 list \<Rightarrow> u8 list \<Rightarrow> u8 list" where
  "write_at pos bytes content = take pos content @ bytes @ drop (pos + length bytes) content"

definition append_ops_to_shard_opts :: "string \<Rightarrow> u8 list \<Rightarrow> u32 \<Rightarrow> store_dir \<Rightarrow> store_dir \<times> unit io" where
  "append_ops_to_shard_opts path new_ops_bytes additional_count dir =
     (case hm_get dir path of
        None \<Rightarrow> (dir, Inl (IoErr NotFound))
      | Some content \<Rightarrow>
          if length content < SHARD_HEADER_SIZE then (dir, Inl (IoErr UnexpectedEof))
          else case hd_decode (take SHARD_HEADER_SIZE content) of
            Inl e \<Rightarrow> (dir, Inl e)
          | Inr header \<Rightarrow>
              let content = write_at (length content) new_ops_bytes content;
                  content = write_at HEADER_OPS_COUNT_OFFSET (to_le_bytes 4 (hd_ops_count header + additional_count)) content
              in (hm_insert path content dir, Inr ()))"


section \<open>The store\<close>

text \<open>\<open>read\<close> and \<open>read_unlocked\<close> have the same body.\<close>

definition read_content :: "('s, 'o) shard_codec \<Rightarrow> u8 list \<Rightarrow> 's io" where
  "read_content C content =
     io_bind (read_shard_file_raw content) (\<lambda>(header, snapshot_bytes, ops_bytes).
       io_bind (if hd_snapshot_len header > 0 then cd_decode C snapshot_bytes else Inr (cd_empty C)) (\<lambda>snapshot.
         if hd_ops_count header > 0
         then io_bind (read_op_entries C ops_bytes) (\<lambda>ops. Inr (fold (cd_apply C) ops snapshot))
         else Inr snapshot))"

definition store_read :: "('s, 'o) shard_codec \<Rightarrow> store_dir \<Rightarrow> string \<Rightarrow> 's option io" where
  "store_read C dir path =
     (case hm_get dir path of
        None \<Rightarrow> Inr None
      | Some content \<Rightarrow>
          if \<not> is_valid_shard_file dir path then Inr None
          else io_bind (read_content C content) (\<lambda>snapshot. Inr (Some snapshot)))"

definition read_header_at :: "store_dir \<Rightarrow> string \<Rightarrow> shard_header option io" where
  "read_header_at dir path =
     (case hm_get dir path of
        None \<Rightarrow> Inr None
      | Some content \<Rightarrow>
          if length content < SHARD_HEADER_SIZE then Inl (IoErr UnexpectedEof)
          else io_bind (hd_decode (take SHARD_HEADER_SIZE content)) (\<lambda>h. Inr (Some h)))"

definition store_ops_count :: "store_dir \<Rightarrow> string \<Rightarrow> u32 option io" where
  "store_ops_count dir path = io_bind (read_header_at dir path) (\<lambda>h. Inr (map_option hd_ops_count h))"

definition ops_only_header :: "u32 \<Rightarrow> shard_header" where
  "ops_only_header n = \<lparr>hd_version = SHARD_VERSION, hd_ops_section_offset = of_nat SHARD_HEADER_SIZE,
     hd_snapshot_len = 0, hd_ops_count = n, hd_flags = 0\<rparr>"

definition append_ops :: "('s, 'o) shard_codec \<Rightarrow> string \<Rightarrow> 'o list \<Rightarrow> store_dir \<Rightarrow> store_dir \<times> unit io" where
  "append_ops C path ops dir =
     (if ops = [] then (dir, Inr ())
      else let ops_buf = concat (map (write_op_entry C) ops); n = of_nat (length ops)
        in if is_valid_shard_file dir path then append_ops_to_shard_opts path ops_buf n dir
           else (write_shard_file_atomic path (ops_only_header n) [] ops_buf dir, Inr ()))"

definition append_op :: "('s, 'o) shard_codec \<Rightarrow> string \<Rightarrow> 'o \<Rightarrow> store_dir \<Rightarrow> store_dir \<times> unit io" where
  "append_op C path op dir =
     (let ops_buf = write_op_entry C op
      in if is_valid_shard_file dir path then append_ops_to_shard_opts path ops_buf 1 dir
         else (write_shard_file_atomic path (ops_only_header 1) [] ops_buf dir, Inr ()))"

definition snapshot_header :: "u8 list \<Rightarrow> shard_header" where
  "snapshot_header snapshot_bytes =
     \<lparr>hd_version = SHARD_VERSION, hd_ops_section_offset = of_nat SHARD_HEADER_SIZE + of_nat (length snapshot_bytes),
      hd_snapshot_len = of_nat (length snapshot_bytes), hd_ops_count = 0, hd_flags = 0\<rparr>"

definition write_snapshot :: "('s, 'o) shard_codec \<Rightarrow> string \<Rightarrow> 's \<Rightarrow> store_dir \<Rightarrow> store_dir" where
  "write_snapshot C path snapshot dir =
     (let snapshot_bytes = cd_encode C snapshot
      in write_shard_file_atomic path (snapshot_header snapshot_bytes) snapshot_bytes [] dir)"

definition write_snapshots_batch :: "('s, 'o) shard_codec \<Rightarrow> (string \<times> 's) list \<Rightarrow> store_dir \<Rightarrow> store_dir" where
  "write_snapshots_batch C entries dir = fold (\<lambda>(path, snapshot). write_snapshot C path snapshot) entries dir"

definition should_compact :: "store_dir \<Rightarrow> string \<Rightarrow> u32 \<Rightarrow> bool io" where
  "should_compact dir path threshold =
     io_bind (store_ops_count dir path) (\<lambda>c. Inr (case c of Some n \<Rightarrow> n > threshold | None \<Rightarrow> False))"

definition needs_compaction :: "store_dir \<Rightarrow> string \<Rightarrow> u32 \<Rightarrow> bool io" where
  "needs_compaction dir path threshold =
     (if threshold = 0 then Inr False else should_compact dir path threshold)"

definition compact_shard :: "('s, 'o) shard_codec \<Rightarrow> string \<Rightarrow> store_dir \<Rightarrow> store_dir \<times> bool io" where
  "compact_shard C path dir =
     (case read_header_at dir path of
        Inl e \<Rightarrow> (dir, Inl e)
      | Inr header \<Rightarrow>
          if (case header of Some h \<Rightarrow> hd_snapshot_len h > 0 \<and> hd_ops_count h = 0 | None \<Rightarrow> False)
          then (dir, Inr False)
          else case store_read C dir path of
            Inl e \<Rightarrow> (dir, Inl e)
          | Inr None \<Rightarrow> (dir, Inr False)
          | Inr (Some snapshot) \<Rightarrow>
              let snapshot_bytes = cd_encode C snapshot
              in (write_shard_file_atomic path (snapshot_header snapshot_bytes) snapshot_bytes [] dir, Inr True))"

text \<open>The sweep at startup, over the files of the store.\<close>

definition new_file_is_promotable :: "u8 list \<Rightarrow> bool" where
  "new_file_is_promotable content \<longleftrightarrow> length content \<ge> SHARD_HEADER_SIZE \<and>
     (case hd_decode (take SHARD_HEADER_SIZE content) of Inr h \<Rightarrow> hd_snapshot_len h > 0 | Inl _ \<Rightarrow> False)"

definition path_extension :: "string \<Rightarrow> string option" where
  "path_extension path =
     (case dropWhile (\<lambda>c. c \<noteq> CHR ''.'' \<and> c \<noteq> CHR ''/'') (rev path) of
        c # stem \<Rightarrow>
          if c = CHR ''.'' \<and> stem \<noteq> [] \<and> hd stem \<noteq> CHR ''/''
          then Some (rev (takeWhile (\<lambda>c. c \<noteq> CHR ''.'' \<and> c \<noteq> CHR ''/'') (rev path))) else None
      | [] \<Rightarrow> None)"

definition sweep_file :: "string \<times> u8 list \<Rightarrow> store_dir \<Rightarrow> store_dir" where
  "sweep_file = (\<lambda>(path, content) dir.
     if path_extension path = Some ''new''
     then if new_file_is_promotable content
          then hm_insert (with_extension path ''shard'') content (hm_remove path dir)
          else hm_remove path dir
     else dir)"

definition sweep_orphan_new_files :: "store_dir \<Rightarrow> store_dir" where
  "sweep_orphan_new_files dir = fold sweep_file dir dir"


section \<open>Bytes\<close>

lemma unat_of_nat_len: "n < 2 ^ LENGTH('a::len) \<Longrightarrow> unat (of_nat n :: 'a word) = n"
  by (simp add: unat_of_nat take_bit_nat_eq_self)

lemma length_hd_encode [simp]: "length (hd_encode h) = SHARD_HEADER_SIZE"
  by (simp add: hd_encode_def SHARD_MAGIC_def SHARD_HEADER_SIZE_def)

lemma hd_decode_encode [simp]:
  assumes "hd_version h = SHARD_VERSION"
  shows "hd_decode (hd_encode h) = Inr h"
  using assms by (simp add: hd_decode_def hd_encode_def SHARD_MAGIC_def SHARD_HEADER_SIZE_def sub_bytes_def)

lemma write_count:
  "write_at HEADER_OPS_COUNT_OFFSET (to_le_bytes 4 n) (hd_encode h @ rest) = hd_encode (h\<lparr>hd_ops_count := n\<rparr>) @ rest"
  by (simp add: write_at_def HEADER_OPS_COUNT_OFFSET_def hd_encode_def SHARD_MAGIC_def)

lemma write_at_end [simp]: "write_at (length c) bs c = c @ bs"
  by (simp add: write_at_def)

lemma read_op_entries_Nil [simp]: "read_op_entries C [] = Inr []"
  by (simp add: read_op_entries.simps)

lemma read_op_entries_Cons:
  assumes "cd_decode_op C (cd_encode_op C op) = Inr op" and "length (cd_encode_op C op) < 2 ^ 32"
  shows "read_op_entries C (write_op_entry C op @ rest) = io_bind (read_op_entries C rest) (\<lambda>ops. Inr (op # ops))"
  using assms
  by (subst read_op_entries.simps) (simp add: write_op_entry_def Let_def unat_of_nat_len)

lemma read_op_entries_torn:
  assumes "n < length (write_op_entry C op)" and "length (cd_encode_op C op) < 2 ^ 32"
  shows "read_op_entries C (take n (write_op_entry C op)) = Inr []"
  using assms
  by (subst read_op_entries.simps) (auto simp: write_op_entry_def Let_def unat_of_nat_len)


section \<open>Codecs and shard files\<close>

text \<open>What the store relies on: snapshots and ops that are within the size limits of their encodings
  survive a round trip.\<close>

locale codec_laws =
  fixes C :: "('s, 'o) shard_codec" and snap_ok :: "'s \<Rightarrow> bool" and op_ok :: "'o \<Rightarrow> bool"
  assumes decode_encode: "snap_ok s \<Longrightarrow> cd_decode C (cd_encode C s) = Inr s"
    and encode_size: "snap_ok s \<Longrightarrow> 0 < length (cd_encode C s) \<and> length (cd_encode C s) < 2 ^ 32"
    and decode_encode_op: "op_ok op \<Longrightarrow> cd_decode_op C (cd_encode_op C op) = Inr op"
    and op_size: "op_ok op \<Longrightarrow> length (cd_encode_op C op) < 2 ^ 32"

text \<open>A shard file with a snapshot section, decoding to \<open>base\<close>, and a log of \<open>ops\<close>.\<close>

definition log_bytes :: "('s, 'o) shard_codec \<Rightarrow> 'o list \<Rightarrow> u8 list" where
  "log_bytes C ops = concat (map (write_op_entry C) ops)"

definition shard_file :: "('s, 'o) shard_codec \<Rightarrow> ('o \<Rightarrow> bool) \<Rightarrow> u8 list \<Rightarrow> 's \<Rightarrow> 'o list \<Rightarrow> bool" where
  "shard_file C op_ok content base ops \<longleftrightarrow> length ops < 2 ^ 32 \<and> list_all op_ok ops \<and>
     (\<exists>h sb. content = hd_encode h @ sb @ log_bytes C ops \<and> hd_version h = SHARD_VERSION \<and>
        length sb < 2 ^ 32 \<and> unat (hd_snapshot_len h) = length sb \<and>
        unat (hd_ops_section_offset h) = SHARD_HEADER_SIZE + length sb \<and> unat (hd_ops_count h) = length ops \<and>
        (if sb = [] then base = cd_empty C else cd_decode C sb = Inr base))"

lemma log_bytes_simps [simp]:
  "log_bytes C [] = []" "log_bytes C (op # ops) = write_op_entry C op @ log_bytes C ops"
  "log_bytes C (a @ b) = log_bytes C a @ log_bytes C b"
  by (simp_all add: log_bytes_def)

lemma unat_eq_0_word: "unat w = 0 \<longleftrightarrow> w = 0"
  by (rule unat_eq_0)

lemma read_raw:
  assumes "hd_version h = SHARD_VERSION" and "unat (hd_snapshot_len h) = length sb"
    and "unat (hd_ops_section_offset h) = SHARD_HEADER_SIZE + length sb"
  shows "read_shard_file_raw (hd_encode h @ sb @ log) = Inr (h, sb, log)"
  using assms by (simp add: read_shard_file_raw_def sub_bytes_def)

context codec_laws
begin

lemma read_log:
  assumes "list_all op_ok ops"
  shows "read_op_entries C (log_bytes C ops @ rest) = io_bind (read_op_entries C rest) (\<lambda>more. Inr (ops @ more))"
  using assms
proof (induction ops)
  case Nil
  then show ?case by (cases "read_op_entries C rest") simp_all
next
  case (Cons op ops)
  then show ?case
    by (cases "read_op_entries C rest") (simp_all add: read_op_entries_Cons [OF decode_encode_op op_size])
qed

lemma read_shard_file:
  assumes "shard_file C op_ok content base ops"
  shows "read_content C content = Inr (fold (cd_apply C) ops base)" and "SHARD_HEADER_SIZE \<le> length content"
proof -
  obtain h sb where c: "content = hd_encode h @ sb @ log_bytes C ops" "hd_version h = SHARD_VERSION"
      "unat (hd_snapshot_len h) = length sb" "unat (hd_ops_section_offset h) = SHARD_HEADER_SIZE + length sb"
      "unat (hd_ops_count h) = length ops" "if sb = [] then base = cd_empty C else cd_decode C sb = Inr base"
    and ops: "list_all op_ok ops"
    using assms by (auto simp: shard_file_def)
  have "0 < hd_snapshot_len h \<longleftrightarrow> sb \<noteq> []" "0 < hd_ops_count h \<longleftrightarrow> ops \<noteq> []"
    using c(3,5) by (auto simp: word_gt_0_no unat_eq_0_word [symmetric] word_neq_0_conv [symmetric])
  then show "read_content C content = Inr (fold (cd_apply C) ops base)"
    using c(6) read_log [OF ops, of "[]"] by (simp add: read_content_def c(1) read_raw [OF c(2,3,4)])
  show "SHARD_HEADER_SIZE \<le> length content" using c(1) by simp
qed

lemma append_bytes:
  assumes "shard_file C op_ok content base ops" and "list_all op_ok extra" and "length ops + length extra < 2 ^ 32"
  obtains h where "hd_decode (take SHARD_HEADER_SIZE content) = Inr h"
    and "shard_file C op_ok (write_at HEADER_OPS_COUNT_OFFSET (to_le_bytes 4 (hd_ops_count h + of_nat (length extra)))
      (content @ log_bytes C extra)) base (ops @ extra)"
proof -
  obtain h sb where c: "content = hd_encode h @ sb @ log_bytes C ops" "hd_version h = SHARD_VERSION" "length sb < 2 ^ 32"
      "unat (hd_snapshot_len h) = length sb" "unat (hd_ops_section_offset h) = SHARD_HEADER_SIZE + length sb"
      "unat (hd_ops_count h) = length ops" "if sb = [] then base = cd_empty C else cd_decode C sb = Inr base"
    and ops: "list_all op_ok ops"
    using assms(1) by (auto simp: shard_file_def)
  define n where "n = hd_ops_count h + of_nat (length extra)"
  have n: "unat n = length ops + length extra"
    using assms(3) c(6) by (simp add: n_def unat_word_ariths unat_of_nat_len take_bit_nat_eq_self)
  have "shard_file C op_ok (hd_encode (h\<lparr>hd_ops_count := n\<rparr>) @ sb @ log_bytes C (ops @ extra)) base (ops @ extra)"
    unfolding shard_file_def using c ops assms(2,3) n
    by (intro conjI exI [of _ "h\<lparr>hd_ops_count := n\<rparr>"] exI [of _ sb]) simp_all
  moreover have "write_at HEADER_OPS_COUNT_OFFSET (to_le_bytes 4 n) (content @ log_bytes C extra) =
      hd_encode (h\<lparr>hd_ops_count := n\<rparr>) @ sb @ log_bytes C (ops @ extra)"
    by (simp add: c(1) write_count)
  ultimately show thesis
    using c(2) by (intro that [of h]) (simp_all add: c(1) n_def)
qed

lemma append_shard_file:
  assumes "shard_file C op_ok content base ops" and "list_all op_ok extra" and "length ops + length extra < 2 ^ 32"
    and "hm_get dir path = Some content"
  obtains content' where "append_ops_to_shard_opts path (log_bytes C extra) (of_nat (length extra)) dir = (hm_insert path content' dir, Inr ())"
    and "shard_file C op_ok content' base (ops @ extra)"
proof (rule append_bytes [OF assms(1-3)])
  fix h
  assume "hd_decode (take SHARD_HEADER_SIZE content) = Inr h"
    and "shard_file C op_ok (write_at HEADER_OPS_COUNT_OFFSET (to_le_bytes 4 (hd_ops_count h + of_nat (length extra)))
      (content @ log_bytes C extra)) base (ops @ extra)"
  then show thesis
    using read_shard_file(2) [OF assms(1)] assms(4) by (intro that) (simp_all add: append_ops_to_shard_opts_def Let_def)
qed

lemma fresh_log_file:
  assumes "list_all op_ok ops" and "length ops < 2 ^ 32"
  shows "shard_file C op_ok (shard_file_bytes (ops_only_header (of_nat (length ops))) [] (log_bytes C ops)) (cd_empty C) ops"
  unfolding shard_file_def shard_file_bytes_def using assms
  by (intro conjI exI [of _ "ops_only_header (of_nat (length ops))"] exI [of _ "[]"])
     (simp_all add: ops_only_header_def SHARD_HEADER_SIZE_def unat_of_nat_len)

lemma snapshot_file:
  assumes "snap_ok s"
  shows "shard_file C op_ok (shard_file_bytes (snapshot_header (cd_encode C s)) (cd_encode C s) []) s []"
proof -
  have len: "length (cd_encode C s) < 2 ^ 32" "cd_encode C s \<noteq> []" using encode_size [OF assms] by auto
  then have "unat (of_nat (SHARD_HEADER_SIZE + length (cd_encode C s)) :: u64) = SHARD_HEADER_SIZE + length (cd_encode C s)"
    by (intro unat_of_nat_len) (simp add: SHARD_HEADER_SIZE_def)
  then show ?thesis
    unfolding shard_file_def shard_file_bytes_def using len decode_encode [OF assms]
    by (intro conjI exI [of _ "snapshot_header (cd_encode C s)"] exI [of _ "cd_encode C s"])
       (simp_all add: snapshot_header_def unat_of_nat_len)
qed

end

text \<open>Paths of shard files, and their \<open>.new\<close> siblings.\<close>

definition shard_path_ok :: "string \<Rightarrow> bool" where
  "shard_path_ok path \<longleftrightarrow> (let stem = take (length path - 6) path
     in path = stem @ ''.shard'' \<and> stem \<noteq> [] \<and> last stem \<noteq> CHR ''/'')"

lemma shard_path_okE:
  assumes "shard_path_ok path"
  obtains stem where "path = stem @ ''.shard''" and "stem \<noteq> []" and "last stem \<noteq> CHR ''/''"
  using assms by (auto simp: shard_path_ok_def Let_def)

lemma shard_path_stem: "stem \<noteq> [] \<Longrightarrow> last stem \<noteq> CHR ''/'' \<Longrightarrow> shard_path_ok (stem @ ''.shard'')"
  by (simp add: shard_path_ok_def)

lemma stem_extensions:
  assumes "stem \<noteq> []" and "last stem \<noteq> CHR ''/''"
  shows "with_extension (stem @ ''.shard'') e = stem @ CHR ''.'' # e" "path_extension (stem @ ''.shard'') = Some ''shard''"
    "with_extension (stem @ ''.new'') e = stem @ CHR ''.'' # e" "path_extension (stem @ ''.new'') = Some ''new''"
  using assms by (auto simp: with_extension_def path_extension_def hd_rev)

lemma path_simps [simp]:
  assumes "shard_path_ok path"
  shows "path_extension path = Some ''shard''" "path_extension (new_path path) = Some ''new''"
    "with_extension (new_path path) ''shard'' = path" "new_path path \<noteq> path"
proof -
  obtain stem where p: "path = stem @ ''.shard''" "stem \<noteq> []" "last stem \<noteq> CHR ''/''"
    using assms by (rule shard_path_okE)
  show "path_extension path = Some ''shard''" "path_extension (new_path path) = Some ''new''"
    "with_extension (new_path path) ''shard'' = path" "new_path path \<noteq> path"
    using stem_extensions [OF p(2,3)] by (simp_all add: p(1) new_path_def)
qed


lemma new_path_not_shard: "shard_path_ok path \<Longrightarrow> \<not> shard_path_ok (new_path path)"
proof
  assume "shard_path_ok path" and "shard_path_ok (new_path path)"
  from path_simps(2) [OF this(1)] path_simps(1) [OF this(2)] have "Some ''new'' = Some ''shard''" by (rule trans [OF sym])
  then show False by simp
qed


section \<open>The store as a map from shards to snapshots\<close>

datatype ('s, 'o) store_op =
    StAppend string "'o list"
  | StAppendOne string 'o
  | StSnapshot string 's
  | StCompact string
  | StReopen

fun store_step :: "('s, 'o) shard_codec \<Rightarrow> ('s, 'o) store_op \<Rightarrow> store_dir \<Rightarrow> store_dir io" where
  "store_step C (StAppend path ops) dir = (let (dir', r) = append_ops C path ops dir in io_bind r (\<lambda>_. Inr dir'))"
| "store_step C (StAppendOne path op) dir = (let (dir', r) = append_op C path op dir in io_bind r (\<lambda>_. Inr dir'))"
| "store_step C (StSnapshot path s) dir = Inr (write_snapshot C path s dir)"
| "store_step C (StCompact path) dir = (let (dir', r) = compact_shard C path dir in io_bind r (\<lambda>_. Inr dir'))"
| "store_step C StReopen dir = Inr (sweep_orphan_new_files dir)"

fun store_run :: "('s, 'o) shard_codec \<Rightarrow> ('s, 'o) store_op list \<Rightarrow> store_dir \<Rightarrow> store_dir io" where
  "store_run C [] dir = Inr dir"
| "store_run C (x # xs) dir = io_bind (store_step C x dir) (store_run C xs)"

fun spec_step :: "('s, 'o) shard_codec \<Rightarrow> ('s, 'o) store_op \<Rightarrow> (string \<rightharpoonup> 's) \<Rightarrow> (string \<rightharpoonup> 's)" where
  "spec_step C (StAppend path ops) m =
     (if ops = [] then m
      else m(path \<mapsto> fold (cd_apply C) ops (case m path of Some s \<Rightarrow> s | None \<Rightarrow> cd_empty C)))"
| "spec_step C (StAppendOne path op) m =
     m(path \<mapsto> cd_apply C op (case m path of Some s \<Rightarrow> s | None \<Rightarrow> cd_empty C))"
| "spec_step C (StSnapshot path s) m = m(path \<mapsto> s)"
| "spec_step C (StCompact path) m = m"
| "spec_step C StReopen m = m"

text \<open>The ops of a run are encodable where the store encodes them, and paths are those of shards.\<close>

fun step_ok :: "('s \<Rightarrow> bool) \<Rightarrow> ('o \<Rightarrow> bool) \<Rightarrow> ('s, 'o) store_op \<Rightarrow> (string \<rightharpoonup> 's) \<Rightarrow> bool" where
  "step_ok snap_ok op_ok (StAppend path ops) m \<longleftrightarrow> shard_path_ok path \<and> list_all op_ok ops"
| "step_ok snap_ok op_ok (StAppendOne path op) m \<longleftrightarrow> shard_path_ok path \<and> op_ok op"
| "step_ok snap_ok op_ok (StSnapshot path s) m \<longleftrightarrow> shard_path_ok path \<and> snap_ok s"
| "step_ok snap_ok op_ok (StCompact path) m \<longleftrightarrow>
     shard_path_ok path \<and> (case m path of Some s \<Rightarrow> snap_ok s | None \<Rightarrow> True)"
| "step_ok snap_ok op_ok StReopen m \<longleftrightarrow> True"

fun run_ok :: "('s, 'o) shard_codec \<Rightarrow> ('s \<Rightarrow> bool) \<Rightarrow> ('o \<Rightarrow> bool) \<Rightarrow> ('s, 'o) store_op list \<Rightarrow> (string \<rightharpoonup> 's) \<Rightarrow> bool" where
  "run_ok C snap_ok op_ok [] m \<longleftrightarrow> True"
| "run_ok C snap_ok op_ok (x # xs) m \<longleftrightarrow> step_ok snap_ok op_ok x m \<and> run_ok C snap_ok op_ok xs (spec_step C x m)"

fun op_total :: "('s, 'o) store_op \<Rightarrow> nat" where
  "op_total (StAppend path ops) = length ops"
| "op_total (StAppendOne path op) = 1"
| "op_total _ = 0"

definition store_inv :: "('s, 'o) shard_codec \<Rightarrow> ('o \<Rightarrow> bool) \<Rightarrow> nat \<Rightarrow> store_dir \<Rightarrow> (string \<rightharpoonup> 's) \<Rightarrow> bool" where
  "store_inv C op_ok n dir m \<longleftrightarrow> dom (hm_get dir) = dom m \<and> (\<forall>path \<in> dom m. shard_path_ok path) \<and>
     (\<forall>path s. m path = Some s \<longrightarrow> (\<exists>content base ops. hm_get dir path = Some content \<and>
        shard_file C op_ok content base ops \<and> s = fold (cd_apply C) ops base \<and> length ops \<le> n))"

lemma store_inv_cong: "hm_get dir' = hm_get dir \<Longrightarrow> store_inv C op_ok n dir' m = store_inv C op_ok n dir m"
  by (simp add: store_inv_def)

lemma store_inv_mono: "store_inv C op_ok n dir m \<Longrightarrow> n \<le> n' \<Longrightarrow> store_inv C op_ok n' dir m"
  unfolding store_inv_def by (meson le_trans)

lemma store_inv_file:
  assumes "store_inv C op_ok n dir m" and "m path = Some s"
  obtains content base ops where "hm_get dir path = Some content" and "shard_file C op_ok content base ops"
    and "s = fold (cd_apply C) ops base" and "length ops \<le> n"
  using assms unfolding store_inv_def by blast

lemma store_inv_none: "store_inv C op_ok n dir m \<Longrightarrow> m path = None \<Longrightarrow> hm_get dir path = None"
  unfolding store_inv_def by blast

lemma store_inv_put:
  assumes "store_inv C op_ok n dir m" and "shard_path_ok path"
    and "shard_file C op_ok content base ops" and "length ops \<le> n" and "s = fold (cd_apply C) ops base"
  shows "store_inv C op_ok n (hm_insert path content dir) (m(path \<mapsto> s))"
  using assms unfolding store_inv_def by (auto split: if_splits)

lemma store_inv_atomic:
  assumes "store_inv C op_ok n dir m" and "shard_path_ok path"
    and "shard_file C op_ok (shard_file_bytes h sb ob) base ops" and "length ops \<le> n" and "s = fold (cd_apply C) ops base"
  shows "store_inv C op_ok n (write_shard_file_atomic path h sb ob dir) (m(path \<mapsto> s))"
proof -
  have "\<not> shard_path_ok (new_path path)" by (rule new_path_not_shard [OF assms(2)])
  then have "hm_get dir (new_path path) = None" using assms(1) unfolding store_inv_def by blast
  then have "hm_get (write_shard_file_atomic path h sb ob dir) = hm_get (hm_insert path (shard_file_bytes h sb ob) dir)"
    by (auto simp: write_shard_file_atomic_def Let_def)
  from store_inv_cong [OF this] store_inv_put [OF assms] show ?thesis by blast
qed

lemma store_inv_sweep:
  assumes "store_inv C op_ok n dir m"
  shows "sweep_orphan_new_files dir = dir"
proof -
  have "sweep_file f d = d" if "f \<in> set dir" for f d
  proof -
    have "fst f \<in> dom m" using assms that by (auto simp: store_inv_def dom_map_of_conv_image_fst)
    then have "shard_path_ok (fst f)" using assms by (auto simp: store_inv_def)
    then show ?thesis by (simp add: sweep_file_def case_prod_beta)
  qed
  then have "fold sweep_file fs d = d" if "set fs \<subseteq> set dir" for fs d
    using that by (induction fs) auto
  then show ?thesis by (simp add: sweep_orphan_new_files_def)
qed

context codec_laws
begin

lemma store_inv_read:
  assumes "store_inv C op_ok n dir m"
  shows "store_read C dir path = Inr (m path)"
proof (cases "m path")
  case None
  then have "hm_get dir path = None" by (rule store_inv_none [OF assms])
  with None show ?thesis by (simp add: store_read_def)
next
  case (Some s)
  then obtain content base ops where "hm_get dir path = Some content" "shard_file C op_ok content base ops"
      "s = fold (cd_apply C) ops base"
    by (rule store_inv_file [OF assms])
  then show ?thesis
    using Some read_shard_file [of content base ops] by (simp add: store_read_def is_valid_shard_file_def)
qed

lemma append_op_one: "append_op C path op dir = append_ops C path [op] dir"
  by (simp add: append_op_def append_ops_def Let_def)

lemma store_inv_append:
  assumes inv: "store_inv C op_ok n dir m" and path: "shard_path_ok path" and ops: "list_all op_ok ops"
    and total: "n + length ops < 2 ^ 32" and nonempty: "ops \<noteq> []"
  obtains dir' where "append_ops C path ops dir = (dir', Inr ())"
    and "store_inv C op_ok (n + length ops) dir' (m(path \<mapsto> fold (cd_apply C) ops (case m path of Some s \<Rightarrow> s | None \<Rightarrow> cd_empty C)))"
proof (cases "m path")
  case None
  then have "\<not> is_valid_shard_file dir path"
    using store_inv_none [OF inv] by (simp add: is_valid_shard_file_def)
  with None nonempty show thesis
    using store_inv_atomic [OF store_inv_mono [OF inv] path fresh_log_file [OF ops]] total
    by (intro that) (auto simp: append_ops_def Let_def log_bytes_def)
next
  case (Some s)
  then obtain content base log where c: "hm_get dir path = Some content" "shard_file C op_ok content base log"
      "s = fold (cd_apply C) log base" "length log \<le> n"
    by (rule store_inv_file [OF inv])
  obtain content' where app: "append_ops_to_shard_opts path (log_bytes C ops) (of_nat (length ops)) dir = (hm_insert path content' dir, Inr ())"
      and file': "shard_file C op_ok content' base (log @ ops)"
    using append_shard_file [OF c(2) ops _ c(1)] total c(4) by auto
  have "is_valid_shard_file dir path"
    using c(1) read_shard_file(2) [OF c(2)] by (simp add: is_valid_shard_file_def)
  with app nonempty have "append_ops C path ops dir = (hm_insert path content' dir, Inr ())"
    by (simp add: append_ops_def Let_def log_bytes_def)
  with Some c(3,4) show thesis
    using store_inv_put [OF store_inv_mono [OF inv, of "n + length ops"] path file']
    by (intro that [of "hm_insert path content' dir"]) simp_all
qed

lemma store_inv_compact:
  assumes inv: "store_inv C op_ok n dir m" and path: "shard_path_ok path" and ok: "\<And>s. m path = Some s \<Longrightarrow> snap_ok s"
  obtains dir' b where "compact_shard C path dir = (dir', Inr b)" and "store_inv C op_ok n dir' m"
proof (cases "m path")
  case None
  then have "hm_get dir path = None" by (rule store_inv_none [OF inv])
  then show thesis using inv by (intro that) (auto simp: compact_shard_def read_header_at_def store_read_def)
next
  case (Some s)
  then obtain content base log where c: "hm_get dir path = Some content" "shard_file C op_ok content base log"
    by (rule store_inv_file [OF inv])
  then obtain h where h: "read_header_at dir path = Inr (Some h)"
    by (auto simp: read_header_at_def shard_file_def)
  have written: "store_inv C op_ok n (write_shard_file_atomic path (snapshot_header (cd_encode C s)) (cd_encode C s) [] dir) m"
    using store_inv_atomic [OF inv path snapshot_file [OF ok [OF Some]], of s] Some by (simp add: fun_upd_idem)
  show thesis
    using written inv store_inv_read [OF inv, of path] Some
    by (cases "hd_snapshot_len h > 0 \<and> hd_ops_count h = 0") (auto simp: compact_shard_def h Let_def intro: that)
qed

lemma store_inv_step:
  assumes inv: "store_inv C op_ok n dir m" and ok: "step_ok snap_ok op_ok x m" and total: "n + op_total x < 2 ^ 32"
  obtains dir' where "store_step C x dir = Inr dir'" and "store_inv C op_ok (n + op_total x) dir' (spec_step C x m)"
proof (cases x)
  case (StAppend path ops)
  then have x: "shard_path_ok path" "list_all op_ok ops" "n + length ops < 2 ^ 32" using ok total by simp_all
  show thesis
  proof (cases "ops = []")
    case True
    with StAppend inv show thesis by (intro that [of dir]) (simp_all add: append_ops_def)
  next
    case False
    with StAppend show thesis by (rule_tac store_inv_append [OF inv x], simp, rule_tac that) simp_all
  qed
next
  case (StAppendOne path op)
  then have x: "shard_path_ok path" "list_all op_ok [op]" "n + length [op] < 2 ^ 32" using ok total by simp_all
  show thesis
    using StAppendOne by (rule_tac store_inv_append [OF inv x], simp, rule_tac that) (simp_all add: append_op_one)
next
  case (StSnapshot path s)
  then have x: "shard_path_ok path" "snap_ok s" using ok by simp_all
  show thesis
    using StSnapshot store_inv_atomic [OF inv x(1) snapshot_file [OF x(2)], of s]
    by (intro that) (simp_all add: write_snapshot_def Let_def)
next
  case (StCompact path)
  then have x: "shard_path_ok path" "\<And>s. m path = Some s \<Longrightarrow> snap_ok s" using ok by simp_all
  obtain dir' b where "compact_shard C path dir = (dir', Inr b)" "store_inv C op_ok n dir' m"
    using store_inv_compact [OF inv x] by blast
  with StCompact show thesis by (intro that [of dir']) simp_all
next
  case StReopen
  with inv show thesis by (intro that [of dir]) (simp_all add: store_inv_sweep [OF inv])
qed

lemma store_inv_steps:
  assumes "store_inv C op_ok n dir m" and "run_ok C snap_ok op_ok xs m" and "n + sum_list (map op_total xs) < 2 ^ 32"
  shows "\<exists>dir'. store_run C xs dir = Inr dir' \<and> store_inv C op_ok (n + sum_list (map op_total xs)) dir' (fold (spec_step C) xs m)"
  using assms
proof (induction xs arbitrary: n dir m)
  case Nil
  then show ?case by simp
next
  case (Cons x xs)
  obtain dir1 where "store_step C x dir = Inr dir1" "store_inv C op_ok (n + op_total x) dir1 (spec_step C x m)"
    using store_inv_step [OF Cons.prems(1), of x] Cons.prems(2,3) by auto
  then show ?case using Cons.IH [of "n + op_total x" dir1 "spec_step C x m"] Cons.prems(2,3) by (simp add: add.assoc)
qed

lemma store_inv_empty: "store_inv C op_ok 0 [] Map.empty"
  by (simp add: store_inv_def)

end


section \<open>Crashes\<close>

text \<open>A crash while a shard file is written leaves a prefix of its bytes in the \<open>.new\<close> file.  A crash
  in an append leaves a prefix of the new entries behind the log, with the old count.\<close>

definition torn_write :: "string \<Rightarrow> u8 list \<Rightarrow> nat \<Rightarrow> store_dir \<Rightarrow> store_dir" where
  "torn_write path buf n dir = hm_insert (new_path path) (take n buf) dir"

definition torn_append :: "('s, 'o) shard_codec \<Rightarrow> string \<Rightarrow> 'o list \<Rightarrow> nat \<Rightarrow> store_dir \<Rightarrow> store_dir" where
  "torn_append C path ops n dir =
     (case hm_get dir path of None \<Rightarrow> dir | Some content \<Rightarrow> hm_insert path (content @ take n (log_bytes C ops)) dir)"

definition snapshot_bytes_of :: "('s, 'o) shard_codec \<Rightarrow> 's \<Rightarrow> u8 list" where
  "snapshot_bytes_of C s = shard_file_bytes (snapshot_header (cd_encode C s)) (cd_encode C s) []"

lemma update_new_key: "k \<notin> fst ` set al \<Longrightarrow> AList.update k v al = al @ [(k, v)]"
  by (induction al) auto

lemma store_read_cong: "hm_get d p = hm_get d' p \<Longrightarrow> store_read C d p = store_read C d' p"
  by (auto simp: store_read_def is_valid_shard_file_def split: option.splits)

lemma fold_sweep:
  assumes "store_inv C op_ok n dir m" and "shard_path_ok path"
  shows "sweep_orphan_new_files (hm_insert (new_path path) c dir) =
    (if new_file_is_promotable c then hm_insert path c (hm_remove (new_path path) (hm_insert (new_path path) c dir))
     else hm_remove (new_path path) (hm_insert (new_path path) c dir))"
proof -
  have "hm_get dir (new_path path) = None"
    using assms(1) new_path_not_shard [OF assms(2)] unfolding store_inv_def by blast
  then have upd: "hm_insert (new_path path) c dir = dir @ [(new_path path, c)]"
    by (intro update_new_key) (simp add: map_of_eq_None_iff)
  have "sweep_file f d = d" if "f \<in> set dir" for f d
  proof -
    have "fst f \<in> dom (hm_get dir)" using that by (simp add: dom_map_of_conv_image_fst)
    then have "shard_path_ok (fst f)" using assms(1) unfolding store_inv_def by blast
    then show ?thesis by (simp add: sweep_file_def case_prod_beta)
  qed
  then have "fold sweep_file fs d = d" if "set fs \<subseteq> set dir" for fs d
    using that by (induction fs) auto
  then show ?thesis
    using assms(2) by (simp add: sweep_orphan_new_files_def upd sweep_file_def)
qed

context codec_laws
begin

lemma torn_log:
  assumes "list_all op_ok ops"
  shows "\<exists>k \<le> length ops. read_op_entries C (take n (log_bytes C ops)) = Inr (take k ops)"
  using assms
proof (induction ops arbitrary: n)
  case Nil
  then show ?case by simp
next
  case (Cons op ops)
  show ?case
  proof (cases "n < length (write_op_entry C op)")
    case True
    then have "read_op_entries C (take n (write_op_entry C op)) = Inr []"
      using Cons.prems by (intro read_op_entries_torn op_size) simp_all
    with True show ?thesis by (intro exI [of _ 0]) simp
  next
    case False
    obtain k where "k \<le> length ops" "read_op_entries C (take (n - length (write_op_entry C op)) (log_bytes C ops)) = Inr (take k ops)"
      using Cons by auto
    with False Cons.prems show ?thesis
      by (intro exI [of _ "Suc k"]) (simp add: read_op_entries_Cons [OF decode_encode_op op_size])
  qed
qed

lemma torn_append_read:
  assumes inv: "store_inv C op_ok n dir m" and "list_all op_ok ops" and m: "m path = Some s"
  shows "\<exists>k \<le> length ops. \<forall>p. store_read C (torn_append C path ops j dir) p =
    Inr ((m(path \<mapsto> fold (cd_apply C) (take k ops) s)) p)"
proof -
  obtain content base log where c: "hm_get dir path = Some content" "shard_file C op_ok content base log"
      "s = fold (cd_apply C) log base"
    using m by (rule store_inv_file [OF inv])
  then obtain h sb where f: "content = hd_encode h @ sb @ log_bytes C log" "hd_version h = SHARD_VERSION"
      "unat (hd_snapshot_len h) = length sb" "unat (hd_ops_section_offset h) = SHARD_HEADER_SIZE + length sb"
      "unat (hd_ops_count h) = length log" "if sb = [] then base = cd_empty C else cd_decode C sb = Inr base"
    and log: "list_all op_ok log"
    by (auto simp: shard_file_def)
  obtain k where k: "k \<le> length ops" "read_op_entries C (take j (log_bytes C ops)) = Inr (take k ops)"
    using torn_log [OF assms(2)] by blast
  have nz: "0 < hd_snapshot_len h \<longleftrightarrow> sb \<noteq> []" "0 < hd_ops_count h \<longleftrightarrow> log \<noteq> []"
    using f(3,5) by (auto simp: word_gt_0_no unat_eq_0_word [symmetric] word_neq_0_conv [symmetric])
  define k' where "k' = (if log = [] then 0 else k)"
  have "read_content C (content @ take j (log_bytes C ops)) = Inr (fold (cd_apply C) (take k' ops) s)"
    using nz f(6) read_log [OF log, of "take j (log_bytes C ops)"] k(2)
    by (simp add: read_content_def f(1) read_raw [OF f(2,3,4)] k'_def c(3))
  then have "store_read C (torn_append C path ops j dir) path = Inr (Some (fold (cd_apply C) (take k' ops) s))"
    using c(1) by (simp add: store_read_def torn_append_def is_valid_shard_file_def f(1))
  moreover have "store_read C (torn_append C path ops j dir) p = Inr (m p)" if "p \<noteq> path" for p
    using that store_inv_read [OF inv, of p] c(1) store_read_cong [of "torn_append C path ops j dir" p dir C]
    by (simp add: torn_append_def)
  ultimately show ?thesis using k(1) by (intro exI [of _ k']) (simp add: k'_def)
qed

lemma torn_write_read:
  assumes inv: "store_inv C op_ok n dir m" and path: "shard_path_ok path" and s: "snap_ok s"
    and j: "j < SHARD_HEADER_SIZE \<or> length (snapshot_bytes_of C s) \<le> j"
  shows "store_read C (sweep_orphan_new_files (torn_write path (snapshot_bytes_of C s) j dir)) p =
    Inr ((if j < SHARD_HEADER_SIZE then m else m(path \<mapsto> s)) p)"
proof -
  define d where "d = sweep_orphan_new_files (torn_write path (snapshot_bytes_of C s) j dir)"
  have none: "hm_get dir (new_path path) = None"
    using inv new_path_not_shard [OF path] unfolding store_inv_def by blast
  have "store_inv C op_ok n d (if j < SHARD_HEADER_SIZE then m else m(path \<mapsto> s))"
  proof (cases "j < SHARD_HEADER_SIZE")
    case True
    then have "hm_get d = hm_get dir"
      using none by (auto simp: d_def torn_write_def fold_sweep [OF inv path] new_file_is_promotable_def)
    with True inv show ?thesis by (simp add: store_inv_def)
  next
    case False
    with j have whole: "take j (snapshot_bytes_of C s) = snapshot_bytes_of C s" by simp
    have "0 < hd_snapshot_len (snapshot_header (cd_encode C s))"
      using encode_size [OF s] by (simp add: snapshot_header_def word_less_nat_alt unat_of_nat_len)
    then have "new_file_is_promotable (snapshot_bytes_of C s)"
      by (simp add: new_file_is_promotable_def snapshot_bytes_of_def shard_file_bytes_def)
        (simp add: snapshot_header_def)
    then have "hm_get d = hm_get (hm_insert path (snapshot_bytes_of C s) dir)"
      using none by (auto simp: d_def torn_write_def fold_sweep [OF inv path] whole)
    then have "store_inv C op_ok n d (m(path \<mapsto> s)) = store_inv C op_ok n (hm_insert path (snapshot_bytes_of C s) dir) (m(path \<mapsto> s))"
      by (rule store_inv_cong)
    with False show ?thesis
      using store_inv_put [OF inv path snapshot_file [OF s], of s] by (simp add: snapshot_bytes_of_def)
  qed
  then show ?thesis unfolding d_def [symmetric] by (rule store_inv_read)
qed

end


section \<open>Concurrent appends\<close>

text \<open>
  Appends hold the lock of the shard in shared mode.  The accesses of \<open>append_ops_to_shard_opts\<close> to
  the file are separate steps: reading the header, seeking to the end, writing the entries and
  writing the count.
\<close>

datatype append_pc = AtStart | HeaderRead shard_header | EndSought shard_header nat | OpsWritten shard_header
  | AppendDone | AppendFailed

fun append_step :: "u8 list \<Rightarrow> u32 \<Rightarrow> append_pc \<Rightarrow> u8 list \<Rightarrow> append_pc \<times> u8 list" where
  "append_step bytes n AtStart content =
     (case hd_decode (take SHARD_HEADER_SIZE content) of Inr h \<Rightarrow> (HeaderRead h, content) | Inl _ \<Rightarrow> (AppendFailed, content))"
| "append_step bytes n (HeaderRead h) content = (EndSought h (length content), content)"
| "append_step bytes n (EndSought h pos) content = (OpsWritten h, write_at pos bytes content)"
| "append_step bytes n (OpsWritten h) content =
     (AppendDone, write_at HEADER_OPS_COUNT_OFFSET (to_le_bytes 4 (hd_ops_count h + n)) content)"
| "append_step bytes n AppendDone content = (AppendDone, content)"
| "append_step bytes n AppendFailed content = (AppendFailed, content)"

text \<open>Two appends to one shard; the schedule says whose step is next.\<close>

fun two_appends :: "u8 list \<Rightarrow> u32 \<Rightarrow> u8 list \<Rightarrow> u32 \<Rightarrow> bool list \<Rightarrow> append_pc \<times> append_pc \<times> u8 list \<Rightarrow>
    append_pc \<times> append_pc \<times> u8 list" where
  "two_appends a n b k [] st = st"
| "two_appends a n b k (first # sched) (pa, pb, content) =
     (if first then let (pa, content) = append_step a n pa content in two_appends a n b k sched (pa, pb, content)
      else let (pb, content) = append_step b k pb content in two_appends a n b k sched (pa, pb, content))"

context codec_laws
begin

lemma appends_in_turn:
  assumes "shard_file C op_ok content base log" and "list_all op_ok xs" and "list_all op_ok ys"
    and "length log + length xs + length ys < 2 ^ 32"
  shows "\<exists>content'. two_appends (log_bytes C xs) (of_nat (length xs)) (log_bytes C ys) (of_nat (length ys))
      [True, True, True, True, False, False, False, False] (AtStart, AtStart, content) = (AppendDone, AppendDone, content') \<and>
    shard_file C op_ok content' base (log @ xs @ ys)"
proof (rule append_bytes [OF assms(1,2)])
  define c1 where "c1 h = write_at HEADER_OPS_COUNT_OFFSET (to_le_bytes 4 (hd_ops_count h + of_nat (length xs))) (content @ log_bytes C xs)" for h :: shard_header
  fix h
  assume h: "hd_decode (take SHARD_HEADER_SIZE content) = Inr h"
    and "shard_file C op_ok (write_at HEADER_OPS_COUNT_OFFSET (to_le_bytes 4 (hd_ops_count h + of_nat (length xs)))
      (content @ log_bytes C xs)) base (log @ xs)"
  then have "shard_file C op_ok (c1 h) base (log @ xs)" by (simp add: c1_def)
  then show ?thesis
  proof (rule append_bytes [OF _ assms(3)])
    fix h'
    assume "hd_decode (take SHARD_HEADER_SIZE (c1 h)) = Inr h'"
      and "shard_file C op_ok (write_at HEADER_OPS_COUNT_OFFSET (to_le_bytes 4 (hd_ops_count h' + of_nat (length ys)))
        (c1 h @ log_bytes C ys)) base ((log @ xs) @ ys)"
    then show ?thesis using h by (simp add: c1_def [symmetric])
  qed (use assms(4) in simp)
qed (use assms(4) in simp)

text \<open>When both seek before either writes, the second overwrites what the first wrote: both return,
  and the op of the first is gone.\<close>

lemma append_race:
  assumes "shard_file C op_ok content base log" and "op_ok x" and "op_ok y"
    and "length (cd_encode_op C x) = length (cd_encode_op C y)" and "length log + 1 < 2 ^ 32"
  shows "\<exists>content'. two_appends (write_op_entry C x) 1 (write_op_entry C y) 1
      [True, True, False, False, True, True, False, False] (AtStart, AtStart, content) = (AppendDone, AppendDone, content') \<and>
    shard_file C op_ok content' base (log @ [y])"
proof -
  obtain h sb where c: "content = hd_encode h @ sb @ log_bytes C log" "hd_version h = SHARD_VERSION"
    using assms(1) by (auto simp: shard_file_def)
  define n where "n = hd_ops_count h + 1"
  have dec: "hd_decode (take SHARD_HEADER_SIZE content) = Inr h" using c by simp
  have "shard_file C op_ok (write_at HEADER_OPS_COUNT_OFFSET (to_le_bytes 4 n) (content @ write_op_entry C y)) base (log @ [y])"
    using append_bytes [OF assms(1), of "[y]"] assms(3,5) dec by (auto simp: n_def)
  moreover have "write_at HEADER_OPS_COUNT_OFFSET (to_le_bytes 4 n) (content @ write_op_entry C y) =
      write_at HEADER_OPS_COUNT_OFFSET (to_le_bytes 4 n) (write_at (length content) (write_op_entry C y)
        (write_at HEADER_OPS_COUNT_OFFSET (to_le_bytes 4 n) (content @ write_op_entry C x)))"
  proof -
    have "write_at (length content) (write_op_entry C y) (hd_encode (h\<lparr>hd_ops_count := n\<rparr>) @ sb @ log_bytes C log @ write_op_entry C x) =
        hd_encode (h\<lparr>hd_ops_count := n\<rparr>) @ sb @ log_bytes C log @ write_op_entry C y"
      using assms(4) by (simp add: write_at_def c(1) write_op_entry_def Let_def)
    then show ?thesis by (simp add: c(1) write_count)
  qed
  ultimately show ?thesis using dec by (simp add: n_def)
qed

end
end
