(* ===== verification/Utf8.thy ===== *)
theory Utf8
  imports Encoding
begin

text \<open>
  Strings and their bytes, as the Rust standard library has them: a string is its UTF-8 bytes, so
  a character of a \<open>string\<close> stands for one byte.  \<open>String::from_utf8_lossy\<close> keeps well-formed
  sequences and replaces every maximal ill-formed one by the replacement character.
\<close>

definition str_bytes :: "string \<Rightarrow> u8 list" where
  "str_bytes s = map (\<lambda>c. of_nat (of_char c)) s"

definition bytes_str :: "u8 list \<Rightarrow> string" where
  "bytes_str bs = map (\<lambda>b. char_of (unat b)) bs"

text \<open>The scan of one sequence: whether it is well formed, and how many bytes after the first
  belong to it.  A read past the end yields 0.\<close>

definition utf8_front :: "u8 \<Rightarrow> u8 list \<Rightarrow> bool \<times> nat" where
  "utf8_front b rest =
     (let g = (\<lambda>i. if i < length rest then rest ! i else 0); cont = (\<lambda>i. g i AND 192 = 128);
          within = (\<lambda>lo hi. lo \<le> g 0 \<and> g 0 \<le> hi)
      in if b < 0x80 then (True, 0)
         else if 0xC2 \<le> b \<and> b \<le> 0xDF then (if cont 0 then (True, 1) else (False, 0))
         else if 0xE0 \<le> b \<and> b \<le> 0xEF then
           (if \<not> (if b = 0xE0 then within 0xA0 0xBF else if b = 0xED then within 0x80 0x9F else within 0x80 0xBF)
            then (False, 0) else if cont 1 then (True, 2) else (False, 1))
         else if 0xF0 \<le> b \<and> b \<le> 0xF4 then
           (if \<not> (if b = 0xF0 then within 0x90 0xBF else if b = 0xF4 then within 0x80 0x8F else within 0x80 0xBF)
            then (False, 0) else if \<not> cont 1 then (False, 1) else if cont 2 then (True, 3) else (False, 2))
         else (False, 0))"

function utf8_lossy :: "u8 list \<Rightarrow> u8 list" where
  "utf8_lossy [] = []"
| "utf8_lossy (b # rest) =
     (let (ok, n) = utf8_front b rest
      in (if ok then b # take n rest else [0xEF, 0xBF, 0xBD]) @ utf8_lossy (drop n rest))"
  by pat_completeness auto
termination by (relation "measure length") auto

function valid_utf8 :: "u8 list \<Rightarrow> bool" where
  "valid_utf8 [] = True"
| "valid_utf8 (b # rest) = (let (ok, n) = utf8_front b rest in ok \<and> valid_utf8 (drop n rest))"
  by pat_completeness auto
termination by (relation "measure length") auto

definition from_utf8_lossy :: "u8 list \<Rightarrow> string" where
  "from_utf8_lossy bs = bytes_str (utf8_lossy bs)"

text \<open>A \<open>String\<close> holds well-formed UTF-8.\<close>

definition rust_string :: "string \<Rightarrow> bool" where
  "rust_string s \<longleftrightarrow> valid_utf8 (str_bytes s)"

lemma utf8_lossy_valid: "valid_utf8 bs \<Longrightarrow> utf8_lossy bs = bs"
  by (induction bs rule: utf8_lossy.induct) (auto simp: Let_def split: prod.splits)

lemma length_str_bytes [simp]: "length (str_bytes s) = length s"
  by (simp add: str_bytes_def)

lemma bytes_str_bytes [simp]: "bytes_str (str_bytes s) = s"
proof -
  have "unat (of_nat (of_char c) :: u8) = of_char c" for c :: char
    by (simp add: unat_of_nat take_bit_nat_eq_self)
  then show ?thesis by (simp add: str_bytes_def bytes_str_def comp_def)
qed

lemma from_utf8_lossy_string [simp]: "rust_string s \<Longrightarrow> from_utf8_lossy (str_bytes s) = s"
  by (simp add: from_utf8_lossy_def rust_string_def utf8_lossy_valid)

lemma ascii_rust_string:
  assumes "list_all (\<lambda>c. of_char c < (128 :: nat)) s"
  shows "rust_string s"
proof -
  have "valid_utf8 (str_bytes s)"
    using assms
  proof (induction s)
    case (Cons c s)
    then have "(of_nat (of_char c) :: u8) < 128"
      by (simp add: word_less_nat_alt unat_of_nat take_bit_nat_eq_self)
    with Cons show ?case by (simp add: str_bytes_def utf8_front_def)
  qed (simp add: str_bytes_def)
  then show ?thesis by (simp add: rust_string_def)
qed

end
