(* ===== verification/Doc_Codec.thy ===== *)
theory Doc_Codec
  imports Shard_Store Utf8
begin

text \<open>
  The documents of the document store (\<open>shard_store_doc.rs\<close>): packed values, the snapshot of a
  shard, the ops on it, and their binary encodings, which interpret \<open>codec_laws\<close>.

  A decoder works on the bytes from its position on and returns what is left.  A slice out of range
  panics, also where the source maps the failure of the conversion after it to an error.
\<close>

section \<open>Values, snapshots, ops\<close>

datatype packed_value =
    PI i64
  | PF f64
  | PB bool
  | PS string
  | PMi "i64 list"
  | PMm "packed_value list"
  | PNull

type_synonym u16 = "16 word"

type_synonym packed_fields = "(u16 \<times> packed_value) list"

record doc_snapshot =
  ds_docs :: "(u32, packed_fields) hashmap"

datatype doc_op =
    DocSet u32 u16 packed_value
  | DocAppend u32 u16 packed_value
  | DocRemove u32 u16 packed_value
  | DocDelete u32
  | DocCreate u32 packed_fields
  | DocMerge u32 packed_fields

definition doc_snapshot_new :: doc_snapshot where
  "doc_snapshot_new = \<lparr>ds_docs = []\<rparr>"


section \<open>Encoding\<close>

definition OP_TAG_SET :: u8 where "OP_TAG_SET = 1"
definition OP_TAG_APPEND :: u8 where "OP_TAG_APPEND = 2"
definition OP_TAG_REMOVE :: u8 where "OP_TAG_REMOVE = 3"
definition OP_TAG_DELETE :: u8 where "OP_TAG_DELETE = 4"
definition OP_TAG_CREATE :: u8 where "OP_TAG_CREATE = 5"
definition OP_TAG_MERGE :: u8 where "OP_TAG_MERGE = 6"

definition PV_TAG_I :: u8 where "PV_TAG_I = 1"
definition PV_TAG_F :: u8 where "PV_TAG_F = 2"
definition PV_TAG_B :: u8 where "PV_TAG_B = 3"
definition PV_TAG_S :: u8 where "PV_TAG_S = 4"
definition PV_TAG_MI :: u8 where "PV_TAG_MI = 5"
definition PV_TAG_MM :: u8 where "PV_TAG_MM = 6"
definition PV_TAG_NULL :: u8 where "PV_TAG_NULL = 7"

lemmas tag_defs = OP_TAG_SET_def OP_TAG_APPEND_def OP_TAG_REMOVE_def OP_TAG_DELETE_def OP_TAG_CREATE_def OP_TAG_MERGE_def
  PV_TAG_I_def PV_TAG_F_def PV_TAG_B_def PV_TAG_S_def PV_TAG_MI_def PV_TAG_MM_def PV_TAG_NULL_def

definition len_u32 :: "'a list \<Rightarrow> u8 list" where
  "len_u32 xs = to_le_bytes 4 (of_nat (length xs) :: u32)"

fun encode_packed_value :: "packed_value \<Rightarrow> u8 list" where
  "encode_packed_value (PI v) = PV_TAG_I # to_le_bytes 8 v"
| "encode_packed_value (PF v) = PV_TAG_F # to_le_bytes 8 v"
| "encode_packed_value (PB v) = [PV_TAG_B, if v then 1 else 0]"
| "encode_packed_value (PS v) = PV_TAG_S # len_u32 v @ str_bytes v"
| "encode_packed_value (PMi v) = PV_TAG_MI # len_u32 v @ concat (map (to_le_bytes 8) v)"
| "encode_packed_value (PMm v) = PV_TAG_MM # len_u32 v @ concat (map encode_packed_value v)"
| "encode_packed_value PNull = [PV_TAG_NULL]"

definition encode_field_pair :: "u16 \<times> packed_value \<Rightarrow> u8 list" where
  "encode_field_pair = (\<lambda>(field, pv). to_le_bytes 2 field @ encode_packed_value pv)"

definition encode_fields :: "packed_fields \<Rightarrow> u8 list" where
  "encode_fields flds = to_le_bytes 2 (of_nat (length flds) :: u16) @ concat (map encode_field_pair flds)"

definition encode_snapshot :: "doc_snapshot \<Rightarrow> u8 list" where
  "encode_snapshot snapshot =
     len_u32 (ds_docs snapshot) @ concat (map (\<lambda>(slot, flds). to_le_bytes 4 slot @ encode_fields flds) (ds_docs snapshot))"

fun encode_op :: "doc_op \<Rightarrow> u8 list" where
  "encode_op (DocSet slot field pv) = OP_TAG_SET # to_le_bytes 4 slot @ encode_field_pair (field, pv)"
| "encode_op (DocAppend slot field pv) = OP_TAG_APPEND # to_le_bytes 4 slot @ encode_field_pair (field, pv)"
| "encode_op (DocRemove slot field pv) = OP_TAG_REMOVE # to_le_bytes 4 slot @ encode_field_pair (field, pv)"
| "encode_op (DocDelete slot) = OP_TAG_DELETE # to_le_bytes 4 slot"
| "encode_op (DocCreate slot flds) = OP_TAG_CREATE # to_le_bytes 4 slot @ encode_fields flds"
| "encode_op (DocMerge slot flds) = OP_TAG_MERGE # to_le_bytes 4 slot @ encode_fields flds"

text \<open>The writers of the dump pipeline, which produce a merge op without building its value.\<close>

definition write_merge_header :: "u32 \<Rightarrow> u16 \<Rightarrow> u8 list" where
  "write_merge_header slot num_fields = OP_TAG_MERGE # to_le_bytes 4 slot @ to_le_bytes 2 num_fields"

definition write_field_int :: "u16 \<Rightarrow> i64 \<Rightarrow> u8 list" where
  "write_field_int field v = to_le_bytes 2 field @ [PV_TAG_I] @ to_le_bytes 8 v"

definition write_field_bool :: "u16 \<Rightarrow> bool \<Rightarrow> u8 list" where
  "write_field_bool field v = to_le_bytes 2 field @ [PV_TAG_B] @ [if v then 1 else 0]"

definition write_field_str :: "u16 \<Rightarrow> string \<Rightarrow> u8 list" where
  "write_field_str field v = to_le_bytes 2 field @ [PV_TAG_S] @ len_u32 v @ str_bytes v"

definition write_field_multi_int :: "u16 \<Rightarrow> i64 list \<Rightarrow> u8 list" where
  "write_field_multi_int field vs = to_le_bytes 2 field @ [PV_TAG_MI] @ len_u32 vs @ concat (map (to_le_bytes 8) vs)"


section \<open>Decoding\<close>

text \<open>\<open>data[pos..pos + n]\<close>.\<close>

definition take_bytes :: "nat \<Rightarrow> u8 list \<Rightarrow> (u8 list \<times> u8 list) io" where
  "take_bytes n bytes = (if length bytes < n then Inl Panicked else Inr (take n bytes, drop n bytes))"

definition take_len :: "u8 list \<Rightarrow> (nat \<times> u8 list) io" where
  "take_len bytes = io_bind (take_bytes 4 bytes) (\<lambda>(b, rest). Inr (unat (from_le_bytes b :: u32), rest))"

fun decode_i64s :: "nat \<Rightarrow> u8 list \<Rightarrow> (i64 list \<times> u8 list) io" where
  "decode_i64s 0 bytes = Inr ([], bytes)"
| "decode_i64s (Suc n) bytes =
     io_bind (take_bytes 8 bytes) (\<lambda>(b, rest).
       io_bind (decode_i64s n rest) (\<lambda>(vs, rest). Inr (from_le_bytes b # vs, rest)))"

lemma io_bind_Inr: "io_bind r f = Inr y \<longleftrightarrow> (\<exists>x. r = Inr x \<and> f x = Inr y)"
  by (cases r) simp_all

lemma take_bytes_Inr: "take_bytes n bytes = Inr (b, rest) \<longleftrightarrow> n \<le> length bytes \<and> b = take n bytes \<and> rest = drop n bytes"
  by (auto simp: take_bytes_def)

lemma take_len_Inr: "take_len bytes = Inr (len, rest) \<Longrightarrow> length rest + 4 = length bytes"
  by (auto simp: take_len_def io_bind_Inr take_bytes_Inr)

lemma decode_i64s_length: "decode_i64s n bytes = Inr (vs, rest) \<Longrightarrow> length rest \<le> length bytes"
  by (induction n arbitrary: bytes vs rest) (fastforce simp: io_bind_Inr take_bytes_Inr)+

function decode_packed_value :: "u8 list \<Rightarrow> (packed_value \<times> u8 list) io"
  and decode_packed_values :: "nat \<Rightarrow> u8 list \<Rightarrow> (packed_value list \<times> u8 list) io" where
  "decode_packed_value [] = Inl (IoErr UnexpectedEof)"
| "decode_packed_value (tag # bytes) =
     (if tag = PV_TAG_I then io_bind (take_bytes 8 bytes) (\<lambda>(b, rest). Inr (PI (from_le_bytes b), rest))
      else if tag = PV_TAG_F then io_bind (take_bytes 8 bytes) (\<lambda>(b, rest). Inr (PF (from_le_bytes b), rest))
      else if tag = PV_TAG_B then io_bind (take_bytes 1 bytes) (\<lambda>(b, rest). Inr (PB (hd b \<noteq> 0), rest))
      else if tag = PV_TAG_S then io_bind (take_len bytes) (\<lambda>(len, rest).
        io_bind (take_bytes len rest) (\<lambda>(s, rest). Inr (PS (from_utf8_lossy s), rest)))
      else if tag = PV_TAG_MI then io_bind (take_len bytes) (\<lambda>(len, rest).
        io_bind (decode_i64s len rest) (\<lambda>(vals, rest). Inr (PMi vals, rest)))
      else if tag = PV_TAG_MM then
        (case take_len bytes of
           Inl e \<Rightarrow> Inl e
         | Inr (len, rest) \<Rightarrow>
             (case decode_packed_values len rest of
                Inl e \<Rightarrow> Inl e
              | Inr (vals, rest) \<Rightarrow> Inr (PMm vals, rest)))
      else if tag = PV_TAG_NULL then Inr (PNull, bytes)
      else Inl (IoErr BadData))"
| "decode_packed_values 0 bytes = Inr ([], bytes)"
| "decode_packed_values (Suc n) bytes =
     (case decode_packed_value bytes of
        Inl e \<Rightarrow> Inl e
      | Inr (v, rest) \<Rightarrow>
          (case decode_packed_values n rest of
             Inl e \<Rightarrow> Inl e
           | Inr (vs, rest) \<Rightarrow> Inr (v # vs, rest)))"
  by pat_completeness auto
termination
proof (relation "measure (\<lambda>x. case x of Inl bytes \<Rightarrow> 2 * length bytes | Inr (n, bytes) \<Rightarrow> 2 * length bytes + 1)")
  have shrinks:
    "decode_packed_value_decode_packed_values_dom (Inl bytes) \<Longrightarrow>
       decode_packed_value bytes = Inr (v, rest) \<Longrightarrow> length rest < length bytes"
    "decode_packed_value_decode_packed_values_dom (Inr (n, bytes')) \<Longrightarrow>
       decode_packed_values n bytes' = Inr (vs, rest') \<Longrightarrow> length rest' \<le> length bytes'"
    for bytes v rest n bytes' vs rest'
  proof (induction bytes and n bytes' arbitrary: v rest and vs rest'
      rule: decode_packed_value_decode_packed_values.pinduct)
    case 1
    then show ?case by (simp add: decode_packed_value.psimps)
  next
    case (2 tag bytes)
    show ?case
    proof (cases "tag = PV_TAG_MM")
      case True
      with 2 show ?thesis
        by (fastforce simp: decode_packed_value.psimps tag_defs split: sum.splits prod.splits dest: take_len_Inr)
    next
      case False
      with 2 show ?thesis
        by (auto simp: decode_packed_value.psimps io_bind_Inr take_bytes_Inr dest!: take_len_Inr decode_i64s_length split: if_splits)
    qed
  next
    case (3 bytes)
    then show ?case by (simp add: decode_packed_values.psimps)
  next
    case (4 n bytes)
    then show ?case
      by (fastforce simp: decode_packed_values.psimps split: sum.splits prod.splits)
  qed
  fix n bytes x v rest
  assume "decode_packed_value bytes = Inr x" and "(v, rest) = x" and "decode_packed_value_decode_packed_values_dom (Inl bytes)"
  with shrinks(1) show "(Inr (n, rest), Inr (Suc n, bytes)) \<in> measure (\<lambda>x. case x of Inl bytes \<Rightarrow> 2 * length bytes | Inr (n, bytes) \<Rightarrow> 2 * length bytes + 1)"
    by auto
qed (auto dest: take_len_Inr)

definition decode_field_pair :: "u8 list \<Rightarrow> ((u16 \<times> packed_value) \<times> u8 list) io" where
  "decode_field_pair bytes =
     (if length bytes < 2 then Inl (IoErr UnexpectedEof)
      else io_bind (decode_packed_value (drop 2 bytes)) (\<lambda>(pv, rest). Inr ((from_le_bytes (take 2 bytes), pv), rest)))"

fun decode_field_pairs :: "nat \<Rightarrow> u8 list \<Rightarrow> (packed_fields \<times> u8 list) io" where
  "decode_field_pairs 0 bytes = Inr ([], bytes)"
| "decode_field_pairs (Suc n) bytes =
     io_bind (decode_field_pair bytes) (\<lambda>(p, rest). io_bind (decode_field_pairs n rest) (\<lambda>(ps, rest). Inr (p # ps, rest)))"

text \<open>The loop over the documents of a snapshot, with the map so far.\<close>

fun decode_docs :: "nat \<Rightarrow> u8 list \<Rightarrow> (u32, packed_fields) hashmap \<Rightarrow> (u32, packed_fields) hashmap io" where
  "decode_docs 0 bytes docs = Inr docs"
| "decode_docs (Suc n) bytes docs =
     (if length bytes < 6 then Inl (IoErr UnexpectedEof)
      else let slot = from_le_bytes (take 4 bytes);
               num_fields = unat (from_le_bytes (take 2 (drop 4 bytes)) :: u16)
        in io_bind (decode_field_pairs num_fields (drop 6 bytes)) (\<lambda>(flds, rest).
             decode_docs n rest (hm_insert slot flds docs)))"

definition decode_snapshot :: "u8 list \<Rightarrow> doc_snapshot io" where
  "decode_snapshot bytes =
     (if length bytes < 4 then Inr doc_snapshot_new
      else let num_docs = unat (from_le_bytes (take 4 bytes) :: u32)
        in io_bind (decode_docs num_docs (drop 4 bytes) []) (\<lambda>docs. Inr \<lparr>ds_docs = docs\<rparr>))"

definition decode_slot_pair :: "(u32 \<Rightarrow> u16 \<Rightarrow> packed_value \<Rightarrow> doc_op) \<Rightarrow> u8 list \<Rightarrow> doc_op io" where
  "decode_slot_pair mk bytes =
     io_bind (take_bytes 4 bytes) (\<lambda>(b, rest).
       io_bind (decode_field_pair rest) (\<lambda>((field, pv), _). Inr (mk (from_le_bytes b) field pv)))"

definition decode_slot_fields :: "(u32 \<Rightarrow> packed_fields \<Rightarrow> doc_op) \<Rightarrow> u8 list \<Rightarrow> doc_op io" where
  "decode_slot_fields mk bytes =
     io_bind (take_bytes 4 bytes) (\<lambda>(b, rest). io_bind (take_bytes 2 rest) (\<lambda>(k, rest).
       io_bind (decode_field_pairs (unat (from_le_bytes k :: u16)) rest) (\<lambda>(flds, _). Inr (mk (from_le_bytes b) flds))))"

definition decode_op :: "u8 list \<Rightarrow> doc_op io" where
  "decode_op bytes =
     (case bytes of
        [] \<Rightarrow> Inl (IoErr BadData)
      | tag # rest \<Rightarrow>
          if tag = OP_TAG_SET then decode_slot_pair DocSet rest
          else if tag = OP_TAG_APPEND then decode_slot_pair DocAppend rest
          else if tag = OP_TAG_REMOVE then decode_slot_pair DocRemove rest
          else if tag = OP_TAG_DELETE then io_bind (take_bytes 4 rest) (\<lambda>(b, _). Inr (DocDelete (from_le_bytes b)))
          else if tag = OP_TAG_CREATE then decode_slot_fields DocCreate rest
          else if tag = OP_TAG_MERGE then decode_slot_fields DocMerge rest
          else Inl (IoErr BadData))"


section \<open>Applying ops\<close>

fun packed_value_eq :: "packed_value \<Rightarrow> packed_value \<Rightarrow> bool" where
  "packed_value_eq (PI x) (PI y) \<longleftrightarrow> x = y"
| "packed_value_eq (PF x) (PF y) \<longleftrightarrow> f64_eq x y"
| "packed_value_eq (PB x) (PB y) \<longleftrightarrow> x = y"
| "packed_value_eq (PS x) (PS y) \<longleftrightarrow> x = y"
| "packed_value_eq (PMi x) (PMi y) \<longleftrightarrow> x = y"
| "packed_value_eq (PMm x) (PMm y) \<longleftrightarrow> list_all2 packed_value_eq x y"
| "packed_value_eq PNull PNull \<longleftrightarrow> True"
| "packed_value_eq _ _ \<longleftrightarrow> False"

text \<open>A mutation of the first pair of a field, as \<open>iter_mut().find\<close> locates it.\<close>

fun update_field :: "u16 \<Rightarrow> (packed_value \<Rightarrow> packed_value) \<Rightarrow> packed_fields \<Rightarrow> packed_fields" where
  "update_field field f [] = []"
| "update_field field f ((k, v) # flds) = (if k = field then (k, f v) # flds else (k, v) # update_field field f flds)"

definition has_field :: "u16 \<Rightarrow> packed_fields \<Rightarrow> bool" where
  "has_field field flds \<longleftrightarrow> list_ex (\<lambda>(k, _). k = field) flds"

definition set_field :: "u16 \<Rightarrow> packed_value \<Rightarrow> packed_fields \<Rightarrow> packed_fields" where
  "set_field field pv flds =
     (if pv = PNull then filter (\<lambda>(k, _). k \<noteq> field) flds
      else if has_field field flds then update_field field (\<lambda>_. pv) flds
      else flds @ [(field, pv)])"

fun append_packed :: "packed_value \<Rightarrow> packed_value \<Rightarrow> packed_value" where
  "append_packed pv (PMi v) = (case pv of PI i \<Rightarrow> PMi (if i \<in> set v then v else v @ [i]) | _ \<Rightarrow> PMi v)"
| "append_packed pv (PMm v) = PMm (if list_ex (\<lambda>x. packed_value_eq x pv) v then v else v @ [pv])"
| "append_packed pv old = PMm [old, pv]"

definition append_field :: "u16 \<Rightarrow> packed_value \<Rightarrow> packed_fields \<Rightarrow> packed_fields" where
  "append_field field pv flds =
     (if has_field field flds then update_field field (append_packed pv) flds
      else flds @ [(field, case pv of PI i \<Rightarrow> PMi [i] | _ \<Rightarrow> PMm [pv])])"

fun remove_packed :: "packed_value \<Rightarrow> packed_value \<Rightarrow> packed_value" where
  "remove_packed pv (PMi v) = (case pv of PI i \<Rightarrow> PMi (filter (\<lambda>x. x \<noteq> i) v) | _ \<Rightarrow> PMi v)"
| "remove_packed pv (PMm v) = PMm (filter (\<lambda>x. \<not> packed_value_eq x pv) v)"
| "remove_packed pv old = old"

definition union_ints :: "i64 list \<Rightarrow> i64 list \<Rightarrow> i64 list" where
  "union_ints existing incoming = fold (\<lambda>v vs. if v \<in> set vs then vs else vs @ [v]) incoming existing"

fun merge_packed :: "packed_value \<Rightarrow> packed_value \<Rightarrow> packed_value" where
  "merge_packed (PMi incoming) (PMi existing) = PMi (union_ints existing incoming)"
| "merge_packed pv _ = pv"

definition merge_field :: "u16 \<times> packed_value \<Rightarrow> packed_fields \<Rightarrow> packed_fields" where
  "merge_field = (\<lambda>(field, pv) flds.
     if pv = PNull then filter (\<lambda>(k, _). k \<noteq> field) flds
     else if has_field field flds then update_field field (merge_packed pv) flds
     else flds @ [(field, pv)])"

definition docs_upsert :: "u32 \<Rightarrow> (packed_fields \<Rightarrow> packed_fields) \<Rightarrow> doc_snapshot \<Rightarrow> doc_snapshot" where
  "docs_upsert slot f snapshot = snapshot\<lparr>ds_docs := hm_upsert slot [] f (ds_docs snapshot)\<rparr>"

fun doc_apply :: "doc_op \<Rightarrow> doc_snapshot \<Rightarrow> doc_snapshot" where
  "doc_apply (DocSet slot field pv) snapshot = docs_upsert slot (set_field field pv) snapshot"
| "doc_apply (DocAppend slot field pv) snapshot = docs_upsert slot (append_field field pv) snapshot"
| "doc_apply (DocRemove slot field pv) snapshot =
     (case hm_get (ds_docs snapshot) slot of
        None \<Rightarrow> snapshot
      | Some flds \<Rightarrow> snapshot\<lparr>ds_docs := hm_insert slot (update_field field (remove_packed pv) flds) (ds_docs snapshot)\<rparr>)"
| "doc_apply (DocDelete slot) snapshot = snapshot\<lparr>ds_docs := hm_remove slot (ds_docs snapshot)\<rparr>"
| "doc_apply (DocCreate slot flds) snapshot = snapshot\<lparr>ds_docs := hm_insert slot flds (ds_docs snapshot)\<rparr>"
| "doc_apply (DocMerge slot flds) snapshot = docs_upsert slot (fold merge_field flds) snapshot"

definition doc_codec :: "(u8 list \<Rightarrow> u32) \<Rightarrow> (doc_snapshot, doc_op) shard_codec" where
  "doc_codec crc = \<lparr>cd_encode = encode_snapshot, cd_decode = decode_snapshot, cd_empty = doc_snapshot_new,
     cd_encode_op = encode_op, cd_decode_op = decode_op, cd_apply = doc_apply, cd_crc = crc\<rparr>"


section \<open>Round trips\<close>

text \<open>The limits of the encoding: lengths fit their prefixes, strings are well formed.\<close>

fun packed_ok :: "packed_value \<Rightarrow> bool" where
  "packed_ok (PS s) \<longleftrightarrow> rust_string s \<and> length s < 2 ^ 32"
| "packed_ok (PMi v) \<longleftrightarrow> length v < 2 ^ 32"
| "packed_ok (PMm v) \<longleftrightarrow> length v < 2 ^ 32 \<and> list_all packed_ok v"
| "packed_ok _ \<longleftrightarrow> True"

definition fields_ok :: "packed_fields \<Rightarrow> bool" where
  "fields_ok flds \<longleftrightarrow> length flds < 2 ^ 16 \<and> list_all (\<lambda>(_, pv). packed_ok pv) flds"

definition snapshot_ok :: "doc_snapshot \<Rightarrow> bool" where
  "snapshot_ok snapshot \<longleftrightarrow> hm_ok (ds_docs snapshot) \<and> list_all (\<lambda>(_, flds). fields_ok flds) (ds_docs snapshot) \<and>
     length (ds_docs snapshot) < 2 ^ 32 \<and> length (encode_snapshot snapshot) < 2 ^ 32"

fun op_fields_ok :: "doc_op \<Rightarrow> bool" where
  "op_fields_ok (DocSet _ _ pv) \<longleftrightarrow> packed_ok pv"
| "op_fields_ok (DocAppend _ _ pv) \<longleftrightarrow> packed_ok pv"
| "op_fields_ok (DocRemove _ _ pv) \<longleftrightarrow> packed_ok pv"
| "op_fields_ok (DocDelete _) \<longleftrightarrow> True"
| "op_fields_ok (DocCreate _ flds) \<longleftrightarrow> fields_ok flds"
| "op_fields_ok (DocMerge _ flds) \<longleftrightarrow> fields_ok flds"

definition doc_op_ok :: "doc_op \<Rightarrow> bool" where
  "doc_op_ok op \<longleftrightarrow> op_fields_ok op \<and> length (encode_op op) < 2 ^ 32"

lemma from_to_le_u16 [simp]: "from_le_bytes (to_le_bytes 2 w) = (w :: u16)"
  by (rule from_to_le_bytes) simp

lemma take_bytes_append [simp]: "length a = n \<Longrightarrow> take_bytes n (a @ rest) = Inr (a, rest)"
  by (simp add: take_bytes_def)

lemma take_bytes_all [simp]: "length a = n \<Longrightarrow> take_bytes n a = Inr (a, [])"
  by (simp add: take_bytes_def)

lemma take_len_append [simp]: "length xs < 2 ^ 32 \<Longrightarrow> take_len (len_u32 xs @ rest) = Inr (length xs, rest)"
  by (simp add: take_len_def len_u32_def unat_of_nat_len)

lemma decode_i64s_encode [simp]: "decode_i64s (length vs) (concat (map (to_le_bytes 8) vs) @ rest) = Inr (vs, rest)"
  by (induction vs) simp_all

lemma decode_encode_packed [simp]: "packed_ok pv \<Longrightarrow> decode_packed_value (encode_packed_value pv @ rest) = Inr (pv, rest)"
proof (induction pv arbitrary: rest)
  case (PMm vs)
  have "decode_packed_values (length vs) (concat (map encode_packed_value vs) @ rest) = Inr (vs, rest)" for rest
    using PMm by (induction vs) (auto simp: list_all_iff)
  with PMm.prems show ?case by (simp add: tag_defs)
qed (simp_all add: tag_defs take_bytes_def)

lemma decode_encode_pair [simp]: "packed_ok (snd p) \<Longrightarrow> decode_field_pair (encode_field_pair p @ rest) = Inr (p, rest)"
  by (cases p) (simp add: decode_field_pair_def encode_field_pair_def)

lemma decode_encode_pairs [simp]:
  "list_all (\<lambda>(_, pv). packed_ok pv) flds \<Longrightarrow>
    decode_field_pairs (length flds) (concat (map encode_field_pair flds) @ rest) = Inr (flds, rest)"
  by (induction flds) (simp_all add: case_prod_beta)

lemma unat_fields_len [simp]: "fields_ok flds \<Longrightarrow> unat (of_nat (length flds) :: u16) = length flds"
  by (rule unat_of_nat_len) (simp add: fields_ok_def)

lemma decode_encode_docs:
  assumes "list_all (\<lambda>(_, flds). fields_ok flds) docs" and "hm_ok (acc @ docs)"
  shows "decode_docs (length docs) (concat (map (\<lambda>(slot, flds). to_le_bytes 4 slot @ encode_fields flds) docs)) acc = Inr (acc @ docs)"
  using assms
proof (induction docs arbitrary: acc)
  case (Cons d docs)
  obtain slot flds where d: "d = (slot, flds)" by (cases d)
  have "slot \<notin> fst ` set acc" using Cons.prems(2) by (auto simp: hm_ok_def d)
  then have upd: "hm_insert slot flds acc = acc @ [d]" by (simp add: update_new_key d)
  have "list_all (\<lambda>(_, pv). packed_ok pv) flds" "fields_ok flds" using Cons.prems(1) by (simp_all add: d fields_ok_def)
  then show ?case
    using Cons.IH [of "acc @ [d]"] Cons.prems
    by (simp add: d upd [unfolded d] encode_fields_def hm_ok_def)
qed simp

lemma decode_encode_snapshot: "snapshot_ok s \<Longrightarrow> decode_snapshot (encode_snapshot s) = Inr s"
  using decode_encode_docs [of "ds_docs s" "[]"]
  by (simp add: snapshot_ok_def decode_snapshot_def encode_snapshot_def len_u32_def unat_of_nat_len)

lemma decode_encode_op: "op_fields_ok op \<Longrightarrow> decode_op (encode_op op) = Inr op"
  by (cases op)
     (simp_all add: decode_op_def tag_defs decode_slot_pair_def decode_slot_fields_def encode_fields_def
       decode_encode_pair [where rest = "[]", simplified] decode_encode_pairs [where rest = "[]", simplified] fields_ok_def)

interpretation dc: codec_laws "doc_codec crc" snapshot_ok doc_op_ok for crc
proof
  fix s :: doc_snapshot
  assume s: "snapshot_ok s"
  then show "cd_decode (doc_codec crc) (cd_encode (doc_codec crc) s) = Inr s"
    by (simp add: doc_codec_def decode_encode_snapshot)
  show "0 < length (cd_encode (doc_codec crc) s) \<and> length (cd_encode (doc_codec crc) s) < 2 ^ 32"
    using s by (simp add: doc_codec_def snapshot_ok_def encode_snapshot_def len_u32_def)
next
  fix op :: doc_op
  assume op: "doc_op_ok op"
  then show "cd_decode_op (doc_codec crc) (cd_encode_op (doc_codec crc) op) = Inr op"
    by (simp add: doc_codec_def decode_encode_op doc_op_ok_def)
  show "length (cd_encode_op (doc_codec crc) op) < 2 ^ 32" using op by (simp add: doc_codec_def doc_op_ok_def)
qed

end
