(* ===== verification/Write_Coalescer.thy ===== *)
theory Write_Coalescer
  imports Slot_Allocator Filter_Field Sort_Field
begin

text \<open>
  The write path behind the mutation channel (\<open>write_coalescer.rs\<close>): mutation ops, the batch
  that groups them by target bitmap and applies them in bulk, the sender with its counter and
  pending set of deferred mutations, and the coalescer.

  The channel itself is \<open>crossbeam_channel\<close>: a parameter with the operations the code calls,
  and the locale \<open>channel\<close> with their documented FIFO behaviour.  A poisoned mutex (ignored by
  the code) and the timing records are left out.
\<close>

section \<open>Mutation ops and batches\<close>

datatype mutation_op =
    FilterInsert string u64 "u32 list"
  | FilterRemove string u64 "u32 list"
  | SortSet string usize "u32 list"
  | SortClear string usize "u32 list"
  | AliveInsert "u32 list"
  | AliveRemove "u32 list"
  | DeferredAlive u32 u64
  | DeferredCancel u32

type_synonym filter_group_key = "string \<times> u64"
type_synonym sort_group_key = "string \<times> usize"

record write_batch =
  wb_ops :: "mutation_op list"
  wb_filter_inserts :: "(filter_group_key, u32 list) hashmap"
  wb_filter_removes :: "(filter_group_key, u32 list) hashmap"
  wb_sort_sets :: "(sort_group_key, u32 list) hashmap"
  wb_sort_clears :: "(sort_group_key, u32 list) hashmap"
  wb_alive_inserts :: "u32 list"
  wb_alive_removes :: "u32 list"
  wb_deferred_muts :: "(u32 \<times> u64 option) list"

definition wb_new :: write_batch where
  "wb_new = \<lparr>wb_ops = [], wb_filter_inserts = [], wb_filter_removes = [], wb_sort_sets = [],
     wb_sort_clears = [], wb_alive_inserts = [], wb_alive_removes = [], wb_deferred_muts = []\<rparr>"

definition wb_push_ops :: "write_batch \<Rightarrow> mutation_op list \<Rightarrow> write_batch" where
  "wb_push_ops b ops = b\<lparr>wb_ops := wb_ops b @ ops\<rparr>"

definition wb_len :: "write_batch \<Rightarrow> usize" where
  "wb_len b = length (wb_ops b)"

definition wb_is_empty :: "write_batch \<Rightarrow> bool" where
  "wb_is_empty b \<longleftrightarrow> wb_ops b = []"

text \<open>The body of the loop of \<open>group_and_sort\<close>: the op goes to the group of its target.\<close>

fun wb_group :: "mutation_op \<Rightarrow> write_batch \<Rightarrow> write_batch" where
  "wb_group (FilterInsert field v slots) b =
     b\<lparr>wb_filter_inserts := hm_upsert (field, v) [] (\<lambda>xs. xs @ slots) (wb_filter_inserts b)\<rparr>"
| "wb_group (FilterRemove field v slots) b =
     b\<lparr>wb_filter_removes := hm_upsert (field, v) [] (\<lambda>xs. xs @ slots) (wb_filter_removes b)\<rparr>"
| "wb_group (SortSet field bit_layer slots) b =
     b\<lparr>wb_sort_sets := hm_upsert (field, bit_layer) [] (\<lambda>xs. xs @ slots) (wb_sort_sets b)\<rparr>"
| "wb_group (SortClear field bit_layer slots) b =
     b\<lparr>wb_sort_clears := hm_upsert (field, bit_layer) [] (\<lambda>xs. xs @ slots) (wb_sort_clears b)\<rparr>"
| "wb_group (AliveInsert slots) b = b\<lparr>wb_alive_inserts := wb_alive_inserts b @ slots\<rparr>"
| "wb_group (AliveRemove slots) b = b\<lparr>wb_alive_removes := wb_alive_removes b @ slots\<rparr>"
| "wb_group (DeferredAlive slot activate_at) b =
     b\<lparr>wb_deferred_muts := wb_deferred_muts b @ [(slot, Some activate_at)]\<rparr>"
| "wb_group (DeferredCancel slot) b = b\<lparr>wb_deferred_muts := wb_deferred_muts b @ [(slot, None)]\<rparr>"

definition wb_group_and_sort :: "write_batch \<Rightarrow> write_batch" where
  "wb_group_and_sort b =
     (let b = fold wb_group (wb_ops b) wb_new
      in b\<lparr>wb_filter_inserts := hm_map sort (wb_filter_inserts b),
           wb_filter_removes := hm_map sort (wb_filter_removes b),
           wb_sort_sets := hm_map sort (wb_sort_sets b),
           wb_sort_clears := hm_map sort (wb_sort_clears b),
           wb_alive_inserts := sort (wb_alive_inserts b),
           wb_alive_removes := sort (wb_alive_removes b)\<rparr>)"

definition wb_has_alive_mutations :: "write_batch \<Rightarrow> bool" where
  "wb_has_alive_mutations b \<longleftrightarrow> wb_alive_inserts b \<noteq> [] \<or> wb_alive_removes b \<noteq> []"

definition wb_has_deferred_alive :: "write_batch \<Rightarrow> bool" where
  "wb_has_deferred_alive b \<longleftrightarrow> wb_deferred_muts b \<noteq> []"

text \<open>\<open>take_tier2_mutations\<close>: inserts first, then removes; an entry is (field, value, slots, is_set).\<close>

definition wb_take_tier2_mutations ::
    "write_batch \<Rightarrow> string list \<Rightarrow> (string \<times> u64 \<times> u32 list \<times> bool) list \<times> write_batch" where
  "wb_take_tier2_mutations b tier2_fields =
     (let insert_keys = filter (\<lambda>k. fst k \<in> set tier2_fields) (map fst (wb_filter_inserts b));
          remove_keys = filter (\<lambda>k. fst k \<in> set tier2_fields) (map fst (wb_filter_removes b));
          entries = (\<lambda>m is_set keys. List.map_filter
             (\<lambda>k. map_option (\<lambda>slots. (fst k, snd k, slots, is_set)) (hm_get m k)) keys)
      in (entries (wb_filter_inserts b) True insert_keys @ entries (wb_filter_removes b) False remove_keys,
          b\<lparr>wb_filter_inserts := fold hm_remove insert_keys (wb_filter_inserts b),
            wb_filter_removes := fold hm_remove remove_keys (wb_filter_removes b)\<rparr>))"

definition wb_mutated_sort_slots :: "write_batch \<Rightarrow> (string, u32 list) hashmap" where
  "wb_mutated_sort_slots b =
     fold (\<lambda>((field, _), slots). hm_upsert field [] (fold List.insert slots)) (wb_sort_clears b)
       (fold (\<lambda>((field, _), slots). hm_upsert field [] (fold List.insert slots)) (wb_sort_sets b) [])"

definition wb_mutated_filter_fields :: "write_batch \<Rightarrow> string list" where
  "wb_mutated_filter_fields b =
     fold List.insert (map (fst \<circ> fst) (wb_filter_removes b))
       (fold List.insert (map (fst \<circ> fst) (wb_filter_inserts b)) [])"

text \<open>
  \<open>apply_traced\<close>: filter removes before inserts, sort clears before sets, alive inserts
  before removes, then the deferred mutations in arrival order, and the merge of the alive
  bitmap.  A group of an unknown field is skipped.
\<close>

type_synonym 'b bitmap_state = "'b slot_allocator \<times> 'b filter_index \<times> 'b sort_index"

definition wb_apply_filter_removes ::
    "'b roaring_ops \<Rightarrow> (filter_group_key, u32 list) hashmap \<Rightarrow> 'b filter_index \<Rightarrow> 'b filter_index" where
  "wb_apply_filter_removes R groups filters =
     fold (\<lambda>((field, v), slot_ids) filters. fi_modify_field filters field (\<lambda>f. ff_remove_bulk R f v slot_ids))
       groups filters"

definition wb_apply_filter_inserts ::
    "'b roaring_ops \<Rightarrow> (filter_group_key, u32 list) hashmap \<Rightarrow> 'b filter_index \<Rightarrow> 'b filter_index" where
  "wb_apply_filter_inserts R groups filters =
     fold (\<lambda>((field, v), slot_ids) filters. fi_modify_field filters field (\<lambda>f. ff_insert_bulk R f v slot_ids))
       groups filters"

definition wb_apply_sort_clears ::
    "'b roaring_ops \<Rightarrow> (sort_group_key, u32 list) hashmap \<Rightarrow> 'b sort_index \<Rightarrow> 'b sort_index" where
  "wb_apply_sort_clears R groups sorts =
     fold (\<lambda>((field, bit_layer), slot_ids) sorts.
         si_modify_field sorts field (\<lambda>f. sf_clear_layer_bulk R f bit_layer slot_ids)) groups sorts"

definition wb_apply_sort_sets ::
    "'b roaring_ops \<Rightarrow> (sort_group_key, u32 list) hashmap \<Rightarrow> 'b sort_index \<Rightarrow> 'b sort_index" where
  "wb_apply_sort_sets R groups sorts =
     fold (\<lambda>((field, bit_layer), slot_ids) sorts.
         si_modify_field sorts field (\<lambda>f. sf_set_layer_bulk R f bit_layer slot_ids)) groups sorts"

definition wb_apply_deferred :: "(u32 \<times> u64 option) list \<Rightarrow> 'b slot_allocator \<Rightarrow> 'b slot_allocator" where
  "wb_apply_deferred muts sa =
     fold (\<lambda>(slot, mutation) sa. case mutation of
             Some activate_at \<Rightarrow> sa_schedule_alive sa slot activate_at
           | None \<Rightarrow> sa_cancel_deferred sa slot) muts sa"

definition wb_apply_alive :: "'b roaring_ops \<Rightarrow> write_batch \<Rightarrow> 'b slot_allocator \<Rightarrow> 'b slot_allocator" where
  "wb_apply_alive R b sa =
     (let sa = (if wb_alive_inserts b \<noteq> [] then sa_alive_insert_bulk R sa (wb_alive_inserts b) else sa);
          sa = fold (\<lambda>slot sa. sa_alive_remove_one R sa slot) (wb_alive_removes b) sa;
          sa = wb_apply_deferred (wb_deferred_muts b) sa
      in sa_merge_alive R sa)"

definition wb_apply :: "'b roaring_ops \<Rightarrow> write_batch \<Rightarrow> 'b bitmap_state \<Rightarrow> 'b bitmap_state" where
  "wb_apply R b = (\<lambda>(slots, filters, sorts).
     (wb_apply_alive R b slots,
      wb_apply_filter_inserts R (wb_filter_inserts b) (wb_apply_filter_removes R (wb_filter_removes b) filters),
      wb_apply_sort_sets R (wb_sort_sets b) (wb_apply_sort_clears R (wb_sort_clears b) sorts)))"


section \<open>The channel, the sender and the coalescer\<close>

text \<open>
  What the code calls of the channel.  \<open>ch_send\<close> is \<open>None\<close> when the channel is disconnected
  (a full channel only delays the call); \<open>ch_try_recv\<close> is \<open>None\<close> when it is empty.
\<close>

record 'c chan_ops =
  ch_send :: "'c \<Rightarrow> mutation_op \<Rightarrow> 'c option"
  ch_try_recv :: "'c \<Rightarrow> (mutation_op \<times> 'c) option"
  ch_len :: "'c \<Rightarrow> usize"

record 'c write_coalescer =
  wc_chan :: 'c
  wc_batch :: write_batch
  wc_deferred_seq :: u64
  wc_deferred_pending :: "u32 list"

definition wc_new :: "'c \<Rightarrow> 'c write_coalescer" where
  "wc_new ch = \<lparr>wc_chan = ch, wc_batch = wb_new, wc_deferred_seq = 0, wc_deferred_pending = []\<rparr>"

fun is_deferred_op :: "mutation_op \<Rightarrow> bool" where
  "is_deferred_op (DeferredAlive _ _) = True"
| "is_deferred_op (DeferredCancel _) = True"
| "is_deferred_op _ = False"

text \<open>\<open>send\<close>, in its two accesses to shared state: the bookkeeping before the channel send, and the
  send with its rollback.\<close>

definition ms_announce :: "mutation_op \<Rightarrow> 'c write_coalescer \<Rightarrow> 'c write_coalescer" where
  "ms_announce op wc =
     (let wc = (case op of
                  DeferredAlive slot _ \<Rightarrow>
                    wc\<lparr>wc_deferred_pending := List.insert slot (wc_deferred_pending wc)\<rparr>
                | DeferredCancel slot \<Rightarrow>
                    wc\<lparr>wc_deferred_pending := removeAll slot (wc_deferred_pending wc)\<rparr>
                | _ \<Rightarrow> wc)
      in if is_deferred_op op then wc\<lparr>wc_deferred_seq := wc_deferred_seq wc + 1\<rparr> else wc)"

definition ms_enqueue :: "'c chan_ops \<Rightarrow> mutation_op \<Rightarrow> 'c write_coalescer \<Rightarrow> bool \<times> 'c write_coalescer" where
  "ms_enqueue C op wc =
     (case ch_send C (wc_chan wc) op of
        Some ch \<Rightarrow> (True, wc\<lparr>wc_chan := ch\<rparr>)
      | None \<Rightarrow>
          (False, if is_deferred_op op then wc\<lparr>wc_deferred_seq := wc_deferred_seq wc - 1\<rparr> else wc))"

definition ms_send :: "'c chan_ops \<Rightarrow> mutation_op \<Rightarrow> 'c write_coalescer \<Rightarrow> bool \<times> 'c write_coalescer" where
  "ms_send C op wc = ms_enqueue C op (ms_announce op wc)"

fun ms_send_batch :: "'c chan_ops \<Rightarrow> mutation_op list \<Rightarrow> 'c write_coalescer \<Rightarrow> bool \<times> 'c write_coalescer" where
  "ms_send_batch C [] wc = (True, wc)"
| "ms_send_batch C (op # ops) wc =
     (let (ok, wc) = ms_send C op wc in if ok then ms_send_batch C ops wc else (False, wc))"

definition wc_pending_count :: "'c chan_ops \<Rightarrow> 'c write_coalescer \<Rightarrow> usize" where
  "wc_pending_count C wc = ch_len C (wc_chan wc)"

definition wc_push_ops :: "'c write_coalescer \<Rightarrow> mutation_op list \<Rightarrow> 'c write_coalescer" where
  "wc_push_ops wc ops = wc\<lparr>wc_batch := wb_push_ops (wc_batch wc) ops\<rparr>"

text \<open>\<open>drain_channel\<close>: the first argument bounds the iterations, \<open>None\<close> is a loop that did not end
  within it.  \<open>prepare\<close> allows one iteration more than the channel reports items.\<close>

fun wb_drain_channel :: "nat \<Rightarrow> 'c chan_ops \<Rightarrow> 'c \<Rightarrow> write_batch \<Rightarrow> ('c \<times> write_batch) option" where
  "wb_drain_channel 0 C ch b = None"
| "wb_drain_channel (Suc n) C ch b =
     (case ch_try_recv C ch of
        Some (op, ch) \<Rightarrow> wb_drain_channel n C ch (b\<lparr>wb_ops := wb_ops b @ [op]\<rparr>)
      | None \<Rightarrow> Some (ch, b))"

definition wc_prepare :: "'c chan_ops \<Rightarrow> 'c write_coalescer \<Rightarrow> (usize \<times> 'c write_coalescer) option" where
  "wc_prepare C wc =
     map_option (\<lambda>(ch, b).
         if wb_is_empty b then (0, wc\<lparr>wc_chan := ch, wc_batch := b\<rparr>)
         else (wb_len b, wc\<lparr>wc_chan := ch, wc_batch := wb_group_and_sort b\<rparr>))
       (wb_drain_channel (Suc (ch_len C (wc_chan wc))) C (wc_chan wc) (wc_batch wc))"

definition wc_apply_prepared :: "'b roaring_ops \<Rightarrow> 'c write_coalescer \<Rightarrow> 'b bitmap_state \<Rightarrow> 'b bitmap_state" where
  "wc_apply_prepared R wc st = wb_apply R (wc_batch wc) st"

definition wc_flush ::
    "'b roaring_ops \<Rightarrow> 'c chan_ops \<Rightarrow> 'c write_coalescer \<Rightarrow> 'b bitmap_state \<Rightarrow>
     (usize \<times> 'c write_coalescer \<times> 'b bitmap_state) option" where
  "wc_flush R C wc st =
     map_option (\<lambda>(ch, b).
         if wb_is_empty b then (0, wc\<lparr>wc_chan := ch, wc_batch := b\<rparr>, st)
         else let count = wb_len b; b = wb_group_and_sort b
              in (count, wc\<lparr>wc_chan := ch, wc_batch := b\<rparr>, wb_apply R b st))
       (wb_drain_channel (Suc (ch_len C (wc_chan wc))) C (wc_chan wc) (wc_batch wc))"

definition wc_take_tier2_mutations ::
    "'c write_coalescer \<Rightarrow> string list \<Rightarrow> (string \<times> u64 \<times> u32 list \<times> bool) list \<times> 'c write_coalescer" where
  "wc_take_tier2_mutations wc tier2_fields =
     (let (entries, b) = wb_take_tier2_mutations (wc_batch wc) tier2_fields in (entries, wc\<lparr>wc_batch := b\<rparr>))"

definition wc_deferred_alive_count :: "'c write_coalescer \<Rightarrow> usize" where
  "wc_deferred_alive_count wc = length (wb_deferred_muts (wc_batch wc))"

definition wc_deferred_scheduled_slots :: "'c write_coalescer \<Rightarrow> u32 list" where
  "wc_deferred_scheduled_slots wc =
     map fst (filter (\<lambda>(_, m). m \<noteq> None) (wb_deferred_muts (wc_batch wc)))"



section \<open>The view of a bitmap state\<close>

text \<open>
  What a bitmap state stands for: the alive slots, the slots of every (field, value) and of
  every (field, bit layer), and the deferred activations.  An unknown field has no slots.
\<close>

record index_view =
  iv_alive :: "u32 set"
  iv_filter :: "string \<Rightarrow> u64 \<Rightarrow> u32 set"
  iv_sort :: "string \<Rightarrow> usize \<Rightarrow> u32 set"
  iv_due :: "u32 \<rightharpoonup> u64"

definition filter_slots :: "'b roaring_ops \<Rightarrow> 'b filter_index \<Rightarrow> string \<Rightarrow> u64 \<Rightarrow> u32 set" where
  "filter_slots R fi field v = (case fi_get_field fi field of None \<Rightarrow> {} | Some f \<Rightarrow> ff_bits R f v)"

definition layer_slots :: "'b roaring_ops \<Rightarrow> 'b sort_index \<Rightarrow> string \<Rightarrow> usize \<Rightarrow> u32 set" where
  "layer_slots R si field k =
     (case si_get_field si field of None \<Rightarrow> {}
      | Some f \<Rightarrow> if k < length (sf_bit_layers f) then sf_sets R f k else {})"

definition state_view :: "'b roaring_ops \<Rightarrow> 'b bitmap_state \<Rightarrow> index_view" where
  "state_view R = (\<lambda>(sa, fi, si). \<lparr>iv_alive = vb_bits R (sa_alive sa), iv_filter = filter_slots R fi,
     iv_sort = layer_slots R si, iv_due = due_map sa\<rparr>)"

text \<open>The fields and layers a state has; writes to others are dropped.\<close>

definition has_filter :: "'b filter_index \<Rightarrow> string \<Rightarrow> bool" where
  "has_filter fi field \<longleftrightarrow> fi_get_field fi field \<noteq> None"

definition has_layer :: "'b sort_index \<Rightarrow> string \<Rightarrow> usize \<Rightarrow> bool" where
  "has_layer si field k \<longleftrightarrow> (\<exists>f. si_get_field si field = Some f \<and> k < length (sf_bit_layers f))"

definition state_ok :: "'b roaring_ops \<Rightarrow> 'b bitmap_state \<Rightarrow> bool" where
  "state_ok R = (\<lambda>(sa, fi, si). deferred_ok (sa_deferred sa) \<and>
     (\<forall>n f. fi_get_field fi n = Some f \<longrightarrow> ff_ok R f) \<and> (\<forall>n f. si_get_field si n = Some f \<longrightarrow> sf_ok R f))"

text \<open>The slots that the ops of a list name, by kind and target.\<close>

definition slots_of :: "(mutation_op \<Rightarrow> u32 list) \<Rightarrow> mutation_op list \<Rightarrow> u32 set" where
  "slots_of sel ops = (\<Union>op \<in> set ops. set (sel op))"

fun ins_sel :: "string \<Rightarrow> u64 \<Rightarrow> mutation_op \<Rightarrow> u32 list" where
  "ins_sel n v (FilterInsert n' v' ss) = (if n' = n \<and> v' = v then ss else [])"
| "ins_sel n v _ = []"

fun rem_sel :: "string \<Rightarrow> u64 \<Rightarrow> mutation_op \<Rightarrow> u32 list" where
  "rem_sel n v (FilterRemove n' v' ss) = (if n' = n \<and> v' = v then ss else [])"
| "rem_sel n v _ = []"

fun set_sel :: "string \<Rightarrow> usize \<Rightarrow> mutation_op \<Rightarrow> u32 list" where
  "set_sel n k (SortSet n' k' ss) = (if n' = n \<and> k' = k then ss else [])"
| "set_sel n k _ = []"

fun clear_sel :: "string \<Rightarrow> usize \<Rightarrow> mutation_op \<Rightarrow> u32 list" where
  "clear_sel n k (SortClear n' k' ss) = (if n' = n \<and> k' = k then ss else [])"
| "clear_sel n k _ = []"

fun alive_ins_sel :: "mutation_op \<Rightarrow> u32 list" where
  "alive_ins_sel (AliveInsert ss) = ss"
| "alive_ins_sel _ = []"

fun alive_rem_sel :: "mutation_op \<Rightarrow> u32 list" where
  "alive_rem_sel (AliveRemove ss) = ss"
| "alive_rem_sel _ = []"

fun due_op :: "mutation_op \<Rightarrow> (u32 \<rightharpoonup> u64) \<Rightarrow> (u32 \<rightharpoonup> u64)" where
  "due_op (DeferredAlive s t) m = m(s \<mapsto> t)"
| "due_op (DeferredCancel s) m = m(s := None)"
| "due_op _ m = m"

lemma slots_of_simps [simp]:
  "slots_of sel [] = {}" "slots_of sel (op # ops) = set (sel op) \<union> slots_of sel ops"
  "slots_of sel (ops @ ops') = slots_of sel ops \<union> slots_of sel ops'"
  by (auto simp: slots_of_def)

text \<open>The effect of a batch on the view.\<close>

definition batch_view :: "mutation_op list \<Rightarrow> index_view \<Rightarrow> index_view" where
  "batch_view ops iv =
     \<lparr>iv_alive = (iv_alive iv \<union> slots_of alive_ins_sel ops) - slots_of alive_rem_sel ops,
      iv_filter = (\<lambda>n v. (iv_filter iv n v - slots_of (rem_sel n v) ops) \<union> slots_of (ins_sel n v) ops),
      iv_sort = (\<lambda>n k. (iv_sort iv n k - slots_of (clear_sel n k) ops) \<union> slots_of (set_sel n k) ops),
      iv_due = fold due_op ops (iv_due iv)\<rparr>"

text \<open>The effect of one op, and when the grouped batch does what the ops do one after the other:
  no op may undo an earlier one of the kind that the batch applies last.\<close>

definition op_view :: "mutation_op \<Rightarrow> index_view \<Rightarrow> index_view" where
  "op_view op iv = batch_view [op] iv"

fun in_order :: "mutation_op list \<Rightarrow> bool" where
  "in_order [] = True"
| "in_order (op # ops) \<longleftrightarrow> in_order ops \<and>
     (case op of
        FilterInsert n v ss \<Rightarrow> set ss \<inter> slots_of (rem_sel n v) ops = {}
      | SortSet n k ss \<Rightarrow> set ss \<inter> slots_of (clear_sel n k) ops = {}
      | AliveRemove ss \<Rightarrow> set ss \<inter> slots_of alive_ins_sel ops = {}
      | _ \<Rightarrow> True)"

lemma batch_view_Nil: "batch_view [] iv = iv"
  by (simp add: batch_view_def)

lemma batch_view_in_order: "in_order ops \<Longrightarrow> batch_view ops iv = fold op_view ops iv"
proof (induction ops arbitrary: iv)
  case Nil
  then show ?case by (simp add: batch_view_def)
next
  case (Cons op ops)
  have "batch_view (op # ops) iv = batch_view ops (op_view op iv)"
    using Cons.prems by (cases op) (auto simp: batch_view_def op_view_def fun_eq_iff)
  then show ?case using Cons by simp
qed


section \<open>Grouping and applying a batch\<close>

text \<open>The slots that the groups of a target hold.\<close>

definition group_slots :: "('k, u32 list) hashmap \<Rightarrow> 'k \<Rightarrow> u32 set" where
  "group_slots m k = (\<Union>(k', ss) \<in> set m. if k' = k then set ss else {})"

lemma group_slots_simps [simp]:
  "group_slots [] k = {}" "group_slots ((k', ss) # m) k = (if k' = k then set ss else {}) \<union> group_slots m k"
  by (auto simp: group_slots_def)

lemma group_slots_ok: "hm_ok m \<Longrightarrow> group_slots m k = (case hm_get m k of None \<Rightarrow> {} | Some ss \<Rightarrow> set ss)"
proof (induction m)
  case (Cons a m)
  obtain k' ss where a: "a = (k', ss)" by (cases a)
  have "hm_get m k = None" if "k' = k"
    using Cons.prems a that by (auto simp: hm_ok_def map_of_eq_None_iff)
  with Cons a show ?case by (auto simp: hm_ok_def)
qed simp

lemma group_slots_sort: "group_slots (hm_map sort m) k = group_slots m k"
  by (induction m) (auto simp: hm_map_def)

lemma group_slots_upsert:
  "hm_ok m \<Longrightarrow> group_slots (hm_upsert k' [] (\<lambda>xs. xs @ ss) m) k =
    group_slots m k \<union> (if k' = k then set ss else {})"
  by (auto simp: group_slots_ok split: option.splits)

definition batch_wf :: "write_batch \<Rightarrow> bool" where
  "batch_wf b \<longleftrightarrow> hm_ok (wb_filter_inserts b) \<and> hm_ok (wb_filter_removes b) \<and>
     hm_ok (wb_sort_sets b) \<and> hm_ok (wb_sort_clears b)"

fun deferred_sel :: "mutation_op \<Rightarrow> (u32 \<times> u64 option) list" where
  "deferred_sel (DeferredAlive s t) = [(s, Some t)]"
| "deferred_sel (DeferredCancel s) = [(s, None)]"
| "deferred_sel _ = []"

lemma group_step:
  assumes "batch_wf b"
  shows "group_slots (wb_filter_inserts (wb_group op b)) (n, v) =
      group_slots (wb_filter_inserts b) (n, v) \<union> set (ins_sel n v op)"
    and "group_slots (wb_filter_removes (wb_group op b)) (n, v) =
      group_slots (wb_filter_removes b) (n, v) \<union> set (rem_sel n v op)"
    and "group_slots (wb_sort_sets (wb_group op b)) (n, k) =
      group_slots (wb_sort_sets b) (n, k) \<union> set (set_sel n k op)"
    and "group_slots (wb_sort_clears (wb_group op b)) (n, k) =
      group_slots (wb_sort_clears b) (n, k) \<union> set (clear_sel n k op)"
    and "set (wb_alive_inserts (wb_group op b)) = set (wb_alive_inserts b) \<union> set (alive_ins_sel op)"
    and "set (wb_alive_removes (wb_group op b)) = set (wb_alive_removes b) \<union> set (alive_rem_sel op)"
    and "wb_deferred_muts (wb_group op b) = wb_deferred_muts b @ deferred_sel op"
proof -
  have ok: "hm_ok (wb_filter_inserts b)" "hm_ok (wb_filter_removes b)" "hm_ok (wb_sort_sets b)" "hm_ok (wb_sort_clears b)"
    using assms by (simp_all add: batch_wf_def)
  show "group_slots (wb_filter_inserts (wb_group op b)) (n, v) =
      group_slots (wb_filter_inserts b) (n, v) \<union> set (ins_sel n v op)"
    by (cases op) (auto simp: group_slots_upsert ok)
  show "group_slots (wb_filter_removes (wb_group op b)) (n, v) =
      group_slots (wb_filter_removes b) (n, v) \<union> set (rem_sel n v op)"
    by (cases op) (auto simp: group_slots_upsert ok)
  show "group_slots (wb_sort_sets (wb_group op b)) (n, k) =
      group_slots (wb_sort_sets b) (n, k) \<union> set (set_sel n k op)"
    by (cases op) (auto simp: group_slots_upsert ok)
  show "group_slots (wb_sort_clears (wb_group op b)) (n, k) =
      group_slots (wb_sort_clears b) (n, k) \<union> set (clear_sel n k op)"
    by (cases op) (auto simp: group_slots_upsert ok)
  show "set (wb_alive_inserts (wb_group op b)) = set (wb_alive_inserts b) \<union> set (alive_ins_sel op)"
    "set (wb_alive_removes (wb_group op b)) = set (wb_alive_removes b) \<union> set (alive_rem_sel op)"
    "wb_deferred_muts (wb_group op b) = wb_deferred_muts b @ deferred_sel op"
    by (cases op; simp)+
qed

lemma fold_group:
  assumes "batch_wf b"
  shows "batch_wf (fold wb_group ops b) \<and>
    group_slots (wb_filter_inserts (fold wb_group ops b)) (n, v) =
      group_slots (wb_filter_inserts b) (n, v) \<union> slots_of (ins_sel n v) ops \<and>
    group_slots (wb_filter_removes (fold wb_group ops b)) (n, v) =
      group_slots (wb_filter_removes b) (n, v) \<union> slots_of (rem_sel n v) ops \<and>
    group_slots (wb_sort_sets (fold wb_group ops b)) (n, k) =
      group_slots (wb_sort_sets b) (n, k) \<union> slots_of (set_sel n k) ops \<and>
    group_slots (wb_sort_clears (fold wb_group ops b)) (n, k) =
      group_slots (wb_sort_clears b) (n, k) \<union> slots_of (clear_sel n k) ops \<and>
    set (wb_alive_inserts (fold wb_group ops b)) = set (wb_alive_inserts b) \<union> slots_of alive_ins_sel ops \<and>
    set (wb_alive_removes (fold wb_group ops b)) = set (wb_alive_removes b) \<union> slots_of alive_rem_sel ops \<and>
    wb_deferred_muts (fold wb_group ops b) = wb_deferred_muts b @ concat (map deferred_sel ops)"
  using assms
proof (induction ops arbitrary: b)
  case Nil
  then show ?case by simp
next
  case (Cons op ops)
  have wf: "batch_wf (wb_group op b)"
    using Cons.prems by (cases op) (simp_all add: batch_wf_def)
  note step = group_step [OF Cons.prems]
  show ?case
    using Cons.IH [OF wf] by (simp add: step Un_assoc)
qed

lemma wb_ops_group [simp]: "wb_ops (wb_group_and_sort b) = []"
proof -
  have "wb_ops (wb_group op b) = wb_ops b" for op b by (cases op) simp_all
  then have "wb_ops (fold wb_group ops b) = wb_ops b" for ops b by (rule fold_keeps)
  then show ?thesis by (simp add: wb_group_and_sort_def Let_def wb_new_def)
qed

lemma batch_wf_new [simp]: "batch_wf wb_new"
  by (simp add: batch_wf_def wb_new_def)

lemma grouped:
  fixes b :: write_batch
  defines "g \<equiv> wb_group_and_sort b"
  shows "group_slots (wb_filter_inserts g) (n, v) = slots_of (ins_sel n v) (wb_ops b)"
    "group_slots (wb_filter_removes g) (n, v) = slots_of (rem_sel n v) (wb_ops b)"
    "group_slots (wb_sort_sets g) (n, k) = slots_of (set_sel n k) (wb_ops b)"
    "group_slots (wb_sort_clears g) (n, k) = slots_of (clear_sel n k) (wb_ops b)"
    "set (wb_alive_inserts g) = slots_of alive_ins_sel (wb_ops b)"
    "set (wb_alive_removes g) = slots_of alive_rem_sel (wb_ops b)"
    "wb_deferred_muts g = concat (map deferred_sel (wb_ops b))"
  using fold_group [OF batch_wf_new, of "wb_ops b" n v k]
  by (simp_all add: g_def wb_group_and_sort_def Let_def group_slots_sort) (simp_all add: wb_new_def)

lemma fi_get_modify:
  "fi_get_field (fi_modify_field fi n' g) n = (if n' = n then map_option g (fi_get_field fi n) else fi_get_field fi n)"
  by (auto simp: fi_get_field_def fi_modify_field_def split: option.splits)

lemma si_get_modify:
  "si_get_field (si_modify_field si n' g) n = (if n' = n then map_option g (si_get_field si n) else si_get_field si n)"
  by (auto simp: si_get_field_def si_modify_field_def split: option.splits)

lemma length_sf_layer_bulk [simp]:
  "length (sf_bit_layers (sf_set_layer_bulk R f k ss)) = length (sf_bit_layers f)"
  "length (sf_bit_layers (sf_clear_layer_bulk R f k ss)) = length (sf_bit_layers f)"
  by (simp_all add: sf_set_layer_bulk_def sf_clear_layer_bulk_def sf_get_mut_def sf_at_layer_def sf_invalidate_fused_def)

lemma has_modify [simp]:
  "has_filter (fi_modify_field fi n' g) n = has_filter fi n"
  by (simp add: has_filter_def fi_get_modify)

lemma apply_known [simp]:
  "has_filter (wb_apply_filter_removes R m fi) n = has_filter fi n"
  "has_filter (wb_apply_filter_inserts R m fi) n = has_filter fi n"
  unfolding wb_apply_filter_removes_def wb_apply_filter_inserts_def
  by (rule fold_keeps [where P = "\<lambda>fi. has_filter fi n"], simp add: case_prod_beta)+

lemma has_layer_bulk:
  "has_layer (si_modify_field si n' (\<lambda>f. sf_set_layer_bulk R f k' ss)) n k = has_layer si n k"
  "has_layer (si_modify_field si n' (\<lambda>f. sf_clear_layer_bulk R f k' ss)) n k = has_layer si n k"
  by (auto simp: has_layer_def si_get_modify)

lemma apply_known_layer [simp]:
  "has_layer (wb_apply_sort_sets R m si) n k = has_layer si n k"
  "has_layer (wb_apply_sort_clears R m si) n k = has_layer si n k"
  unfolding wb_apply_sort_sets_def wb_apply_sort_clears_def
  by (rule fold_keeps [where P = "\<lambda>si. has_layer si n k"], simp add: case_prod_beta has_layer_bulk)+

context roaring
begin

lemma filter_slots_modify:
  "filter_slots R (fi_modify_field fi n' (\<lambda>f. ff_remove_bulk R f v' ss)) n v =
     (if n' = n \<and> v' = v then filter_slots R fi n v - set ss else filter_slots R fi n v)"
  "filter_slots R (fi_modify_field fi n' (\<lambda>f. ff_insert_bulk R f v' ss)) n v =
     (if n' = n \<and> v' = v \<and> has_filter fi n then filter_slots R fi n v \<union> set ss else filter_slots R fi n v)"
  by (auto simp: filter_slots_def fi_get_modify has_filter_def ff_bits_remove_bulk ff_bits_insert_bulk split: option.splits)

lemma apply_filter_removes:
  "filter_slots R (wb_apply_filter_removes R m fi) n v = filter_slots R fi n v - group_slots m (n, v)"
proof (induction m arbitrary: fi)
  case (Cons a m)
  obtain n' v' ss where a: "a = ((n', v'), ss)" by (metis surj_pair)
  have "filter_slots R (wb_apply_filter_removes R (a # m) fi) n v =
      filter_slots R (fi_modify_field fi n' (\<lambda>f. ff_remove_bulk R f v' ss)) n v - group_slots m (n, v)"
    using Cons.IH [of "fi_modify_field fi n' (\<lambda>f. ff_remove_bulk R f v' ss)"] by (simp add: wb_apply_filter_removes_def a)
  then show ?case by (auto simp: a filter_slots_modify)
qed (simp add: wb_apply_filter_removes_def)

lemma apply_filter_inserts:
  "has_filter fi n \<Longrightarrow>
    filter_slots R (wb_apply_filter_inserts R m fi) n v = filter_slots R fi n v \<union> group_slots m (n, v)"
proof (induction m arbitrary: fi)
  case (Cons a m)
  obtain n' v' ss where a: "a = ((n', v'), ss)" by (metis surj_pair)
  have "filter_slots R (wb_apply_filter_inserts R (a # m) fi) n v =
      filter_slots R (fi_modify_field fi n' (\<lambda>f. ff_insert_bulk R f v' ss)) n v \<union> group_slots m (n, v)"
    using Cons.IH [of "fi_modify_field fi n' (\<lambda>f. ff_insert_bulk R f v' ss)"] Cons.prems
    by (simp add: wb_apply_filter_inserts_def a)
  with Cons.prems show ?case by (auto simp: a filter_slots_modify)
qed (simp add: wb_apply_filter_inserts_def)

lemma layer_bulk_sets:
  assumes "k < length (sf_bit_layers f)"
  shows "sf_sets R (sf_clear_layer_bulk R f k' ss) k = (if k' = k then sf_sets R f k - set ss else sf_sets R f k)"
    and "sf_sets R (sf_set_layer_bulk R f k' ss) k = (if k' = k then sf_sets R f k \<union> set ss else sf_sets R f k)"
  using assms by (auto simp: sf_sets_def sf_set_layer_bulk_def sf_clear_layer_bulk_def sf_get_mut_def sf_at_layer_def
      sf_invalidate_fused_def)

lemma layer_slots_modify:
  "layer_slots R (si_modify_field si n' (\<lambda>f. sf_clear_layer_bulk R f k' ss)) n k =
     (if n' = n \<and> k' = k then layer_slots R si n k - set ss else layer_slots R si n k)"
  "layer_slots R (si_modify_field si n' (\<lambda>f. sf_set_layer_bulk R f k' ss)) n k =
     (if n' = n \<and> k' = k \<and> has_layer si n k then layer_slots R si n k \<union> set ss else layer_slots R si n k)"
  by (auto simp: layer_slots_def si_get_modify has_layer_def layer_bulk_sets split: option.splits)

lemma apply_sort_clears:
  "layer_slots R (wb_apply_sort_clears R m si) n k = layer_slots R si n k - group_slots m (n, k)"
proof (induction m arbitrary: si)
  case (Cons a m)
  obtain n' k' ss where a: "a = ((n', k'), ss)" by (metis surj_pair)
  have "layer_slots R (wb_apply_sort_clears R (a # m) si) n k =
      layer_slots R (si_modify_field si n' (\<lambda>f. sf_clear_layer_bulk R f k' ss)) n k - group_slots m (n, k)"
    using Cons.IH [of "si_modify_field si n' (\<lambda>f. sf_clear_layer_bulk R f k' ss)"] by (simp add: wb_apply_sort_clears_def a)
  then show ?case by (auto simp: a layer_slots_modify)
qed (simp add: wb_apply_sort_clears_def)

lemma apply_sort_sets:
  "has_layer si n k \<Longrightarrow>
    layer_slots R (wb_apply_sort_sets R m si) n k = layer_slots R si n k \<union> group_slots m (n, k)"
proof (induction m arbitrary: si)
  case (Cons a m)
  obtain n' k' ss where a: "a = ((n', k'), ss)" by (metis surj_pair)
  have "layer_slots R (wb_apply_sort_sets R (a # m) si) n k =
      layer_slots R (si_modify_field si n' (\<lambda>f. sf_set_layer_bulk R f k' ss)) n k \<union> group_slots m (n, k)"
    using Cons.IH [of "si_modify_field si n' (\<lambda>f. sf_set_layer_bulk R f k' ss)"] Cons.prems
    by (simp add: wb_apply_sort_sets_def a has_layer_bulk)
  with Cons.prems show ?case by (auto simp: a layer_slots_modify)
qed (simp add: wb_apply_sort_sets_def)

lemma apply_deferred:
  "deferred_ok (sa_deferred sa) \<Longrightarrow>
    sa_alive (wb_apply_deferred (concat (map deferred_sel ops)) sa) = sa_alive sa \<and>
    deferred_ok (sa_deferred (wb_apply_deferred (concat (map deferred_sel ops)) sa)) \<and>
    due_map (wb_apply_deferred (concat (map deferred_sel ops)) sa) = fold due_op ops (due_map sa)"
proof (induction ops arbitrary: sa)
  case (Cons op ops)
  have "sa_alive (wb_apply_deferred (deferred_sel op) sa) = sa_alive sa"
    by (cases op) (auto simp: wb_apply_deferred_def sa_schedule_alive_def sa_cancel_deferred_def Let_def)
  moreover have "deferred_ok (sa_deferred (wb_apply_deferred (deferred_sel op) sa))"
    using Cons.prems by (cases op) (auto simp: wb_apply_deferred_def sa_schedule_alive_eq sa_cancel_deferred_eq deferred_ok_push
        cancelled_notin)
  moreover have "due_map (wb_apply_deferred (deferred_sel op) sa) = due_op op (due_map sa)"
    using Cons.prems by (cases op) (auto simp: wb_apply_deferred_def due_map_schedule due_map_cancel)
  moreover have "wb_apply_deferred (concat (map deferred_sel (op # ops))) sa =
      wb_apply_deferred (concat (map deferred_sel ops)) (wb_apply_deferred (deferred_sel op) sa)"
    by (simp add: wb_apply_deferred_def)
  ultimately show ?case using Cons.IH by simp
qed (simp add: wb_apply_deferred_def)

lemma apply_alive:
  assumes "deferred_ok (sa_deferred sa)" and "wb_deferred_muts b = concat (map deferred_sel ops)"
  shows "vb_bits R (sa_alive (wb_apply_alive R b sa)) =
      (vb_bits R (sa_alive sa) \<union> set (wb_alive_inserts b)) - set (wb_alive_removes b)"
    and "due_map (wb_apply_alive R b sa) = fold due_op ops (due_map sa)"
    and "deferred_ok (sa_deferred (wb_apply_alive R b sa))"
proof -
  define sa1 where "sa1 = (if wb_alive_inserts b \<noteq> [] then sa_alive_insert_bulk R sa (wb_alive_inserts b) else sa)"
  define sa2 where "sa2 = fold (\<lambda>slot sa. sa_alive_remove_one R sa slot) (wb_alive_removes b) sa1"
  have sa1: "sa_deferred sa1 = sa_deferred sa"
    "vb_bits R (sa_alive sa1) = vb_bits R (sa_alive sa) \<union> set (wb_alive_inserts b)"
    by (auto simp: sa1_def sa_alive_insert_bulk_def Let_def)
  have "sa_deferred (fold (\<lambda>slot sa. sa_alive_remove_one R sa slot) xs s) = sa_deferred s \<and>
      vb_bits R (sa_alive (fold (\<lambda>slot sa. sa_alive_remove_one R sa slot) xs s)) = vb_bits R (sa_alive s) - set xs" for xs s
    by (induction xs arbitrary: s) (auto simp: sa_alive_remove_one_def)
  then have sa2: "sa_deferred sa2 = sa_deferred sa"
    "vb_bits R (sa_alive sa2) = (vb_bits R (sa_alive sa) \<union> set (wb_alive_inserts b)) - set (wb_alive_removes b)"
    by (simp_all add: sa2_def sa1)
  have eq: "wb_apply_alive R b sa = sa_merge_alive R (wb_apply_deferred (concat (map deferred_sel ops)) sa2)"
    by (simp add: wb_apply_alive_def sa1_def sa2_def Let_def assms(2))
  have "due_map sa2 = due_map sa" by (simp add: due_map_def sa2(1))
  with apply_deferred [of sa2 ops] assms(1) sa2 show
    "vb_bits R (sa_alive (wb_apply_alive R b sa)) =
      (vb_bits R (sa_alive sa) \<union> set (wb_alive_inserts b)) - set (wb_alive_removes b)"
    "due_map (wb_apply_alive R b sa) = fold due_op ops (due_map sa)"
    "deferred_ok (sa_deferred (wb_apply_alive R b sa))"
    by (simp_all add: eq sa_merge_alive_def due_map_def)
qed

lemma fields_ok_fold:
  assumes "\<forall>n f. fi_get_field fi n = Some f \<longrightarrow> ff_ok R f"
  shows "\<forall>n f. fi_get_field (wb_apply_filter_removes R m fi) n = Some f \<longrightarrow> ff_ok R f"
    and "\<forall>n f. fi_get_field (wb_apply_filter_inserts R m fi) n = Some f \<longrightarrow> ff_ok R f"
  unfolding wb_apply_filter_removes_def wb_apply_filter_inserts_def
  by (rule fold_inv [where P = "\<lambda>fi. \<forall>n f. fi_get_field fi n = Some f \<longrightarrow> ff_ok R f", OF _ assms];
      auto simp: fi_get_modify ff_ok_writes split: if_splits)+

lemma sorts_ok_fold:
  assumes "\<forall>n f. si_get_field si n = Some f \<longrightarrow> sf_ok R f"
  shows "\<forall>n f. si_get_field (wb_apply_sort_clears R m si) n = Some f \<longrightarrow> sf_ok R f"
    and "\<forall>n f. si_get_field (wb_apply_sort_sets R m si) n = Some f \<longrightarrow> sf_ok R f"
  unfolding wb_apply_sort_clears_def wb_apply_sort_sets_def
  by (rule fold_inv [where P = "\<lambda>si. \<forall>n f. si_get_field si n = Some f \<longrightarrow> sf_ok R f", OF _ assms];
      auto simp: si_get_modify sf_ok_writes split: if_splits)+

end

text \<open>The part of a view that a state can hold.\<close>

definition known_view :: "'b bitmap_state \<Rightarrow> index_view \<Rightarrow> index_view" where
  "known_view = (\<lambda>(sa, fi, si) iv.
     iv\<lparr>iv_filter := (\<lambda>n v. if has_filter fi n then iv_filter iv n v else {}),
        iv_sort := (\<lambda>n k. if has_layer si n k then iv_sort iv n k else {})\<rparr>)"

lemma known_state_view: "known_view st (state_view R st) = state_view R st"
  by (cases st) (auto simp: known_view_def state_view_def filter_slots_def layer_slots_def has_filter_def has_layer_def
      fun_eq_iff split: option.splits)

context roaring
begin

lemma apply_view:
  assumes "state_ok R st"
  shows "state_view R (wb_apply R (wb_group_and_sort b) st) = known_view st (batch_view (wb_ops b) (state_view R st))"
    and "state_ok R (wb_apply R (wb_group_and_sort b) st)"
proof -
  obtain sa fi si where st: "st = (sa, fi, si)" by (cases st)
  let ?g = "wb_group_and_sort b"
  let ?fi = "wb_apply_filter_inserts R (wb_filter_inserts ?g) (wb_apply_filter_removes R (wb_filter_removes ?g) fi)"
  let ?si = "wb_apply_sort_sets R (wb_sort_sets ?g) (wb_apply_sort_clears R (wb_sort_clears ?g) si)"
  have ok: "deferred_ok (sa_deferred sa)" "\<forall>n f. fi_get_field fi n = Some f \<longrightarrow> ff_ok R f"
    "\<forall>n f. si_get_field si n = Some f \<longrightarrow> sf_ok R f"
    using assms by (auto simp: st state_ok_def)
  note alive = apply_alive [OF ok(1) grouped(7) [of b]]
  have "filter_slots R ?fi n v = (if has_filter fi n then (filter_slots R fi n v - slots_of (rem_sel n v) (wb_ops b)) \<union>
      slots_of (ins_sel n v) (wb_ops b) else {})" for n v
  proof (cases "has_filter fi n")
    case True
    then show ?thesis by (simp add: apply_filter_inserts apply_filter_removes grouped)
  next
    case False
    then have "\<not> has_filter ?fi n" by simp
    then have "fi_get_field ?fi n = None" by (simp only: has_filter_def not_not)
    with False show ?thesis by (simp add: filter_slots_def)
  qed
  moreover have "layer_slots R ?si n k = (if has_layer si n k then (layer_slots R si n k - slots_of (clear_sel n k) (wb_ops b)) \<union>
      slots_of (set_sel n k) (wb_ops b) else {})" for n k
  proof (cases "has_layer si n k")
    case True
    then show ?thesis by (simp add: apply_sort_sets apply_sort_clears grouped)
  next
    case False
    then have "\<not> has_layer ?si n k" by simp
    then show ?thesis using False by (auto simp: layer_slots_def has_layer_def split: option.splits)
  qed
  ultimately show "state_view R (wb_apply R ?g st) = known_view st (batch_view (wb_ops b) (state_view R st))"
    by (simp add: st wb_apply_def state_view_def known_view_def batch_view_def alive(1,2) grouped fun_eq_iff)
  show "state_ok R (wb_apply R ?g st)"
    using alive(3) fields_ok_fold(2) [OF fields_ok_fold(1) [OF ok(2)]] sorts_ok_fold(2) [OF sorts_ok_fold(1) [OF ok(3)]]
    by (simp add: st wb_apply_def state_ok_def)
qed

end



section \<open>The channel contract\<close>

text \<open>\<open>items\<close> are the queued ops, oldest first: a successful send appends, a receive takes the oldest,
  and \<open>len\<close> counts them.\<close>

locale channel =
  fixes C :: "'c chan_ops" and items :: "'c \<Rightarrow> mutation_op list"
  assumes send_items: "ch_send C ch op = Some ch' \<Longrightarrow> items ch' = items ch @ [op]"
    and recv_none: "ch_try_recv C ch = None \<longleftrightarrow> items ch = []"
    and recv_some: "ch_try_recv C ch = Some (op, ch') \<Longrightarrow> items ch = op # items ch'"
    and len_items: "ch_len C ch = length (items ch)"
begin

lemma drain_all:
  "length (items ch) < n \<Longrightarrow>
    \<exists>ch'. wb_drain_channel n C ch b = Some (ch', b\<lparr>wb_ops := wb_ops b @ items ch\<rparr>) \<and> items ch' = []"
proof (induction n arbitrary: ch b)
  case (Suc n)
  show ?case
  proof (cases "ch_try_recv C ch")
    case None
    then show ?thesis using recv_none [of ch] by simp
  next
    case (Some r)
    obtain op ch1 where r: "r = (op, ch1)" by (cases r)
    have it: "items ch = op # items ch1" using recv_some Some r by blast
    then have "length (items ch1) < n" using Suc.prems by simp
    from Suc.IH [OF this, of "b\<lparr>wb_ops := wb_ops b @ [op]\<rparr>"] show ?thesis
      using Some r it by auto
  qed
qed simp

lemma drain_len:
  "\<exists>ch'. wb_drain_channel (Suc (ch_len C ch)) C ch b = Some (ch', b\<lparr>wb_ops := wb_ops b @ items ch\<rparr>) \<and> items ch' = []"
  by (rule drain_all) (simp add: len_items)

lemma prepare_eq:
  assumes "ops = wb_ops (wc_batch wc) @ items (wc_chan wc)"
  shows "\<exists>ch'. items ch' = [] \<and> wc_prepare C wc = Some (length ops, wc\<lparr>wc_chan := ch',
    wc_batch := (if ops = [] then wc_batch wc else wb_group_and_sort ((wc_batch wc)\<lparr>wb_ops := ops\<rparr>))\<rparr>)"
  using drain_len [of "wc_chan wc" "wc_batch wc"] assms
  by (force simp: wc_prepare_def wb_is_empty_def wb_len_def)

lemma flush_eq:
  assumes "ops = wb_ops (wc_batch wc) @ items (wc_chan wc)"
  shows "\<exists>wc'. items (wc_chan wc') = [] \<and> wc_flush R C wc st = Some (length ops, wc',
    if ops = [] then st else wb_apply R (wb_group_and_sort ((wc_batch wc)\<lparr>wb_ops := ops\<rparr>)) st)"
  using drain_len [of "wc_chan wc" "wc_batch wc"] assms
  by (force simp: wc_flush_def wb_is_empty_def wb_len_def Let_def)

end

text \<open>A channel as a list with a flag for being connected.\<close>

definition list_chan :: "(mutation_op list \<times> bool) chan_ops" where
  "list_chan = \<lparr>ch_send = (\<lambda>(q, up) op. if up then Some (q @ [op], up) else None),
     ch_try_recv = (\<lambda>(q, up). case q of [] \<Rightarrow> None | op # q \<Rightarrow> Some (op, (q, up))),
     ch_len = (\<lambda>(q, up). length q)\<rparr>"

interpretation lc: channel list_chan fst
  by unfold_locales (auto simp: list_chan_def split: list.splits if_splits)


section \<open>Concurrent senders and the durability gate\<close>

text \<open>
  Senders run \<open>send\<close> concurrently with the flush thread, which prepares batches and adds up
  \<open>deferred_alive_count\<close> (\<open>deferred_applied_total\<close> in \<open>concurrent_engine.rs\<close>).  \<open>gt_log\<close> records
  the deferred ops in the order in which they entered the channel.  Ops that the flush
  thread folds in itself (\<open>push_ops\<close>) do not tick the counter and are no deferred ops.
\<close>

datatype sender = Submitting mutation_op | Announced mutation_op | Sent mutation_op | Refused mutation_op

record 'c gate =
  gt_wc :: "'c write_coalescer"
  gt_senders :: "sender list"
  gt_applied :: nat
  gt_log :: "mutation_op list"

definition logged :: "mutation_op \<Rightarrow> mutation_op list" where
  "logged op = (if is_deferred_op op then [op] else [])"

inductive gate_step :: "'c chan_ops \<Rightarrow> 'c gate \<Rightarrow> 'c gate \<Rightarrow> bool" for C where
  spawn: "gate_step C g (g\<lparr>gt_senders := gt_senders g @ [Submitting op]\<rparr>)"
| announce: "i < length (gt_senders g) \<Longrightarrow> gt_senders g ! i = Submitting op \<Longrightarrow>
    gate_step C g (g\<lparr>gt_wc := ms_announce op (gt_wc g), gt_senders := (gt_senders g)[i := Announced op]\<rparr>)"
| enqueue: "i < length (gt_senders g) \<Longrightarrow> gt_senders g ! i = Announced op \<Longrightarrow>
    ms_enqueue C op (gt_wc g) = (True, wc) \<Longrightarrow>
    gate_step C g (g\<lparr>gt_wc := wc, gt_senders := (gt_senders g)[i := Sent op], gt_log := gt_log g @ logged op\<rparr>)"
| refuse: "i < length (gt_senders g) \<Longrightarrow> gt_senders g ! i = Announced op \<Longrightarrow>
    ms_enqueue C op (gt_wc g) = (False, wc) \<Longrightarrow>
    gate_step C g (g\<lparr>gt_wc := wc, gt_senders := (gt_senders g)[i := Refused op]\<rparr>)"
| push: "list_all (\<lambda>op. \<not> is_deferred_op op) ops \<Longrightarrow>
    gate_step C g (g\<lparr>gt_wc := wc_push_ops (gt_wc g) ops\<rparr>)"
| prepare: "wc_prepare C (gt_wc g) = Some (n, wc) \<Longrightarrow>
    gate_step C g (g\<lparr>gt_wc := wc,
      gt_applied := gt_applied g + (if 0 < n then wc_deferred_alive_count wc else 0)\<rparr>)"

definition gate_init :: "'c \<Rightarrow> 'c gate" where
  "gate_init ch = \<lparr>gt_wc = wc_new ch, gt_senders = [], gt_applied = 0, gt_log = []\<rparr>"

fun in_flight :: "sender \<Rightarrow> nat" where
  "in_flight (Announced op) = of_bool (is_deferred_op op)"
| "in_flight _ = 0"

text \<open>The counter is what entered the channel plus the announcements still under way, and the
  deferred ops in the channel are those logged and not yet applied.\<close>

definition gate_inv :: "('c \<Rightarrow> mutation_op list) \<Rightarrow> 'c gate \<Rightarrow> bool" where
  "gate_inv items g \<longleftrightarrow>
     wc_deferred_seq (gt_wc g) = of_nat (length (gt_log g) + sum_list (map in_flight (gt_senders g))) \<and>
     gt_applied g \<le> length (gt_log g) \<and>
     filter is_deferred_op (items (wc_chan (gt_wc g))) = drop (gt_applied g) (gt_log g) \<and>
     filter is_deferred_op (wb_ops (wc_batch (gt_wc g))) = []"

lemma ms_announce_simps [simp]:
  "wc_chan (ms_announce op wc) = wc_chan wc" "wc_batch (ms_announce op wc) = wc_batch wc"
  "wc_deferred_seq (ms_announce op wc) = wc_deferred_seq wc + of_bool (is_deferred_op op)"
  by (cases op; simp add: ms_announce_def Let_def)+

lemma sum_update:
  "i < length xs \<Longrightarrow> sum_list (map f (xs[i := y])) + f (xs ! i) = sum_list (map f xs) + (f y :: nat)"
  by (induction xs arbitrary: i) (auto simp: nth_Cons' split: nat.splits)

lemma deferred_count: "length (concat (map deferred_sel ops)) = length (filter is_deferred_op ops)"
proof (induction ops)
  case (Cons op ops)
  then show ?case by (cases op) simp_all
qed simp

context channel
begin

lemma gate_inv_step: "gate_step C g g' \<Longrightarrow> gate_inv items g \<Longrightarrow> gate_inv items g' \<and> (\<exists>ops. gt_log g' = gt_log g @ ops)"
proof (induction rule: gate_step.induct)
  case (spawn g op)
  then show ?case by (simp add: gate_inv_def)
next
  case (announce i g op)
  have "sum_list (map in_flight ((gt_senders g)[i := Announced op])) =
      sum_list (map in_flight (gt_senders g)) + of_bool (is_deferred_op op)"
    using sum_update [OF announce(1), of in_flight "Announced op"] announce(2) by simp
  with announce(3) show ?case by (simp add: gate_inv_def)
next
  case (enqueue i g op wc)
  obtain ch where ch: "ch_send C (wc_chan (gt_wc g)) op = Some ch" "wc = (gt_wc g)\<lparr>wc_chan := ch\<rparr>"
    using enqueue(3) by (auto simp: ms_enqueue_def split: option.splits)
  have "sum_list (map in_flight ((gt_senders g)[i := Sent op])) + of_bool (is_deferred_op op) =
      sum_list (map in_flight (gt_senders g))"
    using sum_update [OF enqueue(1), of in_flight "Sent op"] enqueue(2) by simp
  then have sum: "length (gt_log g @ logged op) + sum_list (map in_flight ((gt_senders g)[i := Sent op])) =
      length (gt_log g) + sum_list (map in_flight (gt_senders g))"
    by (cases "is_deferred_op op") (simp_all add: logged_def)
  have "filter is_deferred_op (items ch) = filter is_deferred_op (items (wc_chan (gt_wc g))) @ logged op"
    using send_items [OF ch(1)] by (simp add: logged_def)
  then show ?case
    using enqueue(4) arg_cong [OF sum, of "of_nat :: nat \<Rightarrow> u64"] by (simp add: gate_inv_def ch(2))
next
  case (refuse i g op wc)
  have seq: "wc_chan wc = wc_chan (gt_wc g)" "wc_batch wc = wc_batch (gt_wc g)"
      "wc_deferred_seq wc = wc_deferred_seq (gt_wc g) - of_bool (is_deferred_op op)"
    using refuse(3) by (auto simp: ms_enqueue_def split: option.splits if_splits)
  have "sum_list (map in_flight (gt_senders g)) =
      sum_list (map in_flight ((gt_senders g)[i := Refused op])) + of_bool (is_deferred_op op)"
    using sum_update [OF refuse(1), of in_flight "Refused op"] refuse(2) by simp
  with refuse(4) show ?case by (simp add: gate_inv_def seq)
next
  case (push ops g)
  then show ?case by (simp add: gate_inv_def wc_push_ops_def wb_push_ops_def list_all_iff)
next
  case (prepare g n wc)
  let ?ops = "wb_ops (wc_batch (gt_wc g)) @ items (wc_chan (gt_wc g))"
  let ?b = "if ?ops = [] then wc_batch (gt_wc g) else wb_group_and_sort ((wc_batch (gt_wc g))\<lparr>wb_ops := ?ops\<rparr>)"
  obtain ch where ch: "items ch = []" "n = length ?ops" "wc = (gt_wc g)\<lparr>wc_chan := ch, wc_batch := ?b\<rparr>"
    using prepare_eq [OF refl, of "gt_wc g"] prepare(1) by auto
  have count: "(if 0 < n then wc_deferred_alive_count wc else 0) = length (drop (gt_applied g) (gt_log g))"
    using prepare(2) by (auto simp: ch(2,3) wc_deferred_alive_count_def grouped(7) deferred_count gate_inv_def)
  have "wb_ops ?b = []" by simp
  with prepare(2) show ?case
    using ch(1) unfolding gate_inv_def count by (simp add: ch(3))
qed

end

section \<open>Properties\<close>

text \<open>
  C6: a flush applies everything that is queued.  It drains the channel, and the state it
  leaves has, for every filter value, what was there without the removed slots and with the
  inserted ones, the same for every sort layer, the alive set with the inserted and without
  the removed slots, and the deferred map with its mutations in arrival order.  If no op
  undoes an earlier one of the kind that a batch applies last (\<open>in_order\<close>), this is the effect
  of the ops one after the other.
\<close>

theorem flush_refines:
  assumes "roaring R" and "channel C items" and "state_ok R st"
    and ops_def: "ops = wb_ops (wc_batch wc) @ items (wc_chan wc)"
  shows "\<exists>wc' st'. wc_flush R C wc st = Some (length ops, wc', st') \<and> items (wc_chan wc') = [] \<and>
    state_ok R st' \<and> state_view R st' = known_view st (batch_view ops (state_view R st)) \<and>
    (in_order ops \<longrightarrow> state_view R st' = known_view st (fold op_view ops (state_view R st)))"
proof -
  let ?b = "(wc_batch wc)\<lparr>wb_ops := ops\<rparr>"
  let ?st = "if ops = [] then st else wb_apply R (wb_group_and_sort ?b) st"
  obtain wc' where "items (wc_chan wc') = []" "wc_flush R C wc st = Some (length ops, wc', ?st)"
    using channel.flush_eq [OF assms(2) ops_def, of R st] by blast
  moreover have "state_ok R ?st" using assms(3) roaring.apply_view(2) [OF assms(1,3)] by simp
  moreover have "state_view R ?st = known_view st (batch_view ops (state_view R st))"
    using roaring.apply_view(1) [OF assms(1,3), of ?b] by (simp add: batch_view_Nil known_state_view)
  ultimately show ?thesis by (auto simp: batch_view_in_order)
qed

definition tag_state :: "u32 set bitmap_state" where
  "tag_state = (sa_new set_roaring, [(''tag'', ff_insert set_roaring (ff_new lazy_cfg) 7 1)], [])"

lemma tag_state_ok: "state_ok set_roaring tag_state"
  by (auto simp: state_ok_def tag_state_def sa_new_def deferred_ok_def fi_get_field_def si_get_field_def
      intro!: sr.ff_ok_writes sr.ff_ok_new split: if_splits)

lemma tag_state_view:
  "has_filter (fst (snd tag_state)) ''tag''"
  "iv_filter (state_view set_roaring tag_state) ''tag'' 7 = {1}"
  "iv_alive (state_view set_roaring tag_state) = {}"
proof -
  have "ff_bits set_roaring (ff_new lazy_cfg) x = {}" for x by (simp add: ff_bits_def ff_new_def)
  then show "has_filter (fst (snd tag_state)) ''tag''" "iv_filter (state_view set_roaring tag_state) ''tag'' 7 = {1}"
    "iv_alive (state_view set_roaring tag_state) = {}"
    by (simp_all add: tag_state_def has_filter_def fi_get_field_def state_view_def filter_slots_def sr.ff_bits_insert
        sa_new_def)
qed

theorem flush_refines_witness:
  "\<exists>wc' st'. wc_flush set_roaring list_chan
      (wc_new ([FilterRemove ''tag'' 7 [1], FilterInsert ''tag'' 7 [2], AliveInsert [2]], True)) tag_state =
      Some (3, wc', st') \<and> iv_filter (state_view set_roaring st') ''tag'' 7 = {2}"
proof -
  let ?wc = "wc_new ([FilterRemove ''tag'' 7 [1], FilterInsert ''tag'' 7 [2], AliveInsert [2]], True)"
  obtain sa fi si where st: "tag_state = (sa, fi, si)" by (cases tag_state)
  from flush_refines [OF sr.roaring_axioms lc.channel_axioms tag_state_ok refl, of ?wc] show ?thesis
    using tag_state_view by (auto simp: wc_new_def wb_new_def known_view_def st op_view_def batch_view_def)
qed

text \<open>
  C14: the durability gate of the deferred map is sound under every interleaving of senders and
  flush thread.  If \<open>deferred_seq\<close> was read in some reachable state and later the number of
  deferred mutations the flush thread has applied is at least that value, then every
  deferred mutation that was in the channel or already taken from it at the time of the
  read has been applied.  (The counters are assumed not to have wrapped around.)
\<close>

theorem deferred_gate:
  assumes "channel C items" and "items ch = []"
    and "(gate_step C)\<^sup>*\<^sup>* (gate_init ch) g" and "(gate_step C)\<^sup>*\<^sup>* g g'"
    and "length (gt_log g) + length (gt_senders g) < 2 ^ 64" and "gt_applied g' < 2 ^ 64"
    and "wc_deferred_seq (gt_wc g) \<le> of_nat (gt_applied g')"
  shows "\<exists>rest. take (gt_applied g') (gt_log g') = gt_log g @ rest"
proof -
  have steps: "gate_inv items h' \<and> (\<exists>ops. gt_log h' = gt_log h @ ops)"
    if "(gate_step C)\<^sup>*\<^sup>* h h'" "gate_inv items h" for h h'
    using that
  proof (induction rule: rtranclp_induct)
    case (step y z)
    then show ?case using channel.gate_inv_step [OF assms(1) step.hyps(2)] by auto
  qed simp
  have "gate_inv items (gate_init ch)"
    using assms(2) by (simp add: gate_inv_def gate_init_def wc_new_def wb_new_def)
  with steps [OF assms(3)] have g: "gate_inv items g" by blast
  from steps [OF assms(4) g] obtain ops where g': "gate_inv items g'" "gt_log g' = gt_log g @ ops" by blast
  have "in_flight x \<le> 1" for x by (cases x) simp_all
  then have "sum_list (map in_flight xs) \<le> length xs" for xs
    by (induction xs) (simp_all add: add_le_mono [of _ 1, simplified])
  from this [of "gt_senders g"] have small: "length (gt_log g) + sum_list (map in_flight (gt_senders g)) < 2 ^ 64"
    using assms(5) by linarith
  have "unat (wc_deferred_seq (gt_wc g)) = length (gt_log g) + sum_list (map in_flight (gt_senders g))"
    using g small by (simp add: gate_inv_def unsigned_of_nat take_bit_nat_eq_self del: of_nat_add)
  moreover have "unat (of_nat (gt_applied g') :: u64) = gt_applied g'"
    using assms(6) by (simp add: unsigned_of_nat take_bit_nat_eq_self)
  ultimately have "length (gt_log g) \<le> gt_applied g'"
    using assms(7) by (simp add: word_le_nat_alt)
  with g'(2) show ?thesis by simp
qed

theorem deferred_gate_witness:
  "\<exists>g' rest. (gate_step list_chan)\<^sup>*\<^sup>* (gate_init ([], True)) g' \<and>
     take (gt_applied g') (gt_log g') = [DeferredAlive 5 90] @ rest"
proof -
  let ?g0 = "gate_init ([] :: mutation_op list, True)" and ?op = "DeferredAlive 5 90"
  define g1 where "g1 = ?g0\<lparr>gt_senders := gt_senders ?g0 @ [Submitting ?op]\<rparr>"
  define g2 where "g2 = g1\<lparr>gt_wc := ms_announce ?op (gt_wc g1), gt_senders := (gt_senders g1)[0 := Announced ?op]\<rparr>"
  define wc3 where "wc3 = (gt_wc g2)\<lparr>wc_chan := ([?op], True)\<rparr>"
  define g3 where "g3 = g2\<lparr>gt_wc := wc3, gt_senders := (gt_senders g2)[0 := Sent ?op], gt_log := gt_log g2 @ logged ?op\<rparr>"
  obtain wc4 where wc4: "wc_prepare list_chan wc3 = Some (1, wc4)" "wc_deferred_alive_count wc4 = 1"
    by (auto simp: wc_prepare_def list_chan_def wc3_def g2_def g1_def gate_init_def wc_new_def ms_announce_def
        wb_new_def wb_is_empty_def wb_len_def wb_group_and_sort_def wc_deferred_alive_count_def Let_def)
  define g4 where "g4 = g3\<lparr>gt_wc := wc4, gt_applied := gt_applied g3 + (if 0 < (1 :: nat) then wc_deferred_alive_count wc4 else 0)\<rparr>"
  have "gate_step list_chan ?g0 g1" unfolding g1_def by (rule gate_step.spawn)
  moreover have "gate_step list_chan g1 g2"
    unfolding g2_def by (rule gate_step.announce) (simp_all add: g1_def gate_init_def)
  moreover have "gate_step list_chan g2 g3"
    unfolding g3_def by (rule gate_step.enqueue)
      (simp_all add: g2_def g1_def gate_init_def ms_enqueue_def list_chan_def wc3_def wc_new_def)
  ultimately have r3: "(gate_step list_chan)\<^sup>*\<^sup>* ?g0 g3" by (meson rtranclp.rtrancl_into_rtrancl rtranclp.rtrancl_refl)
  have "gate_step list_chan g3 g4"
    unfolding g4_def by (rule gate_step.prepare) (simp add: g3_def wc4)
  then have r4: "(gate_step list_chan)\<^sup>*\<^sup>* g3 g4" by blast
  have log: "gt_log g3 = [?op]" "length (gt_senders g3) = 1" "gt_applied g4 = 1" "wc_deferred_seq (gt_wc g3) = 1"
    by (simp_all add: g4_def g3_def g2_def g1_def gate_init_def logged_def wc4 wc3_def wc_new_def)
  have "\<exists>rest. take (gt_applied g4) (gt_log g4) = gt_log g3 @ rest"
    by (rule deferred_gate [OF lc.channel_axioms _ r3 r4]) (simp_all add: log)
  with rtranclp_trans [OF r3 r4] show ?thesis unfolding log(1) by blast
qed

text \<open>
  The order within a batch matters.  Deleting a slot and inserting it again in one batch leaves it
  dead, since alive inserts are applied before alive removes; inserting and deleting it in
  one batch leaves its filter bits set, since filter removes are applied before inserts.
\<close>

lemma batch_order_lost:
  "7 \<notin> iv_alive (batch_view [AliveRemove [7], AliveInsert [7]] iv) \<and>
   7 \<in> iv_alive (fold op_view [AliveRemove [7], AliveInsert [7]] iv) \<and>
   7 \<in> iv_filter (batch_view [FilterInsert n v [7], AliveInsert [7], FilterRemove n v [7], AliveRemove [7]] iv) n v \<and>
   7 \<notin> iv_filter (fold op_view [FilterInsert n v [7], AliveInsert [7], FilterRemove n v [7], AliveRemove [7]] iv) n v"
  by (simp add: batch_view_def op_view_def)

end
