(* ===== verification/Mutation.thy ===== *)
theory Mutation
  imports Query Write_Coalescer
begin

text \<open>
  Documents and their mutations (\<open>mutation.rs\<close>): the pure diff functions that turn a change
  of a document into mutation ops for the write coalescer.  \<open>MutationEngine\<close>, which writes to the
  indexes directly, is not modelled.

  The wall clock is the argument \<open>now\<close> (seconds since the epoch).
\<close>

section \<open>Documents\<close>

datatype field_value = Single qvalue | Multi "qvalue list"

type_synonym field_map = "(string, field_value) hashmap"

record document =
  doc_fields :: field_map

record stored_doc =
  sd_fields :: field_map
  sd_schema_version :: u8

record patch_field =
  pf_old :: field_value
  pf_new :: field_value

record patch_payload =
  pp_fields :: "(string, patch_field) hashmap"

type_synonym field_registry = "(string, string) hashmap"

definition fr_from_config :: "config \<Rightarrow> field_registry" where
  "fr_from_config cfg =
     (let flds = fold (\<lambda>fc m. hm_upsert (ffc_name fc) (ffc_name fc) (\<lambda>x. x) m) (cfg_filter_fields cfg) []
      in fold (\<lambda>sc m. hm_upsert (sfc_name sc) (sfc_name sc) (\<lambda>x. x) m) (cfg_sort_fields cfg) flds)"

definition fr_get :: "field_registry \<Rightarrow> string \<Rightarrow> string" where
  "fr_get registry name = (case hm_get registry name of Some s \<Rightarrow> s | None \<Rightarrow> name)"


section \<open>Values\<close>

text \<open>\<open>value_to_bitmap_key\<close> of this file, which rejects the key reserved for null, unlike its
  namesake of the planner.\<close>

fun doc_bitmap_key :: "qvalue \<Rightarrow> u64 option" where
  "doc_bitmap_key (VBool b) = Some (if b then 1 else 0)"
| "doc_bitmap_key (VInteger v) = (let key = v in if key = NULL_BITMAP_KEY then None else Some key)"
| "doc_bitmap_key (VFloat _) = None"
| "doc_bitmap_key (VString _) = None"

fun value_to_sort_u32 :: "qvalue \<Rightarrow> u32 option" where
  "value_to_sort_u32 (VInteger v) = Some (if sint v < 0 then 0 else ucast v)"
| "value_to_sort_u32 _ = None"

fun values_equal :: "qvalue \<Rightarrow> qvalue \<Rightarrow> bool" where
  "values_equal (VInteger a) (VInteger b) \<longleftrightarrow> a = b"
| "values_equal (VBool a) (VBool b) \<longleftrightarrow> a = b"
| "values_equal (VFloat a) (VFloat b) \<longleftrightarrow> f64_eq a b"
| "values_equal (VString a) (VString b) \<longleftrightarrow> a = b"
| "values_equal _ _ \<longleftrightarrow> False"

fun field_values_equal :: "field_value option \<Rightarrow> field_value option \<Rightarrow> bool" where
  "field_values_equal None None \<longleftrightarrow> True"
| "field_values_equal (Some (Single va)) (Some (Single vb)) \<longleftrightarrow> values_equal va vb"
| "field_values_equal (Some (Multi va)) (Some (Multi vb)) \<longleftrightarrow>
     length va = length vb \<and> list_all (\<lambda>(a, b). values_equal a b) (zip va vb)"
| "field_values_equal _ _ \<longleftrightarrow> False"

fun sort_of_value :: "field_value option \<Rightarrow> u32 option" where
  "sort_of_value (Some (Single v)) = value_to_sort_u32 v"
| "sort_of_value _ = None"

definition field_to_sort_u32 :: "field_map \<Rightarrow> string \<Rightarrow> u32 option" where
  "field_to_sort_u32 flds name = sort_of_value (hm_get flds name)"

fun apply_computed_op :: "computed_op \<Rightarrow> u32 list \<Rightarrow> u32" where
  "apply_computed_op Greatest vs = (if vs = [] then 0 else Max (set vs))"
| "apply_computed_op Least vs = (if vs = [] then 0 else Min (set vs))"

definition computed_value :: "computed_field \<Rightarrow> u32 list \<Rightarrow> u32 option" where
  "computed_value computed vs = (if vs = [] then None else Some (apply_computed_op (cf_op computed) vs))"

definition resolve_computed_sort ::
    "computed_field \<Rightarrow> field_map \<Rightarrow> field_map \<Rightarrow> u32 option \<times> u32 option" where
  "resolve_computed_sort computed old_fields new_fields =
     (let any_changed = list_ex (\<lambda>f. hm_get new_fields f \<noteq> None \<and>
            \<not> field_values_equal (hm_get old_fields f) (hm_get new_fields f)) (cf_source_fields computed)
      in if \<not> any_changed then (None, None)
         else
           let old_values = List.map_filter (field_to_sort_u32 old_fields) (cf_source_fields computed);
               new_values = List.map_filter (\<lambda>f. case field_to_sort_u32 new_fields f of
                   Some v \<Rightarrow> Some v | None \<Rightarrow> field_to_sort_u32 old_fields f) (cf_source_fields computed)
           in (computed_value computed old_values, computed_value computed new_values))"


section \<open>Diffs\<close>

fun collect_filter_remove_ops :: "string \<Rightarrow> u32 \<Rightarrow> field_value \<Rightarrow> mutation_op list" where
  "collect_filter_remove_ops field_name slot (Single v) =
     (case doc_bitmap_key v of Some key \<Rightarrow> [FilterRemove field_name key [slot]] | None \<Rightarrow> [])"
| "collect_filter_remove_ops field_name slot (Multi vals) =
     List.map_filter (\<lambda>v. map_option (\<lambda>key. FilterRemove field_name key [slot]) (doc_bitmap_key v)) vals"

fun collect_filter_insert_ops :: "string \<Rightarrow> u32 \<Rightarrow> field_value \<Rightarrow> mutation_op list" where
  "collect_filter_insert_ops field_name slot (Single v) =
     (case doc_bitmap_key v of Some key \<Rightarrow> [FilterInsert field_name key [slot]] | None \<Rightarrow> [])"
| "collect_filter_insert_ops field_name slot (Multi vals) =
     List.map_filter (\<lambda>v. map_option (\<lambda>key. FilterInsert field_name key [slot]) (doc_bitmap_key v)) vals"

definition emit_sort_diff_ops ::
    "string \<Rightarrow> usize \<Rightarrow> u32 \<Rightarrow> u32 option \<Rightarrow> u32 option \<Rightarrow> mutation_op list" where
  "emit_sort_diff_ops field num_bits slot old_sort new_sort =
     (case (old_sort, new_sort) of
        (Some old_s, Some new_s) \<Rightarrow>
          let diff = old_s XOR new_s
          in concat (map (\<lambda>k. if u32_bit diff k then
                 if u32_bit new_s k then [SortSet field k [slot]] else [SortClear field k [slot]]
               else []) [0..<num_bits])
      | (Some _, None) \<Rightarrow> map (\<lambda>k. SortClear field k [slot]) [0..<num_bits]
      | (None, Some new_s) \<Rightarrow>
          concat (map (\<lambda>k. if u32_bit new_s k then [SortSet field k [slot]] else []) [0..<num_bits])
      | (None, None) \<Rightarrow> [])"

text \<open>The check of the deferred-alive configuration against a new document: the activation time if
  it is in the future.\<close>

definition deferred_activation :: "config \<Rightarrow> field_map \<Rightarrow> u64 \<Rightarrow> u64 option" where
  "deferred_activation cfg flds now =
     (case cfg_deferred_alive cfg of
        None \<Rightarrow> None
      | Some da \<Rightarrow>
          (case hm_get flds (dac_source_field da) of
             Some (Single (VInteger ts)) \<Rightarrow>
               let activate_at = (if dac_ms_to_seconds da then ts div 1000 else ts)
               in if now < activate_at then Some activate_at else None
           | _ \<Rightarrow> None))"

text \<open>The ops that clear what a stored document set, which occurs in both branches of
  \<open>diff_document\<close> and in \<open>diff_document_partial\<close>.\<close>

definition clear_stored_ops :: "config \<Rightarrow> field_registry \<Rightarrow> u32 \<Rightarrow> field_map \<Rightarrow> mutation_op list" where
  "clear_stored_ops cfg registry slot old =
     concat (map (\<lambda>fc. case hm_get old (ffc_name fc) of
         Some old_val \<Rightarrow> collect_filter_remove_ops (fr_get registry (ffc_name fc)) slot old_val
       | None \<Rightarrow> []) (cfg_filter_fields cfg)) @
     concat (map (\<lambda>sc. case sort_of_value (hm_get old (sfc_name sc)) of
         Some old_s \<Rightarrow>
           concat (map (\<lambda>k. if u32_bit old_s k
               then [SortClear (fr_get registry (sfc_name sc)) k [slot]] else []) [0..<unat (sfc_bits sc)])
       | None \<Rightarrow> []) (cfg_sort_fields cfg))"

definition shadow_targets :: "config \<Rightarrow> string list" where
  "shadow_targets cfg =
     map fm_target (filter (\<lambda>fm. fm_value_type fm = FvtExistsBoolean) (ds_fields (cfg_data_schema cfg)))"

definition derive_exists_boolean_shadows :: "config \<Rightarrow> field_map \<Rightarrow> (string \<times> bool) list" where
  "derive_exists_boolean_shadows cfg flds =
     List.map_filter (\<lambda>fm.
         if fm_value_type fm \<noteq> FvtExistsBoolean then None
         else
           let siblings = filter (\<lambda>sibling. fm_source sibling = fm_source fm \<and> fm_target sibling \<noteq> fm_target fm)
                 (ds_fields (cfg_data_schema cfg));
               probe = (case List.map_filter (\<lambda>sibling. hm_get flds (fm_target sibling)) siblings of
                   v # _ \<Rightarrow> Some v
                 | [] \<Rightarrow> hm_get flds (fm_source fm))
           in Some (fm_target fm, probe \<noteq> None))
       (ds_fields (cfg_data_schema cfg))"

text \<open>The values of one sort field before and after an upsert; \<open>None\<close> is the early \<open>continue\<close> for
  equal values.\<close>

definition upsert_sort :: "sort_field_config \<Rightarrow> field_map \<Rightarrow> field_map \<Rightarrow> (u32 option \<times> u32 option) option" where
  "upsert_sort sc old_fields new_fields =
     (case sfc_computed sc of
        Some computed \<Rightarrow> Some (resolve_computed_sort computed old_fields new_fields)
      | None \<Rightarrow>
          let old_val = hm_get old_fields (sfc_name sc); new_val = hm_get new_fields (sfc_name sc)
          in if field_values_equal old_val new_val then None
             else Some (sort_of_value old_val, sort_of_value new_val))"

definition sort_change_ops ::
    "field_registry \<Rightarrow> u32 \<Rightarrow> sort_field_config \<Rightarrow> (u32 option \<times> u32 option) option \<Rightarrow> mutation_op list" where
  "sort_change_ops registry slot sc change =
     (case change of
        None \<Rightarrow> []
      | Some (old_sort, new_sort) \<Rightarrow>
          if old_sort = new_sort then []
          else emit_sort_diff_ops (fr_get registry (sfc_name sc)) (unat (sfc_bits sc)) slot old_sort new_sort)"

definition filter_change_ops ::
    "string \<Rightarrow> u32 \<Rightarrow> field_value option \<Rightarrow> field_value option \<Rightarrow> mutation_op list" where
  "filter_change_ops name slot old_val new_val =
     (if field_values_equal old_val new_val then []
      else (case old_val of Some old \<Rightarrow> collect_filter_remove_ops name slot old | None \<Rightarrow> []) @
           (case new_val of Some new \<Rightarrow> collect_filter_insert_ops name slot new | None \<Rightarrow> []))"

definition upsert_ops :: "config \<Rightarrow> field_registry \<Rightarrow> u32 \<Rightarrow> field_map \<Rightarrow> field_map \<Rightarrow> mutation_op list" where
  "upsert_ops cfg registry slot old_fields new_fields =
     concat (map (\<lambda>fc.
         if ffc_name fc \<in> set (shadow_targets cfg) then []
         else filter_change_ops (fr_get registry (ffc_name fc)) slot
                (hm_get old_fields (ffc_name fc)) (hm_get new_fields (ffc_name fc))) (cfg_filter_fields cfg)) @
     concat (map (\<lambda>sc. sort_change_ops registry slot sc (upsert_sort sc old_fields new_fields)) (cfg_sort_fields cfg))"

text \<open>A fresh insert: every bit of a sort value is set or cleared.\<close>

definition fresh_sort :: "sort_field_config \<Rightarrow> field_map \<Rightarrow> u32 option" where
  "fresh_sort sc flds =
     (case sfc_computed sc of
        Some computed \<Rightarrow>
          computed_value computed (List.map_filter (field_to_sort_u32 flds) (cf_source_fields computed))
      | None \<Rightarrow> sort_of_value (hm_get flds (sfc_name sc)))"

definition fresh_ops :: "config \<Rightarrow> field_registry \<Rightarrow> u32 \<Rightarrow> field_map \<Rightarrow> mutation_op list" where
  "fresh_ops cfg registry slot new_fields =
     concat (map (\<lambda>fc.
         if ffc_name fc \<in> set (shadow_targets cfg) then []
         else case hm_get new_fields (ffc_name fc) of
             Some field_value \<Rightarrow> collect_filter_insert_ops (fr_get registry (ffc_name fc)) slot field_value
           | None \<Rightarrow> []) (cfg_filter_fields cfg)) @
     concat (map (\<lambda>sc. case fresh_sort sc new_fields of
         Some sort_val \<Rightarrow>
           map (\<lambda>k. if u32_bit sort_val k then SortSet (fr_get registry (sfc_name sc)) k [slot]
                    else SortClear (fr_get registry (sfc_name sc)) k [slot]) [0..<unat (sfc_bits sc)]
       | None \<Rightarrow> []) (cfg_sort_fields cfg))"

definition shadow_ops :: "config \<Rightarrow> field_registry \<Rightarrow> u32 \<Rightarrow> field_map \<Rightarrow> mutation_op list" where
  "shadow_ops cfg registry slot new_fields =
     concat (map (\<lambda>(shadow_name, derived).
         let arc_name = fr_get registry shadow_name;
             (set_key, clear_key) = (if derived then (1, 0) else (0, 1))
         in [FilterRemove arc_name clear_key [slot], FilterInsert arc_name set_key [slot]])
       (derive_exists_boolean_shadows cfg new_fields))"

definition diff_document ::
    "u32 \<Rightarrow> stored_doc option \<Rightarrow> document \<Rightarrow> config \<Rightarrow> bool \<Rightarrow> field_registry \<Rightarrow> u64 \<Rightarrow> mutation_op list" where
  "diff_document slot old_doc new_doc cfg is_upsert registry now =
     (case deferred_activation cfg (doc_fields new_doc) now of
        Some activate_at \<Rightarrow>
          (case old_doc of
             Some old \<Rightarrow> clear_stored_ops cfg registry slot (sd_fields old) @ [AliveRemove [slot]]
           | None \<Rightarrow> []) @ [DeferredAlive slot activate_at]
      | None \<Rightarrow>
          (if is_upsert then
             upsert_ops cfg registry slot (case old_doc of None \<Rightarrow> [] | Some d \<Rightarrow> sd_fields d) (doc_fields new_doc)
           else
             (case old_doc of Some old \<Rightarrow> clear_stored_ops cfg registry slot (sd_fields old) | None \<Rightarrow> []) @
             fresh_ops cfg registry slot (doc_fields new_doc)) @
          shadow_ops cfg registry slot (doc_fields new_doc) @ [AliveInsert [slot]])"

definition partial_sort :: "sort_field_config \<Rightarrow> field_map \<Rightarrow> field_map \<Rightarrow> (u32 option \<times> u32 option) option" where
  "partial_sort sc old_fields new_fields =
     (case sfc_computed sc of
        Some computed \<Rightarrow>
          if \<not> list_ex (\<lambda>f. hm_get new_fields f \<noteq> None) (cf_source_fields computed) then None
          else Some (resolve_computed_sort computed old_fields new_fields)
      | None \<Rightarrow>
          let old_val = hm_get old_fields (sfc_name sc); new_val = hm_get new_fields (sfc_name sc)
          in if new_val = None then None
             else if field_values_equal old_val new_val then None
             else Some (sort_of_value old_val, sort_of_value new_val))"

definition diff_document_partial ::
    "u32 \<Rightarrow> stored_doc option \<Rightarrow> document \<Rightarrow> config \<Rightarrow> field_registry \<Rightarrow> u64 \<Rightarrow> mutation_op list" where
  "diff_document_partial slot old_doc new_doc cfg registry now =
     (let old_fields = (case old_doc of None \<Rightarrow> [] | Some d \<Rightarrow> sd_fields d); new_fields = doc_fields new_doc
      in case deferred_activation cfg new_fields now of
           Some activate_at \<Rightarrow>
             clear_stored_ops cfg registry slot old_fields @ [AliveRemove [slot], DeferredAlive slot activate_at]
         | None \<Rightarrow>
             concat (map (\<lambda>fc. case hm_get new_fields (ffc_name fc) of
                 None \<Rightarrow> []
               | Some new_val \<Rightarrow> filter_change_ops (fr_get registry (ffc_name fc)) slot
                     (hm_get old_fields (ffc_name fc)) (Some new_val)) (cfg_filter_fields cfg)) @
             concat (map (\<lambda>sc. sort_change_ops registry slot sc (partial_sort sc old_fields new_fields))
               (cfg_sort_fields cfg)))"

text \<open>\<open>diff_patch\<close>: a field of the patch may be a filter field, a sort field, or both.\<close>

definition patch_field_ops :: "config \<Rightarrow> field_registry \<Rightarrow> u32 \<Rightarrow> string \<Rightarrow> patch_field \<Rightarrow> mutation_op list" where
  "patch_field_ops cfg registry slot field_name change =
     (let arc_name = fr_get registry field_name
      in (if list_ex (\<lambda>f. ffc_name f = field_name) (cfg_filter_fields cfg) then
            collect_filter_remove_ops arc_name slot (pf_old change) @
            collect_filter_insert_ops arc_name slot (pf_new change)
          else []) @
         (case List.find (\<lambda>s. sfc_name s = field_name) (cfg_sort_fields cfg) of
            None \<Rightarrow> []
          | Some sc \<Rightarrow>
              (case (sort_of_value (Some (pf_old change)), sort_of_value (Some (pf_new change))) of
                 (Some old_sort, Some new_sort) \<Rightarrow>
                   let diff = old_sort XOR new_sort
                   in concat (map (\<lambda>k. if u32_bit diff k then
                          if u32_bit new_sort k then [SortSet arc_name k [slot]] else [SortClear arc_name k [slot]]
                        else []) [0..<unat (sfc_bits sc)])
               | _ \<Rightarrow> [])))"

definition diff_patch :: "u32 \<Rightarrow> patch_payload \<Rightarrow> config \<Rightarrow> field_registry \<Rightarrow> mutation_op list" where
  "diff_patch slot patch cfg registry =
     concat (map (\<lambda>(field_name, change). patch_field_ops cfg registry slot field_name change) (pp_fields patch))"



section \<open>When an index agrees with a document\<close>

text \<open>The bitmap keys of a field value, and the index entries of a slot as a document prescribes them:
  for the filter fields outside \<open>excl\<close>, for the sort layers, and for the derived booleans.  The
  null bitmap of a field is maintained elsewhere.\<close>

fun filter_keys :: "field_value option \<Rightarrow> u64 set" where
  "filter_keys None = {}"
| "filter_keys (Some (Single v)) = set_option (doc_bitmap_key v)"
| "filter_keys (Some (Multi vs)) = (\<Union>v \<in> set vs. set_option (doc_bitmap_key v))"

definition filter_indexed :: "config \<Rightarrow> string list \<Rightarrow> index_view \<Rightarrow> u32 \<Rightarrow> field_map \<Rightarrow> bool" where
  "filter_indexed cfg excl iv s flds \<longleftrightarrow> (\<forall>n \<in> ffc_name ` set (cfg_filter_fields cfg) - set excl. \<forall>k. k \<noteq> NULL_BITMAP_KEY \<longrightarrow>
     (s \<in> iv_filter iv n k \<longleftrightarrow> k \<in> filter_keys (hm_get flds n)))"

definition layer_indexed :: "index_view \<Rightarrow> u32 \<Rightarrow> sort_field_config \<Rightarrow> u32 option \<Rightarrow> bool" where
  "layer_indexed iv s sc v \<longleftrightarrow> (\<forall>k < unat (sfc_bits sc).
     s \<in> iv_sort iv (sfc_name sc) k \<longleftrightarrow> (case v of None \<Rightarrow> False | Some w \<Rightarrow> u32_bit w k))"

definition sort_indexed :: "config \<Rightarrow> index_view \<Rightarrow> u32 \<Rightarrow> field_map \<Rightarrow> bool" where
  "sort_indexed cfg iv s flds \<longleftrightarrow> (\<forall>sc \<in> set (cfg_sort_fields cfg). layer_indexed iv s sc (fresh_sort sc flds))"

definition shadow_indexed :: "config \<Rightarrow> index_view \<Rightarrow> u32 \<Rightarrow> field_map \<Rightarrow> bool" where
  "shadow_indexed cfg iv s flds \<longleftrightarrow> (\<forall>(n, d) \<in> set (derive_exists_boolean_shadows cfg flds).
     (s \<in> iv_filter iv n 1 \<longleftrightarrow> d) \<and> (s \<in> iv_filter iv n 0 \<longleftrightarrow> \<not> d))"

text \<open>A change of a view that leaves every slot but one alone.\<close>

definition only_slot :: "u32 \<Rightarrow> index_view \<Rightarrow> index_view \<Rightarrow> bool" where
  "only_slot s iv iv' \<longleftrightarrow> iv_alive iv' - {s} = iv_alive iv - {s} \<and>
     (\<forall>n k. iv_filter iv' n k - {s} = iv_filter iv n k - {s}) \<and>
     (\<forall>n k. iv_sort iv' n k - {s} = iv_sort iv n k - {s}) \<and> (\<forall>t. t \<noteq> s \<longrightarrow> iv_due iv' t = iv_due iv t)"

definition config_names_ok :: "config \<Rightarrow> bool" where
  "config_names_ok cfg \<longleftrightarrow> distinct (map sfc_name (cfg_sort_fields cfg)) \<and> distinct (shadow_targets cfg)"


section \<open>The slots that diffs name\<close>

lemma slots_of_concat [simp]: "slots_of sel (concat xss) = (\<Union>xs \<in> set xss. slots_of sel xs)"
  by (induction xss) auto

lemma slots_of_map: "slots_of sel (map g xs) = (\<Union>x \<in> set xs. set (sel (g x)))"
  by (induction xs) auto

lemma slots_of_map_filter: "slots_of sel (List.map_filter g xs) = (\<Union>x \<in> set xs. case g x of None \<Rightarrow> {} | Some op \<Rightarrow> set (sel op))"
  by (induction xs) (auto simp: List.map_filter_def split: option.splits)

lemma fr_get_id [simp]: "fr_get (fr_from_config cfg) n = n"
proof -
  let ?ok = "\<lambda>m. \<forall>a b. hm_get m a = Some b \<longrightarrow> b = a"
  have "?ok (fr_from_config cfg)"
    unfolding fr_from_config_def Let_def by (intro fold_inv [where P = ?ok]) (auto split: option.splits)
  then show ?thesis by (auto simp: fr_get_def split: option.splits)
qed

lemma remove_ops_slots [simp]:
  "slots_of (rem_sel n k) (collect_filter_remove_ops m s v) = (if m = n \<and> k \<in> filter_keys (Some v) then {s} else {})"
  "slots_of (ins_sel n k) (collect_filter_remove_ops m s v) = {}"
  "slots_of (set_sel n j) (collect_filter_remove_ops m s v) = {}"
  "slots_of (clear_sel n j) (collect_filter_remove_ops m s v) = {}"
  "slots_of alive_ins_sel (collect_filter_remove_ops m s v) = {}"
  "slots_of alive_rem_sel (collect_filter_remove_ops m s v) = {}"
  by (cases v; auto simp: slots_of_map_filter split: option.splits)+

lemma insert_ops_slots [simp]:
  "slots_of (ins_sel n k) (collect_filter_insert_ops m s v) = (if m = n \<and> k \<in> filter_keys (Some v) then {s} else {})"
  "slots_of (rem_sel n k) (collect_filter_insert_ops m s v) = {}"
  "slots_of (set_sel n j) (collect_filter_insert_ops m s v) = {}"
  "slots_of (clear_sel n j) (collect_filter_insert_ops m s v) = {}"
  "slots_of alive_ins_sel (collect_filter_insert_ops m s v) = {}"
  "slots_of alive_rem_sel (collect_filter_insert_ops m s v) = {}"
  by (cases v; auto simp: slots_of_map_filter split: option.splits)+

lemma emit_slots [simp]:
  "slots_of (ins_sel n v) (emit_sort_diff_ops m nb s a b) = {}"
  "slots_of (rem_sel n v) (emit_sort_diff_ops m nb s a b) = {}"
  "slots_of alive_ins_sel (emit_sort_diff_ops m nb s a b) = {}"
  "slots_of alive_rem_sel (emit_sort_diff_ops m nb s a b) = {}"
  by (auto simp: emit_sort_diff_ops_def slots_of_map Let_def split: option.splits)

text \<open>Equal field values have equal keys and equal sort values.\<close>

lemma values_equal_key: "values_equal a b \<Longrightarrow> doc_bitmap_key a = doc_bitmap_key b"
  by (cases "(a, b)" rule: values_equal.cases) auto

lemma values_equal_sort: "values_equal a b \<Longrightarrow> value_to_sort_u32 a = value_to_sort_u32 b"
  by (cases "(a, b)" rule: values_equal.cases) auto

lemma list_values_equal_keys:
  "length va = length vb \<Longrightarrow> list_all (\<lambda>(a, b). values_equal a b) (zip va vb) \<Longrightarrow>
    map doc_bitmap_key va = map doc_bitmap_key vb"
  by (induction va vb rule: list_induct2) (auto dest: values_equal_key)

lemma field_values_equal_keys: "field_values_equal a b \<Longrightarrow> filter_keys a = filter_keys b"
proof (cases "(a, b)" rule: field_values_equal.cases)
  case (3 va vb)
  assume "field_values_equal a b"
  with 3 have "map doc_bitmap_key va = map doc_bitmap_key vb"
    using list_values_equal_keys by auto
  then have "doc_bitmap_key ` set va = doc_bitmap_key ` set vb" by (metis set_map)
  then have "(\<Union>x \<in> doc_bitmap_key ` set va. set_option x) = (\<Union>x \<in> doc_bitmap_key ` set vb. set_option x)" by simp
  with 3 show ?thesis by simp
qed (auto dest: values_equal_key)

lemma field_values_equal_sort: "field_values_equal a b \<Longrightarrow> sort_of_value a = sort_of_value b"
  by (cases "(a, b)" rule: field_values_equal.cases) (auto dest: values_equal_sort)

lemma NULL_not_key: "k \<in> filter_keys v \<Longrightarrow> k \<noteq> NULL_BITMAP_KEY"
proof -
  have "doc_bitmap_key x \<noteq> Some NULL_BITMAP_KEY" for x
    by (cases x) (auto simp: NULL_BITMAP_KEY_def u64_MAX_def Let_def)
  then show "k \<in> filter_keys v \<Longrightarrow> k \<noteq> NULL_BITMAP_KEY"
    by (cases v rule: filter_keys.cases) (auto simp: elem_set)
qed

lemma filter_change_slots [simp]:
  "slots_of (rem_sel n k) (filter_change_ops m s a b) =
     (if m = n \<and> \<not> field_values_equal a b \<and> k \<in> filter_keys a then {s} else {})"
  "slots_of (ins_sel n k) (filter_change_ops m s a b) =
     (if m = n \<and> \<not> field_values_equal a b \<and> k \<in> filter_keys b then {s} else {})"
  "slots_of (set_sel n j) (filter_change_ops m s a b) = {}"
  "slots_of (clear_sel n j) (filter_change_ops m s a b) = {}"
  "slots_of alive_ins_sel (filter_change_ops m s a b) = {}"
  "slots_of alive_rem_sel (filter_change_ops m s a b) = {}"
  by (auto simp: filter_change_ops_def split: option.splits)

text \<open>The layers after a sort change: what was there without the cleared and with the set bits.\<close>

lemma emit_layers:
  assumes "old \<noteq> new" and "k < nb"
  shows "(case old of None \<Rightarrow> False | Some w \<Rightarrow> u32_bit w k) \<and> s \<notin> slots_of (clear_sel m k) (emit_sort_diff_ops m nb s old new) \<or>
      s \<in> slots_of (set_sel m k) (emit_sort_diff_ops m nb s old new) \<longleftrightarrow>
    (case new of None \<Rightarrow> False | Some w \<Rightarrow> u32_bit w k)"
proof -
  have x: "u32_bit (a XOR b) k \<longleftrightarrow> u32_bit a k \<noteq> u32_bit b k" for a b
    unfolding u32_bit_def bit_iff_and_drop_bit_eq_1 [symmetric] by (simp add: bit_xor_iff)
  show ?thesis
    using assms by (auto simp: emit_sort_diff_ops_def slots_of_map Let_def x split: option.splits if_splits)
qed

lemma emit_other:
  "n \<noteq> m \<Longrightarrow> slots_of (clear_sel n k) (emit_sort_diff_ops m nb s old new) = {}"
  "n \<noteq> m \<Longrightarrow> slots_of (set_sel n k) (emit_sort_diff_ops m nb s old new) = {}"
  by (auto simp: emit_sort_diff_ops_def slots_of_map Let_def split: option.splits if_splits)

lemma emit_subset:
  "slots_of (clear_sel n k) (emit_sort_diff_ops m nb s old new) \<subseteq> {s}"
  "slots_of (set_sel n k) (emit_sort_diff_ops m nb s old new) \<subseteq> {s}"
  by (auto simp: emit_sort_diff_ops_def slots_of_map Let_def split: option.splits if_splits)

lemma UN_pick:
  assumes "distinct (map f xs)" and "x \<in> set xs" and "\<And>y. f y \<noteq> f x \<Longrightarrow> G y = {}"
  shows "(\<Union>y \<in> set xs. G y) = G x"
proof -
  have "G y \<subseteq> G x" if "y \<in> set xs" for y
    using assms that by (cases "f y = f x") (auto simp: distinct_map inj_on_def)
  with assms(2) show ?thesis by blast
qed

lemma sort_change_slots [simp]:
  "slots_of (ins_sel n v) (sort_change_ops r s sc ch) = {}"
  "slots_of (rem_sel n v) (sort_change_ops r s sc ch) = {}"
  "slots_of alive_ins_sel (sort_change_ops r s sc ch) = {}"
  "slots_of alive_rem_sel (sort_change_ops r s sc ch) = {}"
  by (auto simp: sort_change_ops_def split: option.splits)

lemma sort_change_other:
  "sfc_name sc \<noteq> n \<Longrightarrow> slots_of (clear_sel n k) (sort_change_ops (fr_from_config cfg) s sc ch) = {}"
  "sfc_name sc \<noteq> n \<Longrightarrow> slots_of (set_sel n k) (sort_change_ops (fr_from_config cfg) s sc ch) = {}"
  by (auto simp: sort_change_ops_def emit_other split: option.splits)

lemma sort_change_subset:
  "slots_of (clear_sel n k) (sort_change_ops r s sc ch) \<subseteq> {s}"
  "slots_of (set_sel n k) (sort_change_ops r s sc ch) \<subseteq> {s}"
  using emit_subset by (auto simp: sort_change_ops_def split: option.splits)

text \<open>A change of a layer from an old to a new value, as ops that come from that change alone.\<close>

lemma layer_change:
  assumes "layer_indexed iv s sc old"
    and "\<And>k. slots_of (clear_sel (sfc_name sc) k) ops = slots_of (clear_sel (sfc_name sc) k) (sort_change_ops (fr_from_config cfg) s sc ch)"
    and "\<And>k. slots_of (set_sel (sfc_name sc) k) ops = slots_of (set_sel (sfc_name sc) k) (sort_change_ops (fr_from_config cfg) s sc ch)"
    and "case ch of None \<Rightarrow> old = new | Some (a, b) \<Rightarrow> if a = b then old = new else a = old \<and> b = new"
  shows "layer_indexed (batch_view ops iv) s sc new"
proof (cases "old = new")
  case True
  then have "sort_change_ops (fr_from_config cfg) s sc ch = []"
    using assms(4) by (auto simp: sort_change_ops_def split: option.splits if_splits)
  with assms(1-3) True show ?thesis by (simp add: layer_indexed_def batch_view_def)
next
  case False
  then have "sort_change_ops (fr_from_config cfg) s sc ch = emit_sort_diff_ops (sfc_name sc) (unat (sfc_bits sc)) s old new"
    using assms(4) by (auto simp: sort_change_ops_def split: option.splits if_splits)
  with assms(1-3) emit_layers [OF False, of _ "unat (sfc_bits sc)" s "sfc_name sc"] show ?thesis
    by (auto simp: layer_indexed_def batch_view_def)
qed

lemma derive_fst: "map fst (derive_exists_boolean_shadows cfg flds) = shadow_targets cfg"
proof -
  have step: "map fst (List.map_filter (\<lambda>fm. if fm_value_type fm \<noteq> FvtExistsBoolean then None else Some (fm_target fm, P fm)) fms) =
      map fm_target (filter (\<lambda>fm. fm_value_type fm = FvtExistsBoolean) fms)" for P :: "field_mapping \<Rightarrow> bool" and fms
    by (induction fms) (simp_all add: List.map_filter_def)
  show ?thesis unfolding derive_exists_boolean_shadows_def shadow_targets_def Let_def by (rule step)
qed

lemma shadow_slots:
  "s' \<in> slots_of (rem_sel n k) (shadow_ops cfg (fr_from_config cfg) s flds) \<longleftrightarrow>
     s' = s \<and> (\<exists>d. (n, d) \<in> set (derive_exists_boolean_shadows cfg flds) \<and> k = (if d then 0 else 1))"
  "s' \<in> slots_of (ins_sel n k) (shadow_ops cfg (fr_from_config cfg) s flds) \<longleftrightarrow>
     s' = s \<and> (\<exists>d. (n, d) \<in> set (derive_exists_boolean_shadows cfg flds) \<and> k = (if d then 1 else 0))"
proof -
  let ?one = "\<lambda>(n', d). [FilterRemove n' (if d then 0 else 1) [s], FilterInsert n' (if d then 1 else 0) [s]]"
  have ops: "shadow_ops cfg (fr_from_config cfg) s flds = concat (map ?one (derive_exists_boolean_shadows cfg flds))"
    unfolding shadow_ops_def by (rule arg_cong [where f = concat], rule map_cong) (auto simp: Let_def)
  have one: "slots_of (rem_sel n k) (?one (n', d)) = (if n' = n \<and> (if d then 0 else 1) = k then {s} else {})"
    "slots_of (ins_sel n k) (?one (n', d)) = (if n' = n \<and> (if d then 1 else 0) = k then {s} else {})" for n' d
    by simp_all
  show "s' \<in> slots_of (rem_sel n k) (shadow_ops cfg (fr_from_config cfg) s flds) \<longleftrightarrow>
     s' = s \<and> (\<exists>d. (n, d) \<in> set (derive_exists_boolean_shadows cfg flds) \<and> k = (if d then 0 else 1))"
    unfolding ops slots_of_concat set_map UN_iff bex_simps
    by (simp only: Bex_def split_paired_Ex one) (auto split: if_splits)
  show "s' \<in> slots_of (ins_sel n k) (shadow_ops cfg (fr_from_config cfg) s flds) \<longleftrightarrow>
     s' = s \<and> (\<exists>d. (n, d) \<in> set (derive_exists_boolean_shadows cfg flds) \<and> k = (if d then 1 else 0))"
    unfolding ops slots_of_concat set_map UN_iff bex_simps
    by (simp only: Bex_def split_paired_Ex one) (auto split: if_splits)
qed

lemma shadow_other_slots [simp]:
  "slots_of (set_sel n j) (shadow_ops cfg r s flds) = {}" "slots_of (clear_sel n j) (shadow_ops cfg r s flds) = {}"
  "slots_of alive_ins_sel (shadow_ops cfg r s flds) = {}" "slots_of alive_rem_sel (shadow_ops cfg r s flds) = {}"
  by (auto simp: shadow_ops_def Let_def split: if_splits)

lemma shadow_applied:
  assumes "config_names_ok cfg" and "\<And>n k. n \<in> set (shadow_targets cfg) \<Longrightarrow>
      slots_of (rem_sel n k) (shadow_ops cfg (fr_from_config cfg) s flds) \<subseteq> slots_of (rem_sel n k) ops"
    and "\<And>n k. n \<in> set (shadow_targets cfg) \<Longrightarrow>
      slots_of (ins_sel n k) ops = slots_of (ins_sel n k) (shadow_ops cfg (fr_from_config cfg) s flds)"
  shows "shadow_indexed cfg (batch_view ops iv) s flds"
  unfolding shadow_indexed_def
proof clarify
  fix n d
  assume nd: "(n, d) \<in> set (derive_exists_boolean_shadows cfg flds)"
  then have n: "n \<in> set (shadow_targets cfg)" by (metis derive_fst fst_conv image_eqI set_map)
  have dist: "distinct (map fst (derive_exists_boolean_shadows cfg flds))"
    using assms(1) unfolding derive_fst by (simp add: config_names_ok_def)
  have "(n, e) \<in> set (derive_exists_boolean_shadows cfg flds) \<longleftrightarrow> e = d" for e
    using nd map_of_is_SomeI [OF dist nd] by (auto dest: map_of_is_SomeI [OF dist])
  then show "(s \<in> iv_filter (batch_view ops iv) n 1) = d \<and> (s \<in> iv_filter (batch_view ops iv) n 0) = (\<not> d)"
    using assms(2) [OF n, of 0] assms(2) [OF n, of 1]
    by (auto simp: batch_view_def assms(3) [OF n] shadow_slots subset_iff)
qed

text \<open>The filter part of an upsert, and the sort part for one field.\<close>

lemma upsert_filter_slots:
  "slots_of (rem_sel n k) (upsert_ops cfg (fr_from_config cfg) s old new) =
     (if n \<in> ffc_name ` set (cfg_filter_fields cfg) - set (shadow_targets cfg) \<and>
         \<not> field_values_equal (hm_get old n) (hm_get new n) \<and> k \<in> filter_keys (hm_get old n) then {s} else {})"
  "slots_of (ins_sel n k) (upsert_ops cfg (fr_from_config cfg) s old new) =
     (if n \<in> ffc_name ` set (cfg_filter_fields cfg) - set (shadow_targets cfg) \<and>
         \<not> field_values_equal (hm_get old n) (hm_get new n) \<and> k \<in> filter_keys (hm_get new n) then {s} else {})"
  "slots_of alive_ins_sel (upsert_ops cfg (fr_from_config cfg) s old new) = {}"
  "slots_of alive_rem_sel (upsert_ops cfg (fr_from_config cfg) s old new) = {}"
  unfolding upsert_ops_def slots_of_simps slots_of_concat set_map image_image
  by (auto split: if_splits)

lemma upsert_layer_slots:
  assumes "config_names_ok cfg" and "sc \<in> set (cfg_sort_fields cfg)"
  shows "slots_of (clear_sel (sfc_name sc) k) (upsert_ops cfg (fr_from_config cfg) s old new) =
      slots_of (clear_sel (sfc_name sc) k) (sort_change_ops (fr_from_config cfg) s sc (upsert_sort sc old new))"
    and "slots_of (set_sel (sfc_name sc) k) (upsert_ops cfg (fr_from_config cfg) s old new) =
      slots_of (set_sel (sfc_name sc) k) (sort_change_ops (fr_from_config cfg) s sc (upsert_sort sc old new))"
proof -
  have d: "distinct (map sfc_name (cfg_sort_fields cfg))" using assms(1) by (simp add: config_names_ok_def)
  show "slots_of (clear_sel (sfc_name sc) k) (upsert_ops cfg (fr_from_config cfg) s old new) =
      slots_of (clear_sel (sfc_name sc) k) (sort_change_ops (fr_from_config cfg) s sc (upsert_sort sc old new))"
    unfolding upsert_ops_def
    using UN_pick [OF d assms(2), of "\<lambda>sc'. slots_of (clear_sel (sfc_name sc) k)
        (sort_change_ops (fr_from_config cfg) s sc' (upsert_sort sc' old new))", OF sort_change_other(1)]
    by auto
  show "slots_of (set_sel (sfc_name sc) k) (upsert_ops cfg (fr_from_config cfg) s old new) =
      slots_of (set_sel (sfc_name sc) k) (sort_change_ops (fr_from_config cfg) s sc (upsert_sort sc old new))"
    unfolding upsert_ops_def
    using UN_pick [OF d assms(2), of "\<lambda>sc'. slots_of (set_sel (sfc_name sc) k)
        (sort_change_ops (fr_from_config cfg) s sc' (upsert_sort sc' old new))", OF sort_change_other(2)]
    by auto
qed

text \<open>What an upsert may not do to the sources of a computed sort field: drop a value.\<close>

definition sources_kept :: "config \<Rightarrow> field_map \<Rightarrow> field_map \<Rightarrow> bool" where
  "sources_kept cfg old new \<longleftrightarrow> (\<forall>sc \<in> set (cfg_sort_fields cfg). \<forall>c. sfc_computed sc = Some c \<longrightarrow>
     (\<forall>f \<in> set (cf_source_fields c). field_to_sort_u32 old f \<noteq> None \<longrightarrow> field_to_sort_u32 new f \<noteq> None))"

lemma upsert_sort_change:
  assumes "sources_kept cfg old new" and "sc \<in> set (cfg_sort_fields cfg)"
  shows "case upsert_sort sc old new of None \<Rightarrow> fresh_sort sc old = fresh_sort sc new
    | Some (a, b) \<Rightarrow> if a = b then fresh_sort sc old = fresh_sort sc new
                     else a = fresh_sort sc old \<and> b = fresh_sort sc new"
proof (cases "sfc_computed sc")
  case None
  then show ?thesis by (auto simp: upsert_sort_def fresh_sort_def Let_def dest: field_values_equal_sort)
next
  case (Some c)
  have keep: "field_to_sort_u32 new f \<noteq> None" if "f \<in> set (cf_source_fields c)" "field_to_sort_u32 old f \<noteq> None" for f
    using assms Some that by (auto simp: sources_kept_def)
  show ?thesis
  proof (cases "list_ex (\<lambda>f. hm_get new f \<noteq> None \<and> \<not> field_values_equal (hm_get old f) (hm_get new f)) (cf_source_fields c)")
    case True
    have "List.map_filter (\<lambda>f. case field_to_sort_u32 new f of Some v \<Rightarrow> Some v | None \<Rightarrow> field_to_sort_u32 old f) (cf_source_fields c) =
        List.map_filter (field_to_sort_u32 new) (cf_source_fields c)"
      by (rule map_filter_cong) (auto split: option.splits dest: keep)
    with Some True show ?thesis
      by (simp add: upsert_sort_def fresh_sort_def resolve_computed_sort_def Let_def)
  next
    case False
    have "List.map_filter (field_to_sort_u32 old) (cf_source_fields c) = List.map_filter (field_to_sort_u32 new) (cf_source_fields c)"
    proof (rule map_filter_cong)
      fix f assume f: "f \<in> set (cf_source_fields c)"
      with False have "hm_get new f = None \<or> field_values_equal (hm_get old f) (hm_get new f)" by (auto simp: list_ex_iff)
      then show "field_to_sort_u32 old f = field_to_sort_u32 new f"
        using keep [OF f] by (cases "sort_of_value (hm_get old f)")
          (auto simp: field_to_sort_u32_def dest: field_values_equal_sort)
    qed
    with Some False show ?thesis
      by (simp add: upsert_sort_def fresh_sort_def resolve_computed_sort_def Let_def)
  qed
qed

text \<open>Ops that name one slot only.\<close>

fun touches :: "u32 \<Rightarrow> mutation_op \<Rightarrow> bool" where
  "touches s (FilterInsert _ _ ss) \<longleftrightarrow> set ss \<subseteq> {s}"
| "touches s (FilterRemove _ _ ss) \<longleftrightarrow> set ss \<subseteq> {s}"
| "touches s (SortSet _ _ ss) \<longleftrightarrow> set ss \<subseteq> {s}"
| "touches s (SortClear _ _ ss) \<longleftrightarrow> set ss \<subseteq> {s}"
| "touches s (AliveInsert ss) \<longleftrightarrow> set ss \<subseteq> {s}"
| "touches s (AliveRemove ss) \<longleftrightarrow> set ss \<subseteq> {s}"
| "touches s (DeferredAlive t _) \<longleftrightarrow> t = s"
| "touches s (DeferredCancel t) \<longleftrightarrow> t = s"

definition touches_only :: "u32 \<Rightarrow> mutation_op list \<Rightarrow> bool" where
  "touches_only s ops \<longleftrightarrow> (\<forall>op \<in> set ops. touches s op)"

lemma touches_only_simps [simp]:
  "touches_only s []" "touches_only s (op # ops) \<longleftrightarrow> touches s op \<and> touches_only s ops"
  "touches_only s (a @ b) \<longleftrightarrow> touches_only s a \<and> touches_only s b"
  "touches_only s (concat xss) \<longleftrightarrow> (\<forall>xs \<in> set xss. touches_only s xs)"
  by (auto simp: touches_only_def)

lemma touches_only_slots:
  assumes "touches_only s ops"
  shows "slots_of (ins_sel n v) ops \<subseteq> {s}" "slots_of (rem_sel n v) ops \<subseteq> {s}" "slots_of (set_sel n k) ops \<subseteq> {s}"
    "slots_of (clear_sel n k) ops \<subseteq> {s}" "slots_of alive_ins_sel ops \<subseteq> {s}" "slots_of alive_rem_sel ops \<subseteq> {s}"
    "t \<noteq> s \<Longrightarrow> fold due_op ops m t = m t"
proof -
  have sub: "slots_of sel ops \<subseteq> {s}" if "\<And>op. touches s op \<Longrightarrow> set (sel op) \<subseteq> {s}" for sel
    using that assms by (auto simp: slots_of_def touches_only_def)
  have "set (ins_sel n v op) \<subseteq> {s}" if "touches s op" for op
    using that by (cases op) (auto split: if_splits)
  then show "slots_of (ins_sel n v) ops \<subseteq> {s}" by (rule sub)
  have "set (rem_sel n v op) \<subseteq> {s}" if "touches s op" for op
    using that by (cases op) (auto split: if_splits)
  then show "slots_of (rem_sel n v) ops \<subseteq> {s}" by (rule sub)
  have "set (set_sel n k op) \<subseteq> {s}" if "touches s op" for op
    using that by (cases op) (auto split: if_splits)
  then show "slots_of (set_sel n k) ops \<subseteq> {s}" by (rule sub)
  have "set (clear_sel n k op) \<subseteq> {s}" if "touches s op" for op
    using that by (cases op) (auto split: if_splits)
  then show "slots_of (clear_sel n k) ops \<subseteq> {s}" by (rule sub)
  have "set (alive_ins_sel op) \<subseteq> {s}" if "touches s op" for op
    using that by (cases op) (auto split: if_splits)
  then show "slots_of alive_ins_sel ops \<subseteq> {s}" by (rule sub)
  have "set (alive_rem_sel op) \<subseteq> {s}" if "touches s op" for op
    using that by (cases op) (auto split: if_splits)
  then show "slots_of alive_rem_sel ops \<subseteq> {s}" by (rule sub)
  have "due_op op m t = m t" if "touches s op" "t \<noteq> s" for op m
    using that by (cases op) auto
  then show "t \<noteq> s \<Longrightarrow> fold due_op ops m t = m t"
    using assms by (induction ops arbitrary: m) simp_all
qed

lemma touches_only_view: "touches_only s ops \<Longrightarrow> only_slot s iv (batch_view ops iv)"
  using touches_only_slots [of s ops]
  by (auto simp: only_slot_def batch_view_def; blast)

lemma touches_only_parts [simp]:
  "touches_only s (collect_filter_remove_ops n s v)" "touches_only s (collect_filter_insert_ops n s v)"
  "touches_only s (emit_sort_diff_ops n nb s a b)" "touches_only s (filter_change_ops n s va vb)"
  "touches_only s (sort_change_ops r s sc ch)" "touches_only s (shadow_ops cfg r s flds)"
proof -
  show rem: "touches_only s (collect_filter_remove_ops n s v)" for v
    by (cases v) (auto simp: touches_only_def list_all_iff in_map_filter split: option.splits)
  show ins: "touches_only s (collect_filter_insert_ops n s v)" for v
    by (cases v) (auto simp: touches_only_def list_all_iff in_map_filter split: option.splits)
  show emit: "touches_only s (emit_sort_diff_ops n nb s a b)" for n nb a b
    by (auto simp: emit_sort_diff_ops_def touches_only_def list_all_iff Let_def split: option.splits if_splits)
  show "touches_only s (filter_change_ops n s va vb)"
    by (auto simp: filter_change_ops_def rem ins split: option.splits)
  show "touches_only s (sort_change_ops r s sc ch)"
    by (auto simp: sort_change_ops_def emit split: option.splits)
  show "touches_only s (shadow_ops cfg r s flds)"
    by (auto simp: shadow_ops_def touches_only_def list_all_iff Let_def split: if_splits)
qed



section \<open>Upserts, inserts, deferrals, patches\<close>

lemma in_filter_batch:
  "s \<in> iv_filter (batch_view ops iv) n k \<longleftrightarrow>
    s \<in> iv_filter iv n k \<and> s \<notin> slots_of (rem_sel n k) ops \<or> s \<in> slots_of (ins_sel n k) ops"
  by (simp add: batch_view_def)

lemma upsert_indexed:
  assumes "config_names_ok cfg" and "sources_kept cfg old new"
    and "filter_indexed cfg (shadow_targets cfg) iv s old" and "sort_indexed cfg iv s old"
    and ops_def: "ops = upsert_ops cfg (fr_from_config cfg) s old new @ shadow_ops cfg (fr_from_config cfg) s new @ [AliveInsert [s]]"
  shows "filter_indexed cfg (shadow_targets cfg) (batch_view ops iv) s new \<and> sort_indexed cfg (batch_view ops iv) s new \<and>
    shadow_indexed cfg (batch_view ops iv) s new \<and> s \<in> iv_alive (batch_view ops iv) \<and> only_slot s iv (batch_view ops iv)"
proof (intro conjI)
  have none: "slots_of (rem_sel n k) (shadow_ops cfg (fr_from_config cfg) s new) = {}"
    "slots_of (ins_sel n k) (shadow_ops cfg (fr_from_config cfg) s new) = {}" if "n \<notin> set (shadow_targets cfg)" for n k
    using that derive_fst [of cfg new] by (auto simp: shadow_slots set_eq_iff) (metis fst_conv image_eqI set_map)+
  show "filter_indexed cfg (shadow_targets cfg) (batch_view ops iv) s new"
    unfolding filter_indexed_def
  proof (intro ballI allI impI)
    fix n k
    assume n: "n \<in> ffc_name ` set (cfg_filter_fields cfg) - set (shadow_targets cfg)" and k: "k \<noteq> NULL_BITMAP_KEY"
    then have "s \<in> iv_filter iv n k \<longleftrightarrow> k \<in> filter_keys (hm_get old n)"
      using assms(3) by (auto simp: filter_indexed_def)
    with n field_values_equal_keys [of "hm_get old n" "hm_get new n"]
    show "s \<in> iv_filter (batch_view ops iv) n k \<longleftrightarrow> k \<in> filter_keys (hm_get new n)"
      by (auto simp: in_filter_batch ops_def upsert_filter_slots none)
  qed
  show "sort_indexed cfg (batch_view ops iv) s new"
    unfolding sort_indexed_def
  proof
    fix sc assume sc: "sc \<in> set (cfg_sort_fields cfg)"
    then have "layer_indexed iv s sc (fresh_sort sc old)" using assms(4) by (auto simp: sort_indexed_def)
    then show "layer_indexed (batch_view ops iv) s sc (fresh_sort sc new)"
      by (rule layer_change [OF _ _ _ upsert_sort_change [OF assms(2) sc]])
         (simp_all add: ops_def upsert_layer_slots [OF assms(1) sc])
  qed
  show "shadow_indexed cfg (batch_view ops iv) s new"
    by (rule shadow_applied [OF assms(1)]) (auto simp: ops_def upsert_filter_slots)
  show "s \<in> iv_alive (batch_view ops iv)"
    by (simp add: batch_view_def ops_def upsert_filter_slots)
  show "only_slot s iv (batch_view ops iv)"
    by (rule touches_only_view) (auto simp: ops_def upsert_ops_def)
qed

text \<open>Clearing what a stored document set.\<close>

lemma opt_remove_slots:
  "slots_of (rem_sel n k) (case v of Some x \<Rightarrow> collect_filter_remove_ops m s x | None \<Rightarrow> []) =
     (if m = n \<and> k \<in> filter_keys v then {s} else {})"
  by (cases v) simp_all

lemma clear_stored_slots:
  "slots_of (rem_sel n k) (clear_stored_ops cfg (fr_from_config cfg) s old) =
     (if n \<in> ffc_name ` set (cfg_filter_fields cfg) \<and> k \<in> filter_keys (hm_get old n) then {s} else {})"
  "slots_of (ins_sel n k) (clear_stored_ops cfg (fr_from_config cfg) s old) = {}"
  "slots_of (set_sel n j) (clear_stored_ops cfg (fr_from_config cfg) s old) = {}"
  "slots_of alive_ins_sel (clear_stored_ops cfg (fr_from_config cfg) s old) = {}"
  "slots_of alive_rem_sel (clear_stored_ops cfg (fr_from_config cfg) s old) = {}"
proof -
  let ?rem = "\<lambda>fcs. concat (map (\<lambda>fc. case hm_get old (ffc_name fc) of
      Some v \<Rightarrow> collect_filter_remove_ops (fr_get (fr_from_config cfg) (ffc_name fc)) s v | None \<Rightarrow> []) fcs)"
  have rem: "slots_of (rem_sel n k) (?rem fcs) = (if n \<in> ffc_name ` set fcs \<and> k \<in> filter_keys (hm_get old n) then {s} else {})" for fcs
    by (induction fcs) (auto simp: opt_remove_slots)
  have srt: "slots_of (rem_sel n k) (concat (map (\<lambda>sc. case sort_of_value (hm_get old (sfc_name sc)) of
      Some w \<Rightarrow> concat (map (\<lambda>k. if u32_bit w k then [SortClear (fr_get (fr_from_config cfg) (sfc_name sc)) k [s]] else [])
        [0..<unat (sfc_bits sc)]) | None \<Rightarrow> []) scs)) = {}" for scs
    by (auto split: option.splits)
  show "slots_of (rem_sel n k) (clear_stored_ops cfg (fr_from_config cfg) s old) =
     (if n \<in> ffc_name ` set (cfg_filter_fields cfg) \<and> k \<in> filter_keys (hm_get old n) then {s} else {})"
    unfolding clear_stored_ops_def slots_of_simps(3) rem srt by simp
qed (auto simp: clear_stored_ops_def split: option.splits if_splits)

lemma clear_stored_layer:
  "sc \<in> set (cfg_sort_fields cfg) \<Longrightarrow> sort_of_value (hm_get old (sfc_name sc)) = Some w \<Longrightarrow> u32_bit w k \<Longrightarrow> k < unat (sfc_bits sc) \<Longrightarrow>
    s \<in> slots_of (clear_sel (sfc_name sc) k) (clear_stored_ops cfg (fr_from_config cfg) s old)"
  by (force simp: clear_stored_ops_def)

lemma touches_clear_stored [simp]: "touches_only s (clear_stored_ops cfg r s old)"
  by (auto simp: clear_stored_ops_def split: option.splits)

lemma cleared_filters:
  assumes "filter_indexed cfg excl iv s old" and "n \<in> ffc_name ` set (cfg_filter_fields cfg) - set excl" and "k \<noteq> NULL_BITMAP_KEY"
    and "slots_of (rem_sel n k) ops = slots_of (rem_sel n k) (clear_stored_ops cfg (fr_from_config cfg) s old)"
  shows "s \<in> iv_filter (batch_view ops iv) n k \<longleftrightarrow> s \<in> slots_of (ins_sel n k) ops"
  using assms by (auto simp: in_filter_batch clear_stored_slots filter_indexed_def)

lemma cleared_layer:
  assumes "sc \<in> set (cfg_sort_fields cfg)" and "layer_indexed iv s sc (sort_of_value (hm_get old (sfc_name sc)))"
    and "\<And>k. slots_of (clear_sel (sfc_name sc) k) (clear_stored_ops cfg (fr_from_config cfg) s old) \<subseteq> slots_of (clear_sel (sfc_name sc) k) ops"
    and "\<And>k. slots_of (set_sel (sfc_name sc) k) ops = {}"
  shows "layer_indexed (batch_view ops iv) s sc None"
proof -
  have "s \<in> slots_of (clear_sel (sfc_name sc) k) ops" if "k < unat (sfc_bits sc)" "s \<in> iv_sort iv (sfc_name sc) k" for k
    using assms(2,3) clear_stored_layer [OF assms(1) _ _ that(1)] that by (fastforce simp: layer_indexed_def split: option.splits)
  then show ?thesis using assms(4) by (auto simp: layer_indexed_def batch_view_def)
qed

text \<open>A fresh insert.\<close>

lemma opt_insert_slots:
  "slots_of (ins_sel n k) (case v of Some x \<Rightarrow> collect_filter_insert_ops m s x | None \<Rightarrow> []) =
     (if m = n \<and> k \<in> filter_keys v then {s} else {})"
  by (cases v) simp_all

definition overwrite_ops :: "string \<Rightarrow> usize \<Rightarrow> u32 \<Rightarrow> u32 option \<Rightarrow> mutation_op list" where
  "overwrite_ops n nb s v = (case v of
     Some w \<Rightarrow> map (\<lambda>k. if u32_bit w k then SortSet n k [s] else SortClear n k [s]) [0..<nb] | None \<Rightarrow> [])"

lemma overwrite_slots [simp]:
  "slots_of (ins_sel n v) (overwrite_ops m nb s w) = {}" "slots_of (rem_sel n v) (overwrite_ops m nb s w) = {}"
  "slots_of alive_ins_sel (overwrite_ops m nb s w) = {}" "slots_of alive_rem_sel (overwrite_ops m nb s w) = {}"
  by (auto simp: overwrite_ops_def slots_of_map split: option.splits)

lemma overwrite_layers:
  "slots_of (set_sel n k) (overwrite_ops m nb s w) =
     (if n = m \<and> k < nb \<and> (case w of Some x \<Rightarrow> u32_bit x k | None \<Rightarrow> False) then {s} else {})"
  "slots_of (clear_sel n k) (overwrite_ops m nb s w) =
     (if n = m \<and> k < nb \<and> (case w of Some x \<Rightarrow> \<not> u32_bit x k | None \<Rightarrow> False) then {s} else {})"
  by (auto simp: overwrite_ops_def slots_of_map split: option.splits if_splits)

lemma touches_overwrite [simp]: "touches_only s (overwrite_ops n nb s w)"
  by (auto simp: overwrite_ops_def touches_only_def split: option.splits)

lemma fresh_ops_eq:
  "fresh_ops cfg (fr_from_config cfg) s new =
     concat (map (\<lambda>fc. if ffc_name fc \<in> set (shadow_targets cfg) then []
         else case hm_get new (ffc_name fc) of Some v \<Rightarrow> collect_filter_insert_ops (ffc_name fc) s v | None \<Rightarrow> [])
       (cfg_filter_fields cfg)) @
     concat (map (\<lambda>sc. overwrite_ops (sfc_name sc) (unat (sfc_bits sc)) s (fresh_sort sc new)) (cfg_sort_fields cfg))"
  unfolding fresh_ops_def overwrite_ops_def fr_get_id ..

lemma fresh_filter_slots:
  "slots_of (ins_sel n k) (fresh_ops cfg (fr_from_config cfg) s new) =
     (if n \<in> ffc_name ` set (cfg_filter_fields cfg) - set (shadow_targets cfg) \<and> k \<in> filter_keys (hm_get new n) then {s} else {})"
  "slots_of (rem_sel n k) (fresh_ops cfg (fr_from_config cfg) s new) = {}"
  "slots_of alive_ins_sel (fresh_ops cfg (fr_from_config cfg) s new) = {}"
  "slots_of alive_rem_sel (fresh_ops cfg (fr_from_config cfg) s new) = {}"
  "touches_only s (fresh_ops cfg (fr_from_config cfg) s new)"
proof -
  let ?ins = "\<lambda>fcs. concat (map (\<lambda>fc. if ffc_name fc \<in> set (shadow_targets cfg) then []
      else case hm_get new (ffc_name fc) of Some v \<Rightarrow> collect_filter_insert_ops (ffc_name fc) s v | None \<Rightarrow> []) fcs)"
  have ins: "slots_of (ins_sel n k) (?ins fcs) =
      (if n \<in> ffc_name ` set fcs - set (shadow_targets cfg) \<and> k \<in> filter_keys (hm_get new n) then {s} else {})" for fcs
    by (induction fcs) (auto simp: opt_insert_slots)
  show "slots_of (ins_sel n k) (fresh_ops cfg (fr_from_config cfg) s new) =
     (if n \<in> ffc_name ` set (cfg_filter_fields cfg) - set (shadow_targets cfg) \<and> k \<in> filter_keys (hm_get new n) then {s} else {})"
    unfolding fresh_ops_eq slots_of_simps(3) ins by simp
qed (auto simp: fresh_ops_eq split: option.splits if_splits)

lemma fresh_layer_slots:
  assumes "config_names_ok cfg" and "sc \<in> set (cfg_sort_fields cfg)"
  shows "slots_of (clear_sel (sfc_name sc) k) (fresh_ops cfg (fr_from_config cfg) s new) =
      slots_of (clear_sel (sfc_name sc) k) (overwrite_ops (sfc_name sc) (unat (sfc_bits sc)) s (fresh_sort sc new))"
    and "slots_of (set_sel (sfc_name sc) k) (fresh_ops cfg (fr_from_config cfg) s new) =
      slots_of (set_sel (sfc_name sc) k) (overwrite_ops (sfc_name sc) (unat (sfc_bits sc)) s (fresh_sort sc new))"
proof -
  have d: "distinct (map sfc_name (cfg_sort_fields cfg))" using assms(1) by (simp add: config_names_ok_def)
  let ?G = "\<lambda>sc'. overwrite_ops (sfc_name sc') (unat (sfc_bits sc')) s (fresh_sort sc' new)"
  have filt: "slots_of sel (concat (map (\<lambda>fc. if ffc_name fc \<in> set (shadow_targets cfg) then []
      else case hm_get new (ffc_name fc) of Some v \<Rightarrow> collect_filter_insert_ops (ffc_name fc) s v | None \<Rightarrow> [])
      (cfg_filter_fields cfg))) = {}"
    and pick: "slots_of sel (concat (map ?G (cfg_sort_fields cfg))) = slots_of sel (?G sc)"
    if "sel = clear_sel (sfc_name sc) k \<or> sel = set_sel (sfc_name sc) k" for sel
  proof -
    show "slots_of sel (concat (map (\<lambda>fc. if ffc_name fc \<in> set (shadow_targets cfg) then []
      else case hm_get new (ffc_name fc) of Some v \<Rightarrow> collect_filter_insert_ops (ffc_name fc) s v | None \<Rightarrow> [])
      (cfg_filter_fields cfg))) = {}"
      using that by (auto split: option.splits if_splits)
    have "(\<Union>sc' \<in> set (cfg_sort_fields cfg). slots_of sel (?G sc')) = slots_of sel (?G sc)"
      by (rule UN_pick [OF d assms(2)]) (use that in \<open>auto simp: overwrite_layers\<close>)
    then show "slots_of sel (concat (map ?G (cfg_sort_fields cfg))) = slots_of sel (?G sc)"
      by (simp only: slots_of_concat set_map image_image)
  qed
  show "slots_of (clear_sel (sfc_name sc) k) (fresh_ops cfg (fr_from_config cfg) s new) =
      slots_of (clear_sel (sfc_name sc) k) (?G sc)"
    "slots_of (set_sel (sfc_name sc) k) (fresh_ops cfg (fr_from_config cfg) s new) = slots_of (set_sel (sfc_name sc) k) (?G sc)"
    unfolding fresh_ops_eq slots_of_simps(3) by (simp_all only: filt pick simp_thms Un_empty_left)
qed

lemma fresh_indexed:
  assumes "config_names_ok cfg" and "filter_indexed cfg (shadow_targets cfg) iv s old"
    and "\<And>sc. sc \<in> set (cfg_sort_fields cfg) \<Longrightarrow> fresh_sort sc new = None \<Longrightarrow>
      layer_indexed iv s sc (sort_of_value (hm_get old (sfc_name sc)))"
    and ops_def: "ops = clear_stored_ops cfg (fr_from_config cfg) s old @ fresh_ops cfg (fr_from_config cfg) s new @
      shadow_ops cfg (fr_from_config cfg) s new @ [AliveInsert [s]]"
  shows "filter_indexed cfg (shadow_targets cfg) (batch_view ops iv) s new \<and> sort_indexed cfg (batch_view ops iv) s new \<and>
    shadow_indexed cfg (batch_view ops iv) s new \<and> s \<in> iv_alive (batch_view ops iv) \<and> only_slot s iv (batch_view ops iv)"
proof (intro conjI)
  have none: "slots_of (rem_sel n k) (shadow_ops cfg (fr_from_config cfg) s new) = {}"
    "slots_of (ins_sel n k) (shadow_ops cfg (fr_from_config cfg) s new) = {}" if "n \<notin> set (shadow_targets cfg)" for n k
    using that derive_fst [of cfg new] by (auto simp: shadow_slots set_eq_iff) (metis fst_conv image_eqI set_map)+
  show "filter_indexed cfg (shadow_targets cfg) (batch_view ops iv) s new"
    unfolding filter_indexed_def
  proof (intro ballI allI impI)
    fix n k
    assume n: "n \<in> ffc_name ` set (cfg_filter_fields cfg) - set (shadow_targets cfg)" and k: "k \<noteq> NULL_BITMAP_KEY"
    have "slots_of (rem_sel n k) ops = slots_of (rem_sel n k) (clear_stored_ops cfg (fr_from_config cfg) s old)"
      using n by (simp add: ops_def fresh_filter_slots none)
    from cleared_filters [OF assms(2) n k this] n
    show "s \<in> iv_filter (batch_view ops iv) n k \<longleftrightarrow> k \<in> filter_keys (hm_get new n)"
      by (simp add: ops_def fresh_filter_slots clear_stored_slots none)
  qed
  show "sort_indexed cfg (batch_view ops iv) s new"
    unfolding sort_indexed_def
  proof
    fix sc assume sc: "sc \<in> set (cfg_sort_fields cfg)"
    show "layer_indexed (batch_view ops iv) s sc (fresh_sort sc new)"
    proof (cases "fresh_sort sc new")
      case None
      then show ?thesis
        using cleared_layer [OF sc assms(3) [OF sc None], of ops]
        by (auto simp: ops_def fresh_layer_slots [OF assms(1) sc] overwrite_layers clear_stored_slots)
    next
      case (Some w)
      then show ?thesis
        by (auto simp: layer_indexed_def batch_view_def ops_def fresh_layer_slots [OF assms(1) sc] overwrite_layers clear_stored_slots)
    qed
  qed
  show "shadow_indexed cfg (batch_view ops iv) s new"
    by (rule shadow_applied [OF assms(1)]) (auto simp: ops_def fresh_filter_slots clear_stored_slots)
  show "s \<in> iv_alive (batch_view ops iv)"
    by (simp add: batch_view_def ops_def fresh_filter_slots clear_stored_slots)
  show "only_slot s iv (batch_view ops iv)"
    by (rule touches_only_view) (simp add: ops_def fresh_filter_slots)
qed

text \<open>A patch leaves the index as the merged document prescribes it; \<open>merge_fields\<close> is what
  \<open>ConcurrentEngine::patch_document\<close> stores.\<close>

definition merge_fields :: "field_map \<Rightarrow> field_map \<Rightarrow> field_map" where
  "merge_fields old new = fold (\<lambda>(k, v) m. hm_insert k v m) new old"

lemma hm_get_merge:
  "hm_ok new \<Longrightarrow> hm_get (merge_fields old new) n = (case hm_get new n of Some v \<Rightarrow> Some v | None \<Rightarrow> hm_get old n)"
proof (induction new arbitrary: old)
  case (Cons a new)
  obtain k v where a: "a = (k, v)" by (cases a)
  have ok: "hm_ok new" "hm_get new k = None"
    using Cons.prems a by (auto simp: hm_ok_def map_of_eq_None_iff)
  have "hm_get (merge_fields old (a # new)) n = hm_get (merge_fields (hm_insert k v old) new) n"
    by (simp add: merge_fields_def a)
  also have "\<dots> = (case hm_get new n of Some w \<Rightarrow> Some w | None \<Rightarrow> hm_get (hm_insert k v old) n)"
    by (rule Cons.IH [OF ok(1)])
  finally show ?case using ok(2) by (auto simp: a split: option.splits)
qed (simp add: merge_fields_def)

definition patch_sources_ok :: "config \<Rightarrow> field_map \<Rightarrow> field_map \<Rightarrow> bool" where
  "patch_sources_ok cfg old new \<longleftrightarrow> (\<forall>sc \<in> set (cfg_sort_fields cfg). \<forall>c. sfc_computed sc = Some c \<longrightarrow>
     (\<forall>f \<in> set (cf_source_fields c). hm_get new f \<noteq> None \<longrightarrow> field_to_sort_u32 old f \<noteq> None \<longrightarrow> field_to_sort_u32 new f \<noteq> None))"

lemma partial_sort_change:
  assumes "hm_ok new" and "patch_sources_ok cfg old new" and "sc \<in> set (cfg_sort_fields cfg)"
  defines "m \<equiv> merge_fields old new"
  shows "case partial_sort sc old new of None \<Rightarrow> fresh_sort sc old = fresh_sort sc m
    | Some (a, b) \<Rightarrow> if a = b then fresh_sort sc old = fresh_sort sc m else a = fresh_sort sc old \<and> b = fresh_sort sc m"
proof (cases "sfc_computed sc")
  case None
  then show ?thesis
    by (auto simp: partial_sort_def fresh_sort_def Let_def m_def hm_get_merge [OF assms(1)] dest: field_values_equal_sort
        split: option.splits)
next
  case (Some c)
  have merged: "field_to_sort_u32 m f = (case hm_get new f of None \<Rightarrow> field_to_sort_u32 old f | Some _ \<Rightarrow> field_to_sort_u32 new f)" for f
    by (simp add: field_to_sort_u32_def m_def hm_get_merge [OF assms(1)] split: option.splits)
  show ?thesis
  proof (cases "list_ex (\<lambda>f. hm_get new f \<noteq> None \<and> \<not> field_values_equal (hm_get old f) (hm_get new f)) (cf_source_fields c)")
    case True
    have "(case field_to_sort_u32 new f of Some v \<Rightarrow> Some v | None \<Rightarrow> field_to_sort_u32 old f) = field_to_sort_u32 m f"
      if "f \<in> set (cf_source_fields c)" for f
    proof (cases "hm_get new f")
      case None
      then show ?thesis by (simp add: merged) (simp add: field_to_sort_u32_def)
    next
      case (Some v)
      then have "field_to_sort_u32 old f \<noteq> None \<Longrightarrow> field_to_sort_u32 new f \<noteq> None"
        using assms(2,3) \<open>sfc_computed sc = Some c\<close> that by (auto simp: patch_sources_ok_def)
      with Some show ?thesis by (cases "field_to_sort_u32 old f") (auto simp: merged split: option.splits)
    qed
    then have "List.map_filter (\<lambda>f. case field_to_sort_u32 new f of Some v \<Rightarrow> Some v | None \<Rightarrow> field_to_sort_u32 old f) (cf_source_fields c) =
        List.map_filter (field_to_sort_u32 m) (cf_source_fields c)"
      by (rule map_filter_cong)
    moreover have "list_ex (\<lambda>f. hm_get new f \<noteq> None) (cf_source_fields c)"
      using True by (auto simp: list_ex_iff)
    ultimately show ?thesis
      using Some True by (simp add: partial_sort_def fresh_sort_def resolve_computed_sort_def Let_def)
  next
    case False
    have "List.map_filter (field_to_sort_u32 old) (cf_source_fields c) = List.map_filter (field_to_sort_u32 m) (cf_source_fields c)"
    proof (rule map_filter_cong)
      fix f assume "f \<in> set (cf_source_fields c)"
      with False have "hm_get new f = None \<or> field_values_equal (hm_get old f) (hm_get new f)" by (auto simp: list_ex_iff)
      then show "field_to_sort_u32 old f = field_to_sort_u32 m f"
        unfolding merged by (cases "hm_get new f") (auto simp: field_to_sort_u32_def dest: field_values_equal_sort)
    qed
    with Some False show ?thesis
      by (auto simp: partial_sort_def fresh_sort_def resolve_computed_sort_def Let_def)
  qed
qed

lemma partial_indexed:
  assumes "config_names_ok cfg" and "hm_ok new" and "patch_sources_ok cfg old new"
    and "filter_indexed cfg [] iv s old" and "sort_indexed cfg iv s old"
    and ops_def: "ops = concat (map (\<lambda>fc. case hm_get new (ffc_name fc) of None \<Rightarrow> []
        | Some new_val \<Rightarrow> filter_change_ops (fr_get (fr_from_config cfg) (ffc_name fc)) s (hm_get old (ffc_name fc)) (Some new_val))
        (cfg_filter_fields cfg)) @
      concat (map (\<lambda>sc. sort_change_ops (fr_from_config cfg) s sc (partial_sort sc old new)) (cfg_sort_fields cfg))"
  shows "filter_indexed cfg [] (batch_view ops iv) s (merge_fields old new) \<and>
    sort_indexed cfg (batch_view ops iv) s (merge_fields old new) \<and>
    iv_alive (batch_view ops iv) = iv_alive iv \<and> only_slot s iv (batch_view ops iv)"
proof (intro conjI)
  let ?F = "\<lambda>fc. case hm_get new (ffc_name fc) of None \<Rightarrow> []
        | Some v \<Rightarrow> filter_change_ops (fr_get (fr_from_config cfg) (ffc_name fc)) s (hm_get old (ffc_name fc)) (Some v)"
  let ?S = "\<lambda>sc. sort_change_ops (fr_from_config cfg) s sc (partial_sort sc old new)"
  have chg: "slots_of (rem_sel n k) (?F fc) = (if ffc_name fc = n \<and> hm_get new n \<noteq> None \<and>
        \<not> field_values_equal (hm_get old n) (hm_get new n) \<and> k \<in> filter_keys (hm_get old n) then {s} else {})"
    "slots_of (ins_sel n k) (?F fc) = (if ffc_name fc = n \<and> hm_get new n \<noteq> None \<and>
        \<not> field_values_equal (hm_get old n) (hm_get new n) \<and> k \<in> filter_keys (hm_get new n) then {s} else {})" for n k fc
    by (auto split: option.splits)
  have filt: "slots_of (rem_sel n k) ops = (if n \<in> ffc_name ` set (cfg_filter_fields cfg) \<and> hm_get new n \<noteq> None \<and>
        \<not> field_values_equal (hm_get old n) (hm_get new n) \<and> k \<in> filter_keys (hm_get old n) then {s} else {})"
    "slots_of (ins_sel n k) ops = (if n \<in> ffc_name ` set (cfg_filter_fields cfg) \<and> hm_get new n \<noteq> None \<and>
        \<not> field_values_equal (hm_get old n) (hm_get new n) \<and> k \<in> filter_keys (hm_get new n) then {s} else {})" for n k
    unfolding ops_def slots_of_simps(3) slots_of_concat set_map image_image chg by (auto split: if_splits)
  show "filter_indexed cfg [] (batch_view ops iv) s (merge_fields old new)"
    unfolding filter_indexed_def
  proof (intro ballI allI impI)
    fix n k
    assume n: "n \<in> ffc_name ` set (cfg_filter_fields cfg) - set []" and k: "k \<noteq> NULL_BITMAP_KEY"
    then have "s \<in> iv_filter iv n k \<longleftrightarrow> k \<in> filter_keys (hm_get old n)"
      using assms(4) by (auto simp: filter_indexed_def)
    with n field_values_equal_keys [of "hm_get old n" "hm_get new n"]
    show "s \<in> iv_filter (batch_view ops iv) n k \<longleftrightarrow> k \<in> filter_keys (hm_get (merge_fields old new) n)"
      by (auto simp: in_filter_batch filt hm_get_merge [OF assms(2)] split: option.splits)
  qed
  show "sort_indexed cfg (batch_view ops iv) s (merge_fields old new)"
    unfolding sort_indexed_def
  proof
    fix sc assume sc: "sc \<in> set (cfg_sort_fields cfg)"
    have d: "distinct (map sfc_name (cfg_sort_fields cfg))" using assms(1) by (simp add: config_names_ok_def)
    have pick: "slots_of sel ops = slots_of sel (?S sc)" if "sel = clear_sel (sfc_name sc) k \<or> sel = set_sel (sfc_name sc) k" for sel k
    proof -
      have "(\<Union>sc' \<in> set (cfg_sort_fields cfg). slots_of sel (?S sc')) = slots_of sel (?S sc)"
        by (rule UN_pick [OF d sc]) (use that in \<open>auto simp: sort_change_other\<close>)
      moreover have "slots_of sel (concat (map ?F (cfg_filter_fields cfg))) = {}"
        using that by (auto split: option.splits)
      ultimately show ?thesis unfolding ops_def slots_of_simps(3) by (simp only: slots_of_concat set_map image_image Un_empty_left)
    qed
    have "layer_indexed iv s sc (fresh_sort sc old)" using assms(5) sc by (auto simp: sort_indexed_def)
    then show "layer_indexed (batch_view ops iv) s sc (fresh_sort sc (merge_fields old new))"
      by (rule layer_change [where cfg = cfg, OF _ _ _ partial_sort_change [OF assms(2,3) sc]]) (rule pick, blast)+
  qed
  show "iv_alive (batch_view ops iv) = iv_alive iv"
    by (auto simp: batch_view_def ops_def split: option.splits)
  show "only_slot s iv (batch_view ops iv)"
    by (rule touches_only_view) (auto simp: ops_def split: option.splits)
qed

text \<open>A deferral removes the slot from sight and schedules its activation.\<close>

lemma deferral_indexed:
  assumes "filter_indexed cfg excl iv s old"
    and "\<And>sc. sc \<in> set (cfg_sort_fields cfg) \<Longrightarrow> layer_indexed iv s sc (sort_of_value (hm_get old (sfc_name sc)))"
    and ops_def: "ops = clear_stored_ops cfg (fr_from_config cfg) s old @ [AliveRemove [s], DeferredAlive s t]"
  shows "filter_indexed cfg excl (batch_view ops iv) s [] \<and>
    (\<forall>sc \<in> set (cfg_sort_fields cfg). layer_indexed (batch_view ops iv) s sc None) \<and>
    s \<notin> iv_alive (batch_view ops iv) \<and> iv_due (batch_view ops iv) s = Some t \<and> only_slot s iv (batch_view ops iv)"
proof (intro conjI ballI)
  show "filter_indexed cfg excl (batch_view ops iv) s []"
    unfolding filter_indexed_def
  proof (intro ballI allI impI)
    fix n k
    assume "n \<in> ffc_name ` set (cfg_filter_fields cfg) - set excl" and "k \<noteq> NULL_BITMAP_KEY"
    from cleared_filters [OF assms(1) this, of ops] show "s \<in> iv_filter (batch_view ops iv) n k \<longleftrightarrow> k \<in> filter_keys (hm_get [] n)"
      by (simp add: ops_def clear_stored_slots)
  qed
  show "layer_indexed (batch_view ops iv) s sc None" if "sc \<in> set (cfg_sort_fields cfg)" for sc
    by (rule cleared_layer [OF that assms(2) [OF that]]) (auto simp: ops_def clear_stored_slots)
  show "s \<notin> iv_alive (batch_view ops iv)" by (simp add: batch_view_def ops_def)
  show "iv_due (batch_view ops iv) s = Some t" by (simp add: batch_view_def ops_def)
  show "only_slot s iv (batch_view ops iv)" by (rule touches_only_view) (simp add: ops_def)
qed


section \<open>Properties\<close>


text \<open>Two fields of a small schema, with a derived boolean and a computed sort field.\<close>

definition doc_config :: config where
  "doc_config = \<lparr>cfg_filter_fields =
       [\<lparr>ffc_name = ''tags'', ffc_field_type = MultiValue, ffc_behaviors = None, ffc_eviction = None,
          ffc_eager_load = True, ffc_per_value_lazy = False, ffc_max_range_scan_values = None\<rparr>,
        \<lparr>ffc_name = ''published'', ffc_field_type = BooleanField, ffc_behaviors = None, ffc_eviction = None,
          ffc_eager_load = True, ffc_per_value_lazy = False, ffc_max_range_scan_values = None\<rparr>],
     cfg_sort_fields =
       [\<lparr>sfc_name = ''sortAt'', sfc_source_type = ''uint32'', sfc_encoding = ''linear'', sfc_bits = 4, sfc_eager_load = True,
          sfc_computed = Some \<lparr>cf_op = Greatest, cf_source_fields = [''existedAt'', ''publishedAt'']\<rparr>\<rparr>],
     cfg_time_buckets = None, cfg_max_page_size = 100, cfg_cache_decay_rate = f64_one,
     cfg_deferred_alive = Some \<lparr>dac_source_field = ''publishedAt'', dac_ms_to_seconds = False, dac_sweep_interval_secs = 0, dac_sweep_limit = 0\<rparr>,
     cfg_data_schema = \<lparr>ds_id_field = ''id'', ds_schema_version = 1, ds_fields =
       [\<lparr>fm_source = ''publishedAtUnix'', fm_target = ''publishedAt'', fm_value_type = FvtInteger, fm_fallback = None,
          fm_string_map = None, fm_doc_only = False, fm_filter_only = False, fm_ms_to_seconds = False,
          fm_truncate_u32 = False, fm_case_sensitive = False, fm_nullable = False\<rparr>,
        \<lparr>fm_source = ''publishedAtUnix'', fm_target = ''published'', fm_value_type = FvtExistsBoolean, fm_fallback = None,
          fm_string_map = None, fm_doc_only = False, fm_filter_only = False, fm_ms_to_seconds = False,
          fm_truncate_u32 = False, fm_case_sensitive = False, fm_nullable = False\<rparr>]\<rparr>\<rparr>"

definition int_doc :: "(string \<times> i64) list \<Rightarrow> i64 list \<Rightarrow> field_map" where
  "int_doc vs tags = (''tags'', Multi (map VInteger tags)) # map (\<lambda>(n, v). (n, Single (VInteger v))) vs"

definition empty_view :: index_view where
  "empty_view = \<lparr>iv_alive = {}, iv_filter = (\<lambda>_ _. {}), iv_sort = (\<lambda>_ _. {}), iv_due = Map.empty\<rparr>"

lemma doc_config_simps:
  "config_names_ok doc_config" "shadow_targets doc_config = [''published'']"
  "ffc_name ` set (cfg_filter_fields doc_config) = {''tags'', ''published''}"
  "derive_exists_boolean_shadows doc_config (int_doc vs tags) =
     [(''published'', map_of vs ''publishedAt'' \<noteq> None \<or> map_of vs ''publishedAtUnix'' \<noteq> None)]"
proof -
  have get: "n \<noteq> ''tags'' \<Longrightarrow> hm_get (int_doc vs tags) n = map_option (Single \<circ> VInteger) (map_of vs n)" for n
    by (induction vs) (auto simp: int_doc_def)
  show "config_names_ok doc_config" "shadow_targets doc_config = [''published'']"
    "ffc_name ` set (cfg_filter_fields doc_config) = {''tags'', ''published''}"
    by (simp_all add: doc_config_def config_names_ok_def shadow_targets_def)
  show "derive_exists_boolean_shadows doc_config (int_doc vs tags) =
     [(''published'', map_of vs ''publishedAt'' \<noteq> None \<or> map_of vs ''publishedAtUnix'' \<noteq> None)]"
    by (simp add: doc_config_def derive_exists_boolean_shadows_def List.map_filter_def get split: option.splits)
qed

definition doc1 :: field_map where "doc1 = int_doc [(''existedAt'', 5), (''publishedAt'', 9)] [7, 8]"

definition doc2 :: field_map where "doc2 = int_doc [(''existedAt'', 5), (''publishedAt'', 12)] [8]"

definition view1 :: index_view where
  "view1 = \<lparr>iv_alive = {1, 3}, iv_filter = (\<lambda>n k. if n = ''tags'' \<and> k \<in> {7, 8} then {1, 3} else {}),
     iv_sort = (\<lambda>n k. if n = ''sortAt'' \<and> k \<in> {0, 3} then {1, 3} else {}), iv_due = Map.empty\<rparr>"

definition sort_at :: sort_field_config where
  "sort_at = \<lparr>sfc_name = ''sortAt'', sfc_source_type = ''uint32'', sfc_encoding = ''linear'', sfc_bits = 4, sfc_eager_load = True,
     sfc_computed = Some \<lparr>cf_op = Greatest, cf_source_fields = [''existedAt'', ''publishedAt'']\<rparr>\<rparr>"

lemma sort_at_simps:
  "cfg_sort_fields doc_config = [sort_at]" "sfc_name sort_at = ''sortAt''" "unat (sfc_bits sort_at) = 4"
  "fresh_sort sort_at doc1 = Some 9" "fresh_sort sort_at doc2 = Some 12"
  by (simp_all add: doc_config_def sort_at_def fresh_sort_def computed_value_def field_to_sort_u32_def doc1_def doc2_def
      int_doc_def List.map_filter_def)

lemma tags_simps [simp]: "hm_get doc1 ''tags'' = Some (Multi [VInteger 7, VInteger 8])" "hm_get doc2 ''tags'' = Some (Multi [VInteger 8])"
  by (simp_all add: doc1_def doc2_def int_doc_def)

lemma less_4: "k < 4 \<Longrightarrow> k = 0 \<or> k = 1 \<or> k = 2 \<or> k = (3 :: nat)"
  by linarith

lemma view1_indexed:
  "sort_indexed doc_config view1 3 doc1" "filter_indexed doc_config (shadow_targets doc_config) view1 3 doc1"
  by (auto simp: sort_indexed_def sort_at_simps layer_indexed_def view1_def u32_bit_def filter_indexed_def doc_config_simps
      NULL_BITMAP_KEY_def u64_MAX_def Let_def dest!: less_4)








text \<open>
  Why an upsert may not drop a source of a computed sort field.  The old value falls back into the
  new one, so dropping \<open>publishedAt\<close> (9) leaves the layers at 9 although the stored document
  now gives 5; the next change of \<open>existedAt\<close> from 5 to 6 flips the bits of \<open>5 XOR 6\<close> in a
  layer value of 9 and leaves 10.
\<close>

lemma computed_sort_drifts:
  "upsert_sort sort_at (int_doc [(''existedAt'', 5), (''publishedAt'', 9)] []) (int_doc [(''existedAt'', 5)] []) = Some (None, None)"
  "upsert_sort sort_at (int_doc [(''existedAt'', 5)] []) (int_doc [(''existedAt'', 6)] []) = Some (Some 5, Some 6)"
  "sort_change_ops [] 3 sort_at (Some (Some 5, Some 6)) = [SortClear ''sortAt'' 0 [3], SortSet ''sortAt'' 1 [3]]"
  by (simp_all add: upsert_sort_def resolve_computed_sort_def sort_at_def int_doc_def field_to_sort_u32_def computed_value_def
      List.map_filter_def Let_def sort_change_ops_def emit_sort_diff_ops_def fr_get_def u32_bit_def upt_rec)

end
