(* ===== verification/Doc_Store.thy ===== *)
theory Doc_Store
  imports Doc_Codec Mutation
begin

text \<open>
  The document store (\<open>DocStoreV3\<close> and \<open>ShardStoreBulkWriter\<close> of \<open>shard_store_doc.rs\<close>) over the shard
  store: the field dictionary, defaults, batches of ops and whole documents.

  The MessagePack format of tuples and documents (\<open>rmp_serde\<close>) is a parameter.  The file of the field
  dictionary is the list of names in it.  The defaults of a schema are given as packed values.
\<close>

section \<open>Sharding\<close>

definition SHARD_SHIFT :: nat where "SHARD_SHIFT = 9"

definition slot_to_shard :: "u32 \<Rightarrow> u32" where
  "slot_to_shard slot_id = drop_bit SHARD_SHIFT slot_id"

definition hex_digit :: "nat \<Rightarrow> char" where
  "hex_digit d = (if d < 10 then digit_char d else char_of (87 + d))"

definition hex_byte :: "nat \<Rightarrow> string" where
  "hex_byte b = [hex_digit (b div 16), hex_digit (b mod 16)]"

definition slot_shard_path :: "string \<Rightarrow> u32 \<Rightarrow> string" where
  "slot_shard_path root key =
     root @ ''/shards/'' @ hex_byte (unat (drop_bit 8 key AND 0xFF)) @ ''/'' @ zero_pad 6 (show_nat (unat key)) @ ''.shard''"


section \<open>Field values\<close>

fun scalar_value :: "packed_value \<Rightarrow> qvalue option" where
  "scalar_value (PI i) = Some (VInteger i)"
| "scalar_value (PF f) = Some (VFloat f)"
| "scalar_value (PB b) = Some (VBool b)"
| "scalar_value (PS s) = Some (VString s)"
| "scalar_value _ = None"

fun packed_to_field_value :: "packed_value \<Rightarrow> field_value" where
  "packed_to_field_value (PMi v) = Multi (map VInteger v)"
| "packed_to_field_value (PMm v) = Multi (List.map_filter scalar_value v)"
| "packed_to_field_value PNull = Multi []"
| "packed_to_field_value (PI i) = Single (VInteger i)"
| "packed_to_field_value (PF f) = Single (VFloat f)"
| "packed_to_field_value (PB b) = Single (VBool b)"
| "packed_to_field_value (PS s) = Single (VString s)"

fun scalar_packed :: "qvalue \<Rightarrow> packed_value" where
  "scalar_packed (VInteger i) = PI i"
| "scalar_packed (VFloat f) = PF f"
| "scalar_packed (VBool b) = PB b"
| "scalar_packed (VString s) = PS s"

fun value_int :: "qvalue \<Rightarrow> i64 option" where
  "value_int (VInteger i) = Some i"
| "value_int _ = None"

fun field_value_to_packed :: "field_value \<Rightarrow> packed_value" where
  "field_value_to_packed (Single v) = scalar_packed v"
| "field_value_to_packed (Multi vs) =
     (if list_all (\<lambda>v. value_int v \<noteq> None) vs then PMi (List.map_filter value_int vs) else PMm (map scalar_packed vs))"


section \<open>The store\<close>

record doc_store =
  dv_dir :: store_dir
  dv_root :: string
  dv_field_to_idx :: "(string, u16) hashmap"
  dv_idx_to_field :: "string list"
  dv_saved_dict :: "string list"
  dv_field_defaults :: "(u16, packed_value) hashmap"
  dv_schema_version :: u8
  dv_historical_defaults :: "(u8, (u16, packed_value) hashmap) hashmap"
  dv_compact_threshold :: u32
  dv_dirty_shards :: "u32 list"

datatype doc_error = DictOverflow | DecodePacked | StoreFault io_fault

text \<open>\<open>rmp_serde::to_vec\<close> and \<open>from_slice\<close>, on values and on lists of fields.\<close>

record msgpack =
  mp_to_vec :: "packed_value \<Rightarrow> u8 list"
  mp_from_slice :: "u8 list \<Rightarrow> packed_value option"
  mp_fields_to_vec :: "packed_fields \<Rightarrow> u8 list"
  mp_fields_from_slice :: "u8 list \<Rightarrow> packed_fields option"

type_synonym raw_tuple = "u32 \<times> u16 \<times> u8 list"

abbreviation dv_path :: "doc_store \<Rightarrow> u32 \<Rightarrow> string" where
  "dv_path st key \<equiv> slot_shard_path (dv_root st) key"

definition ensure_field_idx :: "string \<Rightarrow> doc_store \<Rightarrow> doc_store \<times> (doc_error + u16)" where
  "ensure_field_idx name st =
     (case hm_get (dv_field_to_idx st) name of
        Some idx \<Rightarrow> (st, Inr idx)
      | None \<Rightarrow>
          if length (dv_idx_to_field st) \<ge> 65535 then (st, Inl DictOverflow)
          else let idx = of_nat (length (dv_idx_to_field st))
            in (st\<lparr>dv_idx_to_field := dv_idx_to_field st @ [name],
                   dv_field_to_idx := hm_insert name idx (dv_field_to_idx st)\<rparr>, Inr idx))"

definition save_field_dict :: "doc_store \<Rightarrow> doc_store" where
  "save_field_dict st = st\<lparr>dv_saved_dict := dv_idx_to_field st\<rparr>"

definition load_field_dict :: "string list \<Rightarrow> (string, u16) hashmap \<times> string list" where
  "load_field_dict names = (fold (\<lambda>(i, n). hm_insert n (of_nat i)) (enumerate 0 names) [], names)"

definition ensure_field_index :: "string \<Rightarrow> doc_store \<Rightarrow> doc_store \<times> (doc_error + u16)" where
  "ensure_field_index name st =
     (let existed = hm_get (dv_field_to_idx st) name \<noteq> None; (st, r) = ensure_field_idx name st
      in case r of Inl e \<Rightarrow> (st, Inl e) | Inr idx \<Rightarrow> (if existed then st else save_field_dict st, Inr idx))"

fun ensure_all :: "string list \<Rightarrow> doc_store \<Rightarrow> doc_store \<times> (doc_error + unit)" where
  "ensure_all [] st = (st, Inr ())"
| "ensure_all (name # names) st =
     (let (st, r) = ensure_field_idx name st in case r of Inl e \<Rightarrow> (st, Inl e) | Inr _ \<Rightarrow> ensure_all names st)"

text \<open>\<open>set_field_defaults\<close>, without the copy of the history that it writes to the schema directory.\<close>

definition set_field_defaults :: "u8 \<Rightarrow> (string \<times> packed_value) list \<Rightarrow> doc_store \<Rightarrow> doc_store" where
  "set_field_defaults version mappings st =
     (let defaults = fold (\<lambda>(target, pv) m. case hm_get (dv_field_to_idx st) target of
            Some idx \<Rightarrow> hm_insert idx pv m | None \<Rightarrow> m) mappings []
      in st\<lparr>dv_schema_version := version, dv_field_defaults := defaults,
            dv_historical_defaults := hm_insert version defaults (dv_historical_defaults st)\<rparr>)"

text \<open>\<open>open\<close>, on the files of the store, the saved dictionary and the schema history.\<close>

definition DEFAULT_DOC_COMPACT_THRESHOLD :: u32 where "DEFAULT_DOC_COMPACT_THRESHOLD = 1000"

definition dv_open :: "string \<Rightarrow> store_dir \<Rightarrow> string list \<Rightarrow> (u8, (u16, packed_value) hashmap) hashmap \<Rightarrow> doc_store" where
  "dv_open root dir saved history =
     (let (field_to_idx, idx_to_field) = load_field_dict saved;
          (version, defaults) = (if history = [] then (1, [])
             else let v = Max (fst ` set history) in (v, the (hm_get history v)))
      in \<lparr>dv_dir = sweep_orphan_new_files dir, dv_root = root, dv_field_to_idx = field_to_idx,
          dv_idx_to_field = idx_to_field, dv_saved_dict = saved, dv_field_defaults = defaults,
          dv_schema_version = version, dv_historical_defaults = history,
          dv_compact_threshold = DEFAULT_DOC_COMPACT_THRESHOLD, dv_dirty_shards = []\<rparr>)"

definition field_name :: "doc_store \<Rightarrow> u16 \<Rightarrow> string option" where
  "field_name st idx =
     (if unat idx < length (dv_idx_to_field st) then Some (dv_idx_to_field st ! unat idx) else None)"

definition fields_to_stored_doc :: "doc_store \<Rightarrow> packed_fields \<Rightarrow> stored_doc" where
  "fields_to_stored_doc st flds =
     (let m = fold (\<lambda>(idx, pv) m. case field_name st idx of
                 Some name \<Rightarrow> hm_insert name (packed_to_field_value pv) m | None \<Rightarrow> m) flds [];
          m = fold (\<lambda>(idx, pv) m. case field_name st idx of
                 Some name \<Rightarrow> if hm_get m name = None then hm_insert name (packed_to_field_value pv) m else m
               | None \<Rightarrow> m) (dv_field_defaults st) m
      in \<lparr>sd_fields = m, sd_schema_version = dv_schema_version st\<rparr>)"

definition stored_doc_to_fields :: "doc_store \<Rightarrow> stored_doc \<Rightarrow> packed_fields" where
  "stored_doc_to_fields st doc =
     List.map_filter (\<lambda>(name, fv). case hm_get (dv_field_to_idx st) name of
         None \<Rightarrow> None
       | Some idx \<Rightarrow>
           let pv = field_value_to_packed fv
           in if (case hm_get (dv_field_defaults st) idx of Some d \<Rightarrow> packed_value_eq pv d | None \<Rightarrow> False)
              then None else Some (idx, pv)) (sd_fields doc)"

definition dv_get :: "(u8 list \<Rightarrow> u32) \<Rightarrow> doc_store \<Rightarrow> u32 \<Rightarrow> stored_doc option io" where
  "dv_get crc st slot =
     io_bind (store_read (doc_codec crc) (dv_dir st) (dv_path st (slot_to_shard slot))) (\<lambda>snap.
       Inr (case snap of None \<Rightarrow> None
            | Some s \<Rightarrow> map_option (fields_to_stored_doc st) (hm_get (ds_docs s) slot)))"

definition dv_get_shard_packed :: "(u8 list \<Rightarrow> u32) \<Rightarrow> doc_store \<Rightarrow> u32 \<Rightarrow> (u32, packed_fields) hashmap io" where
  "dv_get_shard_packed crc st shard_id =
     io_bind (store_read (doc_codec crc) (dv_dir st) (dv_path st shard_id)) (\<lambda>snap.
       Inr (case snap of None \<Rightarrow> [] | Some s \<Rightarrow> ds_docs s))"

definition dv_get_shard :: "(u8 list \<Rightarrow> u32) \<Rightarrow> doc_store \<Rightarrow> u32 \<Rightarrow> (u32 \<times> stored_doc) list io" where
  "dv_get_shard crc st shard_id =
     io_bind (dv_get_shard_packed crc st shard_id) (\<lambda>docs.
       Inr (map (\<lambda>(slot, flds). (slot, fields_to_stored_doc st flds)) docs))"

fun op_slot :: "doc_op \<Rightarrow> u32" where
  "op_slot (DocSet slot _ _) = slot"
| "op_slot (DocAppend slot _ _) = slot"
| "op_slot (DocRemove slot _ _) = slot"
| "op_slot (DocDelete slot) = slot"
| "op_slot (DocCreate slot _) = slot"
| "op_slot (DocMerge slot _) = slot"

text \<open>The grouping by shard that every batch starts with, and the loop that appends the groups; an
  error leaves the groups after it unwritten.\<close>

definition group_by_shard :: "doc_op list \<Rightarrow> (u32, doc_op list) hashmap" where
  "group_by_shard ops = fold (\<lambda>op. hm_upsert (slot_to_shard (op_slot op)) [] (\<lambda>group. group @ [op])) ops []"

fun append_groups :: "(u8 list \<Rightarrow> u32) \<Rightarrow> (u32 \<times> doc_op list) list \<Rightarrow> doc_store \<Rightarrow> doc_store \<times> (doc_error + unit)" where
  "append_groups crc [] st = (st, Inr ())"
| "append_groups crc ((shard_key, ops) # groups) st =
     (let (dir, r) = append_ops (doc_codec crc) (dv_path st shard_key) ops (dv_dir st); st = st\<lparr>dv_dir := dir\<rparr>
      in case r of
           Inl e \<Rightarrow> (st, Inl (StoreFault e))
         | Inr _ \<Rightarrow> append_groups crc groups (st\<lparr>dv_dirty_shards := List.insert shard_key (dv_dirty_shards st)\<rparr>))"

definition put_ops :: "doc_store \<Rightarrow> (u32 \<times> stored_doc) list \<Rightarrow> doc_op list" where
  "put_ops st docs = map (\<lambda>(slot, doc). DocCreate slot (stored_doc_to_fields st doc)) docs"

definition dv_put_batch_known_fields ::
    "(u8 list \<Rightarrow> u32) \<Rightarrow> (u32 \<times> stored_doc) list \<Rightarrow> doc_store \<Rightarrow> doc_store \<times> (doc_error + bool)" where
  "dv_put_batch_known_fields crc docs st =
     (if docs = [] then (st, Inr True)
      else if list_ex (\<lambda>(_, doc). list_ex (\<lambda>(name, _). hm_get (dv_field_to_idx st) name = None) (sd_fields doc)) docs
      then (st, Inr False)
      else let (st, r) = append_groups crc (group_by_shard (put_ops st docs)) st
        in case r of Inl e \<Rightarrow> (st, Inl e) | Inr _ \<Rightarrow> (st, Inr True))"

definition dv_put_batch ::
    "(u8 list \<Rightarrow> u32) \<Rightarrow> (u32 \<times> stored_doc) list \<Rightarrow> doc_store \<Rightarrow> doc_store \<times> (doc_error + unit)" where
  "dv_put_batch crc docs st =
     (if docs = [] then (st, Inr ())
      else let old_len = length (dv_idx_to_field st);
               (st, r) = ensure_all (concat (map (\<lambda>(_, doc). map fst (sd_fields doc)) docs)) st
        in case r of
             Inl e \<Rightarrow> (st, Inl e)
           | Inr _ \<Rightarrow>
               let st = (if length (dv_idx_to_field st) > old_len then save_field_dict st else st)
               in append_groups crc (group_by_shard (put_ops st docs)) st)"

definition dv_put :: "(u8 list \<Rightarrow> u32) \<Rightarrow> u32 \<Rightarrow> stored_doc \<Rightarrow> doc_store \<Rightarrow> doc_store \<times> (doc_error + unit)" where
  "dv_put crc slot doc st = dv_put_batch crc [(slot, doc)] st"

fun decode_tuples :: "msgpack \<Rightarrow> raw_tuple list \<Rightarrow> doc_error + (u32 \<times> u16 \<times> packed_value) list" where
  "decode_tuples mp [] = Inr []"
| "decode_tuples mp ((slot, field, value_bytes) # tuples) =
     (case mp_from_slice mp value_bytes of
        None \<Rightarrow> Inl DecodePacked
      | Some pv \<Rightarrow> (case decode_tuples mp tuples of Inl e \<Rightarrow> Inl e | Inr rest \<Rightarrow> Inr ((slot, field, pv) # rest)))"

definition append_tuples_batch ::
    "msgpack \<Rightarrow> (u8 list \<Rightarrow> u32) \<Rightarrow> raw_tuple list \<Rightarrow> doc_store \<Rightarrow> doc_store \<times> (doc_error + unit)" where
  "append_tuples_batch mp crc tuples st =
     (case decode_tuples mp tuples of
        Inl e \<Rightarrow> (st, Inl e)
      | Inr tuples \<Rightarrow> append_groups crc (group_by_shard (map (\<lambda>(slot, field, pv). DocSet slot field pv) tuples)) st)"

definition append_multi_ops_batch ::
    "(u8 list \<Rightarrow> u32) \<Rightarrow> (u32 \<times> u16 \<times> packed_value) list \<Rightarrow> (u32 \<times> u16 \<times> packed_value) list \<Rightarrow>
     doc_store \<Rightarrow> doc_store \<times> (doc_error + unit)" where
  "append_multi_ops_batch crc appends removes st =
     append_groups crc (group_by_shard (map (\<lambda>(slot, field, pv). DocAppend slot field pv) appends @
       map (\<lambda>(slot, field, pv). DocRemove slot field pv) removes)) st"

definition mixed_ops ::
    "(u32 \<times> u16 \<times> packed_value) list \<Rightarrow> (u32 \<times> u16 \<times> packed_value) list \<Rightarrow> (u32 \<times> u16 \<times> packed_value) list \<Rightarrow> doc_op list" where
  "mixed_ops sets appends removes =
     map (\<lambda>(slot, field, pv). DocSet slot field pv) sets @ map (\<lambda>(slot, field, pv). DocAppend slot field pv) appends @
     map (\<lambda>(slot, field, pv). DocRemove slot field pv) removes"

definition append_mixed_batch ::
    "msgpack \<Rightarrow> (u8 list \<Rightarrow> u32) \<Rightarrow> raw_tuple list \<Rightarrow> (u32 \<times> u16 \<times> packed_value) list \<Rightarrow>
     (u32 \<times> u16 \<times> packed_value) list \<Rightarrow> doc_store \<Rightarrow> doc_store \<times> (doc_error + unit)" where
  "append_mixed_batch mp crc sets appends removes st =
     (case decode_tuples mp sets of
        Inl e \<Rightarrow> (st, Inl e)
      | Inr sets \<Rightarrow> append_groups crc (group_by_shard (mixed_ops sets appends removes)) st)"

definition maybe_auto_compact :: "(u8 list \<Rightarrow> u32) \<Rightarrow> u32 \<Rightarrow> doc_store \<Rightarrow> doc_store" where
  "maybe_auto_compact crc shard_key st =
     (if dv_compact_threshold st = 0 then st
      else case store_ops_count (dv_dir st) (dv_path st shard_key) of
        Inr (Some n) \<Rightarrow>
          if n > dv_compact_threshold st
          then st\<lparr>dv_dir := fst (compact_shard (doc_codec crc) (dv_path st shard_key) (dv_dir st))\<rparr> else st
      | _ \<Rightarrow> st)"

definition list_doc_shards :: "doc_store \<Rightarrow> u32 list" where
  "list_doc_shards st =
     List.map_filter (\<lambda>(path, _). case strip_prefix (dv_root st @ ''/shards/'') path of
         None \<Rightarrow> None
       | Some rest \<Rightarrow>
           (case split_once CHR ''/'' rest of
              None \<Rightarrow> None
            | Some (_, name) \<Rightarrow>
                if CHR ''/'' \<in> set name then None
                else (case strip_suffix ''.shard'' name of None \<Rightarrow> None | Some i \<Rightarrow> parse_word i))) (dv_dir st)"

fun compact_keys :: "(u8 list \<Rightarrow> u32) \<Rightarrow> u32 list \<Rightarrow> bool \<Rightarrow> doc_store \<Rightarrow> doc_store \<times> (doc_error + bool)" where
  "compact_keys crc [] did_compact st = (st, Inr did_compact)"
| "compact_keys crc (key # keys) did_compact st =
     (case should_compact (dv_dir st) (dv_path st key) (dv_compact_threshold st) of
        Inl e \<Rightarrow> (st, Inl (StoreFault e))
      | Inr False \<Rightarrow> compact_keys crc keys did_compact st
      | Inr True \<Rightarrow>
          let (dir, r) = compact_shard (doc_codec crc) (dv_path st key) (dv_dir st); st = st\<lparr>dv_dir := dir\<rparr>
          in case r of Inl e \<Rightarrow> (st, Inl (StoreFault e)) | Inr _ \<Rightarrow> compact_keys crc keys True st)"

definition dv_compact :: "(u8 list \<Rightarrow> u32) \<Rightarrow> doc_store \<Rightarrow> doc_store \<times> (doc_error + bool)" where
  "dv_compact crc st = compact_keys crc (list_doc_shards st) False st"

definition append_tuple ::
    "msgpack \<Rightarrow> (u8 list \<Rightarrow> u32) \<Rightarrow> u32 \<Rightarrow> u16 \<Rightarrow> u8 list \<Rightarrow> doc_store \<Rightarrow> doc_store \<times> (doc_error + unit)" where
  "append_tuple mp crc slot field value_bytes st =
     (case mp_from_slice mp value_bytes of
        None \<Rightarrow> (st, Inl DecodePacked)
      | Some pv \<Rightarrow>
          let (dir, r) = append_op (doc_codec crc) (dv_path st (slot_to_shard slot)) (DocSet slot field pv) (dv_dir st);
              st = st\<lparr>dv_dir := dir\<rparr>
          in case r of Inl e \<Rightarrow> (st, Inl (StoreFault e)) | Inr _ \<Rightarrow> (maybe_auto_compact crc (slot_to_shard slot) st, Inr ()))"

definition dv_set_compact_threshold :: "u32 \<Rightarrow> doc_store \<Rightarrow> doc_store" where
  "dv_set_compact_threshold threshold st = st\<lparr>dv_compact_threshold := threshold\<rparr>"

definition drain_dirty_shards :: "doc_store \<Rightarrow> u32 list \<times> doc_store" where
  "drain_dirty_shards st = (dv_dirty_shards st, st\<lparr>dv_dirty_shards := []\<rparr>)"


section \<open>The bulk writer\<close>

record bulk_writer =
  bw_field_to_idx :: "(string, u16) hashmap"
  bw_field_defaults :: "(u16, packed_value) hashmap"
  bw_shard_buffers :: "(u32, (u32, packed_fields) hashmap) hashmap"

definition prepare_bulk_load :: "string list \<Rightarrow> doc_store \<Rightarrow> doc_store \<times> (doc_error + bulk_writer)" where
  "prepare_bulk_load field_names st =
     (let old_len = length (dv_idx_to_field st); (st, r) = ensure_all field_names st
      in case r of
           Inl e \<Rightarrow> (st, Inl e)
         | Inr _ \<Rightarrow>
             let st = (if length (dv_idx_to_field st) > old_len then save_field_dict st else st)
             in (st, Inr \<lparr>bw_field_to_idx = dv_field_to_idx st, bw_field_defaults = dv_field_defaults st,
                          bw_shard_buffers = []\<rparr>))"

definition is_default :: "bulk_writer \<Rightarrow> u16 \<Rightarrow> packed_value \<Rightarrow> bool" where
  "is_default bw field pv = (case hm_get (bw_field_defaults bw) field of Some d \<Rightarrow> packed_value_eq pv d | None \<Rightarrow> False)"

definition bw_append_tuple_raw :: "msgpack \<Rightarrow> u32 \<Rightarrow> u16 \<Rightarrow> u8 list \<Rightarrow> bulk_writer \<Rightarrow> bulk_writer" where
  "bw_append_tuple_raw mp slot field value_bytes bw =
     (case mp_from_slice mp value_bytes of
        None \<Rightarrow> bw
      | Some pv \<Rightarrow>
          if is_default bw field pv then bw
          else bw\<lparr>bw_shard_buffers := hm_upsert (slot_to_shard slot) []
                    (hm_upsert slot [] (\<lambda>flds. flds @ [(field, pv)])) (bw_shard_buffers bw)\<rparr>)"

definition kept_tuples :: "msgpack \<Rightarrow> (u16 \<Rightarrow> packed_value \<Rightarrow> bool) \<Rightarrow> (u16 \<times> u8 list) list \<Rightarrow> packed_fields" where
  "kept_tuples mp default_pv tuples =
     List.map_filter (\<lambda>(field, value_bytes). case mp_from_slice mp value_bytes of
         None \<Rightarrow> None | Some pv \<Rightarrow> if default_pv field pv then None else Some (field, pv)) tuples"

definition bw_append_tuples_raw :: "msgpack \<Rightarrow> u32 \<Rightarrow> (u16 \<times> u8 list) list \<Rightarrow> bulk_writer \<Rightarrow> bulk_writer" where
  "bw_append_tuples_raw mp slot tuples bw =
     (if tuples = [] then bw
      else bw\<lparr>bw_shard_buffers := hm_upsert (slot_to_shard slot) []
                (hm_upsert slot [] (\<lambda>flds. flds @ kept_tuples mp (is_default bw) tuples)) (bw_shard_buffers bw)\<rparr>)"

definition bw_write_batch_encoded :: "msgpack \<Rightarrow> (u32 \<times> u8 list) list \<Rightarrow> bulk_writer \<Rightarrow> bulk_writer" where
  "bw_write_batch_encoded mp encoded bw =
     fold (\<lambda>(slot, bytes) bw. case mp_fields_from_slice mp bytes of
         None \<Rightarrow> bw
       | Some pairs \<Rightarrow> bw\<lparr>bw_shard_buffers := hm_upsert (slot_to_shard slot) []
           (hm_insert slot pairs) (bw_shard_buffers bw)\<rparr>) encoded bw"

definition bw_encode_doc :: "msgpack \<Rightarrow> bulk_writer \<Rightarrow> stored_doc \<Rightarrow> u8 list" where
  "bw_encode_doc mp bw doc =
     mp_fields_to_vec mp (List.map_filter (\<lambda>(name, fv). case hm_get (bw_field_to_idx bw) name of
         None \<Rightarrow> None
       | Some idx \<Rightarrow> let pv = field_value_to_packed fv in if is_default bw idx pv then None else Some (idx, pv)) (sd_fields doc))"

definition override_field :: "u16 \<times> packed_value \<Rightarrow> packed_fields \<Rightarrow> packed_fields" where
  "override_field = (\<lambda>(field, pv) flds.
     if has_field field flds then update_field field (\<lambda>_. pv) flds else flds @ [(field, pv)])"

definition merge_buffer :: "(u32, packed_fields) hashmap \<Rightarrow> doc_snapshot \<Rightarrow> doc_snapshot" where
  "merge_buffer shard_data snapshot =
     fold (\<lambda>(slot, flds). docs_upsert slot (fold override_field flds)) shard_data snapshot"

definition flush_to_shardstore :: "(u8 list \<Rightarrow> u32) \<Rightarrow> bulk_writer \<Rightarrow> doc_store \<Rightarrow> bulk_writer \<times> doc_store" where
  "flush_to_shardstore crc bw st =
     (let dir = sweep_orphan_new_files (dv_dir st);
          dir = fold (\<lambda>(shard_key, shard_data) dir.
              if shard_data = [] then dir
              else let snapshot = (case store_read (doc_codec crc) dir (dv_path st shard_key) of
                                     Inr (Some s) \<Rightarrow> s | _ \<Rightarrow> doc_snapshot_new)
                in write_snapshot (doc_codec crc) (dv_path st shard_key) (merge_buffer shard_data snapshot) dir)
            (bw_shard_buffers bw) dir
      in (bw\<lparr>bw_shard_buffers := hm_map (\<lambda>_. []) (bw_shard_buffers bw)\<rparr>, st\<lparr>dv_dir := dir\<rparr>))"


section \<open>Paths\<close>

lemma zero_pad_not_Nil [simp]: "zero_pad n (show_nat k) \<noteq> []"
  by (simp add: zero_pad_def)

lemma last_zero_pad: "last (zero_pad n (show_nat k)) \<noteq> CHR ''/''"
proof -
  have "last (show_nat k) \<in> set (show_nat k)" by (rule last_in_set) simp
  then obtain d where "d < 10" "last (show_nat k) = digit_char d" using show_nat_chars by blast
  moreover have "digit_char d \<noteq> CHR ''/''"
  proof
    assume "digit_char d = CHR ''/''"
    then have "(of_char (digit_char d) :: nat) = of_char (CHR ''/'')" by simp
    with \<open>d < 10\<close> show False by (simp add: digit_char_def)
  qed
  ultimately show ?thesis by (simp add: zero_pad_def)
qed

lemma slot_shard_path_ok [simp]: "shard_path_ok (slot_shard_path root key)"
proof -
  have "slot_shard_path root key = (root @ ''/shards/'' @ hex_byte (unat (drop_bit 8 key AND 0xFF)) @ ''/'' @
      zero_pad 6 (show_nat (unat key))) @ ''.shard''"
    by (simp add: slot_shard_path_def)
  then show ?thesis by (simp only:) (rule shard_path_stem; simp add: last_zero_pad)
qed

lemma slot_shard_path_inj [simp]: "slot_shard_path root a = slot_shard_path root b \<longleftrightarrow> a = b"
proof
  assume "slot_shard_path root a = slot_shard_path root b"
  then have "zero_pad 6 (show_nat (unat a)) = zero_pad 6 (show_nat (unat b))"
    by (simp add: slot_shard_path_def hex_byte_def)
  then have "unat a = unat b" by (metis parse_zero_pad option.inject)
  then show "a = b" by (simp only: word_unat_eq_iff)
qed simp


section \<open>Documents by slot\<close>

fun slot_apply :: "doc_op \<Rightarrow> packed_fields option \<Rightarrow> packed_fields option" where
  "slot_apply (DocSet _ field pv) d = Some (set_field field pv (case d of None \<Rightarrow> [] | Some flds \<Rightarrow> flds))"
| "slot_apply (DocAppend _ field pv) d = Some (append_field field pv (case d of None \<Rightarrow> [] | Some flds \<Rightarrow> flds))"
| "slot_apply (DocRemove _ field pv) d = map_option (update_field field (remove_packed pv)) d"
| "slot_apply (DocDelete _) d = None"
| "slot_apply (DocCreate _ flds) d = Some flds"
| "slot_apply (DocMerge _ new) d = Some (fold merge_field new (case d of None \<Rightarrow> [] | Some flds \<Rightarrow> flds))"

definition at_slot :: "u32 \<Rightarrow> doc_op list \<Rightarrow> doc_op list" where
  "at_slot slot ops = filter (\<lambda>op. op_slot op = slot) ops"

lemma at_slot_simps [simp]:
  "at_slot slot [] = []" "at_slot slot (a @ b) = at_slot slot a @ at_slot slot b"
  "at_slot slot (op # ops) = (if op_slot op = slot then op # at_slot slot ops else at_slot slot ops)"
  by (simp_all add: at_slot_def)

lemma doc_apply_slot:
  "hm_get (ds_docs (doc_apply op s)) slot =
    (if op_slot op = slot then slot_apply op (hm_get (ds_docs s) slot) else hm_get (ds_docs s) slot)"
  by (cases op) (auto simp: docs_upsert_def split: option.splits)

lemma fold_apply_slot:
  "hm_get (ds_docs (fold doc_apply ops s)) slot = fold slot_apply (at_slot slot ops) (hm_get (ds_docs s) slot)"
  by (induction ops arbitrary: s) (auto simp: doc_apply_slot)

text \<open>The groups of a batch hold its ops in order.\<close>

lemma group_by_shard_get:
  "hm_get (group_by_shard ops) k =
    (let grp = filter (\<lambda>op. slot_to_shard (op_slot op) = k) ops in if grp = [] then None else Some grp)"
  by (induction ops rule: rev_induct) (auto simp: group_by_shard_def Let_def split: option.splits if_splits)

lemma group_by_shard_ok: "hm_ok (group_by_shard ops)"
  unfolding group_by_shard_def by (rule fold_inv [where P = hm_ok]) simp_all

lemma groups_at_slot:
  assumes "hm_ok groups" and "\<And>k ops. (k, ops) \<in> set groups \<Longrightarrow> \<forall>op \<in> set ops. slot_to_shard (op_slot op) = k"
  shows "at_slot slot (concat (map snd groups)) =
    (case hm_get groups (slot_to_shard slot) of None \<Rightarrow> [] | Some ops \<Rightarrow> at_slot slot ops)"
  using assms
proof (induction groups)
  case (Cons g groups)
  obtain k ops where g: "g = (k, ops)" by (cases g)
  have none: "at_slot slot ops = []" if "k \<noteq> slot_to_shard slot"
    using that Cons.prems(2) [of k ops] by (auto simp: at_slot_def g filter_empty_conv)
  have "hm_get groups k = None" using Cons.prems(1) by (auto simp: hm_ok_def g map_of_eq_None_iff)
  moreover have "at_slot slot (concat (map snd groups)) =
      (case hm_get groups (slot_to_shard slot) of None \<Rightarrow> [] | Some ops \<Rightarrow> at_slot slot ops)"
    using Cons.prems by (intro Cons.IH) (auto simp: hm_ok_def)
  ultimately show ?case using none by (auto simp: g)
qed simp

lemma group_by_shard_members:
  assumes "(k, grp) \<in> set (group_by_shard ops)"
  shows "grp = filter (\<lambda>op. slot_to_shard (op_slot op) = k) ops" "grp \<noteq> []"
  using assms group_by_shard_get [of ops k] hm_get_in [OF group_by_shard_ok, of k grp ops]
  by (auto simp: Let_def split: if_splits)

lemma group_by_shard_at_slot: "at_slot slot (concat (map snd (group_by_shard ops))) = at_slot slot ops"
proof -
  have "at_slot slot (filter (\<lambda>op. slot_to_shard (op_slot op) = slot_to_shard slot) ops) = at_slot slot ops"
    by (auto simp: at_slot_def intro: filter_cong)
  moreover have "at_slot slot ops = []" if "filter (\<lambda>op. slot_to_shard (op_slot op) = slot_to_shard slot) ops = []"
    using that by (auto simp: at_slot_def filter_empty_conv)
  moreover have "\<forall>op \<in> set grp. slot_to_shard (op_slot op) = k" if "(k, grp) \<in> set (group_by_shard ops)" for k grp
    using group_by_shard_members(1) [OF that] by simp
  ultimately show ?thesis
    using groups_at_slot [OF group_by_shard_ok, of ops slot] by (auto simp: group_by_shard_get Let_def)
qed

lemma group_by_shard_size: "(\<Sum>g \<leftarrow> group_by_shard ops. length (snd g)) = length ops"
proof -
  have upsert: "(\<Sum>g \<leftarrow> hm_upsert k [] (\<lambda>l. l @ [op]) m. length (snd g)) = Suc (\<Sum>g \<leftarrow> m. length (snd g))" for k and op :: doc_op and m
    by (induction m) (auto simp: hm_upsert_def)
  show ?thesis by (induction ops rule: rev_induct) (simp_all add: group_by_shard_def upsert)
qed


section \<open>Batches\<close>

text \<open>The store holds the documents \<open>d\<close>: the packed fields of each slot, over all shards.\<close>

definition docs_inv :: "(u8 list \<Rightarrow> u32) \<Rightarrow> nat \<Rightarrow> doc_store \<Rightarrow> (u32 \<rightharpoonup> packed_fields) \<Rightarrow> bool" where
  "docs_inv crc n st d \<longleftrightarrow> (\<exists>m. store_inv (doc_codec crc) doc_op_ok n (dv_dir st) m \<and>
     (\<forall>slot. d slot = (case m (dv_path st (slot_to_shard slot)) of None \<Rightarrow> None | Some s \<Rightarrow> hm_get (ds_docs s) slot)))"

lemma doc_codec_simps [simp]: "cd_apply (doc_codec crc) = doc_apply" "cd_empty (doc_codec crc) = doc_snapshot_new"
  by (simp_all add: doc_codec_def)

lemma docs_inv_cong: "dv_dir st' = dv_dir st \<Longrightarrow> dv_root st' = dv_root st \<Longrightarrow> docs_inv crc n st' d = docs_inv crc n st d"
  by (simp add: docs_inv_def)

lemma docs_inv_get:
  assumes "docs_inv crc n st d"
  shows "dv_get crc st slot = Inr (map_option (fields_to_stored_doc st) (d slot))"
proof -
  obtain m where m: "store_inv (doc_codec crc) doc_op_ok n (dv_dir st) m"
      "\<And>slot. d slot = (case m (dv_path st (slot_to_shard slot)) of None \<Rightarrow> None | Some s \<Rightarrow> hm_get (ds_docs s) slot)"
    using assms by (auto simp: docs_inv_def)
  show ?thesis
    using dc.store_inv_read [OF m(1)] by (simp add: dv_get_def m(2) split: option.splits)
qed

lemma docs_inv_append:
  assumes inv: "docs_inv crc n st d" and ops: "list_all doc_op_ok ops" "ops \<noteq> []" "n + length ops < 2 ^ 32"
    and shard: "\<forall>op \<in> set ops. slot_to_shard (op_slot op) = k"
  obtains dir where "append_ops (doc_codec crc) (dv_path st k) ops (dv_dir st) = (dir, Inr ())"
    and "docs_inv crc (n + length ops) (st\<lparr>dv_dir := dir\<rparr>) (\<lambda>slot. fold slot_apply (at_slot slot ops) (d slot))"
proof -
  obtain m where m: "store_inv (doc_codec crc) doc_op_ok n (dv_dir st) m"
      "\<And>slot. d slot = (case m (dv_path st (slot_to_shard slot)) of None \<Rightarrow> None | Some s \<Rightarrow> hm_get (ds_docs s) slot)"
    using inv by (auto simp: docs_inv_def)
  define m' where "m' = m(dv_path st k \<mapsto> fold doc_apply ops (case m (dv_path st k) of Some s \<Rightarrow> s | None \<Rightarrow> cd_empty (doc_codec crc)))"
  obtain dir where app: "append_ops (doc_codec crc) (dv_path st k) ops (dv_dir st) = (dir, Inr ())"
      "store_inv (doc_codec crc) doc_op_ok (n + length ops) dir m'"
    by (rule dc.store_inv_append [OF m(1) slot_shard_path_ok [of "dv_root st" k] ops(1,3,2)])
       (rule that, simp_all add: m'_def)
  have other: "at_slot slot ops = []" if "slot_to_shard slot \<noteq> k" for slot
    using that shard by (auto simp: at_slot_def filter_empty_conv)
  have "fold slot_apply (at_slot slot ops) (d slot) =
      (case m' (dv_path st (slot_to_shard slot)) of None \<Rightarrow> None | Some s \<Rightarrow> hm_get (ds_docs s) slot)" for slot
    using other [of slot]
    by (cases "slot_to_shard slot = k")
       (auto simp: m(2) m'_def fold_apply_slot doc_snapshot_new_def split: option.splits)
  with app show thesis by (intro that [of dir]) (auto simp: docs_inv_def)
qed

lemma docs_inv_groups:
  assumes "docs_inv crc n st d" and "n + (\<Sum>g \<leftarrow> groups. length (snd g)) < 2 ^ 32"
    and "\<And>k ops. (k, ops) \<in> set groups \<Longrightarrow> ops \<noteq> [] \<and> list_all doc_op_ok ops \<and> (\<forall>op \<in> set ops. slot_to_shard (op_slot op) = k)"
  shows "\<exists>dir dirty. append_groups crc groups st = (st\<lparr>dv_dir := dir, dv_dirty_shards := dirty\<rparr>, Inr ()) \<and>
    docs_inv crc (n + (\<Sum>g \<leftarrow> groups. length (snd g))) (st\<lparr>dv_dir := dir, dv_dirty_shards := dirty\<rparr>)
      (\<lambda>slot. fold slot_apply (at_slot slot (concat (map snd groups))) (d slot))"
  using assms
proof (induction groups arbitrary: n st d)
  case Nil
  then show ?case by (intro exI [of _ "dv_dir st"] exI [of _ "dv_dirty_shards st"]) simp
next
  case (Cons g groups)
  obtain k ops where g: "g = (k, ops)" by (cases g)
  have ok: "list_all doc_op_ok ops" "ops \<noteq> []" "\<forall>op \<in> set ops. slot_to_shard (op_slot op) = k"
    using Cons.prems(3) [of k ops] by (simp_all add: g)
  obtain dir where dir: "append_ops (doc_codec crc) (dv_path st k) ops (dv_dir st) = (dir, Inr ())"
      "docs_inv crc (n + length ops) (st\<lparr>dv_dir := dir\<rparr>) (\<lambda>slot. fold slot_apply (at_slot slot ops) (d slot))"
    using Cons.prems(2) by (rule_tac docs_inv_append [OF Cons.prems(1) ok(1,2) _ ok(3)]) (simp_all add: g)
  define st1 where "st1 = st\<lparr>dv_dir := dir, dv_dirty_shards := List.insert k (dv_dirty_shards st)\<rparr>"
  have inv1: "docs_inv crc (n + length ops) st1 (\<lambda>slot. fold slot_apply (at_slot slot ops) (d slot))"
    using dir(2) by (subst docs_inv_cong [of _ "st\<lparr>dv_dir := dir\<rparr>"]) (simp_all add: st1_def)
  obtain dir' dirty where "append_groups crc groups st1 = (st1\<lparr>dv_dir := dir', dv_dirty_shards := dirty\<rparr>, Inr ())"
      "docs_inv crc (n + length ops + (\<Sum>g \<leftarrow> groups. length (snd g))) (st1\<lparr>dv_dir := dir', dv_dirty_shards := dirty\<rparr>)
        (\<lambda>slot. fold slot_apply (at_slot slot (concat (map snd groups))) (fold slot_apply (at_slot slot ops) (d slot)))"
    using Cons.IH [OF inv1 _ Cons.prems(3)] Cons.prems(2) by (fastforce simp: g)
  then show ?case
    by (intro exI [of _ dir'] exI [of _ dirty]) (simp add: g dir(1) st1_def add.assoc)
qed

lemma docs_inv_batch:
  assumes "docs_inv crc n st d" and "list_all doc_op_ok ops" and "n + length ops < 2 ^ 32"
  obtains dir dirty where "append_groups crc (group_by_shard ops) st = (st\<lparr>dv_dir := dir, dv_dirty_shards := dirty\<rparr>, Inr ())"
    and "docs_inv crc (n + length ops) (st\<lparr>dv_dir := dir, dv_dirty_shards := dirty\<rparr>) (\<lambda>slot. fold slot_apply (at_slot slot ops) (d slot))"
proof -
  have "grp \<noteq> [] \<and> list_all doc_op_ok grp \<and> (\<forall>op \<in> set grp. slot_to_shard (op_slot op) = k)" if "(k, grp) \<in> set (group_by_shard ops)" for k grp
    using group_by_shard_members [OF that] assms(2) by (auto simp: list_all_iff)
  then have "\<exists>dir dirty. append_groups crc (group_by_shard ops) st = (st\<lparr>dv_dir := dir, dv_dirty_shards := dirty\<rparr>, Inr ()) \<and>
      docs_inv crc (n + length ops) (st\<lparr>dv_dir := dir, dv_dirty_shards := dirty\<rparr>) (\<lambda>slot. fold slot_apply (at_slot slot ops) (d slot))"
    using docs_inv_groups [OF assms(1), of "group_by_shard ops"] assms(3)
    by (simp add: group_by_shard_size group_by_shard_at_slot)
  then show thesis using that by blast
qed


section \<open>Runs of the store\<close>

datatype dv_call =
    CallMixed "raw_tuple list" "(u32 \<times> u16 \<times> packed_value) list" "(u32 \<times> u16 \<times> packed_value) list"
  | CallTuples "raw_tuple list"
  | CallPut "(u32 \<times> stored_doc) list"
  | CallCompact u32
  | CallDefaults u8 "(string \<times> packed_value) list"
  | CallDrain

definition doc_names :: "(u32 \<times> stored_doc) list \<Rightarrow> string list" where
  "doc_names docs = concat (map (\<lambda>(_, doc). map fst (sd_fields doc)) docs)"

fun dv_step :: "msgpack \<Rightarrow> (u8 list \<Rightarrow> u32) \<Rightarrow> dv_call \<Rightarrow> doc_store \<Rightarrow> doc_store \<times> (doc_error + unit)" where
  "dv_step mp crc (CallMixed sets appends removes) st = append_mixed_batch mp crc sets appends removes st"
| "dv_step mp crc (CallTuples tuples) st = append_tuples_batch mp crc tuples st"
| "dv_step mp crc (CallPut docs) st = dv_put_batch crc docs st"
| "dv_step mp crc (CallCompact key) st =
     (let (dir, r) = compact_shard (doc_codec crc) (dv_path st key) (dv_dir st)
      in (st\<lparr>dv_dir := dir\<rparr>, case r of Inl e \<Rightarrow> Inl (StoreFault e) | Inr _ \<Rightarrow> Inr ()))"
| "dv_step mp crc (CallDefaults version mappings) st = (set_field_defaults version mappings st, Inr ())"
| "dv_step mp crc CallDrain st = (snd (drain_dirty_shards st), Inr ())"

text \<open>The ops a call stands for; it is in order when they are within the limits of the encoding, the
  dictionary has room, and a shard to be compacted is encodable.\<close>

definition decoded :: "msgpack \<Rightarrow> raw_tuple list \<Rightarrow> (u32 \<times> u16 \<times> packed_value) list" where
  "decoded mp tuples = (case decode_tuples mp tuples of Inl _ \<Rightarrow> [] | Inr r \<Rightarrow> r)"

fun dv_emits :: "msgpack \<Rightarrow> dv_call \<Rightarrow> doc_store \<Rightarrow> doc_op list" where
  "dv_emits mp (CallMixed sets appends removes) st = mixed_ops (decoded mp sets) appends removes"
| "dv_emits mp (CallTuples tuples) st = mixed_ops (decoded mp tuples) [] []"
| "dv_emits mp (CallPut docs) st = put_ops (fst (ensure_all (doc_names docs) st)) docs"
| "dv_emits mp _ st = []"

fun dv_call_ok :: "msgpack \<Rightarrow> (u8 list \<Rightarrow> u32) \<Rightarrow> dv_call \<Rightarrow> doc_store \<Rightarrow> bool" where
  "dv_call_ok mp crc (CallPut docs) st \<longleftrightarrow> snd (ensure_all (doc_names docs) st) = Inr () \<and>
     list_all doc_op_ok (dv_emits mp (CallPut docs) st)"
| "dv_call_ok mp crc (CallCompact key) st \<longleftrightarrow>
     (case store_read (doc_codec crc) (dv_dir st) (dv_path st key) of Inr (Some s) \<Rightarrow> snapshot_ok s | _ \<Rightarrow> True)"
| "dv_call_ok mp crc (CallMixed sets appends removes) st \<longleftrightarrow> decode_tuples mp sets \<noteq> Inl DecodePacked \<and>
     list_all doc_op_ok (dv_emits mp (CallMixed sets appends removes) st)"
| "dv_call_ok mp crc (CallTuples tuples) st \<longleftrightarrow> decode_tuples mp tuples \<noteq> Inl DecodePacked \<and>
     list_all doc_op_ok (dv_emits mp (CallTuples tuples) st)"
| "dv_call_ok mp crc call st \<longleftrightarrow> True"

fun dv_run :: "msgpack \<Rightarrow> (u8 list \<Rightarrow> u32) \<Rightarrow> dv_call list \<Rightarrow> doc_store \<Rightarrow> doc_store \<times> doc_op list \<times> (doc_error + unit)" where
  "dv_run mp crc [] st = (st, [], Inr ())"
| "dv_run mp crc (call # calls) st =
     (let (st', r) = dv_step mp crc call st
      in case r of
           Inl e \<Rightarrow> (st', [], Inl e)
         | Inr _ \<Rightarrow> let (st'', ops, r) = dv_run mp crc calls st' in (st'', dv_emits mp call st @ ops, r))"

fun dv_run_ok :: "msgpack \<Rightarrow> (u8 list \<Rightarrow> u32) \<Rightarrow> dv_call list \<Rightarrow> doc_store \<Rightarrow> bool" where
  "dv_run_ok mp crc [] st \<longleftrightarrow> True"
| "dv_run_ok mp crc (call # calls) st \<longleftrightarrow> dv_call_ok mp crc call st \<and> dv_run_ok mp crc calls (fst (dv_step mp crc call st))"

fun dv_call_size :: "dv_call \<Rightarrow> nat" where
  "dv_call_size (CallMixed sets appends removes) = length sets + length appends + length removes"
| "dv_call_size (CallTuples tuples) = length tuples"
| "dv_call_size (CallPut docs) = length docs"
| "dv_call_size _ = 0"

lemma decode_tuples_ok:
  assumes "decode_tuples mp tuples \<noteq> Inl DecodePacked"
  shows "decode_tuples mp tuples = Inr (decoded mp tuples) \<and> length (decoded mp tuples) = length tuples"
  using assms unfolding decoded_def
  by (induction mp tuples rule: decode_tuples.induct) (auto split: option.splits sum.splits)

lemma length_emits: "dv_call_ok mp crc call st \<Longrightarrow> length (dv_emits mp call st) = dv_call_size call"
  by (cases call) (simp_all add: mixed_ops_def put_ops_def decode_tuples_ok)

lemma ensure_all_keeps:
  "dv_dir (fst (ensure_all names st)) = dv_dir st \<and> dv_root (fst (ensure_all names st)) = dv_root st"
  by (induction names arbitrary: st)
     (simp_all add: ensure_field_idx_def Let_def split: option.splits prod.splits sum.splits)

lemma put_ops_cong: "put_ops (st\<lparr>dv_saved_dict := x\<rparr>) docs = put_ops st docs"
proof -
  have "dv_field_to_idx (st\<lparr>dv_saved_dict := x\<rparr>) = dv_field_to_idx st"
    "dv_field_defaults (st\<lparr>dv_saved_dict := x\<rparr>) = dv_field_defaults st" by simp_all
  then have "stored_doc_to_fields (st\<lparr>dv_saved_dict := x\<rparr>) = stored_doc_to_fields st"
    by (intro ext) (simp only: stored_doc_to_fields_def)
  then show ?thesis by (simp add: put_ops_def)
qed

lemma docs_inv_ops:
  assumes inv: "docs_inv crc n st d" and same: "dv_dir st1 = dv_dir st" "dv_root st1 = dv_root st"
    and ok: "list_all doc_op_ok ops" "n + length ops < 2 ^ 32"
  obtains st' where "append_groups crc (group_by_shard ops) st1 = (st', Inr ())"
    and "docs_inv crc (n + length ops) st' (\<lambda>slot. fold slot_apply (at_slot slot ops) (d slot))"
proof -
  have "docs_inv crc n st1 d" using inv by (simp add: docs_inv_cong [OF same])
  then show thesis by (rule docs_inv_batch [OF _ ok]) (rule that)
qed

lemma docs_inv_put:
  assumes inv: "docs_inv crc n st d" and ok: "dv_call_ok mp crc (CallPut docs) st" and total: "n + length docs < 2 ^ 32"
  obtains st' where "dv_put_batch crc docs st = (st', Inr ())"
    and "docs_inv crc (n + length docs) st' (\<lambda>slot. fold slot_apply (at_slot slot (dv_emits mp (CallPut docs) st)) (d slot))"
proof (cases "docs = []")
  case True
  with inv show thesis by (intro that [of st]) (simp_all add: dv_put_batch_def put_ops_def)
next
  case False
  obtain st1 where st1: "ensure_all (doc_names docs) st = (st1, Inr ())" using ok by (cases "ensure_all (doc_names docs) st") simp
  define st2 where "st2 = (if length (dv_idx_to_field st1) > length (dv_idx_to_field st) then save_field_dict st1 else st1)"
  have same: "dv_dir st2 = dv_dir st" "dv_root st2 = dv_root st" "put_ops st2 docs = put_ops st1 docs"
    using ensure_all_keeps [of "doc_names docs" st] st1
    by (simp_all add: st2_def save_field_dict_def put_ops_cong)
  have ops: "list_all doc_op_ok (put_ops st1 docs)" "n + length (put_ops st1 docs) < 2 ^ 32"
    using ok total st1 by (simp_all add: put_ops_def)
  show thesis
    by (rule docs_inv_ops [OF inv same(1,2) ops])
       (rule that, simp_all add: dv_put_batch_def False doc_names_def [symmetric] st1 Let_def st2_def [symmetric] same(3),
        simp_all add: put_ops_def)
qed

lemma docs_inv_compact:
  assumes inv: "docs_inv crc n st d" and ok: "dv_call_ok mp crc (CallCompact key) st"
  obtains st' where "dv_step mp crc (CallCompact key) st = (st', Inr ())" and "docs_inv crc n st' d"
proof -
  obtain m where m: "store_inv (doc_codec crc) doc_op_ok n (dv_dir st) m"
      "\<And>slot. d slot = (case m (dv_path st (slot_to_shard slot)) of None \<Rightarrow> None | Some s \<Rightarrow> hm_get (ds_docs s) slot)"
    using inv by (auto simp: docs_inv_def)
  have "snapshot_ok s" if "m (dv_path st key) = Some s" for s
    using ok dc.store_inv_read [OF m(1), of "dv_path st key"] that by simp
  then obtain dir b where "compact_shard (doc_codec crc) (dv_path st key) (dv_dir st) = (dir, Inr b)"
      "store_inv (doc_codec crc) doc_op_ok n dir m"
    using dc.store_inv_compact [OF m(1) slot_shard_path_ok] by blast
  then show thesis
    using m(2) by (intro that [of "st\<lparr>dv_dir := dir\<rparr>"]) (auto simp: docs_inv_def)
qed

lemma docs_inv_step:
  assumes inv: "docs_inv crc n st d" and ok: "dv_call_ok mp crc call st" and total: "n + dv_call_size call < 2 ^ 32"
  shows "\<exists>st'. dv_step mp crc call st = (st', Inr ()) \<and>
    docs_inv crc (n + dv_call_size call) st' (\<lambda>slot. fold slot_apply (at_slot slot (dv_emits mp call st)) (d slot))"
proof (cases call)
  case (CallMixed a b c)
  have "list_all doc_op_ok (mixed_ops (decoded mp a) b c)" "n + length (mixed_ops (decoded mp a) b c) < 2 ^ 32"
    "decode_tuples mp a = Inr (decoded mp a)"
    using ok total CallMixed length_emits [OF ok] decode_tuples_ok by simp_all
  then show ?thesis
    using CallMixed length_emits [OF ok] by (rule_tac docs_inv_ops [OF inv refl refl]) (auto simp: append_mixed_batch_def)
next
  case (CallTuples a)
  have "list_all doc_op_ok (mixed_ops (decoded mp a) [] [])" "n + length (mixed_ops (decoded mp a) [] []) < 2 ^ 32"
    "decode_tuples mp a = Inr (decoded mp a)"
    using ok total CallTuples length_emits [OF ok] decode_tuples_ok by simp_all
  then show ?thesis
    using CallTuples length_emits [OF ok]
    by (rule_tac docs_inv_ops [OF inv refl refl]) (auto simp: append_tuples_batch_def mixed_ops_def)
next
  case (CallPut docs)
  with ok total show ?thesis by (rule_tac docs_inv_put [OF inv, of mp docs]) auto
next
  case (CallCompact key)
  with ok show ?thesis by (rule_tac docs_inv_compact [OF inv, of mp key]) auto
next
  case (CallDefaults v ms)
  then show ?thesis
    using docs_inv_cong [of "set_field_defaults v ms st" st crc n d] inv by (simp add: set_field_defaults_def Let_def)
next
  case CallDrain
  then show ?thesis
    using docs_inv_cong [of "snd (drain_dirty_shards st)" st crc n d] inv by (simp add: drain_dirty_shards_def)
qed

lemma docs_inv_run:
  assumes "docs_inv crc n st d" and "dv_run_ok mp crc calls st" and "n + sum_list (map dv_call_size calls) < 2 ^ 32"
  shows "\<exists>st' ops. dv_run mp crc calls st = (st', ops, Inr ()) \<and>
    docs_inv crc (n + sum_list (map dv_call_size calls)) st' (\<lambda>slot. fold slot_apply (at_slot slot ops) (d slot))"
  using assms
proof (induction calls arbitrary: n st d)
  case Nil
  then show ?case by auto
next
  case (Cons call calls)
  obtain st1 where step: "dv_step mp crc call st = (st1, Inr ())"
      "docs_inv crc (n + dv_call_size call) st1 (\<lambda>slot. fold slot_apply (at_slot slot (dv_emits mp call st)) (d slot))"
    using docs_inv_step [OF Cons.prems(1), of mp call] Cons.prems(2,3) by auto
  show ?case
    using Cons.IH [OF step(2)] Cons.prems(2,3) step(1) by (fastforce simp: add.assoc)
qed


section \<open>The field dictionary and defaults\<close>

definition dict_ok :: "doc_store \<Rightarrow> bool" where
  "dict_ok st \<longleftrightarrow> length (dv_idx_to_field st) \<le> 65535 \<and> hm_ok (dv_field_defaults st) \<and>
     (\<forall>name idx. hm_get (dv_field_to_idx st) name = Some idx \<longleftrightarrow> field_name st idx = Some name)"

lemma dict_ok_cong:
  "dv_idx_to_field st' = dv_idx_to_field st \<Longrightarrow> dv_field_to_idx st' = dv_field_to_idx st \<Longrightarrow>
    dv_field_defaults st' = dv_field_defaults st \<Longrightarrow> dict_ok st' = dict_ok st"
  by (simp add: dict_ok_def field_name_def)

lemma ensure_field_idx_ok:
  assumes "dict_ok st" and "ensure_field_idx name st = (st', Inr idx)"
  shows "dict_ok st' \<and> hm_get (dv_field_to_idx st') name = Some idx \<and> dv_field_defaults st' = dv_field_defaults st \<and>
    (\<forall>n i. hm_get (dv_field_to_idx st) n = Some i \<longrightarrow> hm_get (dv_field_to_idx st') n = Some i)"
proof (cases "hm_get (dv_field_to_idx st) name")
  case (Some i)
  with assms show ?thesis by (auto simp: ensure_field_idx_def)
next
  case None
  define k where "k = length (dv_idx_to_field st)"
  have k: "k < 65535" "idx = of_nat k" "st' = st\<lparr>dv_idx_to_field := dv_idx_to_field st @ [name],
      dv_field_to_idx := hm_insert name idx (dv_field_to_idx st)\<rparr>"
    using assms(2) None by (auto simp: ensure_field_idx_def k_def Let_def split: if_splits)
  have unat_idx: "unat idx = k" unfolding k(2) using k(1) by (intro unat_of_nat_len) simp
  have name': "field_name st' i = Some n \<longleftrightarrow> (if n = name then i = idx else field_name st i = Some n)" for i n
  proof -
    have "unat i = k \<longleftrightarrow> i = idx" unfolding unat_idx [symmetric] by (simp only: word_unat_eq_iff)
    moreover have "field_name st i \<noteq> Some name"
      using assms(1) None unfolding dict_ok_def by (metis option.distinct(1))
    ultimately show ?thesis
      by (auto simp: field_name_def k(3) k_def [symmetric] nth_append split: if_splits)
  qed
  have "dict_ok st'"
    unfolding dict_ok_def using assms(1) k(1) name' by (auto simp: dict_ok_def k(3) k_def [symmetric])
  with None show ?thesis by (auto simp: k(3))
qed

lemma ensure_all_ok:
  assumes "dict_ok st" and "ensure_all names st = (st', Inr ())"
  shows "dict_ok st' \<and> (\<forall>n \<in> set names. hm_get (dv_field_to_idx st') n \<noteq> None) \<and> dv_field_defaults st' = dv_field_defaults st \<and>
    (\<forall>n i. hm_get (dv_field_to_idx st) n = Some i \<longrightarrow> hm_get (dv_field_to_idx st') n = Some i)"
  using assms
proof (induction names arbitrary: st)
  case (Cons name names)
  obtain st1 idx where "ensure_field_idx name st = (st1, Inr idx)" "ensure_all names st1 = (st', Inr ())"
    using Cons.prems(2) by (auto split: prod.splits sum.splits)
  with ensure_field_idx_ok [OF Cons.prems(1)] Cons.IH [of st1] show ?case by fastforce
qed simp

lemma dict_ok_empty: "dict_ok (dv_open root [] [] [])"
  by (simp add: dict_ok_def dv_open_def load_field_dict_def field_name_def)

lemma append_groups_keeps:
  "dv_idx_to_field (fst (append_groups crc groups st)) = dv_idx_to_field st \<and>
   dv_field_to_idx (fst (append_groups crc groups st)) = dv_field_to_idx st \<and>
   dv_field_defaults (fst (append_groups crc groups st)) = dv_field_defaults st \<and>
   dv_schema_version (fst (append_groups crc groups st)) = dv_schema_version st"
  by (induction crc groups st rule: append_groups.induct) (auto simp: Let_def split: prod.splits sum.splits)

lemma append_groups_dict: "dict_ok (fst (append_groups crc groups st)) = dict_ok st"
  using append_groups_keeps [of crc groups st] by (intro dict_ok_cong) simp_all

lemma dict_ok_step:
  assumes "dict_ok st" and "dv_step mp crc call st = (st', Inr ())"
  shows "dict_ok st'"
proof (cases call)
  case (CallMixed a b c)
  with assms append_groups_dict show ?thesis by (auto simp: append_mixed_batch_def split: sum.splits) (metis fst_conv)
next
  case (CallTuples a)
  with assms append_groups_dict show ?thesis by (auto simp: append_tuples_batch_def split: sum.splits) (metis fst_conv)
next
  case (CallPut docs)
  show ?thesis
  proof (cases "docs = []")
    case True
    with assms CallPut show ?thesis by (simp add: dv_put_batch_def)
  next
    case False
    then obtain st1 where st1: "ensure_all (doc_names docs) st = (st1, Inr ())"
      using assms(2) CallPut by (auto simp: dv_put_batch_def doc_names_def [symmetric] Let_def split: prod.splits sum.splits)
    define st2 where "st2 = (if length (dv_idx_to_field st1) > length (dv_idx_to_field st) then save_field_dict st1 else st1)"
    have "dict_ok st1" using ensure_all_ok [OF assms(1) st1] by simp
    then have "dict_ok st2" using dict_ok_cong [of "save_field_dict st1" st1] by (simp add: st2_def save_field_dict_def)
    moreover have "append_groups crc (group_by_shard (put_ops st2 docs)) st2 = (st', Inr ())"
      using assms(2) CallPut False by (simp add: dv_put_batch_def doc_names_def [symmetric] st1 Let_def st2_def [symmetric])
    ultimately show ?thesis using append_groups_dict by (metis fst_conv)
  qed
next
  case (CallCompact key)
  with assms dict_ok_cong [of st' st] show ?thesis by (auto split: prod.splits)
next
  case (CallDefaults v ms)
  have "hm_ok (fold (\<lambda>(target, pv) m. case hm_get (dv_field_to_idx st) target of
            Some idx \<Rightarrow> hm_insert idx pv m | None \<Rightarrow> m) ms [])"
    by (rule fold_inv [where P = hm_ok]) (auto split: option.splits)
  with assms CallDefaults show ?thesis by (auto simp: set_field_defaults_def dict_ok_def field_name_def Let_def)
next
  case CallDrain
  with assms dict_ok_cong [of st' st] show ?thesis by (auto simp: drain_dirty_shards_def)
qed

lemma put_dict:
  assumes "dict_ok st" and "dv_put_batch crc [(slot, doc)] st = (st', Inr ())"
  shows "dict_ok st'" "dv_field_defaults st' = dv_field_defaults st"
    "dv_emits mp (CallPut [(slot, doc)]) st = put_ops st' [(slot, doc)]"
    "\<forall>x \<in> set (sd_fields doc). hm_get (dv_field_to_idx st') (fst x) \<noteq> None"
proof -
  let ?docs = "[(slot, doc)]"
  obtain st1 where st1: "ensure_all (doc_names ?docs) st = (st1, Inr ())"
    using assms(2) by (auto simp: dv_put_batch_def doc_names_def Let_def split: prod.splits sum.splits)
  define st2 where "st2 = (if length (dv_idx_to_field st1) > length (dv_idx_to_field st) then save_field_dict st1 else st1)"
  have ap: "append_groups crc (group_by_shard (put_ops st2 ?docs)) st2 = (st', Inr ())"
    using assms(2) st1 by (simp add: dv_put_batch_def doc_names_def Let_def st2_def [symmetric])
  have keep: "dv_field_to_idx st' = dv_field_to_idx st1" "dv_field_defaults st' = dv_field_defaults st1"
    using append_groups_keeps [of crc "group_by_shard (put_ops st2 ?docs)" st2] ap
    by (simp_all add: st2_def save_field_dict_def split: if_splits)
  note e = ensure_all_ok [OF assms(1) st1]
  show "dict_ok st'" by (rule dict_ok_step [OF assms(1), of mp crc "CallPut ?docs"]) (simp add: assms(2))
  show "dv_field_defaults st' = dv_field_defaults st" using e keep by simp
  show "dv_emits mp (CallPut ?docs) st = put_ops st' ?docs"
    using keep by (simp add: st1 put_ops_def) (simp only: stored_doc_to_fields_def)
  show "\<forall>x \<in> set (sd_fields doc). hm_get (dv_field_to_idx st') (fst x) \<noteq> None"
    using e keep by (auto simp: doc_names_def)
qed

lemma dict_ok_run: "dict_ok st \<Longrightarrow> dv_run mp crc calls st = (st', ops, Inr ()) \<Longrightarrow> dict_ok st'"
  by (induction calls arbitrary: st ops) (fastforce simp: Let_def split: prod.splits sum.splits dest: dict_ok_step)+

lemma field_value_packed [simp]: "packed_to_field_value (field_value_to_packed v) = v"
proof (cases v)
  case (Single x)
  then show ?thesis by (cases x) simp_all
next
  case (Multi vs)
  have ints: "map VInteger (List.map_filter value_int vs) = vs" if "list_all (\<lambda>v. value_int v \<noteq> None) vs"
    using that by (induction vs) (auto simp: List.map_filter_def elim: value_int.elims)
  have "scalar_value (scalar_packed x) = Some x" for x by (cases x) simp_all
  then have "List.map_filter scalar_value (map scalar_packed vs) = vs"
    by (induction vs) (simp_all add: List.map_filter_def)
  with Multi ints show ?thesis by simp
qed

fun no_float :: "packed_value \<Rightarrow> bool" where
  "no_float (PF _) \<longleftrightarrow> False"
| "no_float (PMm vs) \<longleftrightarrow> list_all no_float vs"
| "no_float _ \<longleftrightarrow> True"

lemma packed_value_eq_same: "packed_value_eq a b \<Longrightarrow> no_float b \<Longrightarrow> a = b"
proof (induction b arbitrary: a)
  case (PMm ys)
  then obtain xs where a: "a = PMm xs" "list_all2 packed_value_eq xs ys" by (cases a) auto
  have "xs = ys" using a(2) PMm.IH PMm.prems(2) by (induction rule: list_all2_induct) auto
  with a(1) show ?case by simp
qed (auto elim: packed_value_eq.elims)

text \<open>The document that a slot's packed fields stand for, by name.\<close>

lemma fold_names:
  assumes dict: "dict_ok st" and "distinct (map fst flds)"
  shows "hm_get (fold (\<lambda>(idx, pv) m. case field_name st idx of
      Some name \<Rightarrow> hm_insert name (packed_to_field_value pv) m | None \<Rightarrow> m) flds m) name =
    (case hm_get (dv_field_to_idx st) name of
       None \<Rightarrow> hm_get m name
     | Some idx \<Rightarrow> (case map_of flds idx of Some pv \<Rightarrow> Some (packed_to_field_value pv) | None \<Rightarrow> hm_get m name))"
  using assms(2)
proof (induction flds arbitrary: m)
  case (Cons f flds)
  obtain idx pv where f: "f = (idx, pv)" by (cases f)
  have none: "map_of flds idx = None" using Cons.prems by (simp add: f map_of_eq_None_iff)
  show ?case
  proof (cases "field_name st idx")
    case None
    then have "hm_get (dv_field_to_idx st) name \<noteq> Some idx" using dict unfolding dict_ok_def by simp
    with None Cons.IH [of m] Cons.prems show ?thesis by (auto simp: f split: option.splits)
  next
    case (Some n)
    then have "hm_get (dv_field_to_idx st) n = Some idx" "name \<noteq> n \<Longrightarrow> hm_get (dv_field_to_idx st) name \<noteq> Some idx"
      using dict unfolding dict_ok_def by simp_all
    with Some none Cons.IH [of "hm_insert n (packed_to_field_value pv) m"] Cons.prems show ?thesis
      by (cases "name = n") (auto simp: f split: option.splits)
  qed
qed (simp split: option.splits)

lemma fold_defaults:
  assumes dict: "dict_ok st" and "distinct (map fst flds)"
  shows "hm_get (fold (\<lambda>(idx, pv) m. case field_name st idx of
      Some name \<Rightarrow> if hm_get m name = None then hm_insert name (packed_to_field_value pv) m else m | None \<Rightarrow> m) flds m) name =
    (case hm_get m name of Some v \<Rightarrow> Some v | None \<Rightarrow>
      (case hm_get (dv_field_to_idx st) name of None \<Rightarrow> None | Some idx \<Rightarrow> map_option packed_to_field_value (map_of flds idx)))"
  using assms(2)
proof (induction flds arbitrary: m)
  case (Cons f flds)
  obtain idx pv where f: "f = (idx, pv)" by (cases f)
  have none: "map_of flds idx = None" using Cons.prems by (simp add: f map_of_eq_None_iff)
  show ?case
  proof (cases "field_name st idx")
    case None
    then have "hm_get (dv_field_to_idx st) name \<noteq> Some idx" using dict unfolding dict_ok_def by simp
    with None Cons.IH [of m] Cons.prems show ?thesis by (auto simp: f split: option.splits)
  next
    case (Some n)
    then have "hm_get (dv_field_to_idx st) n = Some idx" "name \<noteq> n \<Longrightarrow> hm_get (dv_field_to_idx st) name \<noteq> Some idx"
      using dict unfolding dict_ok_def by simp_all
    with Some none Cons.IH [of m] Cons.IH [of "hm_insert n (packed_to_field_value pv) m"] Cons.prems show ?thesis
      by (cases "name = n") (auto simp: f split: option.splits)
  qed
qed (simp split: option.splits)

definition default_value :: "doc_store \<Rightarrow> string \<Rightarrow> field_value option" where
  "default_value st name =
     (case hm_get (dv_field_to_idx st) name of None \<Rightarrow> None
      | Some idx \<Rightarrow> map_option packed_to_field_value (hm_get (dv_field_defaults st) idx))"

lemma stored_doc_field:
  assumes "dict_ok st" and "distinct (map fst flds)"
  shows "hm_get (sd_fields (fields_to_stored_doc st flds)) name =
    (case hm_get (dv_field_to_idx st) name of None \<Rightarrow> None
     | Some idx \<Rightarrow> (case map_of flds idx of Some pv \<Rightarrow> Some (packed_to_field_value pv) | None \<Rightarrow> default_value st name))"
proof -
  have "distinct (map fst (dv_field_defaults st))" using assms(1) by (simp add: dict_ok_def hm_ok_def)
  then show ?thesis
    by (simp add: fields_to_stored_doc_def Let_def fold_defaults [OF assms(1)] fold_names [OF assms] default_value_def
      split: option.splits)
qed

lemma distinct_map_filter:
  assumes "distinct (map fst l)" and key: "\<And>x y. x \<in> set l \<Longrightarrow> h x = Some y \<Longrightarrow> key (fst x) = Some (fst y)"
    and inj: "\<And>a b i. key a = Some i \<Longrightarrow> key b = Some i \<Longrightarrow> a = b"
  shows "distinct (map fst (List.map_filter h l))"
  using assms(1) key
proof (induction l)
  case (Cons x l)
  have "fst y \<notin> fst ` set (List.map_filter h l)" if y: "h x = Some y" for y
  proof
    assume "fst y \<in> fst ` set (List.map_filter h l)"
    then obtain z x' where z: "fst z = fst y" "x' \<in> set l" "h x' = Some z" by (auto simp: in_map_filter)
    then have "fst x' = fst x" using Cons.prems(2) [of x' z] Cons.prems(2) [of x y] y inj by simp
    with z(2) Cons.prems(1) show False by (metis distinct.simps(2) imageI list.simps(9) list.set_map)
  qed
  moreover have "distinct (map fst (List.map_filter h l))" using Cons by simp
  ultimately show ?case by (cases "h x") (simp_all add: map_filter_simps)
qed (simp add: map_filter_simps)

lemma to_fields_distinct:
  assumes "dict_ok st" and "hm_ok (sd_fields doc)"
  shows "distinct (map fst (stored_doc_to_fields st doc))"
  unfolding stored_doc_to_fields_def
proof (rule distinct_map_filter [where key = "hm_get (dv_field_to_idx st)"])
  show "distinct (map fst (sd_fields doc))" using assms(2) by (simp add: hm_ok_def)
  show "a = b" if "hm_get (dv_field_to_idx st) a = Some i" "hm_get (dv_field_to_idx st) b = Some i" for a b i
    using assms(1) that unfolding dict_ok_def by (metis option.inject)
qed (auto simp: Let_def split: option.splits if_splits)

definition elided :: "doc_store \<Rightarrow> u16 \<Rightarrow> field_value \<Rightarrow> bool" where
  "elided st idx fv = (case hm_get (dv_field_defaults st) idx of Some d \<Rightarrow> packed_value_eq (field_value_to_packed fv) d | None \<Rightarrow> False)"

lemma to_fields_in:
  "(idx, pv) \<in> set (stored_doc_to_fields st doc) \<longleftrightarrow>
    (\<exists>name fv. (name, fv) \<in> set (sd_fields doc) \<and> hm_get (dv_field_to_idx st) name = Some idx \<and>
      pv = field_value_to_packed fv \<and> \<not> elided st idx fv)"
proof -
  have "(case hm_get (dv_field_to_idx st) n of None \<Rightarrow> None
      | Some i \<Rightarrow> let v = field_value_to_packed fv
          in if (case hm_get (dv_field_defaults st) i of Some d \<Rightarrow> packed_value_eq v d | None \<Rightarrow> False) then None else Some (i, v)) = Some (idx, pv) \<longleftrightarrow>
    hm_get (dv_field_to_idx st) n = Some idx \<and> pv = field_value_to_packed fv \<and> \<not> elided st idx fv" for n fv
    by (cases "hm_get (dv_field_to_idx st) n") (auto simp: elided_def Let_def)
  then show ?thesis
    unfolding stored_doc_to_fields_def in_map_filter by (simp add: Bex_def)
qed

lemma to_fields_get:
  assumes "dict_ok st" and "hm_ok (sd_fields doc)" and "hm_get (dv_field_to_idx st) name = Some idx"
  shows "map_of (stored_doc_to_fields st doc) idx =
    (case hm_get (sd_fields doc) name of None \<Rightarrow> None
     | Some fv \<Rightarrow> if elided st idx fv then None else Some (field_value_to_packed fv))"
proof -
  have inj: "n = name" if "hm_get (dv_field_to_idx st) n = Some idx" for n
    using assms(1,3) that unfolding dict_ok_def by (metis option.inject)
  have "map_of (stored_doc_to_fields st doc) idx = Some pv \<longleftrightarrow>
      (\<exists>fv. hm_get (sd_fields doc) name = Some fv \<and> pv = field_value_to_packed fv \<and> \<not> elided st idx fv)" for pv
    unfolding map_of_eq_Some_iff [OF to_fields_distinct [OF assms(1,2)]] to_fields_in hm_get_in [OF assms(2)]
    using inj assms(3) by blast
  then have "map_of (stored_doc_to_fields st doc) idx = Some pv \<longleftrightarrow> (case hm_get (sd_fields doc) name of None \<Rightarrow> None
     | Some fv \<Rightarrow> if elided st idx fv then None else Some (field_value_to_packed fv)) = Some pv" for pv
    by (auto split: option.splits)
  then show ?thesis by (metis option.exhaust)
qed

lemma put_then_read:
  assumes dict: "dict_ok st" and doc: "hm_ok (sd_fields doc)" and known: "\<And>name. hm_get (sd_fields doc) name \<noteq> None \<Longrightarrow> hm_get (dv_field_to_idx st) name \<noteq> None"
    and floats: "\<And>idx d. hm_get (dv_field_defaults st) idx = Some d \<Longrightarrow> no_float d"
  shows "hm_get (sd_fields (fields_to_stored_doc st (stored_doc_to_fields st doc))) name =
    (case hm_get (sd_fields doc) name of Some v \<Rightarrow> Some v | None \<Rightarrow> default_value st name)"
proof (cases "hm_get (dv_field_to_idx st) name")
  case None
  then have "hm_get (sd_fields doc) name = None" using known [of name] by blast
  with None show ?thesis
    by (simp add: stored_doc_field [OF dict to_fields_distinct [OF dict doc]] default_value_def)
next
  case (Some idx)
  have "field_value_to_packed fv = d" if "hm_get (dv_field_defaults st) idx = Some d" "packed_value_eq (field_value_to_packed fv) d" for fv d
    using packed_value_eq_same [OF that(2) floats [OF that(1)]] .
  then have "packed_to_field_value d = fv" if "hm_get (dv_field_defaults st) idx = Some d" "packed_value_eq (field_value_to_packed fv) d" for fv d
    using that field_value_packed by metis
  with Some show ?thesis
    by (auto simp: stored_doc_field [OF dict to_fields_distinct [OF dict doc]] to_fields_get [OF dict doc Some] default_value_def elided_def
      split: option.splits if_splits)
qed


section \<open>Properties\<close>

lemma docs_inv_open: "docs_inv crc 0 (dv_open root [] [] []) Map.empty"
  unfolding docs_inv_def
  by (intro exI [of _ Map.empty]) (simp add: dv_open_def load_field_dict_def sweep_orphan_new_files_def dc.store_inv_empty)

text \<open>C10: The document store refines a map from slots to documents.  Whatever sequence of batches of
  sets, appends and removes, whole documents, compactions, changes of defaults and drains of the
  dirty set runs on an empty store, within the limits of the encodings: every call succeeds, and a
  read of a slot returns exactly the ops on that slot applied one after the other, in the order of
  the calls and, within a mixed batch, sets before appends before removes.  Sharding, the grouping of
  a batch by shard, the log, its checksums and compaction are invisible.\<close>

theorem documents_refine:
  assumes "dv_run_ok mp crc calls (dv_open root [] [] [])" and "sum_list (map dv_call_size calls) < 2 ^ 32"
  shows "\<exists>st ops. dv_run mp crc calls (dv_open root [] [] []) = (st, ops, Inr ()) \<and>
    (\<forall>slot. dv_get crc st slot = Inr (map_option (fields_to_stored_doc st) (fold slot_apply (at_slot slot ops) None)))"
  using docs_inv_run [OF docs_inv_open assms(1)] assms(2) docs_inv_get by fastforce

definition sample_doc :: stored_doc where
  "sample_doc = \<lparr>sd_fields = [(''name'', Single (VString ''x'')), (''tags'', Multi [VInteger 7, VInteger 8])], sd_schema_version = 1\<rparr>"

definition sample_calls :: "dv_call list" where
  "sample_calls = [CallPut [(5, sample_doc)], CallMixed [(5, 0, encode_packed_value (PS ''y''))] [(5, 1, PI 9)] [(5, 1, PI 7)], CallDrain]"

definition sample_msgpack :: msgpack where
  "sample_msgpack = \<lparr>mp_to_vec = encode_packed_value,
     mp_from_slice = (\<lambda>bytes. case decode_packed_value bytes of Inr (pv, []) \<Rightarrow> Some pv | _ \<Rightarrow> None),
     mp_fields_to_vec = (\<lambda>flds. concat (map encode_field_pair flds)), mp_fields_from_slice = (\<lambda>_. None)\<rparr>"

lemma sample_msgpack_value [simp]:
  "packed_ok pv \<Longrightarrow> mp_from_slice sample_msgpack (encode_packed_value pv) = Some pv"
  using decode_encode_packed [of pv "[]"] by (simp add: sample_msgpack_def)

lemma small_string [simp]: "rust_string ''x''" "rust_string ''y''"
  by (rule ascii_rust_string; simp)+

lemma sample_put:
  "dv_emits mp (CallPut [(5, sample_doc)]) (dv_open root [] [] []) = [DocCreate 5 [(0, PS ''x''), (1, PMi [7, 8])]]"
  "dv_call_ok mp crc (CallPut [(5, sample_doc)]) (dv_open root [] [] [])"
  by (simp_all add: sample_doc_def doc_names_def dv_open_def load_field_dict_def ensure_field_idx_def put_ops_def
      stored_doc_to_fields_def map_filter_simps List.map_filter_def Let_def doc_op_ok_def fields_ok_def encode_fields_def
      encode_field_pair_def len_u32_def)

theorem documents_refine_witness:
  "dv_run_ok sample_msgpack (\<lambda>_. 0) sample_calls (dv_open ''d'' [] [] []) \<and>
   (\<exists>st ops. dv_run sample_msgpack (\<lambda>_. 0) sample_calls (dv_open ''d'' [] [] []) = (st, ops, Inr ()) \<and>
    (\<forall>slot. dv_get (\<lambda>_. 0) st slot = Inr (map_option (fields_to_stored_doc st) (fold slot_apply (at_slot slot ops) None))))"
proof -
  have "list_all doc_op_ok (mixed_ops [(5, 0, PS ''y'')] [(5, 1, PI 9)] [(5, 1, PI 7)])"
    by (simp add: mixed_ops_def doc_op_ok_def encode_field_pair_def len_u32_def)
  moreover have "decode_tuples sample_msgpack [(5, 0, encode_packed_value (PS ''y''))] = Inr [(5, 0, PS ''y'')]"
    by (simp del: encode_packed_value.simps)
  ultimately have ok: "dv_run_ok sample_msgpack (\<lambda>_. 0) sample_calls (dv_open ''d'' [] [] [])"
    by (simp add: sample_calls_def sample_put decoded_def del: dv_call_ok.simps(1) encode_packed_value.simps decode_tuples.simps)
  moreover have "sum_list (map dv_call_size sample_calls) < 2 ^ 32" by (simp add: sample_calls_def)
  ultimately show ?thesis using documents_refine by blast
qed

lemma put_read:
  assumes "dv_run_ok mp crc calls (dv_open root [] [] [])" and "sum_list (map dv_call_size calls) + 1 < 2 ^ 32"
    and "dv_run mp crc calls (dv_open root [] [] []) = (st, ops, Inr ())" and "hm_ok (sd_fields doc)"
    and "dv_call_ok mp crc (CallPut [(slot, doc)]) st" and "list_all (\<lambda>(_, d). no_float d) (dv_field_defaults st)"
  shows "\<exists>st' sd. dv_put crc slot doc st = (st', Inr ()) \<and> dv_get crc st' slot = Inr (Some sd) \<and>
    dv_field_defaults st' = dv_field_defaults st \<and> (\<forall>name. hm_get (sd_fields sd) name =
      (case hm_get (sd_fields doc) name of Some v \<Rightarrow> Some v | None \<Rightarrow> default_value st' name))"
proof -
  obtain n where n: "docs_inv crc n st (\<lambda>slot. fold slot_apply (at_slot slot ops) None)" "n + 1 < 2 ^ 32"
    using docs_inv_run [OF docs_inv_open assms(1)] assms(2,3) by fastforce
  have dict: "dict_ok st" using dict_ok_run [OF dict_ok_empty assms(3)] .
  show ?thesis
  proof (rule docs_inv_put [OF n(1) assms(5)])
    show "n + length [(slot, doc)] < 2 ^ 32" using n(2) by simp
  next
    fix st'
    assume put: "dv_put_batch crc [(slot, doc)] st = (st', Inr ())"
      and inv: "docs_inv crc (n + length [(slot, doc)]) st' (\<lambda>s. fold slot_apply (at_slot s (dv_emits mp (CallPut [(slot, doc)]) st))
        (fold slot_apply (at_slot s ops) None))"
    note st' = put_dict [OF dict put]
    have "dv_get crc st' slot = Inr (Some (fields_to_stored_doc st' (stored_doc_to_fields st' doc)))"
      using docs_inv_get [OF inv, of slot] st'(3) by (simp add: put_ops_def)
    moreover have "no_float d" if "hm_get (dv_field_defaults st') idx = Some d" for idx d
      using that assms(6) st'(2) map_of_SomeD by (fastforce simp: list_all_iff)
    moreover have "hm_get (dv_field_to_idx st') name \<noteq> None" if "hm_get (sd_fields doc) name \<noteq> None" for name
      using that st'(4) by (force dest: map_of_SomeD)
    ultimately show ?thesis
      using put put_then_read [OF st'(1) assms(4)] st'(2) by (auto simp: dv_put_def)
  qed
qed

text \<open>C17: A document that is put is the document that is read.  On a store reached by any sequence of
  calls, a put within the limits succeeds, and a read returns the document's own value for each of
  its fields, also where the value was left out of the file because it is the default, and the
  default of the schema for the others.\<close>

theorem put_get:
  assumes "dv_run_ok mp crc calls (dv_open root [] [] [])" and "sum_list (map dv_call_size calls) + 1 < 2 ^ 32"
    and "dv_run mp crc calls (dv_open root [] [] []) = (st, ops, Inr ())" and "hm_ok (sd_fields doc)"
    and "dv_call_ok mp crc (CallPut [(slot, doc)]) st" and "list_all (\<lambda>(_, d). no_float d) (dv_field_defaults st)"
  shows "\<exists>st' sd. dv_put crc slot doc st = (st', Inr ()) \<and> dv_get crc st' slot = Inr (Some sd) \<and>
    (\<forall>name. hm_get (sd_fields sd) name =
      (case hm_get (sd_fields doc) name of Some v \<Rightarrow> Some v | None \<Rightarrow> default_value st' name))"
  using put_read [OF assms] by blast

theorem put_get_witness:
  "\<exists>st' sd. dv_put (\<lambda>_. 0) 5 sample_doc (dv_open ''d'' [] [] []) = (st', Inr ()) \<and> dv_get (\<lambda>_. 0) st' 5 = Inr (Some sd) \<and>
    (\<forall>name. hm_get (sd_fields sd) name =
      (case hm_get (sd_fields sample_doc) name of Some v \<Rightarrow> Some v | None \<Rightarrow> default_value st' name))"
proof (rule put_get [of sample_msgpack _ "[]"])
  show "list_all (\<lambda>(_, d). no_float d) (dv_field_defaults (dv_open ''d'' [] [] []))"
    by (simp add: dv_open_def load_field_dict_def)
qed (simp_all add: sample_put del: dv_call_ok.simps(1), simp add: sample_doc_def hm_ok_def)


definition crash_path :: string where
  "crash_path = slot_shard_path ''d'' 0"



section \<open>Where the code and its comments part\<close>

text \<open>The sweep promotes a \<open>.new\<close> file on the strength of its header alone.  A file that was cut off
  after the header, which the comment says is deleted, replaces the good shard, which is lost.\<close>

lemma truncated_new_file_promoted:
  fixes snap :: doc_snapshot
  defines "snap \<equiv> \<lparr>ds_docs = [(5, [])]\<rparr>"
  defines "dir \<equiv> [(crash_path, snapshot_bytes_of (doc_codec (\<lambda>_. 0)) snap)]"
  shows "store_read (doc_codec (\<lambda>_. 0)) dir crash_path = Inr (Some snap) \<and>
    store_read (doc_codec (\<lambda>_. 0))
      (sweep_orphan_new_files (torn_write crash_path (snapshot_bytes_of (doc_codec (\<lambda>_. 0)) snap) 30 dir)) crash_path =
    Inl (IoErr UnexpectedEof)"
proof -
  let ?C = "doc_codec (\<lambda>_. 0)"
  have path: "shard_path_ok crash_path" unfolding crash_path_def by simp
  have ok: "snapshot_ok snap"
    by (simp add: snap_def snapshot_ok_def hm_ok_def fields_ok_def encode_snapshot_def encode_fields_def len_u32_def)
  have inv: "store_inv ?C doc_op_ok 0 dir [crash_path \<mapsto> snap]"
    using store_inv_put [OF dc.store_inv_empty path dc.snapshot_file [OF ok], of snap]
    by (simp add: dir_def snapshot_bytes_of_def)
  have enc: "length (cd_encode ?C snap) = 10"
    by (simp add: snap_def doc_codec_def encode_snapshot_def encode_fields_def len_u32_def)
  let ?h = "snapshot_header (cd_encode ?C snap)"
  define c where "c = take 30 (snapshot_bytes_of ?C snap)"
  have c: "c = hd_encode ?h @ take 2 (cd_encode ?C snap)" "length c = 30" "hd_version ?h = SHARD_VERSION" "hd_snapshot_len ?h = 10"
    using enc by (simp_all add: c_def snapshot_bytes_of_def shard_file_bytes_def SHARD_HEADER_SIZE_def snapshot_header_def)
  then have prom: "new_file_is_promotable c"
    by (simp add: new_file_is_promotable_def SHARD_HEADER_SIZE_def [symmetric])
  have "read_shard_file_raw c = Inl (IoErr UnexpectedEof)"
    using c by (simp add: read_shard_file_raw_def Let_def)
  then have "store_read ?C (sweep_orphan_new_files (torn_write crash_path (snapshot_bytes_of ?C snap) 30 dir)) crash_path = Inl (IoErr UnexpectedEof)"
    using prom c(2) path
    by (simp add: torn_write_def fold_sweep [OF inv path] c_def [symmetric] store_read_def is_valid_shard_file_def
      SHARD_HEADER_SIZE_def read_content_def)
  with dc.store_inv_read [OF inv, of crash_path] show ?thesis by simp
qed

text \<open>A torn entry at the end of a log, which a crash leaves, ends every later read of the log: what
  is appended behind it afterwards is acknowledged and never seen.\<close>

lemma torn_entry_hides_later_ops:
  fixes content :: "u8 list"
  defines "content \<equiv> shard_file_bytes (ops_only_header 1) [] (log_bytes (doc_codec (\<lambda>_. 0)) [DocDelete 5])"
  defines "dir \<equiv> torn_append (doc_codec (\<lambda>_. 0)) crash_path [DocDelete 6] 9 [(crash_path, content)]"
  shows "snd (append_ops (doc_codec (\<lambda>_. 0)) crash_path [DocCreate 7 []] dir) = Inr () \<and>
    store_read (doc_codec (\<lambda>_. 0)) (fst (append_ops (doc_codec (\<lambda>_. 0)) crash_path [DocCreate 7 []] dir)) crash_path =
      Inr (Some doc_snapshot_new)"
proof -
  let ?C = "doc_codec (\<lambda>_. 0)"
  let ?log = "log_bytes ?C [DocDelete 5]" and ?t = "take 9 (log_bytes ?C [DocDelete 6])"
  define c where "c = hd_encode (ops_only_header 1) @ ?log @ ?t"
  have dir: "hm_get dir crash_path = Some c" by (simp add: dir_def torn_append_def content_def shard_file_bytes_def c_def)
  have w: "write_at HEADER_OPS_COUNT_OFFSET (to_le_bytes 4 (2 :: u32)) (c @ log_bytes ?C [DocCreate 7 []]) =
      hd_encode (ops_only_header 2) @ ?log @ ?t @ log_bytes ?C [DocCreate 7 []]"
    using write_count [of 2 "ops_only_header 1" "?log @ ?t @ log_bytes ?C [DocCreate 7 []]"]
    by (simp add: c_def) (simp add: ops_only_header_def)
  have "take SHARD_HEADER_SIZE c = hd_encode (ops_only_header 1)" "SHARD_HEADER_SIZE \<le> length c"
    "hd_version (ops_only_header 1) = SHARD_VERSION" "hd_ops_count (ops_only_header 1) + 1 = 2"
    by (simp_all add: c_def ops_only_header_def)
  then have app: "append_ops ?C crash_path [DocCreate 7 []] dir =
      (hm_insert crash_path (hd_encode (ops_only_header 2) @ ?log @ ?t @ log_bytes ?C [DocCreate 7 []]) dir, Inr ())"
    using dir w by (simp add: append_ops_def Let_def is_valid_shard_file_def append_ops_to_shard_opts_def)
  have ok: "list_all doc_op_ok [DocDelete 5]" by (simp add: doc_op_ok_def)
  have "read_op_entries ?C (?t @ log_bytes ?C [DocCreate 7 []]) = Inr []"
    by (subst read_op_entries.simps)
       (simp add: doc_codec_def write_op_entry_def Let_def tag_defs encode_fields_def to_le_bytes_def upt_rec)
  then have "read_op_entries ?C (?log @ ?t @ log_bytes ?C [DocCreate 7 []]) = Inr [DocDelete 5]"
    using dc.read_log [OF ok, of "\<lambda>_. 0" "?t @ log_bytes ?C [DocCreate 7 []]"] by simp
  then have "read_content ?C (hd_encode (ops_only_header 2) @ ?log @ ?t @ log_bytes ?C [DocCreate 7 []]) = Inr doc_snapshot_new"
    using read_raw [of "ops_only_header 2" "[]" "?log @ ?t @ log_bytes ?C [DocCreate 7 []]"]
    by (simp add: read_content_def ops_only_header_def SHARD_HEADER_SIZE_def doc_snapshot_new_def)
  then show ?thesis by (simp add: app store_read_def is_valid_shard_file_def)
qed

text \<open>A value equal to its default is not written, and the file does not say under which schema it was
  left out: a change of the default changes the documents that had the old one.\<close>

lemma default_change_rewrites_documents:
  fixes st :: doc_store and doc :: stored_doc
  defines "st \<equiv> set_field_defaults 1 [(''a'', PI 0)] (fst (ensure_field_index ''a'' (dv_open ''d'' [] [] [])))"
  defines "doc \<equiv> \<lparr>sd_fields = [(''a'', Single (VInteger 0))], sd_schema_version = 1\<rparr>"
  shows "hm_get (sd_fields (fields_to_stored_doc st (stored_doc_to_fields st doc))) ''a'' = Some (Single (VInteger 0)) \<and>
    hm_get (sd_fields (fields_to_stored_doc (set_field_defaults 2 [(''a'', PI 1)] st) (stored_doc_to_fields st doc))) ''a'' =
      Some (Single (VInteger 1))"
  by (simp add: st_def doc_def ensure_field_index_def ensure_field_idx_def dv_open_def load_field_dict_def save_field_dict_def
    set_field_defaults_def stored_doc_to_fields_def fields_to_stored_doc_def field_name_def Let_def map_filter_simps)

text \<open>The error for a truncated value is never returned: the slice before it panics.\<close>

lemma truncated_value_panics: "decode_packed_value [PV_TAG_I, 0] = Inl Panicked"
  by (simp add: tag_defs take_bytes_def)

end
