(* ===== verification/Doc_Stream.thy ===== *)
theory Doc_Stream
  imports Doc_Store
begin

text \<open>
  The streaming writer of the bulk loader (\<open>StreamingDocWriter\<close> of \<open>shard_store_doc.rs\<close>), which frames
  ops itself and writes them through one buffered file per shard.

  A file handle is its path and its offset; while the writer holds a shard open nothing else replaces
  the file.  The calls of the file system succeed.
\<close>

section \<open>Buffered files\<close>

definition BUF_CAPACITY :: nat where "BUF_CAPACITY = 8192"

record shard_file_writer =
  sw_path :: string
  sw_pos :: nat
  sw_buf :: "u8 list"
  sw_ops_count :: u32

definition file_write :: "u8 list \<Rightarrow> shard_file_writer \<times> store_dir \<Rightarrow> shard_file_writer \<times> store_dir" where
  "file_write bytes = (\<lambda>(w, dir).
     (w\<lparr>sw_pos := sw_pos w + length bytes\<rparr>,
      hm_insert (sw_path w) (write_at (sw_pos w) bytes (case hm_get dir (sw_path w) of Some content \<Rightarrow> content | None \<Rightarrow> [])) dir))"

definition flush_buf :: "shard_file_writer \<times> store_dir \<Rightarrow> shard_file_writer \<times> store_dir" where
  "flush_buf = (\<lambda>(w, dir). let (w', dir) = file_write (sw_buf w) (w, dir) in (w'\<lparr>sw_buf := []\<rparr>, dir))"

definition buf_write_all :: "u8 list \<Rightarrow> shard_file_writer \<times> store_dir \<Rightarrow> shard_file_writer \<times> store_dir" where
  "buf_write_all bytes = (\<lambda>(w, dir).
     if length bytes < BUF_CAPACITY - length (sw_buf w) then (w\<lparr>sw_buf := sw_buf w @ bytes\<rparr>, dir)
     else let (w, dir) = (if length bytes > BUF_CAPACITY - length (sw_buf w) then flush_buf (w, dir) else (w, dir))
       in if length bytes \<ge> BUF_CAPACITY then file_write bytes (w, dir)
          else (w\<lparr>sw_buf := sw_buf w @ bytes\<rparr>, dir))"


section \<open>The writer\<close>

record stream_writer =
  tw_field_to_idx :: "(string, u16) hashmap"
  tw_field_defaults :: "(u16, packed_value) hashmap"
  tw_root :: string
  tw_shards :: "(u32, shard_file_writer) hashmap"

type_synonym stream_state = "stream_writer \<times> store_dir"

definition tw_new :: "string \<Rightarrow> (string, u16) hashmap \<Rightarrow> (u16, packed_value) hashmap \<Rightarrow> stream_writer" where
  "tw_new root field_to_idx field_defaults =
     \<lparr>tw_field_to_idx = field_to_idx, tw_field_defaults = field_defaults, tw_root = root, tw_shards = []\<rparr>"

definition prepare_streaming_writer :: "string list \<Rightarrow> doc_store \<Rightarrow> doc_store \<times> (doc_error + stream_writer)" where
  "prepare_streaming_writer field_names st =
     (let old_len = length (dv_idx_to_field st); (st, r) = ensure_all field_names st
      in case r of
           Inl e \<Rightarrow> (st, Inl e)
         | Inr _ \<Rightarrow>
             let st = (if length (dv_idx_to_field st) > old_len then save_field_dict st else st)
             in (st, Inr (tw_new (dv_root st) (dv_field_to_idx st) (dv_field_defaults st))))"

definition open_shard :: "stream_writer \<Rightarrow> u32 \<Rightarrow> store_dir \<Rightarrow> shard_file_writer \<times> store_dir" where
  "open_shard tw shard_key dir =
     (let path = slot_shard_path (tw_root tw) shard_key;
          fresh = (\<lparr>sw_path = path, sw_pos = 0, sw_buf = hd_encode (ops_only_header 0), sw_ops_count = 0\<rparr>, hm_insert path [] dir)
      in case hm_get dir path of
           None \<Rightarrow> fresh
         | Some content \<Rightarrow>
             if length content \<ge> SHARD_HEADER_SIZE
             then case hd_decode (take SHARD_HEADER_SIZE content) of
                 Inr header \<Rightarrow> (\<lparr>sw_path = path, sw_pos = length content, sw_buf = [], sw_ops_count = hd_ops_count header\<rparr>, dir)
               | Inl _ \<Rightarrow> fresh
             else fresh)"

text \<open>The end of every write: the shard's file, opened when it is not, and the framed payload.\<close>

definition append_payload :: "(u8 list \<Rightarrow> u32) \<Rightarrow> u32 \<Rightarrow> u8 list \<Rightarrow> stream_state \<Rightarrow> stream_state" where
  "append_payload crc slot payload = (\<lambda>(tw, dir).
     let shard_key = slot_to_shard slot;
         (w, dir) = (case hm_get (tw_shards tw) shard_key of Some w \<Rightarrow> (w, dir) | None \<Rightarrow> open_shard tw shard_key dir);
         (w, dir) = fold buf_write_all [to_le_bytes 4 (of_nat (length payload) :: u32), payload, to_le_bytes 4 (crc payload)] (w, dir)
     in (tw\<lparr>tw_shards := hm_insert shard_key (w\<lparr>sw_ops_count := sw_ops_count w + 1\<rparr>) (tw_shards tw)\<rparr>, dir))"

definition tw_is_default :: "stream_writer \<Rightarrow> u16 \<Rightarrow> packed_value \<Rightarrow> bool" where
  "tw_is_default tw field pv = (case hm_get (tw_field_defaults tw) field of Some d \<Rightarrow> packed_value_eq d pv | None \<Rightarrow> False)"

definition non_default :: "stream_writer \<Rightarrow> packed_fields \<Rightarrow> packed_fields" where
  "non_default tw flds = filter (\<lambda>(field, pv). \<not> tw_is_default tw field pv) flds"

definition write_doc :: "(u8 list \<Rightarrow> u32) \<Rightarrow> u32 \<Rightarrow> packed_fields \<Rightarrow> stream_state \<Rightarrow> stream_state" where
  "write_doc crc slot flds s =
     (let flds = non_default (fst s) flds
      in if flds = [] then s else append_payload crc slot (encode_op (DocCreate slot flds)) s)"

definition write_merge_doc :: "(u8 list \<Rightarrow> u32) \<Rightarrow> u32 \<Rightarrow> packed_fields \<Rightarrow> stream_state \<Rightarrow> stream_state" where
  "write_merge_doc crc slot flds s =
     (let flds = non_default (fst s) flds
      in if flds = [] then s else append_payload crc slot (encode_op (DocMerge slot flds)) s)"

definition write_field :: "(u8 list \<Rightarrow> u32) \<Rightarrow> u32 \<Rightarrow> u16 \<Rightarrow> packed_value \<Rightarrow> stream_state \<Rightarrow> stream_state" where
  "write_field crc slot field pv s =
     (if tw_is_default (fst s) field pv then s else append_payload crc slot (encode_op (DocSet slot field pv)) s)"

definition tw_append_tuples_raw ::
    "msgpack \<Rightarrow> (u8 list \<Rightarrow> u32) \<Rightarrow> u32 \<Rightarrow> (u16 \<times> u8 list) list \<Rightarrow> stream_state \<Rightarrow> stream_state" where
  "tw_append_tuples_raw mp crc slot tuples s =
     (if tuples = [] then s
      else let flds = kept_tuples mp (tw_is_default (fst s)) tuples
        in if flds = [] then s else append_payload crc slot (encode_op (DocCreate slot flds)) s)"

definition tw_append_tuples_merge ::
    "msgpack \<Rightarrow> (u8 list \<Rightarrow> u32) \<Rightarrow> u32 \<Rightarrow> (u16 \<times> u8 list) list \<Rightarrow> stream_state \<Rightarrow> stream_state" where
  "tw_append_tuples_merge mp crc slot tuples s =
     (if tuples = [] then s
      else let flds = kept_tuples mp (tw_is_default (fst s)) tuples
        in if flds = [] then s else append_payload crc slot (encode_op (DocMerge slot flds)) s)"

definition append_merge_payload :: "(u8 list \<Rightarrow> u32) \<Rightarrow> u32 \<Rightarrow> u8 list \<Rightarrow> stream_state \<Rightarrow> stream_state" where
  "append_merge_payload crc slot payload s = (if payload = [] then s else append_payload crc slot payload s)"

definition tw_append_tuple_raw :: "msgpack \<Rightarrow> (u8 list \<Rightarrow> u32) \<Rightarrow> u32 \<Rightarrow> u16 \<Rightarrow> u8 list \<Rightarrow> stream_state \<Rightarrow> stream_state" where
  "tw_append_tuple_raw mp crc slot field value_bytes s =
     (case mp_from_slice mp value_bytes of
        None \<Rightarrow> s
      | Some pv \<Rightarrow> if tw_is_default (fst s) field pv then s else write_field crc slot field pv s)"

text \<open>\<open>finalize\<close>: each file is flushed, gets its count of ops, and is set back to its end.\<close>

definition finalize_shard :: "shard_file_writer \<times> store_dir \<Rightarrow> shard_file_writer \<times> store_dir" where
  "finalize_shard = (\<lambda>(w, dir).
     let (w, dir) = flush_buf (w, dir);
         (w, dir) = file_write (to_le_bytes 4 (sw_ops_count w)) (w\<lparr>sw_pos := HEADER_OPS_COUNT_OFFSET\<rparr>, dir)
     in (w\<lparr>sw_pos := (case hm_get dir (sw_path w) of Some content \<Rightarrow> length content | None \<Rightarrow> 0)\<rparr>, dir))"

definition finalize_key :: "u32 \<Rightarrow> stream_state \<Rightarrow> stream_state" where
  "finalize_key shard_key = (\<lambda>(tw, dir). case hm_get (tw_shards tw) shard_key of
      None \<Rightarrow> (tw, dir)
    | Some w \<Rightarrow>
        let (w, dir) = finalize_shard (w, dir)
        in (tw\<lparr>tw_shards := hm_insert shard_key w (tw_shards tw)\<rparr>, dir))"

definition tw_finalize :: "stream_state \<Rightarrow> stream_state" where
  "tw_finalize s = fold finalize_key (map fst (tw_shards (fst s))) s"


section \<open>What a buffered file stands for\<close>

text \<open>The bytes of the file once the buffer is flushed, for a handle at the end of its file.\<close>

definition at_end :: "shard_file_writer \<times> store_dir \<Rightarrow> bool" where
  "at_end = (\<lambda>(w, dir). \<exists>content. hm_get dir (sw_path w) = Some content \<and> sw_pos w = length content)"

definition with_buffer :: "shard_file_writer \<times> store_dir \<Rightarrow> u8 list" where
  "with_buffer = (\<lambda>(w, dir). (case hm_get dir (sw_path w) of Some content \<Rightarrow> content | None \<Rightarrow> []) @ sw_buf w)"

definition same_handle :: "shard_file_writer \<times> store_dir \<Rightarrow> shard_file_writer \<times> store_dir \<Rightarrow> bool" where
  "same_handle = (\<lambda>(w, dir) (w', dir'). sw_path w' = sw_path w \<and> sw_ops_count w' = sw_ops_count w \<and>
     (\<forall>p. p \<noteq> sw_path w \<longrightarrow> hm_get dir' p = hm_get dir p))"

lemma same_handle_trans: "same_handle a b \<Longrightarrow> same_handle b c \<Longrightarrow> same_handle a c"
  by (auto simp: same_handle_def)

lemma flush_buf_props:
  "at_end s \<Longrightarrow> at_end (flush_buf s) \<and> with_buffer (flush_buf s) = with_buffer s \<and> sw_buf (fst (flush_buf s)) = [] \<and>
    same_handle s (flush_buf s)"
  by (cases s) (auto simp: at_end_def flush_buf_def file_write_def with_buffer_def same_handle_def Let_def)

lemma buffered_props:
  assumes "at_end s"
  shows "at_end (fst s\<lparr>sw_buf := sw_buf (fst s) @ bytes\<rparr>, snd s) \<and>
    with_buffer (fst s\<lparr>sw_buf := sw_buf (fst s) @ bytes\<rparr>, snd s) = with_buffer s @ bytes \<and>
    same_handle s (fst s\<lparr>sw_buf := sw_buf (fst s) @ bytes\<rparr>, snd s)"
  using assms by (cases s) (auto simp: at_end_def with_buffer_def same_handle_def)

lemma file_write_props:
  assumes "at_end s" and "sw_buf (fst s) = []"
  shows "at_end (file_write bytes s) \<and> with_buffer (file_write bytes s) = with_buffer s @ bytes \<and> same_handle s (file_write bytes s)"
  using assms by (cases s) (auto simp: at_end_def file_write_def with_buffer_def same_handle_def)

lemma buf_write_all_props:
  assumes "at_end s"
  shows "at_end (buf_write_all bytes s) \<and> with_buffer (buf_write_all bytes s) = with_buffer s @ bytes \<and>
    same_handle s (buf_write_all bytes s)"
proof -
  let ?full = "length bytes > BUF_CAPACITY - length (sw_buf (fst s))"
  define s1 where "s1 = (if ?full then flush_buf s else s)"
  have s1: "at_end s1" "with_buffer s1 = with_buffer s" "same_handle s s1" "?full \<Longrightarrow> sw_buf (fst s1) = []"
    using flush_buf_props [OF assms] assms by (auto simp: s1_def same_handle_def)
  have eq: "buf_write_all bytes s =
      (if length bytes < BUF_CAPACITY - length (sw_buf (fst s)) then (fst s\<lparr>sw_buf := sw_buf (fst s) @ bytes\<rparr>, snd s)
       else if length bytes \<ge> BUF_CAPACITY then file_write bytes s1 else (fst s1\<lparr>sw_buf := sw_buf (fst s1) @ bytes\<rparr>, snd s1))"
    by (cases s) (simp add: buf_write_all_def s1_def case_prod_beta Let_def)
  have "sw_buf (fst s1) = []" if "length bytes \<ge> BUF_CAPACITY"
  proof (cases "sw_buf (fst s) = []")
    case True
    with that s1(4) show ?thesis by (auto simp: s1_def)
  next
    case False
    then have ?full using that by (cases "sw_buf (fst s)") (simp_all add: BUF_CAPACITY_def)
    then show ?thesis by (rule s1(4))
  qed
  then show ?thesis
    unfolding eq using buffered_props [OF assms] buffered_props [OF s1(1)] file_write_props [OF s1(1)] s1(2)
      same_handle_trans [OF s1(3)] by (simp split: if_splits)
qed

text \<open>The contents that \<open>finalize\<close> leaves of an open file.\<close>

definition finished :: "shard_file_writer \<times> store_dir \<Rightarrow> u8 list" where
  "finished s = write_at HEADER_OPS_COUNT_OFFSET (to_le_bytes 4 (sw_ops_count (fst s))) (with_buffer s)"

lemma finalize_shard_props:
  assumes "at_end (w, dir)"
  shows "at_end (finalize_shard (w, dir)) \<and> same_handle (w, dir) (finalize_shard (w, dir)) \<and>
    hm_get (snd (finalize_shard (w, dir))) (sw_path w) = Some (finished (w, dir)) \<and> sw_buf (fst (finalize_shard (w, dir))) = []"
  using assms
  by (auto simp: finalize_shard_def flush_buf_def file_write_def at_end_def same_handle_def finished_def with_buffer_def Let_def)

lemma write_at_over:
  assumes "length a = length b" and "pos + length b \<le> length v"
  shows "write_at pos b (write_at pos a v @ e) = write_at pos b (v @ e)"
  using assms by (simp add: write_at_def)

lemma header_count:
  assumes "write_at HEADER_OPS_COUNT_OFFSET (to_le_bytes 4 cnt) v = hd_encode h @ rest" and "SHARD_HEADER_SIZE \<le> length v"
  shows "hd_ops_count h = cnt"
proof -
  have "take 4 (drop 20 (write_at 20 (to_le_bytes 4 cnt) v)) = to_le_bytes 4 cnt"
    using assms(2) by (simp add: write_at_def SHARD_HEADER_SIZE_def)
  moreover have "take 4 (drop 20 (hd_encode h @ rest)) = to_le_bytes 4 (hd_ops_count h)"
    by (simp add: hd_encode_def SHARD_MAGIC_def)
  ultimately have "to_le_bytes 4 cnt = to_le_bytes 4 (hd_ops_count h)" using assms(1) by (simp add: HEADER_OPS_COUNT_OFFSET_def)
  then have "(from_le_bytes (to_le_bytes 4 cnt) :: u32) = from_le_bytes (to_le_bytes 4 (hd_ops_count h))" by simp
  then show ?thesis by simp
qed

lemma finished_grows:
  assumes "shard_file (doc_codec crc) doc_op_ok (finished s) base ops" and "doc_op_ok op" and "length ops + 1 < 2 ^ 32"
    and "with_buffer s' = with_buffer s @ write_op_entry (doc_codec crc) op" and "sw_ops_count (fst s') = sw_ops_count (fst s) + 1"
    and "SHARD_HEADER_SIZE \<le> length (with_buffer s)"
  shows "shard_file (doc_codec crc) doc_op_ok (finished s') base (ops @ [op])"
proof (rule dc.append_bytes [OF assms(1), of "[op]"])
  fix h
  assume dec: "hd_decode (take SHARD_HEADER_SIZE (finished s)) = Inr h"
    and fl: "shard_file (doc_codec crc) doc_op_ok (write_at HEADER_OPS_COUNT_OFFSET
      (to_le_bytes 4 (hd_ops_count h + of_nat (length [op]))) (finished s @ log_bytes (doc_codec crc) [op])) base (ops @ [op])"
  obtain h' rest where h': "finished s = hd_encode h' @ rest" "hd_version h' = SHARD_VERSION" using assms(1) by (auto simp: shard_file_def)
  then have "h' = h" using dec by simp
  then have "hd_ops_count h = sw_ops_count (fst s)"
    using header_count [OF _ assms(6)] h'(1) by (simp add: finished_def)
  moreover have "write_at HEADER_OPS_COUNT_OFFSET (to_le_bytes 4 (c :: u32)) (finished s @ e) =
      write_at HEADER_OPS_COUNT_OFFSET (to_le_bytes 4 c) (with_buffer s @ e)" for c e
    unfolding finished_def using assms(6)
    by (intro write_at_over) (simp_all add: HEADER_OPS_COUNT_OFFSET_def SHARD_HEADER_SIZE_def)
  ultimately show "shard_file (doc_codec crc) doc_op_ok (finished s') base (ops @ [op])"
    using fl by (simp add: finished_def [of s'] assms(4,5))
qed (use assms(2,3) in simp_all)


section \<open>The invariant\<close>

definition handles_ok :: "stream_writer \<Rightarrow> store_dir \<Rightarrow> bool" where
  "handles_ok tw dir \<longleftrightarrow> hm_ok (tw_shards tw) \<and>
     (\<forall>k w. hm_get (tw_shards tw) k = Some w \<longrightarrow> sw_path w = slot_shard_path (tw_root tw) k \<and> at_end (w, dir) \<and>
        SHARD_HEADER_SIZE \<le> length (with_buffer (w, dir)))"

text \<open>The contents of all files once everything is finalized.\<close>

definition final_holds :: "stream_writer \<Rightarrow> store_dir \<Rightarrow> (string \<rightharpoonup> u8 list) \<Rightarrow> bool" where
  "final_holds tw dir c \<longleftrightarrow>
     (\<forall>k. c (slot_shard_path (tw_root tw) k) =
        (case hm_get (tw_shards tw) k of
           Some w \<Rightarrow> Some (finished (w, dir)) | None \<Rightarrow> hm_get dir (slot_shard_path (tw_root tw) k))) \<and>
     (\<forall>p. p \<notin> range (slot_shard_path (tw_root tw)) \<longrightarrow> c p = hm_get dir p)"

lemma handle_cong:
  assumes "hm_get dir' (sw_path w) = hm_get dir (sw_path w)"
  shows "at_end (w, dir') = at_end (w, dir)" "with_buffer (w, dir') = with_buffer (w, dir)" "finished (w, dir') = finished (w, dir)"
  using assms by (simp_all add: at_end_def with_buffer_def finished_def)

lemma handle_update:
  assumes "handles_ok tw dir" and "final_holds tw dir c" and "at_end (w1, dir1)" and "sw_path w1 = slot_shard_path (tw_root tw) k"
    and "SHARD_HEADER_SIZE \<le> length (with_buffer (w1, dir1))"
    and others: "\<And>p. p \<noteq> slot_shard_path (tw_root tw) k \<Longrightarrow> hm_get dir1 p = hm_get dir p"
  shows "handles_ok (tw\<lparr>tw_shards := hm_insert k w1 (tw_shards tw)\<rparr>) dir1"
    and "final_holds (tw\<lparr>tw_shards := hm_insert k w1 (tw_shards tw)\<rparr>) dir1 (c(slot_shard_path (tw_root tw) k \<mapsto> finished (w1, dir1)))"
proof -
  have keep: "at_end (w, dir1) = at_end (w, dir)" "with_buffer (w, dir1) = with_buffer (w, dir)" "finished (w, dir1) = finished (w, dir)"
    if "hm_get (tw_shards tw) k' = Some w" "k' \<noteq> k" for k' w
    using handle_cong [of dir1 w dir] others assms(1) that by (auto simp: handles_ok_def)
  show "handles_ok (tw\<lparr>tw_shards := hm_insert k w1 (tw_shards tw)\<rparr>) dir1"
    using assms(1,3,4,5) keep by (auto simp: handles_ok_def)
  show "final_holds (tw\<lparr>tw_shards := hm_insert k w1 (tw_shards tw)\<rparr>) dir1 (c(slot_shard_path (tw_root tw) k \<mapsto> finished (w1, dir1)))"
    using assms(2) others keep by (auto simp: final_holds_def split: option.splits)
qed

lemma finished_again: "SHARD_HEADER_SIZE \<le> length (with_buffer s) \<Longrightarrow> with_buffer s' = finished s \<Longrightarrow>
    sw_ops_count (fst s') = sw_ops_count (fst s) \<Longrightarrow> finished s' = finished s \<and> length (with_buffer s') = length (with_buffer s)"
  by (simp add: finished_def write_at_def HEADER_OPS_COUNT_OFFSET_def SHARD_HEADER_SIZE_def)

lemma finalize_key_props:
  assumes "handles_ok tw dir" and "final_holds tw dir c" and step: "finalize_key k (tw, dir) = (tw1, dir1)"
  shows "handles_ok tw1 dir1 \<and> final_holds tw1 dir1 c \<and> tw_root tw1 = tw_root tw \<and> dom (hm_get (tw_shards tw1)) = dom (hm_get (tw_shards tw)) \<and>
    (k \<in> dom (hm_get (tw_shards tw)) \<longrightarrow> hm_get dir1 (slot_shard_path (tw_root tw) k) = c (slot_shard_path (tw_root tw) k)) \<and>
    (\<forall>p. p \<noteq> slot_shard_path (tw_root tw) k \<longrightarrow> hm_get dir1 p = hm_get dir p)"
proof (cases "hm_get (tw_shards tw) k")
  case None
  then have "tw1 = tw" "dir1 = dir" using step by (simp_all add: finalize_key_def)
  with assms(1,2) None show ?thesis by auto
next
  case (Some w)
  obtain w1 where fin: "finalize_shard (w, dir) = (w1, dir1)" "tw1 = tw\<lparr>tw_shards := hm_insert k w1 (tw_shards tw)\<rparr>"
    using step Some by (cases "finalize_shard (w, dir)") (auto simp: finalize_key_def)
  have w: "sw_path w = slot_shard_path (tw_root tw) k" "at_end (w, dir)" "SHARD_HEADER_SIZE \<le> length (with_buffer (w, dir))"
    using assms(1) Some by (auto simp: handles_ok_def)
  note f = finalize_shard_props [OF w(2), unfolded fin(1)]
  have same: "sw_path w1 = sw_path w" "sw_ops_count w1 = sw_ops_count w" "\<And>p. p \<noteq> sw_path w \<Longrightarrow> hm_get dir1 p = hm_get dir p"
    using f by (auto simp: same_handle_def)
  have buf: "with_buffer (w1, dir1) = finished (w, dir)" using f same(1) by (simp add: with_buffer_def)
  note again = finished_again [OF w(3) buf, simplified, OF same(2)]
  have "c(slot_shard_path (tw_root tw) k \<mapsto> finished (w1, dir1)) = c"
    using assms(2) Some again by (auto simp: final_holds_def fun_eq_iff)
  then show ?thesis
    using handle_update [OF assms(1,2), of w1 dir1 k] f w same again assms(2) Some by (auto simp: fin(2) final_holds_def)
qed

lemma finalize_keys_props:
  assumes "handles_ok tw dir" and "final_holds tw dir c" and "fold finalize_key ks (tw, dir) = (tw1, dir1)"
  shows "handles_ok tw1 dir1 \<and> final_holds tw1 dir1 c \<and> tw_root tw1 = tw_root tw \<and> dom (hm_get (tw_shards tw1)) = dom (hm_get (tw_shards tw)) \<and>
    (\<forall>p. hm_get dir p = c p \<longrightarrow> hm_get dir1 p = c p) \<and>
    (\<forall>k \<in> set ks \<inter> dom (hm_get (tw_shards tw)). hm_get dir1 (slot_shard_path (tw_root tw) k) = c (slot_shard_path (tw_root tw) k))"
  using assms
proof (induction ks arbitrary: tw dir)
  case Nil
  then show ?case by simp
next
  case (Cons k ks)
  obtain tw2 dir2 where s: "finalize_key k (tw, dir) = (tw2, dir2)" by (cases "finalize_key k (tw, dir)")
  note p = finalize_key_props [OF Cons.prems(1,2) s]
  have "fold finalize_key ks (tw2, dir2) = (tw1, dir1)" using Cons.prems(3) s by simp
  note q = Cons.IH [OF conjunct1 [OF p] conjunct1 [OF conjunct2 [OF p]] this]
  have "hm_get dir2 p = c p" if "hm_get dir p = c p" for p
  proof (cases "p = slot_shard_path (tw_root tw) k \<and> k \<in> dom (hm_get (tw_shards tw))")
    case False
    then have "hm_get dir2 p = hm_get dir p" using p s by (cases "k \<in> dom (hm_get (tw_shards tw))") (auto simp: finalize_key_def)
    with that show ?thesis by simp
  qed (use p in auto)
  with p q show ?case by auto
qed

lemma tw_finalize_props:
  assumes "handles_ok tw dir" and "final_holds tw dir c" and "tw_finalize (tw, dir) = (tw1, dir1)"
  shows "handles_ok tw1 dir1 \<and> final_holds tw1 dir1 c \<and> tw_root tw1 = tw_root tw \<and> hm_get dir1 = c"
proof -
  have fin: "fold finalize_key (map fst (tw_shards tw)) (tw, dir) = (tw1, dir1)" using assms(3) by (simp add: tw_finalize_def)
  note p = finalize_keys_props [OF assms(1,2) fin]
  have "hm_get dir1 q = c q" for q
  proof (cases "q \<in> range (slot_shard_path (tw_root tw))")
    case True
    then obtain k where q: "q = slot_shard_path (tw_root tw) k" by auto
    show ?thesis
    proof (cases "hm_get (tw_shards tw) k")
      case None
      then have "c q = hm_get dir q" using assms(2) q by (simp add: final_holds_def)
      with p show ?thesis by simp
    next
      case (Some w)
      then have "k \<in> set (map fst (tw_shards tw))" by (force dest: map_of_SomeD)
      with p q Some show ?thesis by blast
    qed
  next
    case False
    with assms(2) p show ?thesis by (simp add: final_holds_def)
  qed
  with p show ?thesis by auto
qed

definition stream_inv :: "(u8 list \<Rightarrow> u32) \<Rightarrow> nat \<Rightarrow> stream_state \<Rightarrow> (string \<rightharpoonup> doc_snapshot) \<Rightarrow> bool" where
  "stream_inv crc n = (\<lambda>(tw, dir) m. handles_ok tw dir \<and>
     (\<exists>fd. final_holds tw dir (hm_get fd) \<and> store_inv (doc_codec crc) doc_op_ok n fd m))"

lemma stream_inv_mono: "stream_inv crc n s m \<Longrightarrow> stream_inv crc (n + 1) s m"
  using store_inv_mono [of "doc_codec crc" doc_op_ok n _ m "n + 1"] by (auto simp: stream_inv_def)

lemma write_pieces:
  "at_end s \<Longrightarrow> at_end (fold buf_write_all pieces s) \<and> with_buffer (fold buf_write_all pieces s) = with_buffer s @ concat pieces \<and>
    same_handle s (fold buf_write_all pieces s)"
proof (induction pieces arbitrary: s)
  case Nil
  then show ?case by (cases s) (simp add: same_handle_def)
next
  case (Cons bytes pieces)
  then show ?case using buf_write_all_props [OF Cons.prems, of bytes] same_handle_trans by fastforce
qed

lemma opened:
  assumes "handles_ok tw dir" and "final_holds tw dir (hm_get fd)" and "store_inv (doc_codec crc) doc_op_ok n fd m"
    and s: "(case hm_get (tw_shards tw) k of Some w \<Rightarrow> (w, dir) | None \<Rightarrow> open_shard tw k dir) = (w, dir1)"
  obtains base ops where "at_end (w, dir1)" and "sw_path w = slot_shard_path (tw_root tw) k"
    and "SHARD_HEADER_SIZE \<le> length (with_buffer (w, dir1))" and "\<And>p. p \<noteq> slot_shard_path (tw_root tw) k \<Longrightarrow> hm_get dir1 p = hm_get dir p"
    and "shard_file (doc_codec crc) doc_op_ok (finished (w, dir1)) base ops" and "length ops \<le> n"
    and "fold doc_apply ops base = (case m (slot_shard_path (tw_root tw) k) of Some s \<Rightarrow> s | None \<Rightarrow> doc_snapshot_new)"
proof -
  let ?path = "slot_shard_path (tw_root tw) k"
  have fd: "hm_get fd ?path = (case hm_get (tw_shards tw) k of Some w \<Rightarrow> Some (finished (w, dir)) | None \<Rightarrow> hm_get dir ?path)"
    using assms(2) by (simp add: final_holds_def)
  show thesis
  proof (cases "hm_get (tw_shards tw) k")
    case (Some w')
    then have w: "w = w'" "dir1 = dir" using s by simp_all
    have "m ?path \<noteq> None" using assms(3) fd Some store_inv_none by fastforce
    then obtain snap where snap: "m ?path = Some snap" by blast
    show thesis
      by (rule store_inv_file [OF assms(3) snap]) (rule that; use assms(1) Some w fd snap in \<open>auto simp: handles_ok_def\<close>)
  next
    case None
    show thesis
    proof (cases "hm_get dir ?path")
      case no: None
      then have "m ?path = None" using assms(3) fd None by (metis dc.store_inv_read domIff option.simps(4) store_inv_def)
      moreover have w: "w = \<lparr>sw_path = ?path, sw_pos = 0, sw_buf = hd_encode (ops_only_header 0), sw_ops_count = 0\<rparr>" "dir1 = hm_insert ?path [] dir"
        using s None no by (auto simp: open_shard_def Let_def)
      moreover have "finished (w, dir1) = shard_file_bytes (ops_only_header (of_nat (length []))) [] (log_bytes (doc_codec crc) [])"
        using write_count [of 0 "ops_only_header 0" "[]"] by (simp add: finished_def with_buffer_def w shard_file_bytes_def) (simp add: ops_only_header_def)
      ultimately show thesis
        using dc.fresh_log_file [of "[]" crc]
        by (intro that [of doc_snapshot_new "[]"]) (auto simp: at_end_def with_buffer_def)
    next
      case (Some content)
      then have "m ?path \<noteq> None" using assms(3) fd None store_inv_none by fastforce
      then obtain snap where snap: "m ?path = Some snap" by blast
      show thesis
      proof (rule store_inv_file [OF assms(3) snap])
        fix content' base ops
        assume f: "hm_get fd ?path = Some content'" "shard_file (doc_codec crc) doc_op_ok content' base ops"
          "snap = fold (cd_apply (doc_codec crc)) ops base" "length ops \<le> n"
        have content: "content' = content" using f(1) fd None Some by simp
        obtain h rest where h: "content = hd_encode h @ rest" "hd_version h = SHARD_VERSION"
          using f(2) by (auto simp: shard_file_def content)
        have w: "w = \<lparr>sw_path = ?path, sw_pos = length content, sw_buf = [], sw_ops_count = hd_ops_count h\<rparr>" "dir1 = dir"
          using s None Some h by (auto simp: open_shard_def Let_def)
        have "finished (w, dir1) = content"
          using Some write_count [of "hd_ops_count h" h rest] by (simp add: finished_def with_buffer_def w h(1))
        with w Some h(1) f(2,3,4) snap show thesis
          by (intro that [of base ops]) (auto simp: at_end_def with_buffer_def content)
      qed
    qed
  qed
qed

lemma stream_inv_append:
  assumes inv: "stream_inv crc n s m" and op: "doc_op_ok op" and total: "n + 1 < 2 ^ 32" and slot: "op_slot op = slot"
  shows "stream_inv crc (n + 1) (append_payload crc slot (encode_op op) s)
      (m(slot_shard_path (tw_root (fst s)) (slot_to_shard slot) \<mapsto>
        doc_apply op (case m (slot_shard_path (tw_root (fst s)) (slot_to_shard slot)) of Some s \<Rightarrow> s | None \<Rightarrow> doc_snapshot_new))) \<and>
    tw_root (fst (append_payload crc slot (encode_op op) s)) = tw_root (fst s) \<and>
    tw_field_defaults (fst (append_payload crc slot (encode_op op) s)) = tw_field_defaults (fst s)"
proof -
  obtain tw dir where s: "s = (tw, dir)" by (cases s)
  let ?k = "slot_to_shard slot" and ?path = "slot_shard_path (tw_root tw) (slot_to_shard slot)"
  obtain fd where fd: "handles_ok tw dir" "final_holds tw dir (hm_get fd)" "store_inv (doc_codec crc) doc_op_ok n fd m"
    using inv by (auto simp: stream_inv_def s)
  obtain w dir1 where o: "(case hm_get (tw_shards tw) ?k of Some w \<Rightarrow> (w, dir) | None \<Rightarrow> open_shard tw ?k dir) = (w, dir1)"
    by (cases "case hm_get (tw_shards tw) ?k of Some w \<Rightarrow> (w, dir) | None \<Rightarrow> open_shard tw ?k dir")
  show ?thesis
  proof (rule opened [OF fd o])
    fix base ops
    assume a: "at_end (w, dir1)" "sw_path w = ?path" "SHARD_HEADER_SIZE \<le> length (with_buffer (w, dir1))"
      "\<And>p. p \<noteq> ?path \<Longrightarrow> hm_get dir1 p = hm_get dir p" "shard_file (doc_codec crc) doc_op_ok (finished (w, dir1)) base ops" "length ops \<le> n"
      "fold doc_apply ops base = (case m ?path of Some s \<Rightarrow> s | None \<Rightarrow> doc_snapshot_new)"
    define pieces where "pieces = [to_le_bytes 4 (of_nat (length (encode_op op)) :: u32), encode_op op, to_le_bytes 4 (crc (encode_op op))]"
    obtain w2 dir2 where w2: "fold buf_write_all pieces (w, dir1) = (w2, dir2)" by (cases "fold buf_write_all pieces (w, dir1)")
    note p = write_pieces [OF a(1), of pieces, unfolded w2]
    define w3 where "w3 = w2\<lparr>sw_ops_count := sw_ops_count w2 + 1\<rparr>"
    have w3: "at_end (w3, dir2)" "sw_path w3 = ?path" "with_buffer (w3, dir2) = with_buffer (w, dir1) @ write_op_entry (doc_codec crc) op"
      "sw_ops_count w3 = sw_ops_count w + 1" "\<And>p. p \<noteq> ?path \<Longrightarrow> hm_get dir2 p = hm_get dir p"
      using p a(2,4) by (auto simp: w3_def same_handle_def at_end_def with_buffer_def pieces_def write_op_entry_def doc_codec_def Let_def)
    have "SHARD_HEADER_SIZE \<le> length (with_buffer (w3, dir2))" using a(3) w3(3) by simp
    note u = handle_update [OF fd(1,2) w3(1,2) this w3(5)]
    have f: "shard_file (doc_codec crc) doc_op_ok (finished (w3, dir2)) base (ops @ [op])"
      using finished_grows [OF a(5) op, of "(w3, dir2)"] a(3,6) total w3(3,4) by simp
    have st: "store_inv (doc_codec crc) doc_op_ok (n + 1) (hm_insert ?path (finished (w3, dir2)) fd)
        (m(?path \<mapsto> doc_apply op (case m ?path of Some s \<Rightarrow> s | None \<Rightarrow> doc_snapshot_new)))"
      using a(6,7) by (intro store_inv_put [OF store_inv_mono [OF fd(3)] _ f]) simp_all
    have ins: "(hm_get fd)(?path \<mapsto> finished (w3, dir2)) = hm_get (hm_insert ?path (finished (w3, dir2)) fd)" by auto
    have app: "append_payload crc slot (encode_op op) s = (tw\<lparr>tw_shards := hm_insert ?k w3 (tw_shards tw)\<rparr>, dir2)"
      by (simp add: append_payload_def s o pieces_def [symmetric] w2 w3_def del: fold.simps)
    have "stream_inv crc (n + 1) (append_payload crc slot (encode_op op) s)
        (m(?path \<mapsto> doc_apply op (case m ?path of Some s \<Rightarrow> s | None \<Rightarrow> doc_snapshot_new)))"
      unfolding stream_inv_def app prod.case using u(1) u(2) [unfolded ins] st by blast
    with app show ?thesis by (simp add: s)
  qed
qed


section \<open>Loading\<close>

datatype stream_call =
    SwDoc u32 packed_fields
  | SwMerge u32 packed_fields
  | SwField u32 u16 packed_value
  | SwTuples u32 "(u16 \<times> u8 list) list"
  | SwTuplesMerge u32 "(u16 \<times> u8 list) list"
  | SwPayload u32 "u8 list"
  | SwTuple u32 u16 "u8 list"
  | SwFinalize

fun stream_step :: "msgpack \<Rightarrow> (u8 list \<Rightarrow> u32) \<Rightarrow> stream_call \<Rightarrow> stream_state \<Rightarrow> stream_state" where
  "stream_step mp crc (SwDoc slot flds) s = write_doc crc slot flds s"
| "stream_step mp crc (SwMerge slot flds) s = write_merge_doc crc slot flds s"
| "stream_step mp crc (SwField slot field pv) s = write_field crc slot field pv s"
| "stream_step mp crc (SwTuples slot tuples) s = tw_append_tuples_raw mp crc slot tuples s"
| "stream_step mp crc (SwTuplesMerge slot tuples) s = tw_append_tuples_merge mp crc slot tuples s"
| "stream_step mp crc (SwPayload slot payload) s = append_merge_payload crc slot payload s"
| "stream_step mp crc (SwTuple slot field value_bytes) s = tw_append_tuple_raw mp crc slot field value_bytes s"
| "stream_step mp crc SwFinalize s = tw_finalize s"

text \<open>The op a call stands for, if any; a payload is in order when it is the encoding of an op on its slot.\<close>

definition doc_ops :: "(packed_fields \<Rightarrow> doc_op) \<Rightarrow> packed_fields \<Rightarrow> doc_op list" where
  "doc_ops op flds = (if flds = [] then [] else [op flds])"

fun stream_emits :: "msgpack \<Rightarrow> stream_writer \<Rightarrow> stream_call \<Rightarrow> doc_op list" where
  "stream_emits mp tw (SwDoc slot flds) = doc_ops (DocCreate slot) (non_default tw flds)"
| "stream_emits mp tw (SwMerge slot flds) = doc_ops (DocMerge slot) (non_default tw flds)"
| "stream_emits mp tw (SwField slot field pv) = (if tw_is_default tw field pv then [] else [DocSet slot field pv])"
| "stream_emits mp tw (SwTuples slot tuples) = doc_ops (DocCreate slot) (kept_tuples mp (tw_is_default tw) tuples)"
| "stream_emits mp tw (SwTuplesMerge slot tuples) = doc_ops (DocMerge slot) (kept_tuples mp (tw_is_default tw) tuples)"
| "stream_emits mp tw (SwPayload slot payload) = (case decode_op payload of Inl _ \<Rightarrow> [] | Inr op \<Rightarrow> [op])"
| "stream_emits mp tw (SwTuple slot field value_bytes) =
     (case mp_from_slice mp value_bytes of None \<Rightarrow> []
      | Some pv \<Rightarrow> if tw_is_default tw field pv then [] else [DocSet slot field pv])"
| "stream_emits mp tw SwFinalize = []"

fun stream_call_ok :: "msgpack \<Rightarrow> stream_writer \<Rightarrow> stream_call \<Rightarrow> bool" where
  "stream_call_ok mp tw (SwPayload slot payload) \<longleftrightarrow>
     (case decode_op payload of Inl _ \<Rightarrow> payload = [] | Inr op \<Rightarrow> payload = encode_op op \<and> op_slot op = slot \<and> doc_op_ok op)"
| "stream_call_ok mp tw call \<longleftrightarrow> list_all doc_op_ok (stream_emits mp tw call)"

fun stream_run :: "msgpack \<Rightarrow> (u8 list \<Rightarrow> u32) \<Rightarrow> stream_call list \<Rightarrow> stream_state \<Rightarrow> stream_state \<times> doc_op list" where
  "stream_run mp crc [] s = (s, [])"
| "stream_run mp crc (call # calls) s =
     (let (s', ops) = stream_run mp crc calls (stream_step mp crc call s) in (s', stream_emits mp (fst s) call @ ops))"

fun stream_run_ok :: "msgpack \<Rightarrow> (u8 list \<Rightarrow> u32) \<Rightarrow> stream_call list \<Rightarrow> stream_state \<Rightarrow> bool" where
  "stream_run_ok mp crc [] s \<longleftrightarrow> True"
| "stream_run_ok mp crc (call # calls) s \<longleftrightarrow> stream_call_ok mp (fst s) call \<and> stream_run_ok mp crc calls (stream_step mp crc call s)"

lemma kept_tuples_Nil [simp]: "kept_tuples mp d [] = []"
  by (simp add: kept_tuples_def map_filter_simps)

lemma append_tuples_eq:
  "tw_append_tuples_raw mp crc slot tuples s =
     (let flds = kept_tuples mp (tw_is_default (fst s)) tuples
      in if flds = [] then s else append_payload crc slot (encode_op (DocCreate slot flds)) s)"
  "tw_append_tuples_merge mp crc slot tuples s =
     (let flds = kept_tuples mp (tw_is_default (fst s)) tuples
      in if flds = [] then s else append_payload crc slot (encode_op (DocMerge slot flds)) s)"
  by (simp_all add: tw_append_tuples_raw_def tw_append_tuples_merge_def Let_def)

lemma encode_op_not_Nil [simp]: "encode_op op \<noteq> []"
  by (cases op) simp_all

lemma step_emits:
  assumes "stream_call_ok mp (fst s) call" and "call \<noteq> SwFinalize"
  obtains "stream_emits mp (fst s) call = []" and "stream_step mp crc call s = s"
  | op where "stream_emits mp (fst s) call = [op]" and "doc_op_ok op"
      and "stream_step mp crc call s = append_payload crc (op_slot op) (encode_op op) s"
  using assms that
  by (cases call)
     (auto simp: write_doc_def write_merge_doc_def write_field_def append_tuples_eq
       append_merge_payload_def tw_append_tuple_raw_def doc_ops_def Let_def split: if_splits option.splits sum.splits)

text \<open>The documents in the shards \<open>m\<close>.\<close>

definition docs_of :: "string \<Rightarrow> (string \<rightharpoonup> doc_snapshot) \<Rightarrow> u32 \<rightharpoonup> packed_fields" where
  "docs_of root m slot = (case m (slot_shard_path root (slot_to_shard slot)) of None \<Rightarrow> None | Some s \<Rightarrow> hm_get (ds_docs s) slot)"

lemma docs_of_append:
  "docs_of root (m(slot_shard_path root (slot_to_shard (op_slot op)) \<mapsto>
      doc_apply op (case m (slot_shard_path root (slot_to_shard (op_slot op))) of Some s \<Rightarrow> s | None \<Rightarrow> doc_snapshot_new))) slot =
    fold slot_apply (at_slot slot [op]) (docs_of root m slot)"
proof (cases "slot_to_shard slot = slot_to_shard (op_slot op)")
  case True
  then show ?thesis
    by (cases "m (slot_shard_path root (slot_to_shard (op_slot op)))")
       (simp_all add: docs_of_def doc_apply_slot doc_snapshot_new_def)
next
  case False
  then have "op_slot op \<noteq> slot" by auto
  with False show ?thesis by (simp add: docs_of_def)
qed

lemma stream_inv_run:
  assumes "stream_inv crc n s m" and "stream_run_ok mp crc calls s" and "n + length calls < 2 ^ 32"
    and "stream_run mp crc calls s = (s', ops)"
  shows "\<exists>m' n'. stream_inv crc n' s' m' \<and> tw_root (fst s') = tw_root (fst s) \<and>
    (\<forall>slot. docs_of (tw_root (fst s)) m' slot = fold slot_apply (at_slot slot ops) (docs_of (tw_root (fst s)) m slot))"
  using assms
proof (induction calls arbitrary: n s m ops)
  case Nil
  then show ?case by auto
next
  case (Cons call calls)
  let ?s1 = "stream_step mp crc call s" and ?e = "stream_emits mp (fst s) call"
  obtain ops1 where run: "stream_run mp crc calls ?s1 = (s', ops1)" "ops = ?e @ ops1"
    using Cons.prems(4) by (auto simp: Let_def split: prod.splits)
  have "\<exists>m1. stream_inv crc (n + 1) ?s1 m1 \<and> tw_root (fst ?s1) = tw_root (fst s) \<and>
      (\<forall>slot. docs_of (tw_root (fst s)) m1 slot = fold slot_apply (at_slot slot ?e) (docs_of (tw_root (fst s)) m slot))"
  proof (cases "call = SwFinalize")
    case True
    obtain tw dir tw1 dir1 where s: "s = (tw, dir)" "tw_finalize s = (tw1, dir1)" by (cases s, cases "tw_finalize s") auto
    obtain fd where "handles_ok tw dir" "final_holds tw dir (hm_get fd)" "store_inv (doc_codec crc) doc_op_ok n fd m"
      using Cons.prems(1) by (auto simp: stream_inv_def s)
    with tw_finalize_props [of tw dir "hm_get fd" tw1 dir1] s have "stream_inv crc n (tw1, dir1) m" "tw_root tw1 = tw_root tw"
      by (auto simp: stream_inv_def)
    with stream_inv_mono s True show ?thesis by (intro exI [of _ m]) auto
  next
    case False
    have ok: "stream_call_ok mp (fst s) call" "n + 1 < 2 ^ 32" using Cons.prems(2,3) by simp_all
    show ?thesis
    proof (rule step_emits [OF ok(1) False, of crc])
      assume "?e = []" and "?s1 = s"
      with stream_inv_mono [OF Cons.prems(1)] show ?thesis by auto
    next
      fix op
      assume "?e = [op]" and op: "doc_op_ok op" and "?s1 = append_payload crc (op_slot op) (encode_op op) s"
      with stream_inv_append [OF Cons.prems(1) op ok(2) refl] docs_of_append [of "tw_root (fst s)" m op] show ?thesis
        by (intro exI conjI) (auto simp del: at_slot_simps(3))
    qed
  qed
  then obtain m1 where m1: "stream_inv crc (n + 1) ?s1 m1" "tw_root (fst ?s1) = tw_root (fst s)"
      "\<And>slot. docs_of (tw_root (fst s)) m1 slot = fold slot_apply (at_slot slot ?e) (docs_of (tw_root (fst s)) m slot)" by auto
  show ?case
    using Cons.IH [OF m1(1) _ _ run(1)] Cons.prems(2,3) m1(2,3) by (auto simp: run(2))
qed


section \<open>Properties\<close>

text \<open>C18: A bulk load through the streaming writer is the ops it writes.  Take a document store reached by
  any sequence of calls, and any sequence of calls of a streaming writer prepared on it, finalized in
  between as often as one likes and at the end: a read of a slot returns the ops of the store's own
  history followed by those of the writer, applied in order.  The buffering, the opening of files that
  exist and of files that do not, and the patching of the op counts are invisible.\<close>

theorem streaming_load:
  assumes "dv_run_ok mp crc calls (dv_open root [] [] [])" and "dv_run mp crc calls (dv_open root [] [] []) = (st, ops, Inr ())"
    and "prepare_streaming_writer names st = (st1, Inr tw)" and "stream_run_ok mp crc writes (tw, dv_dir st1)"
    and "stream_run mp crc writes (tw, dv_dir st1) = ((tw', dir), written)"
    and "sum_list (map dv_call_size calls) + length writes < 2 ^ 32"
  shows "dv_get crc (st1\<lparr>dv_dir := snd (tw_finalize (tw', dir))\<rparr>) slot =
    Inr (map_option (fields_to_stored_doc st1) (fold slot_apply (at_slot slot (ops @ written)) None))"
proof -
  obtain n where n: "docs_inv crc n st (\<lambda>slot. fold slot_apply (at_slot slot ops) None)" "n = sum_list (map dv_call_size calls)"
    using docs_inv_run [OF docs_inv_open assms(1)] assms(2,6) by fastforce
  have st1: "dv_dir st1 = dv_dir st" "dv_root st1 = dv_root st" "tw_root tw = dv_root st" "tw_shards tw = []"
    using assms(3) ensure_all_keeps [of names st]
    by (auto simp: prepare_streaming_writer_def tw_new_def save_field_dict_def Let_def split: prod.splits sum.splits if_splits)
  obtain m where m: "store_inv (doc_codec crc) doc_op_ok n (dv_dir st) m"
      "\<And>slot. fold slot_apply (at_slot slot ops) None = docs_of (dv_root st) m slot"
    using n(1) by (auto simp: docs_inv_def docs_of_def)
  have "stream_inv crc n (tw, dv_dir st1) m"
    using m(1) st1(1,4) by (auto simp: stream_inv_def handles_ok_def final_holds_def)
  from stream_inv_run [OF this assms(4) _ assms(5)] assms(6) n(2) st1(3) obtain m' n' where
    m': "stream_inv crc n' (tw', dir) m'" "tw_root tw' = dv_root st"
      "\<And>slot. docs_of (dv_root st) m' slot = fold slot_apply (at_slot slot written) (docs_of (dv_root st) m slot)"
    by auto
  obtain fd where fd: "handles_ok tw' dir" "final_holds tw' dir (hm_get fd)" "store_inv (doc_codec crc) doc_op_ok n' fd m'"
    using m'(1) by (auto simp: stream_inv_def)
  have "hm_get (snd (tw_finalize (tw', dir))) = hm_get fd"
    using tw_finalize_props [OF fd(1,2)] by (cases "tw_finalize (tw', dir)") auto
  from store_inv_cong [OF this] fd(3) have "store_inv (doc_codec crc) doc_op_ok n' (snd (tw_finalize (tw', dir))) m'" by blast
  then have "docs_inv crc n' (st1\<lparr>dv_dir := snd (tw_finalize (tw', dir))\<rparr>) (docs_of (dv_root st) m')"
    using st1(2) by (auto simp: docs_inv_def docs_of_def)
  moreover have "fields_to_stored_doc (st1\<lparr>dv_dir := x\<rparr>) = fields_to_stored_doc st1" for x
  proof -
    have "field_name (st1\<lparr>dv_dir := x\<rparr>) = field_name st1" by (intro ext) (simp add: field_name_def)
    then show ?thesis by (intro ext) (simp add: fields_to_stored_doc_def)
  qed
  ultimately show ?thesis using docs_inv_get m(2) m'(3) by fastforce
qed

definition load_store :: doc_store where
  "load_store = fst (prepare_streaming_writer [''a''] (dv_open ''d'' [] [] []))"

definition load_writer :: stream_writer where
  "load_writer = tw_new ''d'' [(''a'', 0)] []"

definition load_calls :: "stream_call list" where
  "load_calls = [SwDoc 5 [(0, PI 7)], SwFinalize, SwField 5 0 (PI 8), SwDoc 1000 [(0, PS ''x'')]]"

theorem streaming_load_witness:
  "\<exists>tw' dir written. stream_run sample_msgpack (\<lambda>_. 0) load_calls (load_writer, dv_dir load_store) = ((tw', dir), written) \<and>
     dv_get (\<lambda>_. 0) (load_store\<lparr>dv_dir := snd (tw_finalize (tw', dir))\<rparr>) 5 =
       Inr (map_option (fields_to_stored_doc load_store) (fold slot_apply (at_slot 5 ([] @ written)) None))"
proof -
  have prep: "prepare_streaming_writer [''a''] (dv_open ''d'' [] [] []) = (load_store, Inr load_writer)"
    by (simp add: load_store_def load_writer_def prepare_streaming_writer_def dv_open_def load_field_dict_def ensure_field_idx_def
        save_field_dict_def Let_def)
  have ok: "stream_run_ok sample_msgpack (\<lambda>_. 0) load_calls (load_writer, dv_dir load_store)"
    by (simp add: load_calls_def doc_ops_def non_default_def doc_op_ok_def fields_ok_def encode_fields_def encode_field_pair_def len_u32_def)
  obtain tw' dir written where run: "stream_run sample_msgpack (\<lambda>_. 0) load_calls (load_writer, dv_dir load_store) = ((tw', dir), written)"
    by (metis surj_pair)
  have "length load_calls < 2 ^ 32" by (simp add: load_calls_def)
  with streaming_load [of sample_msgpack "\<lambda>_. 0" "[]" "''d''" _ "[]", OF _ _ prep ok run, of 5] run show ?thesis by auto
qed

text \<open>A value that is the default of its field is not written, also when the document already has
  another one: a load cannot set a field back to its default, and a document whose fields are all
  defaults leaves the old document in place.\<close>

lemma load_keeps_non_defaults:
  assumes "list_all (\<lambda>(field, pv). tw_is_default tw field pv) flds"
  shows "write_doc crc slot flds (tw, dir) = (tw, dir) \<and> write_merge_doc crc slot flds (tw, dir) = (tw, dir)"
proof -
  have "non_default tw flds = []" using assms by (auto simp: non_default_def filter_empty_conv list_all_iff)
  then show ?thesis by (simp add: write_doc_def write_merge_doc_def)
qed

end
