(* ===== verification/Json.thy ===== *)
theory Json
  imports Sync_Ops Query "HOL-Library.Log_Nat"
begin

text \<open>
  JSON values as the ops of the sync pipeline carry them (\<open>serde_json::Value\<close>), and the conversions
  between them and the values of documents and queries (\<open>ops_processor.rs\<close>).

  Numbers and text belong to the \<open>serde_json\<close> crate: the type of numbers is a type variable, the
  calls into the crate are the fields of a record \<open>json_ops\<close>, and the locale \<open>json_laws\<close> has their
  documented behaviour.  The interpretation is the representation the crate uses.
\<close>

section \<open>Values\<close>

datatype 'n json = JNull | JBool bool | JNumber 'n | JString string | JArray "'n json list"
  | JObject "(string \<times> 'n json) list"

record 'n json_ops =
  jn_as_i64 :: "'n \<Rightarrow> i64 option"
  jn_as_f64 :: "'n \<Rightarrow> f64 option"
  jn_from_i64 :: "i64 \<Rightarrow> 'n"
  jn_from_u32 :: "u32 \<Rightarrow> 'n"
  jn_from_f64 :: "f64 \<Rightarrow> 'n option"
  jn_text :: "'n json json_text"

fun json_as_i64 :: "'n json_ops \<Rightarrow> 'n json \<Rightarrow> i64 option" where
  "json_as_i64 N (JNumber n) = jn_as_i64 N n"
| "json_as_i64 N _ = None"

fun json_is_null :: "'n json \<Rightarrow> bool" where
  "json_is_null JNull = True"
| "json_is_null _ = False"

abbreviation json_int :: "'n json_ops \<Rightarrow> i64 \<Rightarrow> 'n json" where
  "json_int N i \<equiv> JNumber (jn_from_i64 N i)"

abbreviation json_u32 :: "'n json_ops \<Rightarrow> u32 \<Rightarrow> 'n json" where
  "json_u32 N i \<equiv> JNumber (jn_from_u32 N i)"

definition f64_finite :: "f64 \<Rightarrow> bool" where
  "f64_finite x \<longleftrightarrow> take_bit 63 x < 0x7FF0000000000000"

locale json_laws =
  fixes N :: "'n json_ops"
  assumes as_i64_from_i64 [simp]: "jn_as_i64 N (jn_from_i64 N i) = Some i"
    and as_i64_from_u32 [simp]: "jn_as_i64 N (jn_from_u32 N w) = Some (ucast w)"
    and from_f64_finite: "jn_from_f64 N x = None \<longleftrightarrow> \<not> f64_finite x"
    and from_f64_float: "jn_from_f64 N x = Some n \<Longrightarrow> jn_as_i64 N n = None \<and> jn_as_f64 N n = Some x"


section \<open>Conversions\<close>

fun json_to_qvalue :: "'n json_ops \<Rightarrow> 'n json \<Rightarrow> qvalue" where
  "json_to_qvalue N (JNumber n) =
     (case jn_as_i64 N n of
        Some i \<Rightarrow> VInteger i
      | None \<Rightarrow> (case jn_as_f64 N n of Some x \<Rightarrow> VFloat x | None \<Rightarrow> VInteger 0))"
| "json_to_qvalue N (JBool b) = VBool b"
| "json_to_qvalue N (JString s) = VString s"
| "json_to_qvalue N JNull = VInteger 0"
| "json_to_qvalue N v = VString (jt_to_string (jn_text N) v)"

fun qvalue_to_json :: "'n json_ops \<Rightarrow> qvalue \<Rightarrow> 'n json" where
  "qvalue_to_json N (VInteger i) = json_int N i"
| "qvalue_to_json N (VFloat x) = (case jn_from_f64 N x of Some n \<Rightarrow> JNumber n | None \<Rightarrow> JNull)"
| "qvalue_to_json N (VBool b) = JBool b"
| "qvalue_to_json N (VString s) = JString s"

fun value_finite :: "qvalue \<Rightarrow> bool" where
  "value_finite (VFloat x) \<longleftrightarrow> f64_finite x"
| "value_finite _ \<longleftrightarrow> True"

context json_laws
begin

lemma qvalue_roundtrip: "value_finite v \<Longrightarrow> json_to_qvalue N (qvalue_to_json N v) = v"
  using from_f64_finite from_f64_float by (cases v) (auto split: option.splits)

lemma qvalue_to_json_null: "value_finite v \<Longrightarrow> \<not> json_is_null (qvalue_to_json N v)"
  using from_f64_finite by (cases v) (auto split: option.splits)

lemma json_int_as [simp]: "json_as_i64 N (json_int N i) = Some i"
  by simp

end


section \<open>The numbers of the crate\<close>

datatype serde_number = PosInt u64 | NegInt i64 | Float f64

text \<open>The conversion of an integer to the nearest double, ties to even.\<close>

definition f64_of_nat :: "nat \<Rightarrow> f64" where
  "f64_of_nat n =
     (if n = 0 then 0
      else let e = floorlog 2 n - 1
        in if e \<le> 52 then of_nat ((1023 + e) * 2 ^ 52 + (n * 2 ^ (52 - e) - 2 ^ 52))
           else let s = e - 52; q = n div 2 ^ s; r = n mod 2 ^ s; half = 2 ^ (s - 1);
               q' = (if r > half \<or> (r = half \<and> odd q) then q + 1 else q)
             in of_nat ((1023 + e) * 2 ^ 52 + (q' - 2 ^ 52)))"

definition serde_json :: "(serde_number json \<Rightarrow> string) \<Rightarrow> (string \<Rightarrow> serde_number json option) \<Rightarrow> serde_number json_ops" where
  "serde_json to_text from_text =
     \<lparr>jn_as_i64 = (\<lambda>n. case n of PosInt u \<Rightarrow> if u \<le> 0x7FFFFFFFFFFFFFFF then Some u else None | NegInt i \<Rightarrow> Some i | Float _ \<Rightarrow> None),
      jn_as_f64 = (\<lambda>n. case n of PosInt u \<Rightarrow> Some (f64_of_nat (unat u))
        | NegInt i \<Rightarrow> Some (push_bit 63 1 OR f64_of_nat (nat (- sint i))) | Float x \<Rightarrow> Some x),
      jn_from_i64 = (\<lambda>i. if sint i < 0 then NegInt i else PosInt i),
      jn_from_u32 = (\<lambda>w. PosInt (ucast w)),
      jn_from_f64 = (\<lambda>x. if f64_finite x then Some (Float x) else None),
      jn_text = \<lparr>jt_to_string = to_text, jt_from_str = from_text, jt_string = JString\<rparr>\<rparr>"

lemma nonneg_i64:
  fixes i :: i64
  assumes "\<not> sint i < 0"
  shows "i \<le> 0x7FFFFFFFFFFFFFFF"
proof -
  have "sint i < 2 ^ 63" using sint_less [of i] by simp
  moreover have "uint i = sint i mod 2 ^ 64" by (simp add: uint_sint take_bit_eq_mod)
  ultimately have "uint i < 2 ^ 63" using assms by simp
  then show ?thesis by (simp add: word_le_def)
qed

lemma u32_in_i64: "(ucast (w :: u32) :: u64) \<le> 0x7FFFFFFFFFFFFFFF"
proof -
  have "uint (ucast w :: u64) < 2 ^ 32" using uint_bounded [of w] by (simp add: unsigned_ucast_eq take_bit_int_eq_self)
  then show ?thesis by (simp add: word_le_def)
qed

interpretation sj: json_laws "serde_json to_text from_text" for to_text from_text
  by unfold_locales (auto simp: serde_json_def nonneg_i64 u32_in_i64 split: if_splits)

end
