(* ===== verification/Engine.thy ===== *)
theory Engine
  imports Executor_Page Doc_Store
begin

text \<open>
  The parts of the concurrent engine (\<open>concurrent_engine.rs\<close>) that the ops processor calls: the
  answers from the published snapshot, the document reads through the document cache, the clean
  delete, the marks for writes in flight (\<open>concurrency.rs\<close>), and queries that bypass the result cache.

  The engine is the state of one moment: the published snapshot, the write coalescer with its channel,
  the document cache, the dictionaries and the time buckets.  The document store is a separate
  argument, because writers outside the engine share it.  Fields are loaded: reading bitmaps from disk
  on demand is not part of the model.  The wall clock is an argument.
\<close>

section \<open>State and accessors\<close>

definition usize_MAX :: usize where "usize_MAX = 18446744073709551615"

definition usize_saturating_add :: "usize \<Rightarrow> usize \<Rightarrow> usize" where
  "usize_saturating_add a b = min (a + b) usize_MAX"

record ('b, 'c) engine =
  en_config :: config
  en_registry :: field_registry
  en_snapshot :: "'b bitmap_state"
  en_coalescer :: "'c write_coalescer"
  en_doc_cache :: "(u32, stored_doc) hashmap option"
  en_dictionaries :: "(string, field_dictionary) hashmap"
  en_string_maps :: "string_maps option"
  en_case_sensitive_fields :: "string list option"
  en_time_buckets :: "'b time_bucket_manager option"
  en_in_flight :: "u32 list"
  en_activation_verify :: "u32 list"

abbreviation en_slots :: "('b, 'c, 'z) engine_scheme \<Rightarrow> 'b slot_allocator" where
  "en_slots e \<equiv> fst (en_snapshot e)"

abbreviation en_filters :: "('b, 'c, 'z) engine_scheme \<Rightarrow> 'b filter_index" where
  "en_filters e \<equiv> fst (snd (en_snapshot e))"

abbreviation en_sorts :: "('b, 'c, 'z) engine_scheme \<Rightarrow> 'b sort_index" where
  "en_sorts e \<equiv> snd (snd (en_snapshot e))"

definition is_slot_alive :: "'b roaring_ops \<Rightarrow> ('b, 'c) engine \<Rightarrow> u32 \<Rightarrow> bool" where
  "is_slot_alive R e slot = sa_is_alive R (en_slots e) slot"

definition is_slot_deferred :: "('b, 'c) engine \<Rightarrow> u32 \<Rightarrow> bool" where
  "is_slot_deferred e slot = (slot \<in> set (wc_deferred_pending (en_coalescer e)) \<or> sa_is_deferred (en_slots e) slot)"

definition deferred_slots :: "('b, 'c) engine \<Rightarrow> u32 list" where
  "deferred_slots e =
     remdups_adj (sort (concat (map snd (sa_deferred (en_slots e))) @ wc_deferred_pending (en_coalescer e)))"

definition slot_counter :: "('b, 'c) engine \<Rightarrow> u32" where
  "slot_counter e = sa_slot_counter (en_slots e)"

definition reconstruct_sort_value :: "'b roaring_ops \<Rightarrow> ('b, 'c) engine \<Rightarrow> string \<Rightarrow> u32 \<Rightarrow> u32 option" where
  "reconstruct_sort_value R e field slot = map_option (\<lambda>f. sf_reconstruct_value R f slot) (si_get_field (en_sorts e) field)"

definition drain_activation_verify :: "usize \<Rightarrow> ('b, 'c) engine \<Rightarrow> u32 list \<times> ('b, 'c) engine" where
  "drain_activation_verify limit e =
     (let n = min limit (length (en_activation_verify e))
      in (take n (en_activation_verify e), e\<lparr>en_activation_verify := drop n (en_activation_verify e)\<rparr>))"

definition requeue_activation_verify :: "u32 list \<Rightarrow> ('b, 'c) engine \<Rightarrow> ('b, 'c) engine" where
  "requeue_activation_verify slots e = (if slots = [] then e else e\<lparr>en_activation_verify := en_activation_verify e @ slots\<rparr>)"


section \<open>Documents\<close>

definition get_document ::
    "(u8 list \<Rightarrow> u32) \<Rightarrow> doc_store \<Rightarrow> u32 \<Rightarrow> ('b, 'c) engine \<Rightarrow> stored_doc option io \<times> ('b, 'c) engine" where
  "get_document crc store slot e =
     (case Option.bind (en_doc_cache e) (\<lambda>cache. hm_get cache slot) of
        Some doc \<Rightarrow> (Inr (Some doc), e)
      | None \<Rightarrow>
          (case dv_get crc store slot of
             Inl err \<Rightarrow> (Inl err, e)
           | Inr doc \<Rightarrow>
               (Inr doc,
                case (en_doc_cache e, doc) of
                  (Some cache, Some d) \<Rightarrow> e\<lparr>en_doc_cache := Some (hm_insert slot d cache)\<rparr>
                | _ \<Rightarrow> e)))"

definition evict_doc_cache :: "u32 \<Rightarrow> ('b, 'c) engine \<Rightarrow> ('b, 'c) engine" where
  "evict_doc_cache slot e = e\<lparr>en_doc_cache := map_option (hm_remove slot) (en_doc_cache e)\<rparr>"

text \<open>Why a call of the engine fails.\<close>

datatype engine_error = Disconnected | DocFault io_fault

definition en_send_batch :: "'c chan_ops \<Rightarrow> mutation_op list \<Rightarrow> ('b, 'c) engine \<Rightarrow> bool \<times> ('b, 'c) engine" where
  "en_send_batch C ops e = (let (ok, wc) = ms_send_batch C ops (en_coalescer e) in (ok, e\<lparr>en_coalescer := wc\<rparr>))"

text \<open>The clean delete: the slot is marked in flight while its stored document is read and the ops
  are sent, so the marks are the same before and after.\<close>

definition en_delete ::
    "'c chan_ops \<Rightarrow> (u8 list \<Rightarrow> u32) \<Rightarrow> doc_store \<Rightarrow> u32 \<Rightarrow> ('b, 'c) engine \<Rightarrow> (engine_error + unit) \<times> ('b, 'c) engine" where
  "en_delete C crc store slot e =
     (case dv_get crc store slot of
        Inl err \<Rightarrow> (Inl (DocFault err), e)
      | Inr old_doc \<Rightarrow>
          let ops = (case old_doc of Some doc \<Rightarrow> clear_stored_ops (en_config e) (en_registry e) slot (sd_fields doc) | None \<Rightarrow> []);
              (ok, e) = en_send_batch C (ops @ [AliveRemove [slot]]) e
          in (if ok then Inr () else Inl Disconnected, e))"


section \<open>Marks for writes in flight\<close>

definition mark_in_flight :: "u32 \<Rightarrow> u32 list \<Rightarrow> u32 list" where
  "mark_in_flight slot marks = List.insert slot marks"

definition clear_in_flight :: "u32 \<Rightarrow> u32 list \<Rightarrow> u32 list" where
  "clear_in_flight slot marks = removeAll slot marks"

definition find_overlapping :: "u32 list \<Rightarrow> i64 list \<Rightarrow> u32 list" where
  "find_overlapping marks ids = filter (\<lambda>slot. slot \<in> set marks) (map (ucast :: i64 \<Rightarrow> u32) ids)"

fun invalid_slots ::
    "'b roaring_ops \<Rightarrow> 'b query_executor \<Rightarrow> 'b filter_clause list \<Rightarrow> u32 list \<Rightarrow> u32 list bresult" where
  "invalid_slots R ex filters [] = Inr []"
| "invalid_slots R ex filters (slot # slots) =
     bbind (slot_matches_filters R ex slot filters) (\<lambda>ok.
       bbind (invalid_slots R ex filters slots) (\<lambda>rest. Inr (if ok then rest else slot # rest)))"

definition post_validate ::
    "'b roaring_ops \<Rightarrow> u32 list \<Rightarrow> 'b query_executor \<Rightarrow> 'b filter_clause list \<Rightarrow> query_result \<Rightarrow> query_result bresult" where
  "post_validate R marks ex filters result =
     (if marks = [] then Inr result
      else let overlapping = find_overlapping marks (qr_ids result)
        in if overlapping = [] then Inr result
           else bbind (invalid_slots R ex filters overlapping) (\<lambda>invalid.
             Inr (if invalid = [] then result
                  else result\<lparr>qr_ids := filter (\<lambda>i. (ucast i :: u32) \<notin> set invalid) (qr_ids result)\<rparr>)))"


section \<open>Queries that bypass the result cache\<close>

definition engine_executor :: "('b, 'c) engine \<Rightarrow> u64 \<Rightarrow> 'b query_executor" where
  "engine_executor e now =
     (let base = qe_new (en_slots e) (en_filters e) (en_sorts e) (cfg_max_page_size (en_config e));
          base = (case en_string_maps e of Some maps \<Rightarrow> qe_with_string_maps base maps | None \<Rightarrow> base);
          base = (case en_case_sensitive_fields e of Some cs \<Rightarrow> qe_with_case_sensitive_fields base cs | None \<Rightarrow> base);
          base = (if en_dictionaries e = [] then base else qe_with_dictionaries base (en_dictionaries e))
      in case en_time_buckets e of Some tb \<Rightarrow> qe_with_time_buckets base tb now | None \<Rightarrow> base)"

definition snap_filters ::
    "'b roaring_ops \<Rightarrow> 'b time_bucket_manager option \<Rightarrow> u64 \<Rightarrow> 'b filter_clause list \<Rightarrow> 'b filter_clause list" where
  "snap_filters R time_buckets now filters =
     (case time_buckets of
        Some tb \<Rightarrow> snap_range_clauses R filters
          \<lparr>bsc_managers = [(tbm_field_name tb, tb)], bsc_now_secs = now, bsc_tolerance_pct = f64_tenth, bsc_always_snap = True\<rparr>
      | None \<Rightarrow> filters)"

definition resolve_filters ::
    "'b roaring_ops \<Rightarrow> 'b query_executor \<Rightarrow> 'b filter_clause list \<Rightarrow> 'b time_bucket_manager option \<Rightarrow> u64 \<Rightarrow> ('b \<times> bool) bresult" where
  "resolve_filters R ex filters time_buckets now =
     (let ctx = \<lparr>pc_string_maps = qe_string_maps ex, pc_dictionaries = qe_dictionaries ex\<rparr>;
          plan = plan_query_with_context R (snap_filters R time_buckets now filters) (qe_filters ex) (qe_slots ex) (Some ctx)
      in bbind (compute_filters R ex (qp_ordered_clauses plan)) (\<lambda>bm. Inr (bm, qp_use_simple_sort plan)))"

text \<open>The offset of a query without a cursor is cut off the front of a longer page.\<close>

definition apply_offset ::
    "'b roaring_ops \<Rightarrow> 'b sort_index \<Rightarrow> sort_clause option \<Rightarrow> usize \<Rightarrow> query_result \<Rightarrow> query_result" where
  "apply_offset R sorts srt offset result =
     (if offset > 0 \<and> qr_ids result \<noteq> [] then
        if offset \<ge> length (qr_ids result) then result\<lparr>qr_ids := [], qr_cursor := None\<rparr>
        else
          let result = result\<lparr>qr_ids := drop offset (qr_ids result)\<rparr>
          in case srt of
               None \<Rightarrow> result
             | Some sort_clause \<Rightarrow>
                 (case si_get_field sorts (sc_field sort_clause) of
                    None \<Rightarrow> result
                  | Some sort_field \<Rightarrow>
                      let slot = (ucast (last (qr_ids result)) :: u32)
                      in result\<lparr>qr_cursor :=
                        Some \<lparr>cp_sort_value = ucast (sf_reconstruct_value R sort_field slot), cp_slot_id = slot\<rparr>\<rparr>)
      else result)"

definition query_offset :: "'b bitdex_query \<Rightarrow> usize" where
  "query_offset q = (if bq_cursor q = None then (case bq_offset q of Some n \<Rightarrow> n | None \<Rightarrow> 0) else 0)"

text \<open>\<open>execute_query\<close> with \<open>skip_cache\<close>, which is the slow path without a cache entry.  The traversal
  of the sort layers may fill their fused view, so the snapshot is returned as well.\<close>

definition execute_query_uncached ::
    "'b roaring_ops \<Rightarrow> u64 \<Rightarrow> 'b bitdex_query \<Rightarrow> ('b, 'c) engine \<Rightarrow> query_result bresult \<times> ('b, 'c) engine" where
  "execute_query_uncached R now q e =
     (let ex = engine_executor e now;
          effective_filters = snap_filters R (en_time_buckets e) now (bq_filters q);
          fetch_limit = usize_saturating_add (bq_limit q) (query_offset q)
      in case bbind (resolve_filters R ex effective_filters (en_time_buckets e) now) (\<lambda>(filter_bm, use_simple_sort).
             bbind (execute_from_bitmap R ex filter_bm (bq_sort q) fetch_limit (bq_cursor q) use_simple_sort) (\<lambda>(result, sorts).
               Inr (result\<lparr>qr_total_matched := rb_len R filter_bm\<rparr>, sorts))) of
           Inl err \<Rightarrow> (Inl err, e)
         | Inr (result, sorts) \<Rightarrow>
             let e = e\<lparr>en_snapshot := (en_slots e, en_filters e, sorts)\<rparr>
             in (post_validate R (en_in_flight e) (engine_executor e now) (bq_filters q)
                   (apply_offset R sorts (bq_sort q) (query_offset q) result), e))"

end
