(* ===== verification/Ops_Apply.thy ===== *)
theory Ops_Apply
  imports Json Engine
begin

text \<open>
  The building blocks of the ops processor (\<open>ops_processor.rs\<close>): documents as ops, the writer that
  mirrors ops into the document store, the tables derived from the configuration, and the translation
  of one op on one slot into calls of a bitmap sink.

  The calls of a sink are collected as mutation ops: \<open>CoalescerSink\<close> (\<open>ingester.rs\<close>) pushes exactly
  these to its buffer.  A function that only calls the sink is the list of the ops it pushes.
\<close>

section \<open>Documents as ops\<close>

fun field_value_to_json :: "'n json_ops \<Rightarrow> field_value \<Rightarrow> 'n json" where
  "field_value_to_json N (Single v) = qvalue_to_json N v"
| "field_value_to_json N (Multi vals) = JArray (map (qvalue_to_json N) vals)"

fun extract_multi_ints :: "field_value option \<Rightarrow> i64 list" where
  "extract_multi_ints (Some (Multi vals)) = List.map_filter value_int vals"
| "extract_multi_ints (Some (Single (VInteger i))) = [i]"
| "extract_multi_ints _ = []"

text \<open>The derived \<open>PartialEq\<close> of field values.\<close>

fun field_value_eq :: "field_value \<Rightarrow> field_value \<Rightarrow> bool" where
  "field_value_eq (Single a) (Single b) = qvalue_eq a b"
| "field_value_eq (Multi as) (Multi bs) = list_all2 qvalue_eq as bs"
| "field_value_eq _ _ = False"

definition is_multi_value :: "config \<Rightarrow> string \<Rightarrow> bool" where
  "is_multi_value cfg name = list_ex (\<lambda>f. ffc_name f = name \<and> ffc_field_type f = MultiValue) (cfg_filter_fields cfg)"

definition changed_field_ops ::
    "'n json_ops \<Rightarrow> config \<Rightarrow> field_map \<Rightarrow> string \<times> field_value \<Rightarrow> 'n json sync_op list" where
  "changed_field_ops N cfg old_fields = (\<lambda>(name, new_val).
     let old_val = hm_get old_fields name
     in if is_multi_value cfg name then
          let old_ints = extract_multi_ints old_val; new_ints = extract_multi_ints (Some new_val)
          in map (\<lambda>v. RemoveOp name (json_int N v)) (filter (\<lambda>v. v \<notin> set new_ints) old_ints) @
             map (\<lambda>v. AddOp name (json_int N v)) (filter (\<lambda>v. v \<notin> set old_ints) new_ints)
        else
          case old_val of
            Some old \<Rightarrow>
              if \<not> field_value_eq old new_val
              then [RemoveOp name (field_value_to_json N old), SetOp name (field_value_to_json N new_val)]
              else []
          | None \<Rightarrow> [SetOp name (field_value_to_json N new_val)])"

definition removed_field_ops :: "'n json_ops \<Rightarrow> config \<Rightarrow> string \<times> field_value \<Rightarrow> 'n json sync_op list" where
  "removed_field_ops N cfg = (\<lambda>(name, old_val).
     if is_multi_value cfg name then map (\<lambda>v. RemoveOp name (json_int N v)) (extract_multi_ints (Some old_val))
     else [RemoveOp name (field_value_to_json N old_val)])"

definition document_to_ops ::
    "'n json_ops \<Rightarrow> document \<Rightarrow> stored_doc option \<Rightarrow> config \<Rightarrow> bool \<Rightarrow> 'n json sync_op list" where
  "document_to_ops N new_doc old_doc cfg is_patch =
     (let old_fields = (case old_doc of Some d \<Rightarrow> sd_fields d | None \<Rightarrow> [])
      in concat (map (changed_field_ops N cfg old_fields) (doc_fields new_doc)) @
         (if old_doc \<noteq> None \<and> \<not> is_patch
          then concat (map (removed_field_ops N cfg) (filter (\<lambda>(name, _). hm_get (doc_fields new_doc) name = None) old_fields))
          else []))"


section \<open>The document writer\<close>

lemma map_filter_cong' [fundef_cong]:
  "xs = ys \<Longrightarrow> (\<And>x. x \<in> set ys \<Longrightarrow> f x = g x) \<Longrightarrow> List.map_filter f xs = List.map_filter g ys"
  using map_filter_cong by metis

fun json_to_packed :: "'n json_ops \<Rightarrow> 'n json \<Rightarrow> packed_value option" where
  "json_to_packed N (JNumber n) =
     (case jn_as_i64 N n of Some i \<Rightarrow> Some (PI i) | None \<Rightarrow> (case jn_as_f64 N n of Some x \<Rightarrow> Some (PF x) | None \<Rightarrow> None))"
| "json_to_packed N (JBool b) = Some (PB b)"
| "json_to_packed N (JString s) = Some (PS s)"
| "json_to_packed N JNull = Some PNull"
| "json_to_packed N (JArray arr) =
     (let ints = List.map_filter (json_as_i64 N) arr
      in if length ints = length arr then Some (PMi ints) else Some (PMm (List.map_filter (json_to_packed N) arr)))"
| "json_to_packed N (JObject _) = None"

record doc_writer =
  dw_field_dict :: "(string, u16) hashmap"
  dw_pending :: "raw_tuple list"
  dw_pending_append :: "(u32 \<times> u16 \<times> packed_value) list"
  dw_pending_remove :: "(u32 \<times> u16 \<times> packed_value) list"

type_synonym writer_state = "doc_writer \<times> doc_store"

definition dw_new :: "doc_store \<Rightarrow> doc_writer" where
  "dw_new st = \<lparr>dw_field_dict = dv_field_to_idx st, dw_pending = [], dw_pending_append = [], dw_pending_remove = []\<rparr>"

definition resolve_field :: "string \<Rightarrow> writer_state \<Rightarrow> u16 option \<times> writer_state" where
  "resolve_field field = (\<lambda>(dw, st).
     case hm_get (dw_field_dict dw) field of
       Some idx \<Rightarrow> (Some idx, dw, st)
     | None \<Rightarrow>
         let (st, r) = ensure_field_index field st
         in case r of
              Inr idx \<Rightarrow> (Some idx, dw\<lparr>dw_field_dict := hm_insert field idx (dw_field_dict dw)\<rparr>, st)
            | Inl _ \<Rightarrow> (None, dw, st))"

definition clamped :: "'n json_ops \<Rightarrow> 'n json \<Rightarrow> 'n json" where
  "clamped N v = (case json_as_i64 N v of Some n \<Rightarrow> if sint n < 0 then json_int N 0 else v | None \<Rightarrow> v)"

definition write_set :: "'n json_ops \<Rightarrow> msgpack \<Rightarrow> u32 \<Rightarrow> string \<Rightarrow> 'n json \<Rightarrow> writer_state \<Rightarrow> writer_state" where
  "write_set N mp slot field v s =
     (case resolve_field field s of
        (None, s) \<Rightarrow> s
      | (Some idx, dw, st) \<Rightarrow>
          (case json_to_packed N (clamped N v) of
             None \<Rightarrow> (dw, st)
           | Some packed \<Rightarrow> (dw\<lparr>dw_pending := dw_pending dw @ [(slot, idx, mp_to_vec mp packed)]\<rparr>, st)))"

definition write_add :: "'n json_ops \<Rightarrow> u32 \<Rightarrow> string \<Rightarrow> 'n json \<Rightarrow> writer_state \<Rightarrow> writer_state" where
  "write_add N slot field v s =
     (case resolve_field field s of
        (None, s) \<Rightarrow> s
      | (Some idx, dw, st) \<Rightarrow>
          (case json_as_i64 N v of
             None \<Rightarrow> (dw, st)
           | Some i \<Rightarrow> (dw\<lparr>dw_pending_append := dw_pending_append dw @ [(slot, idx, PI i)]\<rparr>, st)))"

definition write_remove :: "'n json_ops \<Rightarrow> u32 \<Rightarrow> string \<Rightarrow> 'n json \<Rightarrow> writer_state \<Rightarrow> writer_state" where
  "write_remove N slot field v s =
     (case resolve_field field s of
        (None, s) \<Rightarrow> s
      | (Some idx, dw, st) \<Rightarrow>
          (case json_as_i64 N v of
             None \<Rightarrow> (dw, st)
           | Some i \<Rightarrow> (dw\<lparr>dw_pending_remove := dw_pending_remove dw @ [(slot, idx, PI i)]\<rparr>, st)))"

text \<open>A failed flush is logged and its writes are dropped.\<close>

definition dw_flush :: "msgpack \<Rightarrow> (u8 list \<Rightarrow> u32) \<Rightarrow> writer_state \<Rightarrow> writer_state" where
  "dw_flush mp crc = (\<lambda>(dw, st).
     if dw_pending dw = [] \<and> dw_pending_append dw = [] \<and> dw_pending_remove dw = [] then (dw, st)
     else (dw\<lparr>dw_pending := [], dw_pending_append := [], dw_pending_remove := []\<rparr>,
           fst (append_mixed_batch mp crc (dw_pending dw) (dw_pending_append dw) (dw_pending_remove dw) st)))"


section \<open>Tables from the configuration\<close>

record computed_sort_info =
  ci_target :: string
  ci_target_arc :: string
  ci_target_bits :: usize
  ci_op :: computed_op
  ci_source_fields :: "string list"

record field_meta =
  mt_filter_fields :: "(string, string \<times> filter_field_type) hashmap"
  mt_nullable_fields :: "string list"
  mt_sort_fields :: "(string, string \<times> usize) hashmap"
  mt_computed_deps :: "(string, computed_sort_info list) hashmap"
  mt_exists_boolean_shadows :: "(string, string list) hashmap"
  mt_deferred_alive_field :: "(string \<times> bool) option"
  mt_id_field :: string
  mt_registry :: field_registry

definition computed_info :: "field_registry \<Rightarrow> sort_field_config \<Rightarrow> computed_field \<Rightarrow> computed_sort_info" where
  "computed_info registry sc computed =
     \<lparr>ci_target = sfc_name sc, ci_target_arc = fr_get registry (sfc_name sc), ci_target_bits = unat (sfc_bits sc),
      ci_op = cf_op computed, ci_source_fields = cf_source_fields computed\<rparr>"

definition meta_computed_deps :: "field_registry \<Rightarrow> config \<Rightarrow> (string, computed_sort_info list) hashmap" where
  "meta_computed_deps registry cfg =
     fold (\<lambda>sc m. case sfc_computed sc of
         None \<Rightarrow> m
       | Some computed \<Rightarrow>
           fold (\<lambda>source. hm_upsert source [] (\<lambda>deps. deps @ [computed_info registry sc computed]))
             (cf_source_fields computed) m)
       (cfg_sort_fields cfg) []"

text \<open>Interned names are equal pointers exactly when they are equal strings.\<close>

definition meta_shadows ::
    "(string, string \<times> filter_field_type) hashmap \<Rightarrow> config \<Rightarrow> (string, string list) hashmap" where
  "meta_shadows filter_fields cfg =
     fold (\<lambda>fm m.
         if fm_value_type fm \<noteq> FvtExistsBoolean then m
         else case hm_get filter_fields (fm_target fm) of
             None \<Rightarrow> m
           | Some (eb_arc, _) \<Rightarrow>
               let keys = fm_source fm # map fm_target (filter (\<lambda>sibling. fm_source sibling = fm_source fm \<and>
                     fm_target sibling \<noteq> fm_target fm) (ds_fields (cfg_data_schema cfg)))
               in fold (\<lambda>k. hm_upsert k [] (\<lambda>entry. if eb_arc \<in> set entry then entry else entry @ [eb_arc])) keys m)
       (ds_fields (cfg_data_schema cfg)) []"

definition meta_from_config :: "config \<Rightarrow> field_meta" where
  "meta_from_config cfg =
     (let registry = fr_from_config cfg;
          filter_fields = fold (\<lambda>fc. hm_insert (ffc_name fc) (fr_get registry (ffc_name fc), ffc_field_type fc))
            (cfg_filter_fields cfg) []
      in \<lparr>mt_filter_fields = filter_fields,
          mt_nullable_fields = fold (\<lambda>fm ns. if fm_nullable fm \<and> hm_get filter_fields (fm_target fm) \<noteq> None
              then List.insert (fm_target fm) ns else ns) (ds_fields (cfg_data_schema cfg)) [],
          mt_sort_fields = fold (\<lambda>sc. hm_insert (sfc_name sc) (fr_get registry (sfc_name sc), unat (sfc_bits sc)))
            (cfg_sort_fields cfg) [],
          mt_computed_deps = meta_computed_deps registry cfg,
          mt_exists_boolean_shadows = meta_shadows filter_fields cfg,
          mt_deferred_alive_field = map_option (\<lambda>da. (dac_source_field da, dac_ms_to_seconds da)) (cfg_deferred_alive cfg),
          mt_id_field = ds_id_field (cfg_data_schema cfg),
          mt_registry = registry\<rparr>)"

definition has_computed_deps :: "field_meta \<Rightarrow> string \<Rightarrow> bool" where
  "has_computed_deps meta field \<longleftrightarrow> hm_get (mt_computed_deps meta) field \<noteq> None"

definition write_shadow_target_docs ::
    "'n json_ops \<Rightarrow> msgpack \<Rightarrow> field_meta \<Rightarrow> u32 \<Rightarrow> string \<Rightarrow> bool \<Rightarrow> writer_state \<Rightarrow> writer_state" where
  "write_shadow_target_docs N mp meta slot field is_null_or_remove s =
     (case hm_get (mt_exists_boolean_shadows meta) field of
        None \<Rightarrow> s
      | Some targets \<Rightarrow> fold (\<lambda>target. write_set N mp slot target (JBool (\<not> is_null_or_remove))) targets s)"


section \<open>One op on one slot\<close>

type_synonym dictionaries = "(string, field_dictionary) hashmap"

definition resolve_filter_key ::
    "qvalue \<Rightarrow> string \<Rightarrow> bool \<Rightarrow> dictionaries option \<Rightarrow> u64 option \<times> dictionaries option" where
  "resolve_filter_key qval field for_set dicts =
     (case doc_bitmap_key qval of
        Some key \<Rightarrow> (Some key, dicts)
      | None \<Rightarrow>
          (case (qval, dicts) of
             (VString s, Some ds) \<Rightarrow>
               (case hm_get ds field of
                  Some dict \<Rightarrow>
                    if for_set then let (key, dict) = fd_get_or_insert dict s in (Some key, Some (hm_insert field dict ds))
                    else (fd_get dict s, dicts)
                | None \<Rightarrow> (None, dicts))
           | _ \<Rightarrow> (None, dicts)))"

definition set_filter_ops ::
    "'n json_ops \<Rightarrow> field_meta \<Rightarrow> u32 \<Rightarrow> string \<Rightarrow> 'n json \<Rightarrow> dictionaries option \<Rightarrow> mutation_op list \<times> dictionaries option" where
  "set_filter_ops N meta slot field v dicts =
     (let is_nullable = field \<in> set (mt_nullable_fields meta)
      in case hm_get (mt_filter_fields meta) field of
           None \<Rightarrow> ([], dicts)
         | Some (name, _) \<Rightarrow>
             if json_is_null v \<and> is_nullable then ([FilterInsert name NULL_BITMAP_KEY [slot]], dicts)
             else
               let (key, dicts) = resolve_filter_key (json_to_qvalue N v) field True dicts
               in ((if is_nullable then [FilterRemove name NULL_BITMAP_KEY [slot]] else []) @
                   (case key of Some k \<Rightarrow> [FilterInsert name k [slot]] | None \<Rightarrow> []), dicts))"

text \<open>A sort value is written unless the published value is the same.\<close>

definition overwrite_changed ::
    "'b roaring_ops \<Rightarrow> ('b, 'c) engine option \<Rightarrow> string \<Rightarrow> usize \<Rightarrow> u32 \<Rightarrow> u32 \<Rightarrow> mutation_op list" where
  "overwrite_changed R eng name num_bits slot v =
     (if Option.bind eng (\<lambda>e. reconstruct_sort_value R e name slot) = Some v then []
      else map (\<lambda>k. if u32_bit v k then SortSet name k [slot] else SortClear name k [slot]) [0..<num_bits])"

definition set_sort_ops ::
    "'b roaring_ops \<Rightarrow> 'n json_ops \<Rightarrow> field_meta \<Rightarrow> ('b, 'c) engine option \<Rightarrow> u32 \<Rightarrow> string \<Rightarrow> 'n json \<Rightarrow> mutation_op list" where
  "set_sort_ops R N meta eng slot field v =
     (case hm_get (mt_sort_fields meta) field of
        None \<Rightarrow> []
      | Some (name, num_bits) \<Rightarrow>
          (case value_to_sort_u32 (json_to_qvalue N v) of None \<Rightarrow> [] | Some sv \<Rightarrow> overwrite_changed R eng name num_bits slot sv))"

definition shadow_flip_ops :: "field_meta \<Rightarrow> u32 \<Rightarrow> string \<Rightarrow> bool \<Rightarrow> mutation_op list" where
  "shadow_flip_ops meta slot field exists =
     (case hm_get (mt_exists_boolean_shadows meta) field of
        None \<Rightarrow> []
      | Some shadows \<Rightarrow>
          let exists_key = (if exists then 1 else 0) :: u64
          in concat (map (\<lambda>name. [FilterRemove name (1 - exists_key) [slot], FilterInsert name exists_key [slot]]) shadows))"

definition process_set_op ::
    "'b roaring_ops \<Rightarrow> 'n json_ops \<Rightarrow> field_meta \<Rightarrow> ('b, 'c) engine option \<Rightarrow> u32 \<Rightarrow> string \<Rightarrow> 'n json \<Rightarrow>
     dictionaries option \<Rightarrow> mutation_op list \<times> dictionaries option" where
  "process_set_op R N meta eng slot field v dicts =
     (let (filter_ops, dicts) = set_filter_ops N meta slot field v dicts
      in (filter_ops @ set_sort_ops R N meta eng slot field v @ shadow_flip_ops meta slot field (\<not> json_is_null v), dicts))"

definition process_remove_op ::
    "'n json_ops \<Rightarrow> field_meta \<Rightarrow> u32 \<Rightarrow> string \<Rightarrow> 'n json \<Rightarrow> dictionaries option \<Rightarrow> mutation_op list" where
  "process_remove_op N meta slot field v dicts =
     (let is_nullable = field \<in> set (mt_nullable_fields meta); qval = json_to_qvalue N v
      in (case hm_get (mt_filter_fields meta) field of
            None \<Rightarrow> []
          | Some (name, _) \<Rightarrow>
              if json_is_null v \<and> is_nullable then [FilterRemove name NULL_BITMAP_KEY [slot]]
              else (case fst (resolve_filter_key qval field False dicts) of Some k \<Rightarrow> [FilterRemove name k [slot]] | None \<Rightarrow> [])) @
         (case hm_get (mt_sort_fields meta) field of
            None \<Rightarrow> []
          | Some (name, num_bits) \<Rightarrow>
              (case value_to_sort_u32 qval of
                 None \<Rightarrow> []
               | Some sv \<Rightarrow> concat (map (\<lambda>k. if u32_bit sv k then [SortClear name k [slot]] else []) [0..<num_bits]))) @
         shadow_flip_ops meta slot field False)"

definition process_add_op ::
    "'n json_ops \<Rightarrow> field_meta \<Rightarrow> u32 \<Rightarrow> string \<Rightarrow> 'n json \<Rightarrow> dictionaries option \<Rightarrow> mutation_op list \<times> dictionaries option" where
  "process_add_op N meta slot field v dicts =
     (if json_is_null v \<and> field \<in> set (mt_nullable_fields meta) then ([], dicts)
      else
        let qval = json_to_qvalue N v;
            (filter_ops, dicts) = (case hm_get (mt_filter_fields meta) field of
                None \<Rightarrow> ([], dicts)
              | Some (name, _) \<Rightarrow>
                  let (key, dicts) = resolve_filter_key qval field True dicts
                  in (case key of Some k \<Rightarrow> [FilterInsert name k [slot]] | None \<Rightarrow> [], dicts))
        in (filter_ops @
            (case hm_get (mt_sort_fields meta) field of
               None \<Rightarrow> []
             | Some (name, num_bits) \<Rightarrow>
                 (case value_to_sort_u32 qval of
                    None \<Rightarrow> []
                  | Some sv \<Rightarrow> concat (map (\<lambda>k. if u32_bit sv k then [SortSet name k [slot]] else []) [0..<num_bits]))), dicts))"


section \<open>Schedules carried by ops\<close>

definition source_secs :: "bool \<Rightarrow> i64 \<Rightarrow> i64" where
  "source_secs ms_to_secs ts =
     (if ms_to_secs then word_of_int (if sint ts < 0 then - ((- sint ts) div 1000) else sint ts div 1000) else ts)"

fun check_deferred_in :: "'n json_ops \<Rightarrow> string \<Rightarrow> bool \<Rightarrow> u64 \<Rightarrow> 'n json sync_op list \<Rightarrow> u64 option" where
  "check_deferred_in N da_field ms now [] = None"
| "check_deferred_in N da_field ms now (op # ops) =
     (case op of
        SetOp field v \<Rightarrow>
          (if field = da_field then
             case json_as_i64 N v of
               Some ts \<Rightarrow>
                 if sint (source_secs ms ts) > sint now then Some (source_secs ms ts) else check_deferred_in N da_field ms now ops
             | None \<Rightarrow> check_deferred_in N da_field ms now ops
           else check_deferred_in N da_field ms now ops)
      | _ \<Rightarrow> check_deferred_in N da_field ms now ops)"

definition check_deferred_alive_secs :: "'n json_ops \<Rightarrow> field_meta \<Rightarrow> u64 \<Rightarrow> 'n json sync_op list \<Rightarrow> u64 option" where
  "check_deferred_alive_secs N meta now ops =
     (case mt_deferred_alive_field meta of None \<Rightarrow> None | Some (da_field, ms) \<Rightarrow> check_deferred_in N da_field ms now ops)"

fun deferred_set_time :: "'n json_ops \<Rightarrow> string \<Rightarrow> bool \<Rightarrow> 'n json sync_op \<Rightarrow> u64 option" where
  "deferred_set_time N da_field ms (SetOp field v) = (if field = da_field then map_option (source_secs ms) (json_as_i64 N v) else None)"
| "deferred_set_time N da_field ms _ = None"

definition get_deferred_timestamp :: "'n json_ops \<Rightarrow> field_meta \<Rightarrow> 'n json sync_op list \<Rightarrow> u64 option" where
  "get_deferred_timestamp N meta ops =
     (case mt_deferred_alive_field meta of
        None \<Rightarrow> None
      | Some (da_field, ms) \<Rightarrow>
          (case List.map_filter (deferred_set_time N da_field ms) ops of t # _ \<Rightarrow> Some t | [] \<Rightarrow> None))"

fun schedule_step :: "'n json_ops \<Rightarrow> string \<Rightarrow> bool \<Rightarrow> u64 \<Rightarrow> 'n json sync_op \<Rightarrow> u64 option \<Rightarrow> u64 option" where
  "schedule_step N da_field ms now (SetOp field v) found = (if field \<noteq> da_field then found else
     case json_as_i64 N v of
       Some ts \<Rightarrow> let secs = source_secs ms ts in if sint secs > 0 \<and> secs > now then Some secs else None
     | None \<Rightarrow> None)"
| "schedule_step N da_field ms now (RemoveOp field v) found = (if field \<noteq> da_field then found else
     case json_as_i64 N v of
       Some ts \<Rightarrow> let secs = source_secs ms ts in if sint secs > 0 \<and> secs > now then Some secs else None
     | None \<Rightarrow> None)"
| "schedule_step N da_field ms now _ found = found"

definition get_future_schedule :: "'n json_ops \<Rightarrow> field_meta \<Rightarrow> 'n json sync_op list \<Rightarrow> u64 \<Rightarrow> u64 option" where
  "get_future_schedule N meta ops now =
     (case mt_deferred_alive_field meta of
        None \<Rightarrow> None
      | Some (da_field, ms) \<Rightarrow> fold (schedule_step N da_field ms now) ops None)"

end
