(* ===== verification/Rust_Text.thy ===== *)
theory Rust_Text
  imports Dictionary "HOL-Library.Log_Nat" "HOL-Library.Sublist"
begin

text \<open>
  The string functions of the Rust standard library that the parsers use: trimming, splitting, and
  reading integers and doubles.  A string is its UTF-8 bytes.
\<close>

section \<open>Trimming and splitting\<close>

definition byte_str :: "nat list \<Rightarrow> string" where "byte_str bs = map char_of bs"

text \<open>The code points with the property White Space.\<close>

definition ws_chars :: "string list" where
  "ws_chars = map (\<lambda>n. byte_str [n]) [9, 10, 11, 12, 13, 32] @ map byte_str [[0xC2, 0x85], [0xC2, 0xA0], [0xE1, 0x9A, 0x80]] @
     map (\<lambda>n. byte_str [0xE2, 0x80, n]) ([0x80..<0x8B] @ [0xA8, 0xA9, 0xAF]) @ map byte_str [[0xE2, 0x81, 0x9F], [0xE3, 0x80, 0x80]]"

lemma ws_chars_nonempty: "t \<in> set ws_chars \<Longrightarrow> t \<noteq> []"
  by (auto simp: ws_chars_def byte_str_def)

function trim_start_with :: "string list \<Rightarrow> string \<Rightarrow> string" where
  "trim_start_with ts s =
     (case find (\<lambda>t. t \<noteq> [] \<and> prefix t s) ts of None \<Rightarrow> s | Some t \<Rightarrow> trim_start_with ts (drop (length t) s))"
  by auto
termination
  by (relation "measure (length \<circ> snd)") (auto simp: find_Some_iff prefix_def)

declare trim_start_with.simps [simp del]

definition trim_with :: "string list \<Rightarrow> string \<Rightarrow> string" where
  "trim_with ts s = rev (trim_start_with (map rev ts) (rev (trim_start_with ts s)))"

definition str_trim :: "string \<Rightarrow> string" where
  "str_trim = trim_with ws_chars"

definition trim_matches :: "char \<Rightarrow> string \<Rightarrow> string" where
  "trim_matches c = trim_with [[c]]"

text \<open>\<open>split\<close> at a pattern that is not empty, and \<open>splitn\<close>, whose last piece is the rest.\<close>

fun split_go :: "string \<Rightarrow> string \<Rightarrow> nat \<Rightarrow> string \<Rightarrow> string list" where
  "split_go pat acc skip [] = [acc]"
| "split_go pat acc (Suc k) (c # s) = split_go pat acc k s"
| "split_go pat acc 0 (c # s) =
     (if prefix pat (c # s) then acc # split_go pat [] (length pat - 1) s else split_go pat (acc @ [c]) 0 s)"

definition str_split :: "string \<Rightarrow> string \<Rightarrow> string list" where
  "str_split pat s = split_go pat [] 0 s"

fun splitn :: "nat \<Rightarrow> char \<Rightarrow> string \<Rightarrow> string list" where
  "splitn 0 c s = []"
| "splitn (Suc 0) c s = [s]"
| "splitn (Suc (Suc n)) c s =
     (if c \<in> set s then takeWhile (\<lambda>x. x \<noteq> c) s # splitn (Suc n) c (drop 1 (dropWhile (\<lambda>x. x \<noteq> c) s)) else [s])"


section \<open>Numbers\<close>

definition digit_value :: "char \<Rightarrow> nat option" where
  "digit_value c = (let n = of_char c in if 48 \<le> n \<and> n \<le> 57 then Some (n - 48) else (None :: nat option))"

definition is_digit :: "char \<Rightarrow> bool" where "is_digit c \<longleftrightarrow> digit_value c \<noteq> None"

definition digits_nat :: "string \<Rightarrow> nat" where
  "digits_nat s = fold (\<lambda>c acc. 10 * acc + (case digit_value c of Some d \<Rightarrow> d | None \<Rightarrow> 0)) s 0"

text \<open>An optional sign; the rest.\<close>

definition split_sign :: "string \<Rightarrow> bool \<times> string" where
  "split_sign s = (case s of [] \<Rightarrow> (False, []) | c # rest \<Rightarrow>
     if c = CHR ''-'' then (True, rest) else if c = CHR ''+'' then (False, rest) else (False, s))"

definition parse_i64 :: "string \<Rightarrow> i64 option" where
  "parse_i64 s =
     (let (neg, ds) = split_sign s; n = int (digits_nat ds); v = (if neg then - n else n)
      in if ds = [] \<or> \<not> list_all is_digit ds then None
         else if v < - (2 ^ 63) \<or> v \<ge> 2 ^ 63 then None else Some (word_of_int v))"

text \<open>The double nearest to \<open>num / den\<close>, ties to even; too large is infinity.\<close>

definition f64_of_ratio :: "nat \<Rightarrow> nat \<Rightarrow> f64" where
  "f64_of_ratio num den =
     (if num = 0 then 0
      else
        let l = int (floorlog 2 num) - int (floorlog 2 den);
            l = (if num * 2 ^ nat (- l) < den * 2 ^ nat l then l - 1 else l);
            k = max (- 1074) (l - 52);
            n = num * 2 ^ nat (- k); d = den * 2 ^ nat k;
            q = n div d; r = n mod d;
            q = (if 2 * r > d \<or> (2 * r = d \<and> odd q) then q + 1 else q);
            pattern = (if q < 2 ^ 52 then int q else (k + 1075) * 2 ^ 52 + (int q - 2 ^ 52))
        in if pattern \<ge> 2047 * 2 ^ 52 then 0x7FF0000000000000 else word_of_int pattern)"

definition decimal_f64 :: "nat \<Rightarrow> int \<Rightarrow> f64" where
  "decimal_f64 m e = f64_of_ratio (m * 10 ^ nat e) (10 ^ nat (- e))"

text \<open>The exponent part, after the \<open>e\<close>.\<close>

definition parse_exponent :: "string \<Rightarrow> int option" where
  "parse_exponent s =
     (let (neg, ds) = split_sign s
      in if ds = [] \<or> \<not> list_all is_digit ds then None else Some (if neg then - int (digits_nat ds) else int (digits_nat ds)))"

definition parse_unsigned_f64 :: "string \<Rightarrow> f64 option" where
  "parse_unsigned_f64 s =
     (let lower = to_lowercase s
      in if lower = ''inf'' \<or> lower = ''infinity'' then Some 0x7FF0000000000000
         else if lower = ''nan'' then Some 0x7FF8000000000000
         else
           let whole = takeWhile is_digit s; rest = dropWhile is_digit s;
               (frac, rest) = (case rest of
                   c # cs \<Rightarrow> if c = CHR ''.'' then (takeWhile is_digit cs, dropWhile is_digit cs) else ([], rest)
                 | [] \<Rightarrow> ([], []));
               e = (case rest of
                   [] \<Rightarrow> Some 0
                 | c # cs \<Rightarrow> if c = CHR ''e'' \<or> c = CHR ''E'' then parse_exponent cs else None)
           in if whole = [] \<and> frac = [] then None
              else map_option (\<lambda>e. decimal_f64 (digits_nat (whole @ frac)) (e - int (length frac))) e)"

definition parse_f64 :: "string \<Rightarrow> f64 option" where
  "parse_f64 s = (let (neg, body) = split_sign s
     in map_option (\<lambda>x. if neg then x OR push_bit 63 1 else x) (parse_unsigned_f64 body))"

text \<open>\<open>Display\<close> for integers.\<close>

fun nat_text :: "nat \<Rightarrow> string" where
  "nat_text n = (if n < 10 then [char_of (48 + n)] else nat_text (n div 10) @ [char_of (48 + n mod 10)])"

declare nat_text.simps [simp del]

definition int_text :: "i64 \<Rightarrow> string" where
  "int_text i = (if sint i < 0 then CHR ''-'' # nat_text (nat (- sint i)) else nat_text (nat (sint i)))"


section \<open>Properties\<close>

lemma digit_value_char: "d < 10 \<Longrightarrow> digit_value (char_of (48 + d)) = Some d"
  by (simp add: digit_value_def)

lemma digits_nat_snoc: "digits_nat (s @ [c]) = 10 * digits_nat s + (case digit_value c of Some d \<Rightarrow> d | None \<Rightarrow> 0)"
  by (simp add: digits_nat_def)

lemma nat_text_props:
  "digits_nat (nat_text n) = n \<and> list_all is_digit (nat_text n) \<and> nat_text n \<noteq> []"
proof (induction n rule: nat_text.induct)
  case (1 n)
  show ?case
  proof (cases "n < 10")
    case True
    then show ?thesis using digit_value_char [OF True]
      by (simp add: nat_text.simps [of n] digits_nat_def is_digit_def)
  next
    case False
    have "n mod 10 < 10" by simp
    from digit_value_char [OF this] 1 [OF False] False show ?thesis
      by (simp add: nat_text.simps [of n] digits_nat_snoc is_digit_def)
  qed
qed

lemma digit_not_sign: "is_digit c \<Longrightarrow> c \<noteq> CHR ''-'' \<and> c \<noteq> CHR ''+''"
  by (auto simp: is_digit_def digit_value_def)

lemma parse_int_text: "parse_i64 (int_text i) = Some i"
proof -
  have range: "sint i \<ge> - (2 ^ 63)" "sint i < 2 ^ 63"
    using sint_ge [of i] sint_less [of i] by simp_all
  show ?thesis
  proof (cases "sint i < 0")
    case True
    then show ?thesis using nat_text_props [of "nat (- sint i)"] range
      by (simp add: parse_i64_def int_text_def split_sign_def Let_def)
  next
    case False
    obtain c cs where c: "nat_text (nat (sint i)) = c # cs" using nat_text_props by (metis list.exhaust)
    then have "split_sign (nat_text (nat (sint i))) = (False, nat_text (nat (sint i)))"
      using digit_not_sign [of c] nat_text_props [of "nat (sint i)"] by (simp add: split_sign_def)
    then show ?thesis using False nat_text_props [of "nat (sint i)"] range
      by (simp add: parse_i64_def int_text_def Let_def)
  qed
qed

end
