(* ===== verification/Ops_Processor.thy ===== *)
theory Ops_Processor
  imports Ops_Apply Rust_Text
begin

text \<open>
  The ops processor (\<open>ops_processor.rs\<close>): a batch of entity ops becomes mutation ops for the write
  coalescer and writes for the document store.  Ops that carry a query are applied to every slot the
  query matches; slots scheduled for later are reached through the map of deferred slots.

  The state of a batch is the sink's buffer, the engine and the document writer, both optional, the
  store, the memo of deleted slots and the counters.  The clock stands still during a batch.  Waiting
  for the flush thread is a parameter \<open>publish\<close>: the engine afterwards and whether the wait succeeded.
  Log lines and metrics are left out.
\<close>

section \<open>State\<close>

record ('b, 'c) ops_state =
  os_sink :: "mutation_op list"
  os_engine :: "('b, 'c) engine option"
  os_writer :: "doc_writer option"
  os_store :: doc_store

definition emit :: "mutation_op list \<Rightarrow> ('b, 'c, 'z) ops_state_scheme \<Rightarrow> ('b, 'c, 'z) ops_state_scheme" where
  "emit ops s = s\<lparr>os_sink := os_sink s @ ops\<rparr>"

definition with_writer :: "(writer_state \<Rightarrow> writer_state) \<Rightarrow> ('b, 'c, 'z) ops_state_scheme \<Rightarrow> ('b, 'c, 'z) ops_state_scheme" where
  "with_writer f s = (case os_writer s of
       None \<Rightarrow> s
     | Some dw \<Rightarrow> let (dw, st) = f (dw, os_store s) in s\<lparr>os_writer := Some dw, os_store := st\<rparr>)"

definition with_dicts ::
    "(dictionaries option \<Rightarrow> mutation_op list \<times> dictionaries option) \<Rightarrow> ('b, 'c, 'z) ops_state_scheme \<Rightarrow> ('b, 'c, 'z) ops_state_scheme" where
  "with_dicts f s =
     (let (ops, dicts) = f (map_option en_dictionaries (os_engine s));
          eng = (case (os_engine s, dicts) of (Some e, Some ds) \<Rightarrow> Some (e\<lparr>en_dictionaries := ds\<rparr>) | _ \<Rightarrow> os_engine s)
      in emit ops (s\<lparr>os_engine := eng\<rparr>))"

text \<open>\<open>engine.get_document\<close>, read as \<open>if let Ok(Some(doc))\<close>.\<close>

definition read_document ::
    "(u8 list \<Rightarrow> u32) \<Rightarrow> u32 \<Rightarrow> ('b, 'c, 'z) ops_state_scheme \<Rightarrow> stored_doc option \<times> ('b, 'c, 'z) ops_state_scheme" where
  "read_document crc slot s = (case os_engine s of
       None \<Rightarrow> (None, s)
     | Some e \<Rightarrow>
         let (r, e) = get_document crc (os_store s) slot e
         in (case r of Inr doc \<Rightarrow> doc | Inl _ \<Rightarrow> None, s\<lparr>os_engine := Some e\<rparr>))"

text \<open>\<open>sink.flush()\<close>: the buffer goes into the channel of the engine.  The sink of a dump has no channel.\<close>

definition sink_flush :: "'c chan_ops \<Rightarrow> ('b, 'c, 'z) ops_state_scheme \<Rightarrow> bool \<times> ('b, 'c, 'z) ops_state_scheme" where
  "sink_flush C s = (case os_engine s of
       None \<Rightarrow> (True, s)
     | Some e \<Rightarrow>
         if os_sink s = [] then (True, s)
         else let (ok, e) = en_send_batch C (os_sink s) e in (ok, s\<lparr>os_sink := [], os_engine := Some e\<rparr>))"


section \<open>Computed sort fields\<close>

definition changed_sources :: "field_meta \<Rightarrow> (string, u32) hashmap \<Rightarrow> (string, u32) hashmap \<Rightarrow> string list" where
  "changed_sources meta sort_values old_sort_values =
     fold List.insert (filter (has_computed_deps meta) (map fst sort_values @ map fst old_sort_values)) []"

text \<open>The stored values of the sources that the ops do not mention; a stored time of the deferred
  field that lies in the future is left out.\<close>

definition stored_sort_values ::
    "field_meta \<Rightarrow> u32 \<Rightarrow> (string, u32) hashmap \<Rightarrow> (string, u32) hashmap \<Rightarrow> string list \<Rightarrow> field_map \<Rightarrow> (string, u32) hashmap" where
  "stored_sort_values meta now32 sort_values old_sort_values changed flds =
     (let sources = concat (map (\<lambda>sf. case hm_get (mt_computed_deps meta) sf of
              Some deps \<Rightarrow> concat (map ci_source_fields deps) | None \<Rightarrow> []) changed);
          skip = (\<lambda>source sv. case mt_deferred_alive_field meta of Some (name, _) \<Rightarrow> name = source \<and> sv > now32 | None \<Rightarrow> False)
      in fold (\<lambda>source stored.
            if hm_get sort_values source = None \<and> hm_get old_sort_values source = None then
              case sort_of_value (hm_get flds source) of
                Some sv \<Rightarrow> if skip source sv then stored else hm_insert source sv stored
              | None \<Rightarrow> stored
            else stored) sources [])"

definition new_computed :: "(string, u32) hashmap \<Rightarrow> (string, u32) hashmap \<Rightarrow> computed_sort_info \<Rightarrow> u32" where
  "new_computed sort_values stored dep =
     apply_computed_op (ci_op dep)
       (map (\<lambda>sf. case hm_get sort_values sf of
            Some v \<Rightarrow> v
          | None \<Rightarrow> (case hm_get stored sf of Some v \<Rightarrow> v | None \<Rightarrow> 0)) (ci_source_fields dep))"

definition recompute_dep ::
    "'b roaring_ops \<Rightarrow> 'n json_ops \<Rightarrow> msgpack \<Rightarrow> (string, u32) hashmap \<Rightarrow> (string, u32) hashmap \<Rightarrow> u32 \<Rightarrow> computed_sort_info \<Rightarrow>
     ('b, 'c, 'z) ops_state_scheme \<Rightarrow> ('b, 'c, 'z) ops_state_scheme" where
  "recompute_dep R N mp sort_values stored slot dep s =
     (let v = new_computed sort_values stored dep
      in with_writer (write_set N mp slot (ci_target dep) (json_u32 N v))
           (emit (overwrite_changed R (os_engine s) (ci_target_arc dep) (ci_target_bits dep) slot v) s))"

text \<open>The end of \<open>recompute_computed_sorts_for_slot\<close>: a stored time of the deferred field that has
  passed is written to its sort layers, and the derived booleans are set.\<close>

fun raw_time :: "field_value option \<Rightarrow> i64 option" where
  "raw_time (Some (Single (VInteger i))) = Some i"
| "raw_time (Some (Single v)) = map_option ucast (value_to_sort_u32 v)"
| "raw_time _ = None"

definition clamp_u32 :: "i64 \<Rightarrow> u32" where
  "clamp_u32 secs = (if sint secs < 0 then 0 else if sint secs > 4294967295 then 4294967295 else ucast secs)"

definition complete_activation ::
    "'n json_ops \<Rightarrow> msgpack \<Rightarrow> (u8 list \<Rightarrow> u32) \<Rightarrow> field_meta \<Rightarrow> u32 \<Rightarrow> u32 \<Rightarrow>
     ('b, 'c, 'z) ops_state_scheme \<Rightarrow> ('b, 'c, 'z) ops_state_scheme" where
  "complete_activation N mp crc meta now32 slot s =
     (case (os_engine s, mt_deferred_alive_field meta) of
        (Some _, Some (deferred_name, ms_to_secs)) \<Rightarrow>
          let (doc, s) = read_document crc slot s
          in case Option.bind doc (\<lambda>d. raw_time (hm_get (sd_fields d) deferred_name)) of
               None \<Rightarrow> s
             | Some raw \<Rightarrow>
                 let pub_val = clamp_u32 (source_secs ms_to_secs raw)
                 in if pub_val > 0 \<and> pub_val \<le> now32 then
                      let s = (case hm_get (mt_sort_fields meta) deferred_name of
                            Some (name, num_bits) \<Rightarrow>
                              with_writer (write_set N mp slot deferred_name (json_u32 N pub_val))
                                (emit (map (\<lambda>k. if u32_bit pub_val k then SortSet name k [slot] else SortClear name k [slot])
                                    [0..<num_bits]) s)
                          | None \<Rightarrow> s)
                      in case hm_get (mt_exists_boolean_shadows meta) deferred_name of
                           Some shadows \<Rightarrow>
                             fold (\<lambda>name s. with_writer (write_set N mp slot name (JBool True))
                                 (emit [FilterRemove name 0 [slot], FilterInsert name 1 [slot]] s)) shadows s
                         | None \<Rightarrow> s
                    else s
      | _ \<Rightarrow> s)"

definition recompute_computed_sorts_for_slot ::
    "'b roaring_ops \<Rightarrow> 'n json_ops \<Rightarrow> msgpack \<Rightarrow> (u8 list \<Rightarrow> u32) \<Rightarrow> field_meta \<Rightarrow> u64 \<Rightarrow> u32 \<Rightarrow> (string, u32) hashmap \<Rightarrow>
     (string, u32) hashmap \<Rightarrow> ('b, 'c, 'z) ops_state_scheme \<Rightarrow> ('b, 'c, 'z) ops_state_scheme" where
  "recompute_computed_sorts_for_slot R N mp crc meta now slot sort_values old_sort_values s =
     (let changed = changed_sources meta sort_values old_sort_values; now32 = ucast now
      in if mt_computed_deps meta = [] \<or> changed = [] then s
         else
           let (doc, s) = read_document crc slot s;
               stored = (case doc of
                   Some d \<Rightarrow> stored_sort_values meta now32 sort_values old_sort_values changed (sd_fields d) | None \<Rightarrow> []);
               deps = concat (map (\<lambda>sf. case hm_get (mt_computed_deps meta) sf of Some deps \<Rightarrow> deps | None \<Rightarrow> []) changed)
           in complete_activation N mp crc meta now32 slot (fold (recompute_dep R N mp sort_values stored slot) deps s))"


section \<open>Ops on a slot\<close>

text \<open>The loop over the ops of one entity: bitmaps, documents and the sort values seen.\<close>

definition track_sort ::
    "'n json_ops \<Rightarrow> field_meta \<Rightarrow> string \<Rightarrow> 'n json \<Rightarrow> (string, u32) hashmap \<Rightarrow> (string, u32) hashmap" where
  "track_sort N meta field v m =
     (if has_computed_deps meta field \<or> hm_get (mt_sort_fields meta) field \<noteq> None then
        case value_to_sort_u32 (json_to_qvalue N v) of Some sv \<Rightarrow> hm_insert field sv m | None \<Rightarrow> m
      else m)"

fun set_values_step :: "'n json_ops \<Rightarrow> field_meta \<Rightarrow> 'n json sync_op \<Rightarrow> (string, u32) hashmap \<Rightarrow> (string, u32) hashmap" where
  "set_values_step N meta (SetOp field v) m = track_sort N meta field v m"
| "set_values_step N meta _ m = m"

fun old_values_step :: "'n json_ops \<Rightarrow> field_meta \<Rightarrow> 'n json sync_op \<Rightarrow> (string, u32) hashmap \<Rightarrow> (string, u32) hashmap" where
  "old_values_step N meta (RemoveOp field v) m = track_sort N meta field v m"
| "old_values_step N meta _ m = m"

definition ops_sort_values :: "'n json_ops \<Rightarrow> field_meta \<Rightarrow> 'n json sync_op list \<Rightarrow> (string, u32) hashmap" where
  "ops_sort_values N meta ops = fold (set_values_step N meta) ops []"

definition ops_old_sort_values :: "'n json_ops \<Rightarrow> field_meta \<Rightarrow> 'n json sync_op list \<Rightarrow> (string, u32) hashmap" where
  "ops_old_sort_values N meta ops = fold (old_values_step N meta) ops []"

fun process_op ::
    "'b roaring_ops \<Rightarrow> 'n json_ops \<Rightarrow> msgpack \<Rightarrow> field_meta \<Rightarrow> u32 \<Rightarrow> 'n json sync_op \<Rightarrow>
     ('b, 'c, 'z) ops_state_scheme \<Rightarrow> ('b, 'c, 'z) ops_state_scheme" where
  "process_op R N mp meta slot (SetOp field v) s =
     with_writer (\<lambda>w. write_shadow_target_docs N mp meta slot field (json_is_null v) (write_set N mp slot field v w))
       (with_dicts (process_set_op R N meta (os_engine s) slot field v) s)"
| "process_op R N mp meta slot (RemoveOp field v) s =
     with_writer (\<lambda>w. write_shadow_target_docs N mp meta slot field True (write_remove N slot field v w))
       (emit (process_remove_op N meta slot field v (map_option en_dictionaries (os_engine s))) s)"
| "process_op R N mp meta slot (AddOp field v) s =
     with_writer (write_add N slot field v) (with_dicts (process_add_op N meta slot field v) s)"
| "process_op R N mp meta slot _ s = s"

fun is_field_op :: "'v sync_op \<Rightarrow> bool" where
  "is_field_op (SetOp _ _) = True"
| "is_field_op (RemoveOp _ _) = True"
| "is_field_op (AddOp _ _) = True"
| "is_field_op _ = False"

fun is_query_op :: "'v sync_op \<Rightarrow> bool" where
  "is_query_op (QueryOpSet _ _) = True"
| "is_query_op _ = False"

fun touches_field :: "string \<Rightarrow> 'v sync_op \<Rightarrow> bool" where
  "touches_field f (SetOp field _) = (field = f)"
| "touches_field f (RemoveOp field _) = (field = f)"
| "touches_field f _ = False"

text \<open>The document writes for a slot that is not alive.  A remove of the field in \<open>keep\<close> carries the
  time of publication, which is stored.\<close>

fun mirror_op ::
    "'n json_ops \<Rightarrow> msgpack \<Rightarrow> string option \<Rightarrow> u32 \<Rightarrow> 'n json sync_op \<Rightarrow> writer_state \<Rightarrow> writer_state" where
  "mirror_op N mp keep slot (SetOp field v) w = write_set N mp slot field v w"
| "mirror_op N mp keep slot (AddOp field v) w = write_add N slot field v w"
| "mirror_op N mp keep slot (RemoveOp field v) w =
     (if keep = Some field then write_set N mp slot field v w else write_remove N slot field v w)"
| "mirror_op N mp keep slot _ w = w"

definition mirror_ops ::
    "'n json_ops \<Rightarrow> msgpack \<Rightarrow> string option \<Rightarrow> u32 \<Rightarrow> 'n json sync_op list \<Rightarrow>
     ('b, 'c, 'z) ops_state_scheme \<Rightarrow> ('b, 'c, 'z) ops_state_scheme" where
  "mirror_ops N mp keep slot ops = with_writer (fold (mirror_op N mp keep slot) ops)"

text \<open>The name of the deferred field, or the empty string.\<close>

definition da_field_name :: "field_meta \<Rightarrow> string" where
  "da_field_name meta = (case mt_deferred_alive_field meta of Some (f, _) \<Rightarrow> f | None \<Rightarrow> [])"


section \<open>Queries of fan-outs\<close>

datatype ops_error = BadQuery | QueryFailed bitdex_error

definition parse_query_value :: "string \<Rightarrow> qvalue" where
  "parse_query_value s =
     (case parse_i64 s of
        Some n \<Rightarrow> VInteger n
      | None \<Rightarrow>
          (case parse_f64 s of
             Some x \<Rightarrow> VFloat x
           | None \<Rightarrow>
               if s = ''true'' then VBool True else if s = ''false'' then VBool False
               else VString (trim_matches (CHR 0x27) (trim_matches (CHR 0x22) s))))"

definition parse_query_values_array :: "string \<Rightarrow> ops_error + qvalue list" where
  "parse_query_values_array s =
     (let trimmed = str_trim s
      in if trimmed = [] \<or> hd trimmed \<noteq> CHR ''['' \<or> last trimmed \<noteq> CHR '']'' then Inl BadQuery
         else
           let inner = butlast (tl trimmed)
           in Inr (map parse_query_value (filter (\<lambda>part. part \<noteq> []) (map str_trim (str_split '','' inner)))))"

definition parse_clause :: "string \<Rightarrow> ops_error + 'b filter_clause" where
  "parse_clause clause =
     (case splitn 3 (CHR '' '') (str_trim clause) of
        [field, oper, value_str] \<Rightarrow>
          (if to_lowercase oper = ''eq'' then Inr (CEq field (parse_query_value value_str))
           else if to_lowercase oper = ''in'' then
             (case parse_query_values_array value_str of Inl e \<Rightarrow> Inl e | Inr vs \<Rightarrow> Inr (CIn field vs))
           else Inl BadQuery)
      | _ \<Rightarrow> Inl BadQuery)"

fun parse_clauses :: "string list \<Rightarrow> ops_error + 'b filter_clause list" where
  "parse_clauses [] = Inr []"
| "parse_clauses (c # cs) =
     (case parse_clause c of
        Inl e \<Rightarrow> Inl e
      | Inr clause \<Rightarrow> (case parse_clauses cs of Inl e \<Rightarrow> Inl e | Inr rest \<Rightarrow> Inr (clause # rest)))"

definition parse_filter_from_query_str :: "string \<Rightarrow> ops_error + 'b filter_clause list" where
  "parse_filter_from_query_str query_str = parse_clauses (str_split '' AND '' query_str)"

definition doc_field_has_value :: "field_map \<Rightarrow> string \<Rightarrow> qvalue \<Rightarrow> bool" where
  "doc_field_has_value flds field v =
     (case hm_get flds field of
        Some (Single x) \<Rightarrow> qvalue_eq x v
      | Some (Multi xs) \<Rightarrow> list_ex (\<lambda>x. qvalue_eq x v) xs
      | None \<Rightarrow> False)"

fun doc_matches_clause :: "field_map \<Rightarrow> 'b filter_clause \<Rightarrow> bool" where
  "doc_matches_clause flds (CEq field v) = doc_field_has_value flds field v"
| "doc_matches_clause flds (CIn field vs) = list_ex (doc_field_has_value flds field) vs"
| "doc_matches_clause flds _ = False"

definition doc_matches_filters :: "stored_doc \<Rightarrow> 'b filter_clause list \<Rightarrow> bool" where
  "doc_matches_filters doc filters = list_all (doc_matches_clause (sd_fields doc)) filters"


section \<open>Fan-outs\<close>

definition evict_docs :: "u32 list \<Rightarrow> ('b, 'c, 'z) ops_state_scheme \<Rightarrow> ('b, 'c, 'z) ops_state_scheme" where
  "evict_docs slots s = s\<lparr>os_engine := map_option (fold evict_doc_cache slots) (os_engine s)\<rparr>"

definition flush_docs :: "msgpack \<Rightarrow> (u8 list \<Rightarrow> u32) \<Rightarrow> ('b, 'c, 'z) ops_state_scheme \<Rightarrow> ('b, 'c, 'z) ops_state_scheme" where
  "flush_docs mp crc = with_writer (dw_flush mp crc)"

text \<open>One candidate of the deferred reach; the slots that were touched are collected.\<close>

definition reach_deferred_slot ::
    "'b roaring_ops \<Rightarrow> 'n json_ops \<Rightarrow> msgpack \<Rightarrow> (u8 list \<Rightarrow> u32) \<Rightarrow> 'b filter_clause list \<Rightarrow> 'n json sync_op list \<Rightarrow>
     string option \<Rightarrow> u64 \<Rightarrow> u32 \<Rightarrow> ('b, 'c, 'z) ops_state_scheme \<times> u32 list \<Rightarrow> ('b, 'c, 'z) ops_state_scheme \<times> u32 list" where
  "reach_deferred_slot R N mp crc filters ops keep activate_at slot = (\<lambda>(s, touched).
     case os_engine s of
       None \<Rightarrow> (s, touched)
     | Some e \<Rightarrow>
         if is_slot_alive R e slot then (s, touched)
         else
           let (doc, s) = read_document crc slot s
           in case doc of
                None \<Rightarrow> (s, touched)
              | Some d \<Rightarrow>
                  if \<not> doc_matches_filters d filters then (s, touched)
                  else (emit [DeferredAlive slot activate_at] (mirror_ops N mp keep slot ops s), touched @ [slot]))"

definition apply_fanout_to_deferred_slots ::
    "'b roaring_ops \<Rightarrow> 'n json_ops \<Rightarrow> msgpack \<Rightarrow> (u8 list \<Rightarrow> u32) \<Rightarrow> field_meta \<Rightarrow> u64 \<Rightarrow> 'b filter_clause list \<Rightarrow>
     'n json sync_op list \<Rightarrow> ('b, 'c, 'z) ops_state_scheme \<Rightarrow> usize \<times> ('b, 'c, 'z) ops_state_scheme" where
  "apply_fanout_to_deferred_slots R N mp crc meta now filters ops s =
     (case (mt_deferred_alive_field meta, os_engine s) of
        (Some (da_field, _), Some e) \<Rightarrow>
          if \<not> list_ex (touches_field da_field) ops then (0, s)
          else
            let future_sched = get_future_schedule N meta ops now;
                new_at = (case get_deferred_timestamp N meta ops of Some t \<Rightarrow> Some t | None \<Rightarrow> future_sched);
                keep = (if future_sched = None then None else Some da_field);
                (s, touched) = fold (reach_deferred_slot R N mp crc filters ops keep (case new_at of Some t \<Rightarrow> t | None \<Rightarrow> now))
                  (deferred_slots e) (s, [])
            in (length touched, if touched = [] then s else evict_docs touched (flush_docs mp crc s))
      | _ \<Rightarrow> (0, s))"

fun fanout_op ::
    "'b roaring_ops \<Rightarrow> 'n json_ops \<Rightarrow> msgpack \<Rightarrow> field_meta \<Rightarrow> u32 \<Rightarrow> 'n json sync_op \<Rightarrow>
     ('b, 'c, 'z) ops_state_scheme \<Rightarrow> ('b, 'c, 'z) ops_state_scheme" where
  "fanout_op R N mp meta slot DeleteOp s = emit [AliveRemove [slot]] s"
| "fanout_op R N mp meta slot op s = process_op R N mp meta slot op s"

definition fanout_slot ::
    "'b roaring_ops \<Rightarrow> 'n json_ops \<Rightarrow> msgpack \<Rightarrow> (u8 list \<Rightarrow> u32) \<Rightarrow> field_meta \<Rightarrow> u64 \<Rightarrow> 'n json sync_op list \<Rightarrow> i64 \<Rightarrow>
     ('b, 'c, 'z) ops_state_scheme \<times> usize \<Rightarrow> ('b, 'c, 'z) ops_state_scheme \<times> usize" where
  "fanout_slot R N mp crc meta now ops slot_id = (\<lambda>(s, applied).
     if sint slot_id < 0 \<or> sint slot_id > 4294967295 then (s, applied)
     else
       let slot = (ucast slot_id :: u32)
       in case check_deferred_alive_secs N meta now ops of
            Some activate_at \<Rightarrow> (emit [DeferredAlive slot activate_at] (mirror_ops N mp None slot ops s), applied + 1)
          | None \<Rightarrow>
              (let (sort_values, old_sort_values) =
                  (if mt_computed_deps meta = [] then ([], []) else (ops_sort_values N meta ops, ops_old_sort_values N meta ops))
               in recompute_computed_sorts_for_slot R N mp crc meta now slot sort_values old_sort_values
                    (fold (fanout_op R N mp meta slot) ops s), applied + 1))"

definition fanout_query :: "'b filter_clause list \<Rightarrow> 'b bitdex_query" where
  "fanout_query filters = \<lparr>bq_filters = filters, bq_sort = None, bq_limit = usize_MAX, bq_cursor = None, bq_offset = None,
     bq_skip_cache = True\<rparr>"

definition apply_query_op_set ::
    "'b roaring_ops \<Rightarrow> 'n json_ops \<Rightarrow> msgpack \<Rightarrow> (u8 list \<Rightarrow> u32) \<Rightarrow> field_meta \<Rightarrow> u64 \<Rightarrow> usize \<Rightarrow> string \<Rightarrow> 'n json sync_op list \<Rightarrow>
     ('b, 'c) engine \<Rightarrow> ('b, 'c, 'z) ops_state_scheme \<Rightarrow> (ops_error + usize) \<times> ('b, 'c, 'z) ops_state_scheme" where
  "apply_query_op_set R N mp crc meta now cap query_str ops e s =
     (case parse_filter_from_query_str query_str of
        Inl err \<Rightarrow> (Inl err, s)
      | Inr filters \<Rightarrow>
          let (r, e) = execute_query_uncached R now (fanout_query filters) e; s = s\<lparr>os_engine := Some e\<rparr>
          in case r of
               Inl err \<Rightarrow> (Inl (QueryFailed err), s)
             | Inr result \<Rightarrow>
                 let slot_ids = qr_ids result;
                     (deferred_applied, s) = apply_fanout_to_deferred_slots R N mp crc meta now filters ops s
                 in if length slot_ids > cap \<or> slot_ids = [] then (Inr deferred_applied, s)
                    else
                      let (s, applied) = fold (fanout_slot R N mp crc meta now ops) slot_ids (s, deferred_applied)
                      in (Inr applied, if applied > 0
                            then evict_docs (map ucast (filter (\<lambda>i. 0 \<le> sint i \<and> sint i \<le> 4294967295) slot_ids)) (flush_docs mp crc s)
                            else s))"


section \<open>A batch\<close>

definition MEMO_CAP :: nat where "MEMO_CAP = 1000000"

definition remember_confirmed_deleted :: "u32 \<Rightarrow> u32 list \<Rightarrow> u32 list" where
  "remember_confirmed_deleted slot memo = List.insert slot (if length memo \<ge> MEMO_CAP then [] else memo)"

record ('b, 'c) batch_state = "('b, 'c) ops_state" +
  bs_memo :: "u32 list"
  bs_applied :: usize
  bs_skipped :: usize
  bs_errors :: usize
  bs_barrier_done :: bool
  bs_barrier_failed :: bool

definition count_applied :: "('b, 'c) batch_state \<Rightarrow> ('b, 'c) batch_state" where
  "count_applied s = s\<lparr>bs_applied := bs_applied s + 1\<rparr>"

definition count_skipped :: "('b, 'c) batch_state \<Rightarrow> ('b, 'c) batch_state" where
  "count_skipped s = s\<lparr>bs_skipped := bs_skipped s + 1\<rparr>"

definition count_error :: "('b, 'c) batch_state \<Rightarrow> ('b, 'c) batch_state" where
  "count_error s = s\<lparr>bs_errors := bs_errors s + 1\<rparr>"

text \<open>Ops on a slot that is scheduled for later: the documents, and the schedule if they change it.\<close>

definition deferred_entry ::
    "'n json_ops \<Rightarrow> msgpack \<Rightarrow> field_meta \<Rightarrow> u64 \<Rightarrow> u32 \<Rightarrow> 'n json sync_op list \<Rightarrow> ('b, 'c) batch_state \<Rightarrow> ('b, 'c) batch_state" where
  "deferred_entry N mp meta now slot ops s =
     (let future_sched = get_future_schedule N meta ops now;
          keep = (if future_sched = None then None else Some (da_field_name meta));
          s = mirror_ops N mp keep slot ops s;
          s = (case (get_deferred_timestamp N meta ops, future_sched) of
                 (Some new_at, _) \<Rightarrow> emit [DeferredAlive slot new_at] s
               | (None, Some new_at) \<Rightarrow> emit [DeferredAlive slot new_at] s
               | (None, None) \<Rightarrow>
                   if list_ex (touches_field (da_field_name meta)) ops then emit [DeferredAlive slot now] s else s)
      in count_applied s)"

text \<open>An entry for a slot that is not alive: it is finished (\<open>Inl\<close>), or it creates the slot (\<open>Inr\<close>).
  A document that cannot be read counts as absent.\<close>

definition not_alive_entry ::
    "'n json_ops \<Rightarrow> msgpack \<Rightarrow> (u8 list \<Rightarrow> u32) \<Rightarrow> field_meta \<Rightarrow> u64 \<Rightarrow> u32 \<Rightarrow> 'n json sync_op list \<Rightarrow> ('b, 'c) engine \<Rightarrow>
     ('b, 'c) batch_state \<Rightarrow> ('b, 'c) batch_state + unit" where
  "not_alive_entry N mp crc meta now slot ops e s =
     (if is_slot_deferred e slot then Inl (deferred_entry N mp meta now slot ops s)
      else if slot_counter e \<le> slot then Inr ()
      else case get_future_schedule N meta ops now of
        Some arm_at \<Rightarrow>
          Inl (count_applied (emit [DeferredAlive slot arm_at] (mirror_ops N mp (Some (da_field_name meta)) slot ops s)))
      | None \<Rightarrow>
          if slot \<in> set (bs_memo s) then Inl (count_skipped s)
          else (case dv_get crc (os_store s) slot of
              Inr (Some _) \<Rightarrow> Inl (count_skipped (s\<lparr>bs_memo := remember_confirmed_deleted slot (bs_memo s)\<rparr>))
            | _ \<Rightarrow> Inr ()))"

definition write_id ::
    "'n json_ops \<Rightarrow> msgpack \<Rightarrow> field_meta \<Rightarrow> u32 \<Rightarrow> 'n json sync_op list \<Rightarrow> ('b, 'c) batch_state \<Rightarrow> ('b, 'c) batch_state" where
  "write_id N mp meta slot ops s =
     (if mt_id_field meta = [] \<or> list_ex (\<lambda>op. set_field_of op = Some (mt_id_field meta)) ops then s
      else with_writer (write_set N mp slot (mt_id_field meta) (json_u32 N slot)) s)"

text \<open>The document of a slot that is created for later keeps the removed time and ignores other removes.\<close>

fun create_mirror_op ::
    "'n json_ops \<Rightarrow> msgpack \<Rightarrow> string \<Rightarrow> u32 \<Rightarrow> 'n json sync_op \<Rightarrow> writer_state \<Rightarrow> writer_state" where
  "create_mirror_op N mp da_field slot (SetOp field v) w = write_set N mp slot field v w"
| "create_mirror_op N mp da_field slot (AddOp field v) w = write_add N slot field v w"
| "create_mirror_op N mp da_field slot (RemoveOp field v) w = (if field = da_field then write_set N mp slot field v w else w)"
| "create_mirror_op N mp da_field slot _ w = w"

definition fanout_barrier ::
    "'c chan_ops \<Rightarrow> msgpack \<Rightarrow> (u8 list \<Rightarrow> u32) \<Rightarrow> (('b, 'c) engine \<Rightarrow> ('b, 'c) engine \<times> bool) \<Rightarrow> ('b, 'c) batch_state \<Rightarrow>
     ('b, 'c) batch_state" where
  "fanout_barrier C mp crc publish s =
     (if bs_barrier_done s then s
      else
        let s = s\<lparr>bs_barrier_done := True\<rparr>
        in case os_engine s of
             None \<Rightarrow> s
           | Some _ \<Rightarrow>
               let s = snd (sink_flush C (flush_docs mp crc s))
               in case os_engine s of
                    None \<Rightarrow> s
                  | Some e \<Rightarrow> let (e, ok) = publish e in s\<lparr>os_engine := Some e, bs_barrier_failed := \<not> ok\<rparr>)"

fun query_op_entry ::
    "'b roaring_ops \<Rightarrow> 'c chan_ops \<Rightarrow> 'n json_ops \<Rightarrow> msgpack \<Rightarrow> (u8 list \<Rightarrow> u32) \<Rightarrow> field_meta \<Rightarrow> u64 \<Rightarrow> usize \<Rightarrow>
     (('b, 'c) engine \<Rightarrow> ('b, 'c) engine \<times> bool) \<Rightarrow> 'n json sync_op \<Rightarrow> ('b, 'c) batch_state \<Rightarrow> ('b, 'c) batch_state" where
  "query_op_entry R C N mp crc meta now cap publish (QueryOpSet None ops) s = count_skipped s"
| "query_op_entry R C N mp crc meta now cap publish (QueryOpSet (Some query_str) ops) s =
     (let s = fanout_barrier C mp crc publish s
      in if bs_barrier_failed s then count_error s
         else case os_engine s of
             None \<Rightarrow> count_skipped s
           | Some e \<Rightarrow>
               (case apply_query_op_set R N mp crc meta now cap query_str ops e s of
                  (Inr n, s) \<Rightarrow> s\<lparr>bs_applied := bs_applied s + n\<rparr>
                | (Inl _, s) \<Rightarrow> count_error s))"
| "query_op_entry R C N mp crc meta now cap publish _ s = s"

text \<open>The clean delete through the engine; without one, only the alive bit goes.\<close>

definition process_delete ::
    "'c chan_ops \<Rightarrow> (u8 list \<Rightarrow> u32) \<Rightarrow> field_meta \<Rightarrow> u32 \<Rightarrow> ('b, 'c) batch_state \<Rightarrow> ('b, 'c) batch_state" where
  "process_delete C crc meta slot s =
     (let cancel = (\<lambda>s. if mt_deferred_alive_field meta = None then s else emit [DeferredCancel slot] s)
      in case os_engine s of
           None \<Rightarrow> count_applied (cancel (emit [AliveRemove [slot]] s))
         | Some e \<Rightarrow>
             (case en_delete C crc (os_store s) slot e of
                (Inr _, e) \<Rightarrow> count_applied (cancel (s\<lparr>os_engine := Some e\<rparr>))
              | (Inl _, e) \<Rightarrow> count_error (s\<lparr>os_engine := Some e\<rparr>)))"

definition live_entry ::
    "'b roaring_ops \<Rightarrow> 'c chan_ops \<Rightarrow> 'n json_ops \<Rightarrow> msgpack \<Rightarrow> (u8 list \<Rightarrow> u32) \<Rightarrow> field_meta \<Rightarrow> u64 \<Rightarrow> usize \<Rightarrow>
     (('b, 'c) engine \<Rightarrow> ('b, 'c) engine \<times> bool) \<Rightarrow> u32 \<Rightarrow> bool \<Rightarrow> 'n json sync_op list \<Rightarrow> ('b, 'c) batch_state \<Rightarrow> ('b, 'c) batch_state" where
  "live_entry R C N mp crc meta now cap publish slot creates_slot ops s =
     (let s = fold (query_op_entry R C N mp crc meta now cap publish) ops s;
          s = fold (process_op R N mp meta slot) ops s;
          s = recompute_computed_sorts_for_slot R N mp crc meta now slot (ops_sort_values N meta ops) (ops_old_sort_values N meta ops) s;
          s = (if creates_slot then emit [AliveInsert [slot]] s else s)
      in if list_ex is_field_op ops then count_applied s else s)"

definition create_entry ::
    "'b roaring_ops \<Rightarrow> 'c chan_ops \<Rightarrow> 'n json_ops \<Rightarrow> msgpack \<Rightarrow> (u8 list \<Rightarrow> u32) \<Rightarrow> field_meta \<Rightarrow> u64 \<Rightarrow> usize \<Rightarrow>
     (('b, 'c) engine \<Rightarrow> ('b, 'c) engine \<times> bool) \<Rightarrow> u32 \<Rightarrow> 'n json sync_op list \<Rightarrow> ('b, 'c) batch_state \<Rightarrow> ('b, 'c) batch_state" where
  "create_entry R C N mp crc meta now cap publish slot ops s =
     (let s = write_id N mp meta slot ops s
      in case get_future_schedule N meta ops now of
           Some da_secs \<Rightarrow>
             count_applied (with_writer (fold (create_mirror_op N mp (da_field_name meta) slot) ops) (emit [DeferredAlive slot da_secs] s))
         | None \<Rightarrow> live_entry R C N mp crc meta now cap publish slot True ops s)"

definition process_entry ::
    "'b roaring_ops \<Rightarrow> 'c chan_ops \<Rightarrow> 'n json_ops \<Rightarrow> msgpack \<Rightarrow> (u8 list \<Rightarrow> u32) \<Rightarrow> field_meta \<Rightarrow> u64 \<Rightarrow> usize \<Rightarrow>
     (('b, 'c) engine \<Rightarrow> ('b, 'c) engine \<times> bool) \<Rightarrow> 'n json entity_ops \<Rightarrow> ('b, 'c) batch_state \<Rightarrow> ('b, 'c) batch_state" where
  "process_entry R C N mp crc meta now cap publish entry s =
     (let ops = eo_ops entry; slot = (ucast (eo_entity_id entry) :: u32);
          create = create_entry R C N mp crc meta now cap publish slot ops;
          live = live_entry R C N mp crc meta now cap publish slot False ops
      in if sint (eo_entity_id entry) < 0 \<or> sint (eo_entity_id entry) > 4294967295 then count_skipped s
         else if DeleteOp \<in> set ops then process_delete C crc meta slot s
         else if eo_creates_slot entry then create s
         else if list_ex is_query_op ops then live s
         else case os_engine s of
             None \<Rightarrow> live s
           | Some e \<Rightarrow>
               if is_slot_alive R e slot then live s
               else (case not_alive_entry N mp crc meta now slot ops e s of Inl s \<Rightarrow> s | Inr _ \<Rightarrow> create s))"

definition batch_start ::
    "('b, 'c) engine option \<Rightarrow> doc_writer option \<Rightarrow> doc_store \<Rightarrow> u32 list \<Rightarrow> mutation_op list \<Rightarrow> ('b, 'c) batch_state" where
  "batch_start eng dw st memo sink =
     \<lparr>os_sink = sink, os_engine = eng, os_writer = dw, os_store = st, bs_memo = memo, bs_applied = 0, bs_skipped = 0, bs_errors = 0,
      bs_barrier_done = False, bs_barrier_failed = False\<rparr>"

definition apply_ops_batch ::
    "'b roaring_ops \<Rightarrow> 'c chan_ops \<Rightarrow> 'n json_ops \<Rightarrow> msgpack \<Rightarrow> (u8 list \<Rightarrow> u32) \<Rightarrow> field_meta \<Rightarrow> u64 \<Rightarrow> usize \<Rightarrow>
     (('b, 'c) engine \<Rightarrow> ('b, 'c) engine \<times> bool) \<Rightarrow> 'n json entity_ops list \<Rightarrow> ('b, 'c) batch_state \<Rightarrow> ('b, 'c) batch_state" where
  "apply_ops_batch R C N mp crc meta now cap publish batch s =
     (let batch = sort_key (\<lambda>e. list_ex is_query_op (eo_ops e)) (dedup_ops (jn_text N) batch);
          s = fold (process_entry R C N mp crc meta now cap publish) batch s;
          (ok, s) = sink_flush C s
      in flush_docs mp crc (if ok then s else count_error s))"


section \<open>The sweep over overdue activations\<close>

definition sweep_query :: "string \<Rightarrow> string \<Rightarrow> usize \<Rightarrow> cursor_position option \<Rightarrow> 'b bitdex_query" where
  "sweep_query shadow sort_field page_size cursor =
     \<lparr>bq_filters = [CEq shadow (VBool False)], bq_sort = Some \<lparr>sc_field = sort_field, sc_direction = Desc\<rparr>,
      bq_limit = page_size, bq_cursor = cursor, bq_offset = None, bq_skip_cache = True\<rparr>"

text \<open>One id of a page: the slots checked and healed so far.\<close>

definition sweep_slot ::
    "'b roaring_ops \<Rightarrow> 'n json_ops \<Rightarrow> msgpack \<Rightarrow> (u8 list \<Rightarrow> u32) \<Rightarrow> field_meta \<Rightarrow> u64 \<Rightarrow> string \<Rightarrow> bool \<Rightarrow> i64 \<Rightarrow>
     ('b, 'c, 'z) ops_state_scheme \<times> usize \<times> u32 list \<Rightarrow> ('b, 'c, 'z) ops_state_scheme \<times> usize \<times> u32 list" where
  "sweep_slot R N mp crc meta now source_field ms_to_secs i = (\<lambda>(s, checked, healed).
     if sint i < 0 \<or> sint i > 4294967295 then (s, checked, healed)
     else
       let slot = (ucast i :: u32); (doc, s) = read_document crc slot s; checked = checked + 1
       in case Option.bind doc (\<lambda>d. raw_time (hm_get (sd_fields d) source_field)) of
            None \<Rightarrow> (s, checked, healed)
          | Some raw \<Rightarrow>
              let secs = source_secs ms_to_secs raw
              in if sint secs \<le> 0 \<or> sint secs > sint now then (s, checked, healed)
                 else (recompute_computed_sorts_for_slot R N mp crc meta now slot [(source_field, ucast secs)] [] s,
                       checked, healed @ [slot]))"

text \<open>The loop over the pages.  Every page that continues the loop raises the number of checked slots;
  \<open>None\<close> is fuel exhausted.\<close>

fun sweep_loop ::
    "nat \<Rightarrow> 'b roaring_ops \<Rightarrow> 'n json_ops \<Rightarrow> msgpack \<Rightarrow> (u8 list \<Rightarrow> u32) \<Rightarrow> field_meta \<Rightarrow> u64 \<Rightarrow> string \<times> bool \<Rightarrow> string \<Rightarrow> string \<Rightarrow>
     usize \<Rightarrow> usize \<Rightarrow> cursor_position option \<Rightarrow> ('b, 'c, 'z) ops_state_scheme \<times> usize \<times> u32 list \<Rightarrow>
     (('b, 'c, 'z) ops_state_scheme \<times> usize \<times> u32 list \<times> cursor_position option) option" where
  "sweep_loop 0 R N mp crc meta now source shadow sort_field page_size limit cursor st = None"
| "sweep_loop (Suc fuel) R N mp crc meta now source shadow sort_field page_size limit cursor (s, checked, healed) =
     (case os_engine s of
        None \<Rightarrow> Some (s, checked, healed, cursor)
      | Some e \<Rightarrow>
          if checked \<ge> limit then Some (s, checked, healed, cursor)
          else
            let (r, e) = execute_query_uncached R now (sweep_query shadow sort_field page_size cursor) e;
                s = s\<lparr>os_engine := Some e\<rparr>
            in case r of
                 Inl _ \<Rightarrow> Some (s, checked, healed, cursor)
               | Inr result \<Rightarrow>
                   if qr_ids result = [] then Some (s, checked, healed, None)
                   else
                     let st = fold (sweep_slot R N mp crc meta now (fst source) (snd source)) (qr_ids result) (s, checked, healed)
                     in if length (qr_ids result) < page_size \<or> qr_cursor result = None
                        then Some (fst st, fst (snd st), snd (snd st), None)
                        else sweep_loop fuel R N mp crc meta now source shadow sort_field page_size limit (qr_cursor result) st)"

definition overdue_deferred_sweep ::
    "'b roaring_ops \<Rightarrow> 'n json_ops \<Rightarrow> msgpack \<Rightarrow> (u8 list \<Rightarrow> u32) \<Rightarrow> field_meta \<Rightarrow> u64 \<Rightarrow> usize \<Rightarrow> cursor_position option \<Rightarrow>
     ('b, 'c, 'z) ops_state_scheme \<Rightarrow> (('b, 'c, 'z) ops_state_scheme \<times> usize \<times> u32 list \<times> cursor_position option) option" where
  "overdue_deferred_sweep R N mp crc meta now limit resume s =
     (case (mt_deferred_alive_field meta, os_engine s) of
        (Some (source_field, ms_to_secs), Some e) \<Rightarrow>
          (case hm_get (mt_exists_boolean_shadows meta) source_field of
             Some (shadow # _) \<Rightarrow>
               let sort_field = (case hm_get (mt_computed_deps meta) source_field of
                     Some (d # _) \<Rightarrow> ci_target d | _ \<Rightarrow> source_field);
                   page_size = max (min (cfg_max_page_size (en_config e)) limit) 1
               in sweep_loop (limit + 1) R N mp crc meta now (source_field, ms_to_secs) shadow sort_field page_size limit resume
                    (s, 0, [])
           | _ \<Rightarrow> Some (s, 0, [], None))
      | _ \<Rightarrow> Some (s, 0, [], None))"


section \<open>The verifier of activations\<close>

datatype orphan_verdict = PublishLag | Inconclusive | NonApply | Revert

definition classify :: "bool \<Rightarrow> bool \<Rightarrow> bool \<Rightarrow> orphan_verdict" where
  "classify barrier_ok reread_present has_recent_removes =
     (if reread_present then PublishLag else if \<not> barrier_ok then Inconclusive
      else if has_recent_removes then Revert else NonApply)"

definition redrives :: "orphan_verdict \<Rightarrow> bool" where
  "redrives v \<longleftrightarrow> v \<noteq> PublishLag"

definition is_confirmed_drop :: "orphan_verdict \<Rightarrow> bool" where
  "is_confirmed_drop v \<longleftrightarrow> v = NonApply \<or> v = Revert"

record verify_outcome =
  vo_checked :: usize
  vo_redriven :: usize
  vo_publish_lag :: usize
  vo_inconclusive :: usize

text \<open>Slots that must be verified again are collected as well.\<close>

type_synonym ('b, 'c) verify_state = "('b, 'c) engine \<times> doc_store \<times> verify_outcome \<times> u32 list"

definition membership_query :: "string \<Rightarrow> i64 \<Rightarrow> 'b bitdex_query" where
  "membership_query field pid = fanout_query [CEq field (VInteger pid)]"

definition redrive_slot ::
    "'c chan_ops \<Rightarrow> 'n json_ops \<Rightarrow> msgpack \<Rightarrow> (u8 list \<Rightarrow> u32) \<Rightarrow> u64 \<Rightarrow> u32 \<Rightarrow> stored_doc \<Rightarrow> ('b, 'c) engine \<times> doc_store \<Rightarrow>
     ('b, 'c) engine \<times> doc_store" where
  "redrive_slot C N mp crc now slot doc = (\<lambda>(e, st).
     let registry = fr_from_config (en_config e);
         document = \<lparr>doc_fields = sd_fields doc\<rparr>;
         e = fold (\<lambda>op e. e\<lparr>en_coalescer := snd (ms_send C op (en_coalescer e))\<rparr>)
               (diff_document slot None document (en_config e) False registry now) e;
         derived = derive_exists_boolean_shadows (en_config e) (sd_fields doc);
         st = (if derived = [] then st
               else snd (dw_flush mp crc (fold (\<lambda>(name, v). write_set N mp slot name (JBool v)) derived (dw_new st, st))))
     in (evict_doc_cache slot e, st))"

definition bump_outcome :: "orphan_verdict \<Rightarrow> verify_outcome \<Rightarrow> verify_outcome" where
  "bump_outcome v out = (if \<not> redrives v then out\<lparr>vo_publish_lag := vo_publish_lag out + 1\<rparr>
     else if is_confirmed_drop v then out\<lparr>vo_redriven := vo_redriven out + 1\<rparr>
     else out\<lparr>vo_inconclusive := vo_inconclusive out + 1\<rparr>)"

definition verify_slot ::
    "'b roaring_ops \<Rightarrow> 'c chan_ops \<Rightarrow> 'n json_ops \<Rightarrow> msgpack \<Rightarrow> (u8 list \<Rightarrow> u32) \<Rightarrow> u64 \<Rightarrow> (('b, 'c) engine \<Rightarrow> ('b, 'c) engine \<times> bool) \<Rightarrow>
     (u32 \<Rightarrow> bool) \<Rightarrow> string \<Rightarrow> u32 \<Rightarrow> ('b, 'c) verify_state \<Rightarrow> ('b, 'c) verify_state" where
  "verify_slot R C N mp crc now publish recent_removes verify_field slot = (\<lambda>(e, st, out, requeue).
     let (r, e) = get_document crc st slot e
     in case r of
          Inl _ \<Rightarrow> (e, st, out, requeue @ [slot])
        | Inr None \<Rightarrow> (e, st, out, requeue)
        | Inr (Some doc) \<Rightarrow>
            if \<not> is_slot_alive R e slot then (e, st, out, requeue)
            else (case hm_get (sd_fields doc) verify_field of
                Some (Single (VInteger pid)) \<Rightarrow>
                  let out = out\<lparr>vo_checked := vo_checked out + 1\<rparr>;
                      (r, e) = execute_query_uncached R now (membership_query verify_field pid) e
                  in (case r of
                        Inl _ \<Rightarrow> (e, st, out, requeue @ [slot])
                      | Inr result \<Rightarrow>
                          if ucast slot \<in> set (qr_ids result) then (e, st, out, requeue)
                          else
                            let (e, barrier_ok) = publish e;
                                (r, e) = execute_query_uncached R now (membership_query verify_field pid) e
                            in (case r of
                                  Inl _ \<Rightarrow> (e, st, out, requeue @ [slot])
                                | Inr result \<Rightarrow>
                                    let verdict = classify barrier_ok (ucast slot \<in> set (qr_ids result)) (recent_removes slot);
                                        (e, st) = (if redrives verdict then redrive_slot C N mp crc now slot doc (e, st) else (e, st))
                                    in (e, st, bump_outcome verdict out, requeue)))
              | _ \<Rightarrow> (e, st, out, requeue)))"

definition verify_recent_activations ::
    "'b roaring_ops \<Rightarrow> 'c chan_ops \<Rightarrow> 'n json_ops \<Rightarrow> msgpack \<Rightarrow> (u8 list \<Rightarrow> u32) \<Rightarrow> u64 \<Rightarrow> (('b, 'c) engine \<Rightarrow> ('b, 'c) engine \<times> bool) \<Rightarrow>
     (u32 \<Rightarrow> bool) \<Rightarrow> string option \<Rightarrow> usize \<Rightarrow> ('b, 'c) engine \<Rightarrow> doc_store \<Rightarrow> ('b, 'c) engine \<times> doc_store \<times> verify_outcome" where
  "verify_recent_activations R C N mp crc now publish recent_removes membership_field limit e st =
     (let none = \<lparr>vo_checked = 0, vo_redriven = 0, vo_publish_lag = 0, vo_inconclusive = 0\<rparr>
      in case membership_field of
           Some verify_field \<Rightarrow>
             if verify_field = [] \<or> \<not> list_ex (\<lambda>f. ffc_name f = verify_field) (cfg_filter_fields (en_config e)) then (e, st, none)
             else
               let (slots, e) = drain_activation_verify limit e;
                   (e, st, out, requeue) = fold (verify_slot R C N mp crc now publish recent_removes verify_field) slots (e, st, none, [])
               in (requeue_activation_verify requeue e, st, out)
         | None \<Rightarrow> (e, st, none))"

end
