(* ===== verification/Engine_Query.thy ===== *)
theory Engine_Query
  imports Engine
begin

text \<open>
  Properties of the queries of the engine that bypass the result cache (\<open>execute_query\<close> with
  \<open>skip_cache\<close> in \<open>concurrent_engine.rs\<close>): the page a sorted query returns, with its offset and its
  validation against the writes in flight, and the bound on every page.
\<close>

section \<open>The executor of the engine\<close>

lemma engine_executor_sels [simp]:
  "qe_sorts (engine_executor e now) = en_sorts e" "qe_slots (engine_executor e now) = en_slots e"
  "qe_filters (engine_executor e now) = en_filters e" "qe_max_page_size (engine_executor e now) = cfg_max_page_size (en_config e)"
  by (simp_all add: engine_executor_def qe_new_def qe_with_string_maps_def qe_with_case_sensitive_fields_def
      qe_with_dictionaries_def qe_with_time_buckets_def Let_def split: option.splits)

lemma engine_executor_sorts:
  "engine_executor (e\<lparr>en_snapshot := (en_slots e, en_filters e, sorts)\<rparr>) now = (engine_executor e now)\<lparr>qe_sorts := sorts\<rparr>"
  by (simp add: engine_executor_def qe_new_def qe_with_string_maps_def qe_with_case_sensitive_fields_def
      qe_with_dictionaries_def qe_with_time_buckets_def Let_def split: option.splits)

definition exact_match :: "'b roaring_ops \<Rightarrow> 'b query_executor \<Rightarrow> 'b filter_clause list \<Rightarrow> u32 \<Rightarrow> bool" where
  "exact_match R ex cs slot \<longleftrightarrow> (\<forall>c \<in> set cs. slot \<in> clause_set R ex c)"


section \<open>Validation against the writes in flight\<close>

lemma invalid_slots_eq:
  assumes "\<And>slot. slot_matches_filters R ex slot cs = Inr (ok slot)"
  shows "invalid_slots R ex cs slots = Inr (filter (\<lambda>s. \<not> ok s) slots)"
  by (induction slots) (simp_all add: assms)

lemma post_validate_eq:
  assumes "\<And>slot. slot_matches_filters R ex slot cs = Inr (ok slot)" and "qr_ids r = map ucast (slots :: u32 list)"
  shows "post_validate R marks ex cs r = Inr (r\<lparr>qr_ids := map ucast (filter (\<lambda>s. s \<in> set marks \<longrightarrow> ok s) slots)\<rparr>)"
proof -
  let ?inv = "filter (\<lambda>s. \<not> ok s) (find_overlapping marks (qr_ids r))"
  have over: "find_overlapping marks (qr_ids r) = filter (\<lambda>s. s \<in> set marks) slots"
    by (simp add: find_overlapping_def assms(2) o_def)
  have keep: "filter (\<lambda>i. (ucast i :: u32) \<notin> set ?inv) (qr_ids r) = map ucast (filter (\<lambda>s. s \<in> set marks \<longrightarrow> ok s) slots)"
    unfolding over unfolding assms(2) filter_map o_def by (auto intro!: arg_cong [where f = "map ucast"] filter_cong)
  have same: "r\<lparr>qr_ids := map ucast (filter (\<lambda>s. s \<in> set marks \<longrightarrow> ok s) slots)\<rparr> = r" if "?inv = []"
    unfolding keep [symmetric] that by simp
  consider "marks = []" | "find_overlapping marks (qr_ids r) = []" | "marks \<noteq> []" "find_overlapping marks (qr_ids r) \<noteq> []" by blast
  then show ?thesis
  proof cases
    case 1
    then have "?inv = []" by (simp add: find_overlapping_def)
    with 1 same show ?thesis by (simp add: post_validate_def)
  next
    case 2
    then have "?inv = []" by simp
    with 2 same show ?thesis by (simp add: post_validate_def)
  next
    case 3
    then have "post_validate R marks ex cs r = Inr (if ?inv = [] then r else r\<lparr>qr_ids := filter (\<lambda>i. (ucast i :: u32) \<notin> set ?inv) (qr_ids r)\<rparr>)"
      by (simp add: post_validate_def invalid_slots_eq [OF assms(1)])
    also have "\<dots> = Inr (r\<lparr>qr_ids := map ucast (filter (\<lambda>s. s \<in> set marks \<longrightarrow> ok s) slots)\<rparr>)"
      using keep same by (cases "?inv = []") simp_all
    finally show ?thesis .
  qed
qed


section \<open>Offsets\<close>

lemma apply_offset_sorted:
  assumes "sorts_agree R sorts0 sorts" and "si_get_field sorts0 (sc_field srt) = Some f" and "sf_ok R f"
  shows "apply_offset R sorts (Some srt) offset \<lparr>qr_ids = map ucast slots, qr_cursor = last_cursor R f slots, qr_total_matched = n\<rparr> =
    \<lparr>qr_ids = map ucast (drop offset slots), qr_cursor = last_cursor R f (drop offset slots), qr_total_matched = n\<rparr>"
proof -
  obtain f' where f': "si_get_field sorts (sc_field srt) = Some f'" "sf_reconstruct_value R f' = sf_reconstruct_value R f"
    using assms unfolding sorts_agree_def by blast
  show ?thesis
  proof (cases "offset > 0 \<and> slots \<noteq> [] \<and> offset < length slots")
    case True
    then have "drop offset slots \<noteq> []" by simp
    then have "last (map ucast (drop offset slots) :: i64 list) = ucast (last (drop offset slots))" by (rule last_map)
    with True show ?thesis using f' by (simp add: apply_offset_def last_cursor_def drop_map [symmetric] Let_def)
  qed (auto simp: apply_offset_def last_cursor_def)
qed



section \<open>Bounds\<close>

text \<open>The id of a slot fits in the result type.\<close>

lemma slot_id [simp]:
  fixes slot :: u32
  shows "\<not> sint (ucast slot :: i64) < 0" "\<not> 4294967295 < sint (ucast slot :: i64)" "ucast (ucast slot :: i64) = slot"
proof -
  have "uint (ucast slot :: i64) = uint slot" by (simp add: unsigned_ucast_eq take_bit_int_eq_self_iff) (use uint_bounded [of slot] in simp)
  moreover have "uint slot < 2 ^ 32" using uint_bounded [of slot] by simp
  moreover have "- 9223372036854775808 \<le> uint slot" by (rule order_trans [of _ 0]) simp_all
  ultimately have "sint (ucast slot :: i64) = uint slot" by (simp add: sint_uint signed_take_bit_int_eq_self_iff)
  then show "\<not> sint (ucast slot :: i64) < 0" "\<not> 4294967295 < sint (ucast slot :: i64)" using \<open>uint slot < 2 ^ 32\<close> by simp_all
  show "ucast (ucast slot :: i64) = slot" by simp
qed

lemma inner_ids:
  assumes "execute_from_bitmap_inner R ex bm srt limit cursor simple = Inr (r, sorts)"
  shows "\<exists>slots :: u32 list. qr_ids r = map ucast slots \<and> (srt = None \<longrightarrow> length slots \<le> limit)"
proof (cases srt)
  case None
  then show ?thesis using assms
    by (auto simp: execute_from_bitmap_inner_def slot_order_paginate_def slot_order_paginate_dir_def Let_def bbind_def
        intro: exI [of _ "[]"] split: if_splits)
next
  case (Some c)
  then show ?thesis using assms
    by (auto simp: execute_from_bitmap_inner_def simple_sort_and_paginate_def sort_and_paginate_def Let_def bbind_def
        simp del: map_map split: if_splits option.splits prod.splits)
qed

lemma offset_ids: "qr_ids r = map ucast (slots :: u32 list) \<Longrightarrow>
    \<exists>slots' :: u32 list. qr_ids (apply_offset R sorts srt offset r) = map ucast slots' \<and> length slots' \<le> length slots"
  by (auto simp: apply_offset_def drop_map Let_def intro: exI [of _ slots] exI [of _ "[]"] exI [of _ "drop offset slots"]
      split: option.splits)

lemma validated_ids:
  assumes "post_validate R marks ex cs r = Inr r'" and "qr_ids r = map ucast (slots :: u32 list)"
  shows "\<exists>slots' :: u32 list. qr_ids r' = map ucast slots' \<and> length slots' \<le> length slots"
proof -
  have "\<exists>P. qr_ids r' = filter P (qr_ids r)"
    using assms(1) by (auto simp: post_validate_def Let_def bbind_def intro: exI [of _ "\<lambda>_. True"] split: if_splits sum.splits)
  then obtain P where "qr_ids r' = filter P (qr_ids r)" by blast
  then have "qr_ids r' = map ucast (filter (P \<circ> ucast) slots)" using assms(2) by (simp add: filter_map)
  then show ?thesis using length_filter_le by blast
qed

lemma uncached_ids:
  assumes "execute_query_uncached R now q e = (Inr r, e')"
  shows "\<exists>slots :: u32 list. qr_ids r = map ucast slots \<and> (bq_sort q = None \<longrightarrow> length slots \<le> cfg_max_page_size (en_config e))"
proof -
  let ?ex = "engine_executor e now" and ?n = "usize_saturating_add (bq_limit q) (query_offset q)"
  obtain bm simple r0 sorts where
    "resolve_filters R ?ex (snap_filters R (en_time_buckets e) now (bq_filters q)) (en_time_buckets e) now = Inr (bm, simple)"
    and r0: "execute_from_bitmap R ?ex bm (bq_sort q) ?n (bq_cursor q) simple = Inr (r0, sorts)"
    and r: "\<exists>ex. post_validate R (en_in_flight e) ex (bq_filters q) (apply_offset R sorts (bq_sort q) (query_offset q)
      (r0\<lparr>qr_total_matched := rb_len R bm\<rparr>)) = Inr r"
    using assms by (auto simp: execute_query_uncached_def Let_def bbind_def split: sum.splits prod.splits)
  from r0 obtain slots :: "u32 list" where s: "qr_ids (r0\<lparr>qr_total_matched := rb_len R bm\<rparr>) = map ucast slots"
      "bq_sort q = None \<longrightarrow> length slots \<le> cfg_max_page_size (en_config e)"
    using inner_ids [of R ?ex bm "bq_sort q"] by (fastforce simp: execute_from_bitmap_def)
  obtain slots' :: "u32 list" where s': "qr_ids (apply_offset R sorts (bq_sort q) (query_offset q) (r0\<lparr>qr_total_matched := rb_len R bm\<rparr>)) =
      map ucast slots'" "length slots' \<le> length slots"
    using offset_ids [OF s(1)] by blast
  with r validated_ids [OF _ s'(1)] obtain slots'' :: "u32 list" where "qr_ids r = map ucast slots''" "length slots'' \<le> length slots'" by blast
  with s(2) s'(2) show ?thesis by (auto intro!: exI [of _ slots''])
qed


section \<open>Properties\<close>

text \<open>Without a sort field the page holds the highest slots.\<close>

lemma uncached_slot_order:
  assumes "roaring R" and "ex = engine_executor e now"
    and "cs = snap_filters R (en_time_buckets e) now (snap_filters R (en_time_buckets e) now (bq_filters q))" and "clauses_ok R ex cs"
    and "bq_sort q = None" and "bq_cursor q = None" and "bq_offset q = None" and "en_in_flight e = []"
  shows "\<exists>r. execute_query_uncached R now q e = (Inr r, e) \<and> qr_ids r =
    map ucast (take (min (usize_saturating_add (bq_limit q) 0) (cfg_max_page_size (en_config e))) (rev (sorted_list_of_set (query_set R ex cs))))"
proof -
  let ?plan = "plan_query_with_context R cs (en_filters e) (en_slots e)
      (Some \<lparr>pc_string_maps = qe_string_maps ex, pc_dictionaries = qe_dictionaries ex\<rparr>)"
  obtain bm where bm: "compute_filters R ex (qp_ordered_clauses ?plan) = Inr bm" "bits R bm = query_set R ex cs"
    using planned_filters [OF assms(1,4)] by blast
  have res: "resolve_filters R ex (snap_filters R (en_time_buckets e) now (bq_filters q)) (en_time_buckets e) now =
      Inr (bm, qp_use_simple_sort ?plan)"
    using bm(1) assms(3) by (simp add: resolve_filters_def Let_def assms(2))
  have "rev (sorted_list_of_set (query_set R ex cs)) = page_order True (\<lambda>_. 0) (query_set R ex cs)"
    by (rule page_order_unique) (simp_all add: before_def sorted_wrt_rev)
  then show ?thesis
    using res assms(2,5-8) bm(2) by (simp add: execute_query_uncached_def Let_def execute_from_bitmap_def execute_from_bitmap_inner_def
        slot_order_page [OF assms(1)] query_offset_def apply_offset_def post_validate_def page_slots_def after_cursor_def)
qed

lemma uncached_page:
  assumes "roaring R" and "ex = engine_executor e now" and "effective = snap_filters R (en_time_buckets e) now (bq_filters q)"
    and "cs = snap_filters R (en_time_buckets e) now effective" and "clauses_ok R ex cs"
    and "bq_sort q = Some srt" and "si_get_field (en_sorts e) (sc_field srt) = Some f" and "sf_ok R f" and "cursor_fits f (bq_cursor q)"
    and "slots = page_slots (sc_direction srt = Desc) (sf_reconstruct_value R f) (cursor32 (bq_cursor q))
      (min (usize_saturating_add (bq_limit q) (query_offset q)) (cfg_max_page_size (en_config e))) (query_set R ex cs)"
  shows "\<exists>sorts. sorts_agree R (en_sorts e) sorts \<and>
    execute_query_uncached R now q e =
      (post_validate R (en_in_flight e) (ex\<lparr>qe_sorts := sorts\<rparr>) (bq_filters q)
         \<lparr>qr_ids = map ucast (drop (query_offset q) slots), qr_cursor = last_cursor R f (drop (query_offset q) slots),
          qr_total_matched = card (query_set R ex cs)\<rparr>,
       e\<lparr>en_snapshot := (en_slots e, en_filters e, sorts)\<rparr>)"
proof -
  let ?plan = "plan_query_with_context R cs (en_filters e) (en_slots e)
      (Some \<lparr>pc_string_maps = qe_string_maps ex, pc_dictionaries = qe_dictionaries ex\<rparr>)"
  let ?limit = "usize_saturating_add (bq_limit q) (query_offset q)"
  obtain bm where bm: "compute_filters R ex (qp_ordered_clauses ?plan) = Inr bm" "bits R bm = query_set R ex cs"
    using planned_filters [OF assms(1,5)] by blast
  have res: "resolve_filters R ex effective (en_time_buckets e) now = Inr (bm, qp_use_simple_sort ?plan)"
    using bm(1) assms(4) by (simp add: resolve_filters_def Let_def assms(2))
  have f: "si_get_field (qe_sorts ex) (sc_field srt) = Some f" using assms(2,7) by simp
  obtain sorts where s: "execute_from_bitmap R ex bm (Some srt) ?limit (bq_cursor q) (qp_use_simple_sort ?plan) =
      Inr (\<lparr>qr_ids = map ucast slots, qr_cursor = last_cursor R f slots, qr_total_matched = card (query_set R ex cs)\<rparr>, sorts)"
      "sorts_agree R (en_sorts e) sorts"
    using from_bitmap_page [OF assms(1) f assms(8,9)] bm(2) assms(2,10)
    by (simp add: execute_from_bitmap_def sorted_result_def Let_def) metis
  show ?thesis
    using s res apply_offset_sorted [OF s(2) assms(7,8)] bm(2) assms(2,3,6)
    by (intro exI [of _ sorts])
       (simp add: execute_query_uncached_def Let_def engine_executor_sorts roaring.len_bits [OF assms(1)])
qed

text \<open>C9: A sorted query that bypasses the result cache is answered correctly by the engine.  The clauses
  are those of the query after range clauses were snapped to time buckets.  The page is cut from the
  matches after the cursor in the order of the sort field: at most \<open>limit\<close> after the offset, and at
  most \<open>max_page_size\<close> counting the offset.  Validation removes exactly the slots that are being
  written and do not match the clauses of the query as they were asked; the cursor and the count of
  the matches are those of the page before it.  The engine keeps everything but the fused views.\<close>

theorem engine_page:
  assumes "roaring R" and "ex = engine_executor e now"
    and "cs = snap_filters R (en_time_buckets e) now (snap_filters R (en_time_buckets e) now (bq_filters q))" and "clauses_ok R ex cs"
    and "list_all (clause_ok R ex) (bq_filters q)"
    and "bq_sort q = Some srt" and "si_get_field (en_sorts e) (sc_field srt) = Some f" and "sf_ok R f" and "cursor_fits f (bq_cursor q)"
    and "desc = (sc_direction srt = Desc)"
    and "slots = drop (query_offset q) (take (min (usize_saturating_add (bq_limit q) (query_offset q)) (cfg_max_page_size (en_config e)))
      (page_order desc (sf_reconstruct_value R f) (after_cursor desc (sf_reconstruct_value R f) (cursor32 (bq_cursor q)) (query_set R ex cs))))"
  shows "\<exists>sorts. sorts_agree R (en_sorts e) sorts \<and>
    execute_query_uncached R now q e =
      (Inr \<lparr>qr_ids = map ucast (filter (\<lambda>s. s \<in> set (en_in_flight e) \<longrightarrow> exact_match R ex (bq_filters q) s) slots),
            qr_cursor = last_cursor R f slots, qr_total_matched = card (query_set R ex cs)\<rparr>,
       e\<lparr>en_snapshot := (en_slots e, en_filters e, sorts)\<rparr>)"
proof -
  obtain sorts where s: "sorts_agree R (en_sorts e) sorts"
    "execute_query_uncached R now q e =
      (post_validate R (en_in_flight e) (ex\<lparr>qe_sorts := sorts\<rparr>) (bq_filters q)
         \<lparr>qr_ids = map ucast slots, qr_cursor = last_cursor R f slots, qr_total_matched = card (query_set R ex cs)\<rparr>,
       e\<lparr>en_snapshot := (en_slots e, en_filters e, sorts)\<rparr>)"
    using uncached_page [OF assms(1,2) refl assms(3,4,6-9) refl] by (auto simp: assms(10,11) page_slots_def)
  have "filters_ok R (ex\<lparr>qe_sorts := sorts\<rparr>)" "list_all (clause_ok R (ex\<lparr>qe_sorts := sorts\<rparr>)) (bq_filters q)"
    using assms(4,5) by (simp_all add: clauses_ok_def list_all_iff)
  then have ok: "slot_matches_filters R (ex\<lparr>qe_sorts := sorts\<rparr>) s (bq_filters q) = Inr (exact_match R ex (bq_filters q) s)" for s
    using slot_matches_correct [OF assms(1)] by (simp add: exact_match_def)
  show ?thesis using s by (auto simp: post_validate_eq [OF ok])
qed

text \<open>A small engine: one multi-value and one single-value filter field and one sort field.\<close>

definition entry_config :: config where
  "entry_config = \<lparr>cfg_filter_fields = [tag_cfg\<lparr>ffc_field_type := MultiValue\<rparr>, tag_cfg\<lparr>ffc_name := ''flag''\<rparr>],
     cfg_sort_fields = [\<lparr>sfc_name = ''count'', sfc_source_type = ''uint32'', sfc_encoding = ''linear'', sfc_bits = 3,
       sfc_eager_load = True, sfc_computed = None\<rparr>],
     cfg_time_buckets = None, cfg_max_page_size = 100, cfg_cache_decay_rate = f64_one, cfg_deferred_alive = None,
     cfg_data_schema = \<lparr>ds_id_field = ''id'', ds_schema_version = 1, ds_fields = []\<rparr>\<rparr>"

definition entry_engine :: "(u32 set, mutation_op list \<times> bool) engine" where
  "entry_engine = \<lparr>en_config = entry_config, en_registry = fr_from_config entry_config,
     en_snapshot = (qe_slots small_index, qe_filters small_index, qe_sorts small_index), en_coalescer = wc_new ([], True),
     en_doc_cache = None, en_dictionaries = [], en_string_maps = None, en_case_sensitive_fields = None, en_time_buckets = None,
     en_in_flight = [], en_activation_verify = []\<rparr>"

lemma field3_bits: "sf_num_bits field3 = 3"
  by (simp add: field3_def sf_num_bits_writes sf_new_def cfg3_def Let_def)

lemma entry_engine_simps:
  "engine_executor (entry_engine\<lparr>en_in_flight := marks\<rparr>) now = small_index" "en_time_buckets entry_engine = None"
  "cfg_max_page_size (en_config entry_engine) = 100" "si_get_field (en_sorts entry_engine) ''count'' = Some field3"
  by (simp_all add: engine_executor_def entry_engine_def entry_config_def small_index_def qe_new_def Let_def si_get_field_def)

text \<open>The index of the small engine, and a document that it agrees with.\<close>

definition old_entry_doc :: stored_doc where
  "old_entry_doc = \<lparr>sd_fields = [(''tag'', Multi [VInteger 1, VInteger 2]), (''count'', Single (VInteger 3))], sd_schema_version = 0\<rparr>"

lemma field3_layer: "j < 3 \<Longrightarrow> 2 \<in> sf_sets set_roaring field3 j \<longleftrightarrow> bit (3 :: u32) j"
  using bit_sf_value [OF field3_ok, of 2 j] field3_value [of 2] by (simp add: field3_bits sr.reconstruct_value_eq [OF field3_ok])

lemma entry_view:
  "iv_filter (state_view set_roaring (en_snapshot entry_engine)) ''tag'' k =
    (if k = NULL_BITMAP_KEY then {4} else if k = 2 then {2, 3} else if k = 1 then {1, 2} else {})"
  "iv_filter (state_view set_roaring (en_snapshot entry_engine)) ''flag'' k = (if k = 1 then {1, 3} else {})"
  "iv_sort (state_view set_roaring (en_snapshot entry_engine)) ''count'' j = (if j < 3 then sf_sets set_roaring field3 j else {})"
proof -
  show "iv_filter (state_view set_roaring (en_snapshot entry_engine)) ''tag'' k =
    (if k = NULL_BITMAP_KEY then {4} else if k = 2 then {2, 3} else if k = 1 then {1, 2} else {})"
    "iv_filter (state_view set_roaring (en_snapshot entry_engine)) ''flag'' k = (if k = 1 then {1, 3} else {})"
    by (simp_all add: entry_engine_def state_view_def filter_slots_def small_index_simps tag_field_bits)
  have "length (sf_bit_layers field3) = 3" using field3_ok field3_bits by (simp add: sf_ok_def)
  then show "iv_sort (state_view set_roaring (en_snapshot entry_engine)) ''count'' j = (if j < 3 then sf_sets set_roaring field3 j else {})"
    by (simp add: entry_engine_def state_view_def layer_slots_def small_index_simps si_get_field_def)
qed

lemma entry_state_ok: "state_ok set_roaring (en_snapshot entry_engine)"
  using small_index_filters field3_ok
  by (auto simp: state_ok_def entry_engine_def small_index_simps si_get_field_def small_index_def qe_new_def sa_from_state_def
      deferred_ok_def filters_ok_def split: if_splits)

theorem engine_page_witness:
  "\<exists>e'. execute_query_uncached set_roaring 9 \<lparr>bq_filters = small_clauses, bq_sort = Some \<lparr>sc_field = ''count'', sc_direction = Desc\<rparr>,
      bq_limit = 1, bq_cursor = None, bq_offset = Some 1, bq_skip_cache = True\<rparr> (entry_engine\<lparr>en_in_flight := [2]\<rparr>) =
    (Inr \<lparr>qr_ids = [2], qr_cursor = Some \<lparr>cp_sort_value = 3, cp_slot_id = 2\<rparr>, qr_total_matched = 3\<rparr>, e')"
proof -
  let ?srt = "\<lparr>sc_field = ''count'', sc_direction = Desc\<rparr>" and ?e = "entry_engine\<lparr>en_in_flight := [2]\<rparr>"
  let ?q = "\<lparr>bq_filters = small_clauses, bq_sort = Some ?srt, bq_limit = 1, bq_cursor = None, bq_offset = Some 1, bq_skip_cache = True\<rparr>"
  have ex: "engine_executor ?e 9 = small_index" by (rule entry_engine_simps)
  have cs: "snap_filters set_roaring (en_time_buckets ?e) 9 (snap_filters set_roaring (en_time_buckets ?e) 9 (bq_filters ?q)) = small_clauses"
    by (simp add: snap_filters_def entry_engine_simps)
  have f: "si_get_field (en_sorts ?e) (sc_field ?srt) = Some field3" by (simp add: entry_engine_simps)
  have ok: "list_all (clause_ok set_roaring small_index) (bq_filters ?q)"
    using small_clauses_ok by (simp add: clauses_ok_def list_all_iff)
  have match: "exact_match set_roaring small_index small_clauses 2"
    using small_query_set by (auto simp: exact_match_def query_set_def)
  from engine_page [OF sr.roaring_axioms ex [symmetric] cs [symmetric] small_clauses_ok ok _ f field3_ok _ refl refl] show ?thesis
    using match by (auto simp: cursor_fits_def cursor32_def after_cursor_def small_query_set small_page entry_engine_simps
        query_offset_def usize_saturating_add_def usize_MAX_def last_cursor_def field3_value drop_map)
qed

end
