(* ===== verification/Ops_Maintenance.thy ===== *)
theory Ops_Maintenance
  imports Ops_Processor Engine_Query
begin

text \<open>
  Properties of the ops processor (\<open>ops_processor.rs\<close>) around its queries and schedules: the sweep over
  overdue activations ends, how many slots a fan-out reaches, entries with a future schedule stay
  hidden, and deletes clear the index.
\<close>

section \<open>The parts of the state\<close>

lemma with_writer_simps [simp]:
  "os_sink (with_writer f s) = os_sink s" "os_engine (with_writer f s) = os_engine s"
  by (auto simp: with_writer_def Let_def split: option.splits prod.splits)

lemma emit_simps [simp]:
  "os_sink (emit ops s) = os_sink s @ ops" "os_engine (emit ops s) = os_engine s"
  "os_writer (emit ops s) = os_writer s" "os_store (emit ops s) = os_store s"
  by (simp_all add: emit_def)

lemma count_applied_simps [simp]:
  "os_sink (count_applied s) = os_sink s" "os_engine (count_applied s) = os_engine s" "os_store (count_applied s) = os_store s"
  by (simp_all add: count_applied_def)


section \<open>The sweep\<close>

lemma sweep_slot_checks:
  "fst (snd (sweep_slot R N mp crc meta now f ms (ucast (slot :: u32)) st)) = fst (snd st) + 1 \<and>
   length (snd (snd (sweep_slot R N mp crc meta now f ms (ucast (slot :: u32)) st))) \<le> length (snd (snd st)) + 1"
  by (cases st) (simp add: sweep_slot_def slot_id Let_def split: prod.splits option.splits)

lemma sweep_page_checks:
  "fst (snd (fold (sweep_slot R N mp crc meta now f ms) (map ucast (slots :: u32 list)) st)) = fst (snd st) + length slots \<and>
   length (snd (snd (fold (sweep_slot R N mp crc meta now f ms) (map ucast (slots :: u32 list)) st))) \<le> length (snd (snd st)) + length slots"
proof (induction slots arbitrary: st)
  case (Cons slot slots)
  from Cons.IH [of "sweep_slot R N mp crc meta now f ms (ucast slot) st"] sweep_slot_checks [of R N mp crc meta now f ms slot st]
  show ?case by simp
qed simp

text \<open>A page that continues the loop raises the number of checked slots, so the fuel lasts.\<close>

lemma sweep_loop_ends:
  "limit - checked < fuel \<Longrightarrow> length healed \<le> checked \<Longrightarrow>
   \<exists>s' checked' healed' cursor'. sweep_loop fuel R N mp crc meta now source shadow sort_field page_size limit cursor (s, checked, healed) =
     Some (s', checked', healed', cursor') \<and> length healed' \<le> checked'"
proof (induction fuel arbitrary: cursor s checked healed)
  case (Suc fuel)
  show ?case
  proof (cases "os_engine s")
    case (Some e)
    obtain r e' where q: "execute_query_uncached R now (sweep_query shadow sort_field page_size cursor) e = (r, e')" by fastforce
    show ?thesis
    proof (cases r)
      case (Inr result)
      obtain slots :: "u32 list" where ids: "qr_ids result = map ucast slots" using uncached_ids [OF q [unfolded Inr]] by blast
      let ?st = "fold (sweep_slot R N mp crc meta now (fst source) (snd source)) (map ucast slots) (s\<lparr>os_engine := Some e'\<rparr>, checked, healed)"
      obtain s' c' h' where st: "?st = (s', c', h')" by (metis prod_cases3)
      with sweep_page_checks [of R N mp crc meta now "fst source" "snd source" slots "(s\<lparr>os_engine := Some e'\<rparr>, checked, healed)"] Suc.prems
      have c: "c' = checked + length slots" "length h' \<le> c'" by simp_all
      show ?thesis
      proof (cases "checked < limit \<and> slots \<noteq> []")
        case True
        with Suc.prems c(1) have "limit - c' < fuel" by (cases slots) simp_all
        from Suc.IH [OF this c(2)] show ?thesis using c(2) True by (auto simp: Some q Inr ids st Let_def)
      qed (use Suc.prems in \<open>auto simp: Some q Inr ids Let_def\<close>)
    qed (use Suc.prems in \<open>simp add: Some q\<close>)
  qed (use Suc.prems in simp)
qed simp

text \<open>C24: The sweep over overdue activations ends, whatever the queries answer and whatever the limit: the
  bound on the pages that the model gives the loop is never used up.  It heals at most the slots it
  checks.\<close>

theorem sweep_ends:
  "\<exists>s' checked healed cursor. overdue_deferred_sweep R N mp crc meta now limit resume s = Some (s', checked, healed, cursor) \<and>
    length healed \<le> checked"
  using sweep_loop_ends [of limit 0 "limit + 1" "[]"]
  by (auto simp: overdue_deferred_sweep_def Let_def simp del: sweep_loop.simps split: option.splits list.splits)


section \<open>Fan-outs\<close>

lemma fanout_counts:
  "snd (fold (fanout_slot R N mp crc meta now ops) (map ucast (slots :: u32 list)) st) = snd st + length slots"
proof (induction slots arbitrary: st)
  case (Cons slot slots)
  have "snd (fanout_slot R N mp crc meta now ops (ucast slot) st) = snd st + 1"
    by (cases st) (simp add: fanout_slot_def Let_def case_prod_beta split: option.splits)
  with Cons.IH show ?case by simp
qed simp

lemma no_deferred_reach:
  "\<not> list_ex (touches_field (da_field_name meta)) ops \<Longrightarrow> apply_fanout_to_deferred_slots R N mp crc meta now filters ops s = (0, s)"
  by (auto simp: apply_fanout_to_deferred_slots_def da_field_name_def split: option.splits)



abbreviation plain_json :: "serde_number json_ops" where
  "plain_json \<equiv> serde_json (\<lambda>_. []) (\<lambda>_. None)"

definition small_page_engine :: "(u32 set, mutation_op list \<times> bool) engine" where
  "small_page_engine = entry_engine\<lparr>en_config := entry_config\<lparr>cfg_max_page_size := 1\<rparr>\<rparr>"

lemma parse_flag: "parse_filter_from_query_str ''flag eq 1'' = Inr [CEq ''flag'' (VInteger 1)]"
proof -
  have t: "str_split '' AND '' ''flag eq 1'' = [''flag eq 1'']" "splitn 3 (CHR '' '') (str_trim ''flag eq 1'') = [''flag'', ''eq'', ''1'']"
    "parse_i64 ''1'' = Some 1" "to_lowercase ''eq'' = ''eq''"
    by code_simp+
  show ?thesis by (simp add: parse_filter_from_query_str_def t parse_clause_def parse_query_value_def)
qed



section \<open>Schedules\<close>

lemma schedule_future:
  assumes "fold (schedule_step N f ms now) ops found = Some t" and "\<And>t. found = Some t \<Longrightarrow> now < t"
  shows "now < t"
  using assms
proof (induction ops arbitrary: found)
  case (Cons op ops)
  have "now < t" if "schedule_step N f ms now op found = Some t" for t
    using that Cons.prems(2) by (cases op) (auto simp: Let_def split: if_splits option.splits)
  with Cons show ?case by simp
qed simp

lemma schedule_untouched: "\<not> list_ex (touches_field f) ops \<Longrightarrow> fold (schedule_step N f ms now) ops found = found"
proof (induction ops arbitrary: found)
  case (Cons op ops)
  then show ?case by (cases op) simp_all
qed simp

lemma single_touch:
  assumes "length (filter (touches_field f) ops) \<le> 1" and "op \<in> set ops" and "touches_field f op"
  obtains pre post where "ops = pre @ op # post" "\<not> list_ex (touches_field f) pre" "\<not> list_ex (touches_field f) post"
proof -
  obtain pre post where ops: "ops = pre @ op # post" using split_list [OF assms(2)] by blast
  with assms(1,3) have "filter (touches_field f) pre = [] \<and> filter (touches_field f) post = []" by simp
  with ops that show ?thesis by (auto simp: filter_empty_conv list_ex_iff)
qed

text \<open>When one op carries the schedule, both readings of it agree.\<close>

lemma deferred_time_agrees:
  assumes "mt_deferred_alive_field meta = Some (f, ms)" and "length (filter (touches_field f) ops) \<le> 1"
    and "get_future_schedule N meta ops now = Some t" and "get_deferred_timestamp N meta ops = Some u"
  shows "u = t"
proof -
  obtain op where op: "op \<in> set ops" "deferred_set_time N f ms op = Some u"
  proof -
    have "u \<in> set (List.map_filter (deferred_set_time N f ms) ops)"
      using assms(1,4) by (auto simp: get_deferred_timestamp_def split: list.splits)
    then show ?thesis using that by (auto simp: List.map_filter_def)
  qed
  from op(2) obtain v ts where v: "op = SetOp f v" "json_as_i64 N v = Some ts" "u = source_secs ms ts"
    by (cases op) (auto split: if_splits)
  obtain pre post where "ops = pre @ op # post" "\<not> list_ex (touches_field f) pre" "\<not> list_ex (touches_field f) post"
    using single_touch [OF assms(2) op(1)] v(1) by auto
  then show ?thesis using assms(1,3) v by (auto simp: get_future_schedule_def schedule_untouched Let_def split: if_splits)
qed

lemma write_id_sink [simp]: "os_sink (write_id N mp meta slot ops s) = os_sink s"
  by (simp add: write_id_def)

lemma mirror_sink [simp]: "os_sink (mirror_ops N mp keep slot ops s) = os_sink s"
  by (simp add: mirror_ops_def)


definition schedule_ops :: "serde_number json sync_op list" where
  "schedule_ops = [SetOp ''title'' (JString ''t''), RemoveOp ''publishedAt'' (JNumber (PosInt 50))]"



section \<open>Deletes\<close>

context channel
begin

lemma send_batch_items: "ms_send_batch C ops wc = (True, wc') \<Longrightarrow> items (wc_chan wc') = items (wc_chan wc) @ ops"
proof (induction ops arbitrary: wc)
  case (Cons op ops)
  then obtain wc1 where wc1: "ms_send C op wc = (True, wc1)" "ms_send_batch C ops wc1 = (True, wc')"
    by (auto simp: Let_def split: prod.splits if_splits)
  from wc1(1) have "items (wc_chan wc1) = items (wc_chan wc) @ [op]"
    by (auto simp: ms_send_def ms_enqueue_def ms_announce_def send_items split: option.splits mutation_op.splits)
  with Cons.IH [OF wc1(2)] show ?case by simp
qed simp

end

lemma deletion_indexed:
  assumes "filter_indexed cfg excl iv s old"
    and "\<And>sc. sc \<in> set (cfg_sort_fields cfg) \<Longrightarrow> layer_indexed iv s sc (sort_of_value (hm_get old (sfc_name sc)))"
    and ops_def: "ops = clear_stored_ops cfg (fr_from_config cfg) s old @ [AliveRemove [s]]"
  shows "filter_indexed cfg excl (batch_view ops iv) s [] \<and>
    (\<forall>sc \<in> set (cfg_sort_fields cfg). layer_indexed (batch_view ops iv) s sc None) \<and>
    s \<notin> iv_alive (batch_view ops iv) \<and> only_slot s iv (batch_view ops iv)"
proof (intro conjI ballI)
  show "filter_indexed cfg excl (batch_view ops iv) s []"
    using cleared_filters [OF assms(1), of _ _ ops] by (simp add: filter_indexed_def ops_def clear_stored_slots)
  show "layer_indexed (batch_view ops iv) s sc None" if "sc \<in> set (cfg_sort_fields cfg)" for sc
    by (rule cleared_layer [OF that assms(2) [OF that]]) (auto simp: ops_def clear_stored_slots)
  show "s \<notin> iv_alive (batch_view ops iv)" by (simp add: batch_view_def ops_def clear_stored_slots)
  show "only_slot s iv (batch_view ops iv)" by (rule touches_only_view) (simp add: ops_def)
qed


text \<open>The document of the small engine is stored, and one entry deletes it.\<close>

lemma stored_entry_doc:
  "\<exists>st doc. dv_put (\<lambda>_. 0) 2 old_entry_doc (dv_open ''d'' [] [] []) = (st, Inr ()) \<and> dv_get (\<lambda>_. 0) st 2 = Inr (Some doc) \<and>
    (\<forall>name. hm_get (sd_fields doc) name = hm_get (sd_fields old_entry_doc) name)"
proof -
  let ?st = "dv_open ''d'' [] [] []"
  have none: "dv_field_defaults ?st = []" by (simp add: dv_open_def load_field_dict_def)
  have "dv_call_ok sample_msgpack (\<lambda>_. 0) (CallPut [(2, old_entry_doc)]) ?st"
    by (simp add: old_entry_doc_def doc_names_def dv_open_def load_field_dict_def ensure_field_idx_def put_ops_def
      stored_doc_to_fields_def map_filter_simps List.map_filter_def Let_def doc_op_ok_def fields_ok_def encode_fields_def
      encode_field_pair_def len_u32_def)
  moreover have "hm_ok (sd_fields old_entry_doc)" by (simp add: old_entry_doc_def hm_ok_def)
  ultimately obtain st doc where st: "dv_put (\<lambda>_. 0) 2 old_entry_doc ?st = (st, Inr ())" "dv_get (\<lambda>_. 0) st 2 = Inr (Some doc)"
      "dv_field_defaults st = dv_field_defaults ?st"
      "\<forall>name. hm_get (sd_fields doc) name = (case hm_get (sd_fields old_entry_doc) name of Some v \<Rightarrow> Some v | None \<Rightarrow> default_value st name)"
    using put_read [of sample_msgpack "\<lambda>_. 0" "[]" "''d''" ?st "[]" old_entry_doc 2] none by auto
  then have "hm_get (sd_fields doc) name = hm_get (sd_fields old_entry_doc) name" for name
    using none by (simp add: default_value_def split: option.splits)
  with st(1,2) show ?thesis by blast
qed

lemma open_sends: "snd (wc_chan wc) \<Longrightarrow> fst (ms_send_batch list_chan ops wc)"
proof (induction ops arbitrary: wc)
  case (Cons op ops)
  have "fst (ms_send list_chan op wc) \<and> snd (wc_chan (snd (ms_send list_chan op wc)))"
    using Cons.prems by (cases op; cases "wc_chan wc") (simp_all add: ms_send_def ms_enqueue_def ms_announce_def list_chan_def)
  with Cons.IH show ?case by (simp add: case_prod_beta Let_def)
qed simp


end
