(* ===== verification/Ops_Entry.thy ===== *)
theory Ops_Entry
  imports Ops_Maintenance
begin

text \<open>
  What the ops processor (\<open>ops_processor.rs\<close>) does to the index with an entry made from a document:
  the tables of a configuration, the ops one op emits, the ops of a document field by field, and the
  index after all of them.
\<close>

section \<open>The tables of a configuration\<close>

lemma fold_insert_cases:
  "hm_get (fold (\<lambda>x. hm_insert (key x) (val x)) xs acc) n = Some v \<Longrightarrow>
    (\<exists>x \<in> set xs. key x = n \<and> v = val x) \<or> hm_get acc n = Some v"
proof (induction xs arbitrary: acc)
  case (Cons x xs)
  then show ?case by (fastforce split: if_splits)
qed simp

lemma fold_insert_other: "n \<notin> key ` set xs \<Longrightarrow> hm_get (fold (\<lambda>x. hm_insert (key x) (val x)) xs acc) n = hm_get acc n"
  by (induction xs arbitrary: acc) auto

lemma fold_insert_known:
  "n \<in> key ` set xs \<Longrightarrow> hm_get (fold (\<lambda>x. hm_insert (key x) (val x)) xs acc) n \<noteq> None"
proof (induction xs arbitrary: acc)
  case (Cons x xs)
  then show ?case using fold_insert_other [of n key xs val] by (cases "n \<in> key ` set xs") auto
qed simp

lemma fold_insert_distinct:
  "x \<in> set xs \<Longrightarrow> distinct (map key xs) \<Longrightarrow> hm_get (fold (\<lambda>x. hm_insert (key x) (val x)) xs acc) (key x) = Some (val x)"
proof (induction xs arbitrary: acc)
  case (Cons y xs)
  then show ?case using fold_insert_other [of "key y" key xs val] by (cases "x = y") auto
qed simp

lemma fold_inv_in: "(\<And>x s. x \<in> set xs \<Longrightarrow> P s \<Longrightarrow> P (g x s)) \<Longrightarrow> P s \<Longrightarrow> P (fold g xs s)"
  by (induction xs arbitrary: s) simp_all

lemma meta_filter_name:
  "hm_get (mt_filter_fields (meta_from_config cfg)) n = Some (m, t) \<Longrightarrow> m = n \<and> n \<in> ffc_name ` set (cfg_filter_fields cfg)"
  by (auto simp: meta_from_config_def Let_def dest!: fold_insert_cases)

lemma meta_filter_known:
  assumes "n \<in> ffc_name ` set (cfg_filter_fields cfg)"
  shows "\<exists>t. hm_get (mt_filter_fields (meta_from_config cfg)) n = Some (n, t)"
proof -
  have "hm_get (mt_filter_fields (meta_from_config cfg)) n \<noteq> None"
    using fold_insert_known [OF assms, of "\<lambda>fc. (fr_get (fr_from_config cfg) (ffc_name fc), ffc_field_type fc)" "[]"]
    by (simp add: meta_from_config_def Let_def)
  then show ?thesis using meta_filter_name by (cases "hm_get (mt_filter_fields (meta_from_config cfg)) n") fastforce+
qed

lemma meta_sort_known:
  assumes "distinct (map sfc_name (cfg_sort_fields cfg))" and "sc \<in> set (cfg_sort_fields cfg)"
  shows "hm_get (mt_sort_fields (meta_from_config cfg)) (sfc_name sc) = Some (sfc_name sc, unat (sfc_bits sc))"
  using fold_insert_distinct [OF assms(2,1), of "\<lambda>sc. (fr_get (fr_from_config cfg) (sfc_name sc), unat (sfc_bits sc))"]
  by (simp add: meta_from_config_def Let_def)

lemma meta_sort_name: "hm_get (mt_sort_fields (meta_from_config cfg)) n = Some (m, nb) \<Longrightarrow> m = n"
  by (auto simp: meta_from_config_def Let_def dest!: fold_insert_cases)

definition targets_in :: "string set \<Rightarrow> (string, string list) hashmap \<Rightarrow> bool" where
  "targets_in T m \<longleftrightarrow> (\<forall>n names. hm_get m n = Some names \<longrightarrow> set names \<subseteq> T)"

lemma targets_in_upsert:
  assumes "targets_in T m" and "a \<in> T"
  shows "targets_in T (hm_upsert k [] (\<lambda>entry. if a \<in> set entry then entry else entry @ [a]) m)"
  unfolding targets_in_def
proof (intro allI impI)
  fix n names assume g: "hm_get (hm_upsert k [] (\<lambda>entry. if a \<in> set entry then entry else entry @ [a]) m) n = Some names"
  have m: "hm_get m n = Some ns \<Longrightarrow> set ns \<subseteq> T" for n ns using assms(1) unfolding targets_in_def by blast
  show "set names \<subseteq> T"
  proof (cases "n = k")
    case True
    with g assms(2) m [of k] show ?thesis by (cases "hm_get m k") (auto split: if_splits)
  next
    case False
    with g m [of n names] show ?thesis by simp
  qed
qed

lemma meta_shadow_targets:
  assumes "hm_get (mt_exists_boolean_shadows (meta_from_config cfg)) n = Some names"
  shows "set names \<subseteq> set (shadow_targets cfg)"
proof -
  let ?T = "set (shadow_targets cfg)"
  have "targets_in ?T (meta_shadows (mt_filter_fields (meta_from_config cfg)) cfg)"
    unfolding meta_shadows_def
  proof (rule fold_inv_in [where P = "targets_in ?T"])
    fix fm and m :: "(string, string list) hashmap"
    assume fm: "fm \<in> set (ds_fields (cfg_data_schema cfg))" and m: "targets_in ?T m"
    have keys: "targets_in ?T (fold (\<lambda>k. hm_upsert k [] (\<lambda>entry. if a \<in> set entry then entry else entry @ [a])) ks m)"
      if "a \<in> ?T" for ks a
      using m by (rule fold_inv_in [rotated]) (rule targets_in_upsert [OF _ that])
    show "targets_in ?T (if fm_value_type fm \<noteq> FvtExistsBoolean then m
         else case hm_get (mt_filter_fields (meta_from_config cfg)) (fm_target fm) of
             None \<Rightarrow> m
           | Some (eb_arc, _) \<Rightarrow>
               let keys = fm_source fm # map fm_target (filter (\<lambda>sibling. fm_source sibling = fm_source fm \<and>
                     fm_target sibling \<noteq> fm_target fm) (ds_fields (cfg_data_schema cfg)))
               in fold (\<lambda>k. hm_upsert k [] (\<lambda>entry. if eb_arc \<in> set entry then entry else entry @ [eb_arc])) keys m)"
    proof (cases "fm_value_type fm = FvtExistsBoolean \<and> hm_get (mt_filter_fields (meta_from_config cfg)) (fm_target fm) \<noteq> None")
      case False
      then show ?thesis using m by (auto split: option.splits)
    next
      case True
      then obtain a t where a: "hm_get (mt_filter_fields (meta_from_config cfg)) (fm_target fm) = Some (a, t)" by auto
      have "a \<in> ?T" using meta_filter_name [OF a] fm True by (auto simp: shadow_targets_def)
      from keys [OF this, of "fm_source fm # map fm_target (filter (\<lambda>sibling. fm_source sibling = fm_source fm \<and>
          fm_target sibling \<noteq> fm_target fm) (ds_fields (cfg_data_schema cfg)))"] show ?thesis
        using True a by (simp add: Let_def)
    qed
  qed (simp add: targets_in_def)
  moreover have "mt_exists_boolean_shadows (meta_from_config cfg) = meta_shadows (mt_filter_fields (meta_from_config cfg)) cfg"
    by (simp add: meta_from_config_def Let_def)
  ultimately show ?thesis using assms unfolding targets_in_def by metis
qed


section \<open>What one op pushes\<close>

fun op_emits ::
    "'b roaring_ops \<Rightarrow> 'n json_ops \<Rightarrow> field_meta \<Rightarrow> ('b, 'c) engine option \<Rightarrow> u32 \<Rightarrow> 'n json sync_op \<Rightarrow> dictionaries option \<Rightarrow> mutation_op list" where
  "op_emits R N meta eng slot (SetOp f v) dicts = fst (process_set_op R N meta eng slot f v dicts)"
| "op_emits R N meta eng slot (RemoveOp f v) dicts = process_remove_op N meta slot f v dicts"
| "op_emits R N meta eng slot (AddOp f v) dicts = fst (process_add_op N meta slot f v dicts)"
| "op_emits R N meta eng slot _ dicts = []"

definition dict_fields :: "dictionaries option \<Rightarrow> string set" where
  "dict_fields dicts = (case dicts of None \<Rightarrow> {} | Some ds \<Rightarrow> dom (hm_get ds))"

definition published :: "('b, 'c) engine option \<Rightarrow> 'b bitmap_state option" where
  "published eng = map_option en_snapshot eng"

abbreviation dicts_of :: "('b, 'c, 'z) ops_state_scheme \<Rightarrow> dictionaries option" where
  "dicts_of s \<equiv> map_option en_dictionaries (os_engine s)"

lemma with_dicts_sink: "os_sink (with_dicts f s) = os_sink s @ fst (f (dicts_of s))"
  by (auto simp: with_dicts_def Let_def split: prod.splits)

lemma with_dicts_keeps:
  assumes "dict_fields (snd (f (dicts_of s))) = dict_fields (dicts_of s)" and "snd (f (dicts_of s)) = None \<longleftrightarrow> dicts_of s = None"
  shows "published (os_engine (with_dicts f s)) = published (os_engine s)"
    "dict_fields (dicts_of (with_dicts f s)) = dict_fields (dicts_of s)"
  using assms by (auto simp: with_dicts_def published_def Let_def split: prod.splits option.splits)

lemma resolve_key_keeps:
  "dict_fields (snd (resolve_filter_key q f b dicts)) = dict_fields dicts"
  "snd (resolve_filter_key q f b dicts) = None \<longleftrightarrow> dicts = None"
  by (auto simp: resolve_filter_key_def dict_fields_def Let_def split: option.splits qvalue.splits prod.splits)

lemma set_op_keeps:
  "dict_fields (snd (process_set_op R N meta eng slot f v dicts)) = dict_fields dicts"
  "snd (process_set_op R N meta eng slot f v dicts) = None \<longleftrightarrow> dicts = None"
  by (simp_all add: process_set_op_def set_filter_ops_def Let_def case_prod_beta resolve_key_keeps split: option.split)

lemma add_op_keeps:
  "dict_fields (snd (process_add_op N meta slot f v dicts)) = dict_fields dicts"
  "snd (process_add_op N meta slot f v dicts) = None \<longleftrightarrow> dicts = None"
  by (simp_all add: process_add_op_def Let_def case_prod_beta resolve_key_keeps split: option.split)

lemma process_op_sink:
  "os_sink (process_op R N mp meta slot op s) = os_sink s @ op_emits R N meta (os_engine s) slot op (dicts_of s)"
  by (cases op) (simp_all add: with_dicts_sink)

lemma process_op_keeps:
  "published (os_engine (process_op R N mp meta slot op s)) = published (os_engine s)"
  "dict_fields (dicts_of (process_op R N mp meta slot op s)) = dict_fields (dicts_of s)"
  by (cases op; simp add: with_dicts_keeps set_op_keeps add_op_keeps)+

text \<open>Only the published snapshot of the engine matters, and the dictionaries only for the fields
  that have one.\<close>

lemma reconstruct_published:
  "published eng = published eng' \<Longrightarrow>
    Option.bind eng (\<lambda>e. reconstruct_sort_value R e n slot) = Option.bind eng' (\<lambda>e. reconstruct_sort_value R e n slot)"
  by (cases eng; cases eng') (auto simp: published_def reconstruct_sort_value_def)

lemma op_emits_published:
  "published eng = published eng' \<Longrightarrow> op_emits R N meta eng slot op dicts = op_emits R N meta eng' slot op dicts"
  using reconstruct_published [of eng eng' R]
  by (cases op) (simp_all add: process_set_op_def set_sort_ops_def overwrite_changed_def split: prod.splits option.splits)

lemma resolve_key_no_dict: "f \<notin> dict_fields dicts \<Longrightarrow> fst (resolve_filter_key q f b dicts) = doc_bitmap_key q"
  by (auto simp: resolve_filter_key_def dict_fields_def split: option.splits qvalue.splits)

lemma overwrite_changed_eq:
  "overwrite_changed R eng n nb slot v =
     (if Option.bind eng (\<lambda>e. reconstruct_sort_value R e n slot) = Some v then [] else overwrite_ops n nb slot (Some v))"
  by (simp add: overwrite_changed_def overwrite_ops_def)

lemma slots_flip [simp]:
  "slots_of (set_sel n j) (shadow_flip_ops meta slot f b) = {}" "slots_of (clear_sel n j) (shadow_flip_ops meta slot f b) = {}"
  "slots_of alive_ins_sel (shadow_flip_ops meta slot f b) = {}" "slots_of alive_rem_sel (shadow_flip_ops meta slot f b) = {}"
  by (simp_all add: shadow_flip_ops_def Let_def split: option.split)

lemma slots_flip_other:
  assumes "n \<notin> set (shadow_targets cfg)"
  shows "slots_of (ins_sel n k) (shadow_flip_ops (meta_from_config cfg) slot f b) = {}"
    "slots_of (rem_sel n k) (shadow_flip_ops (meta_from_config cfg) slot f b) = {}"
proof -
  have "n \<notin> set names" if "hm_get (mt_exists_boolean_shadows (meta_from_config cfg)) f = Some names" for names
    using meta_shadow_targets [OF that] assms by blast
  then show "slots_of (ins_sel n k) (shadow_flip_ops (meta_from_config cfg) slot f b) = {}"
    "slots_of (rem_sel n k) (shadow_flip_ops (meta_from_config cfg) slot f b) = {}"
    by (auto simp: shadow_flip_ops_def Let_def split: option.splits if_splits)
qed

text \<open>The bits that an add sets and a remove clears.\<close>

lemma slots_bits [simp]:
  "slots_of (set_sel n j) (concat (map (\<lambda>k. if P k then [SortSet m k [slot]] else []) [0..<nb])) = (if m = n \<and> j < nb \<and> P j then {slot} else {})"
  "slots_of (clear_sel n j) (concat (map (\<lambda>k. if P k then [SortSet m k [slot]] else []) [0..<nb])) = {}"
  "slots_of (set_sel n j) (concat (map (\<lambda>k. if P k then [SortClear m k [slot]] else []) [0..<nb])) = {}"
  "slots_of (clear_sel n j) (concat (map (\<lambda>k. if P k then [SortClear m k [slot]] else []) [0..<nb])) = (if m = n \<and> j < nb \<and> P j then {slot} else {})"
  "slots_of (ins_sel n v) (concat (map (\<lambda>k. if P k then [SortSet m k [slot]] else []) [0..<nb])) = {}"
  "slots_of (rem_sel n v) (concat (map (\<lambda>k. if P k then [SortSet m k [slot]] else []) [0..<nb])) = {}"
  "slots_of (ins_sel n v) (concat (map (\<lambda>k. if P k then [SortClear m k [slot]] else []) [0..<nb])) = {}"
  "slots_of (rem_sel n v) (concat (map (\<lambda>k. if P k then [SortClear m k [slot]] else []) [0..<nb])) = {}"
  by (auto split: if_splits)

fun ins_key :: "'n json_ops \<Rightarrow> string \<Rightarrow> u64 \<Rightarrow> 'n json sync_op \<Rightarrow> bool" where
  "ins_key N n k (SetOp f v) \<longleftrightarrow> f = n \<and> doc_bitmap_key (json_to_qvalue N v) = Some k"
| "ins_key N n k (AddOp f v) \<longleftrightarrow> f = n \<and> doc_bitmap_key (json_to_qvalue N v) = Some k"
| "ins_key N n k _ \<longleftrightarrow> False"

fun rem_key :: "'n json_ops \<Rightarrow> string \<Rightarrow> u64 \<Rightarrow> 'n json sync_op \<Rightarrow> bool" where
  "rem_key N n k (RemoveOp f v) \<longleftrightarrow> f = n \<and> doc_bitmap_key (json_to_qvalue N v) = Some k"
| "rem_key N n k _ \<longleftrightarrow> False"

fun null_op :: "string \<Rightarrow> 'n json sync_op \<Rightarrow> bool" where
  "null_op n (SetOp f v) = (f = n \<and> json_is_null v)"
| "null_op n (RemoveOp f v) = (f = n \<and> json_is_null v)"
| "null_op n (AddOp f v) = (f = n \<and> json_is_null v)"
| "null_op n _ = False"

lemma emits_filter:
  assumes "n \<in> ffc_name ` set (cfg_filter_fields cfg)" and "n \<notin> set (shadow_targets cfg)" and "n \<notin> dict_fields dicts"
    and "k \<noteq> NULL_BITMAP_KEY" and "\<not> null_op n op"
  shows "slots_of (ins_sel n k) (op_emits R N (meta_from_config cfg) eng slot op dicts) = (if ins_key N n k op then {slot} else {})"
    "slots_of (rem_sel n k) (op_emits R N (meta_from_config cfg) eng slot op dicts) = (if rem_key N n k op then {slot} else {})"
proof -
  obtain t where n: "hm_get (mt_filter_fields (meta_from_config cfg)) n = Some (n, t)" using meta_filter_known [OF assms(1)] by auto
  have other: "m \<noteq> n" if "hm_get (mt_filter_fields (meta_from_config cfg)) f = Some (m, t')" "f \<noteq> n" for f m t'
    using meta_filter_name [OF that(1)] that(2) by simp
  note flip = slots_flip_other [OF assms(2)]
  have key: "fst (resolve_filter_key q n b dicts) = doc_bitmap_key q" for q b using resolve_key_no_dict [OF assms(3)] .
  show "slots_of (ins_sel n k) (op_emits R N (meta_from_config cfg) eng slot op dicts) = (if ins_key N n k op then {slot} else {})"
    "slots_of (rem_sel n k) (op_emits R N (meta_from_config cfg) eng slot op dicts) = (if rem_key N n k op then {slot} else {})"
    using assms(4,5) n
    by (cases op; auto simp: process_set_op_def set_filter_ops_def set_sort_ops_def process_remove_op_def process_add_op_def
        overwrite_changed_eq flip key Let_def case_prod_beta split: option.splits if_splits dest: other)+
qed

text \<open>The bits of a sort field: \<open>stale\<close> says that the published value differs from \<open>w\<close>.\<close>

definition stale :: "'b roaring_ops \<Rightarrow> ('b, 'c) engine option \<Rightarrow> string \<Rightarrow> u32 \<Rightarrow> u32 \<Rightarrow> bool" where
  "stale R eng n slot w \<longleftrightarrow> Option.bind eng (\<lambda>e. reconstruct_sort_value R e n slot) \<noteq> Some w"

fun set_bit_op :: "'n json_ops \<Rightarrow> (u32 \<Rightarrow> bool) \<Rightarrow> string \<Rightarrow> nat \<Rightarrow> 'n json sync_op \<Rightarrow> bool" where
  "set_bit_op N st n j (SetOp f v) \<longleftrightarrow> f = n \<and> (\<exists>w. value_to_sort_u32 (json_to_qvalue N v) = Some w \<and> st w \<and> u32_bit w j)"
| "set_bit_op N st n j (AddOp f v) \<longleftrightarrow> f = n \<and> (\<exists>w. value_to_sort_u32 (json_to_qvalue N v) = Some w \<and> u32_bit w j)"
| "set_bit_op N st n j _ \<longleftrightarrow> False"

fun clear_bit_op :: "'n json_ops \<Rightarrow> (u32 \<Rightarrow> bool) \<Rightarrow> string \<Rightarrow> nat \<Rightarrow> 'n json sync_op \<Rightarrow> bool" where
  "clear_bit_op N st n j (SetOp f v) \<longleftrightarrow> f = n \<and> (\<exists>w. value_to_sort_u32 (json_to_qvalue N v) = Some w \<and> st w \<and> \<not> u32_bit w j)"
| "clear_bit_op N st n j (RemoveOp f v) \<longleftrightarrow> f = n \<and> (\<exists>w. value_to_sort_u32 (json_to_qvalue N v) = Some w \<and> u32_bit w j)"
| "clear_bit_op N st n j _ \<longleftrightarrow> False"

lemma emits_sort:
  assumes "distinct (map sfc_name (cfg_sort_fields cfg))" and "sc \<in> set (cfg_sort_fields cfg)" and "j < unat (sfc_bits sc)" and "\<not> null_op (sfc_name sc) op"
  defines "n \<equiv> sfc_name sc"
  shows "slots_of (set_sel n j) (op_emits R N (meta_from_config cfg) eng slot op dicts) =
      (if set_bit_op N (stale R eng n slot) n j op then {slot} else {})"
    "slots_of (clear_sel n j) (op_emits R N (meta_from_config cfg) eng slot op dicts) =
      (if clear_bit_op N (stale R eng n slot) n j op then {slot} else {})"
proof -
  have n: "hm_get (mt_sort_fields (meta_from_config cfg)) n = Some (n, unat (sfc_bits sc))"
    unfolding n_def by (rule meta_sort_known [OF assms(1,2)])
  have other: "m \<noteq> n" if "hm_get (mt_sort_fields (meta_from_config cfg)) f = Some (m, nb)" "f \<noteq> n" for f m nb
    using meta_sort_name [OF that(1)] that(2) by simp
  show "slots_of (set_sel n j) (op_emits R N (meta_from_config cfg) eng slot op dicts) =
      (if set_bit_op N (stale R eng n slot) n j op then {slot} else {})"
    "slots_of (clear_sel n j) (op_emits R N (meta_from_config cfg) eng slot op dicts) =
      (if clear_bit_op N (stale R eng n slot) n j op then {slot} else {})"
    using assms(3) assms(4) [folded n_def] n
    by (cases op; auto simp: process_set_op_def set_filter_ops_def set_sort_ops_def process_remove_op_def process_add_op_def
        overwrite_changed_eq overwrite_layers stale_def Let_def case_prod_beta split: option.splits if_splits dest: other)+
qed

text \<open>A sequence of ops pushes what each of them pushes.\<close>

lemma process_ops_slots:
  assumes "\<And>op dicts. op \<in> set ops \<Longrightarrow> dict_fields dicts = D \<Longrightarrow>
      slots_of sel (op_emits R N meta (os_engine s) slot op dicts) = (if P op then {slot} else {})"
    and "dict_fields (dicts_of s) = D"
  shows "slots_of sel (os_sink (fold (process_op R N mp meta slot) ops s)) =
    slots_of sel (os_sink s) \<union> (if \<exists>op \<in> set ops. P op then {slot} else {})"
  using assms
proof (induction ops arbitrary: s)
  case (Cons op ops)
  let ?s = "process_op R N mp meta slot op s"
  have pub: "op_emits R N meta (os_engine ?s) slot x dicts = op_emits R N meta (os_engine s) slot x dicts" for x dicts
    by (rule op_emits_published) (rule process_op_keeps)
  have "slots_of sel (os_sink (fold (process_op R N mp meta slot) ops ?s)) =
      slots_of sel (os_sink ?s) \<union> (if \<exists>op \<in> set ops. P op then {slot} else {})"
    by (rule Cons.IH) (simp_all add: pub Cons.prems process_op_keeps)
  then show ?case using Cons.prems by (auto simp: process_op_sink)
qed simp

lemma process_ops_keeps:
  "published (os_engine (fold (process_op R N mp meta slot) ops s)) = published (os_engine s)"
  by (induction ops arbitrary: s) (simp_all add: process_op_keeps)

lemma emits_touch: "touches_only slot (op_emits R N meta eng slot op dicts)"
  by (cases op) (auto simp: process_set_op_def set_filter_ops_def set_sort_ops_def process_remove_op_def process_add_op_def
      overwrite_changed_eq shadow_flip_ops_def Let_def case_prod_beta split: option.splits)

lemma emits_alive:
  "slots_of alive_ins_sel (op_emits R N meta eng slot op dicts) = {}" "slots_of alive_rem_sel (op_emits R N meta eng slot op dicts) = {}"
  by (cases op; auto simp: process_set_op_def set_filter_ops_def set_sort_ops_def process_remove_op_def process_add_op_def
      overwrite_changed_eq Let_def case_prod_beta split: option.splits if_splits)+

lemma process_ops_append:
  "\<exists>E. os_sink (fold (process_op R N mp meta slot) ops s) = os_sink s @ E \<and> touches_only slot E \<and>
     slots_of alive_ins_sel E = {} \<and> slots_of alive_rem_sel E = {}"
proof (induction ops arbitrary: s)
  case (Cons op ops)
  from Cons.IH [of "process_op R N mp meta slot op s"] show ?case
    using emits_touch [of slot R N meta "os_engine s" op "dicts_of s"] emits_alive [of R N meta "os_engine s" slot op "dicts_of s"]
    by (fastforce simp: process_op_sink)
qed simp


section \<open>A document as an entry\<close>

text \<open>Documents whose indexed fields have the shape of their configuration: integers in the fields
  with many values, one finite value in the others.\<close>

fun int_values :: "field_value \<Rightarrow> bool" where
  "int_values (Single v) = (value_int v \<noteq> None)"
| "int_values (Multi vs) = list_all (\<lambda>v. value_int v \<noteq> None) vs"

definition indexed_names :: "config \<Rightarrow> string set" where
  "indexed_names cfg = ffc_name ` set (cfg_filter_fields cfg) \<union> sfc_name ` set (cfg_sort_fields cfg)"

definition doc_shape_ok :: "config \<Rightarrow> field_map \<Rightarrow> bool" where
  "doc_shape_ok cfg flds \<longleftrightarrow> hm_ok flds \<and> (\<forall>(n, v) \<in> set flds. n \<in> indexed_names cfg \<longrightarrow>
     (if is_multi_value cfg n then int_values v else \<exists>x. v = Single x \<and> value_finite x))"

lemma doc_shape_get:
  assumes "doc_shape_ok cfg flds" and "hm_get flds n = Some v" and "n \<in> indexed_names cfg"
  shows "is_multi_value cfg n \<Longrightarrow> int_values v" "\<not> is_multi_value cfg n \<Longrightarrow> \<exists>x. v = Single x \<and> value_finite x"
  using assms map_of_SomeD [OF assms(2)] by (auto simp: doc_shape_ok_def split: if_splits)

lemma int_value_key: "value_int x = Some i \<Longrightarrow> doc_bitmap_key x = (if i = NULL_BITMAP_KEY then None else Some i)"
  by (cases x) (simp_all add: Let_def)

lemma int_filter_keys:
  assumes "\<And>v. fv = Some v \<Longrightarrow> int_values v"
  shows "k \<in> filter_keys fv \<longleftrightarrow> k \<in> set (extract_multi_ints fv) \<and> k \<noteq> NULL_BITMAP_KEY"
proof (cases fv)
  case (Some v)
  show ?thesis
  proof (cases v)
    case (Single x)
    then show ?thesis using assms [OF Some] Some by (cases x) (auto simp: Let_def)
  next
    case (Multi vs)
    then have "\<forall>x \<in> set vs. value_int x \<noteq> None" using assms [OF Some] by (simp add: list_all_iff)
    then have "doc_bitmap_key x = Some k \<longleftrightarrow> value_int x = Some k \<and> k \<noteq> NULL_BITMAP_KEY" if "x \<in> set vs" for x
      using that by (cases x) (auto simp: Let_def)
    then show ?thesis using Some Multi by (auto simp: in_map_filter)
  qed
qed simp

lemma mem_hm: "hm_ok flds \<Longrightarrow> (n, v) \<in> set flds \<longleftrightarrow> hm_get flds n = Some v"
  by (simp add: hm_ok_def map_of_eq_Some_iff)

lemma in_changed:
  "SetOp n v \<in> set (changed_field_ops N cfg old (m, w)) \<longleftrightarrow> m = n \<and> \<not> is_multi_value cfg n \<and> v = field_value_to_json N w \<and>
     (case hm_get old n of Some u \<Rightarrow> \<not> field_value_eq u w | None \<Rightarrow> True)"
  "AddOp n v \<in> set (changed_field_ops N cfg old (m, w)) \<longleftrightarrow> m = n \<and> is_multi_value cfg n \<and>
     (\<exists>i \<in> set (extract_multi_ints (Some w)) - set (extract_multi_ints (hm_get old n)). v = json_int N i)"
  "RemoveOp n v \<in> set (changed_field_ops N cfg old (m, w)) \<longleftrightarrow> m = n \<and>
     (if is_multi_value cfg n
      then \<exists>i \<in> set (extract_multi_ints (hm_get old n)) - set (extract_multi_ints (Some w)). v = json_int N i
      else \<exists>u. hm_get old n = Some u \<and> v = field_value_to_json N u \<and> \<not> field_value_eq u w)"
  by (auto simp: changed_field_ops_def Let_def split: option.split)

lemma in_removed:
  "SetOp n v \<notin> set (removed_field_ops N cfg (m, u))" "AddOp n v \<notin> set (removed_field_ops N cfg (m, u))"
  "RemoveOp n v \<in> set (removed_field_ops N cfg (m, u)) \<longleftrightarrow> m = n \<and>
     (if is_multi_value cfg n then \<exists>i \<in> set (extract_multi_ints (Some u)). v = json_int N i else v = field_value_to_json N u)"
  by (auto simp: removed_field_ops_def)

lemma in_doc_ops:
  "op \<in> set (document_to_ops N \<lparr>doc_fields = new\<rparr> (Some old) cfg False) \<longleftrightarrow>
     (\<exists>(m, w) \<in> set new. op \<in> set (changed_field_ops N cfg (sd_fields old) (m, w))) \<or>
     (\<exists>(m, u) \<in> set (sd_fields old). hm_get new m = None \<and> op \<in> set (removed_field_ops N cfg (m, u)))"
  by (auto simp: document_to_ops_def Let_def)

lemma doc_ops_of_field:
  fixes N :: "'n json_ops" and cfg n
  assumes "hm_ok new" and "hm_ok (sd_fields old)"
  defines "ops \<equiv> document_to_ops N \<lparr>doc_fields = new\<rparr> (Some old) cfg False"
    and "u \<equiv> hm_get (sd_fields old) n" and "w \<equiv> hm_get new n"
  shows "SetOp n v \<in> set ops \<longleftrightarrow> \<not> is_multi_value cfg n \<and>
      (\<exists>y. w = Some y \<and> v = field_value_to_json N y \<and> (case u of Some x \<Rightarrow> \<not> field_value_eq x y | None \<Rightarrow> True))"
    "AddOp n v \<in> set ops \<longleftrightarrow> is_multi_value cfg n \<and> (\<exists>i \<in> set (extract_multi_ints w) - set (extract_multi_ints u). v = json_int N i)"
    "RemoveOp n v \<in> set ops \<longleftrightarrow>
      (if is_multi_value cfg n then \<exists>i \<in> set (extract_multi_ints u) - set (extract_multi_ints w). v = json_int N i
       else \<exists>x. u = Some x \<and> v = field_value_to_json N x \<and> (case w of Some y \<Rightarrow> \<not> field_value_eq x y | None \<Rightarrow> True))"
proof -
  note mem = mem_hm [OF assms(1)] mem_hm [OF assms(2)]
  show "SetOp n v \<in> set ops \<longleftrightarrow> \<not> is_multi_value cfg n \<and>
      (\<exists>y. w = Some y \<and> v = field_value_to_json N y \<and> (case u of Some x \<Rightarrow> \<not> field_value_eq x y | None \<Rightarrow> True))"
    unfolding ops_def in_doc_ops u_def w_def by (auto simp: in_changed in_removed mem)
  show "AddOp n v \<in> set ops \<longleftrightarrow> is_multi_value cfg n \<and> (\<exists>i \<in> set (extract_multi_ints w) - set (extract_multi_ints u). v = json_int N i)"
    unfolding ops_def in_doc_ops u_def w_def by (cases "hm_get new n") (auto simp: in_changed in_removed mem)
  show "RemoveOp n v \<in> set ops \<longleftrightarrow>
      (if is_multi_value cfg n then \<exists>i \<in> set (extract_multi_ints u) - set (extract_multi_ints w). v = json_int N i
       else \<exists>x. u = Some x \<and> v = field_value_to_json N x \<and> (case w of Some y \<Rightarrow> \<not> field_value_eq x y | None \<Rightarrow> True))"
    unfolding ops_def in_doc_ops u_def w_def
    by (cases "hm_get new n"; cases "hm_get (sd_fields old) n") (auto simp: in_changed in_removed mem)
qed

lemma ex_key:
  "(\<exists>op \<in> set ops. ins_key N n k op) \<longleftrightarrow>
     (\<exists>v. (SetOp n v \<in> set ops \<or> AddOp n v \<in> set ops) \<and> doc_bitmap_key (json_to_qvalue N v) = Some k)"
  "(\<exists>op \<in> set ops. rem_key N n k op) \<longleftrightarrow> (\<exists>v. RemoveOp n v \<in> set ops \<and> doc_bitmap_key (json_to_qvalue N v) = Some k)"
proof -
  show "(\<exists>op \<in> set ops. ins_key N n k op) \<longleftrightarrow>
     (\<exists>v. (SetOp n v \<in> set ops \<or> AddOp n v \<in> set ops) \<and> doc_bitmap_key (json_to_qvalue N v) = Some k)" (is "?l = ?r")
  proof
    assume ?l
    then obtain op where op: "op \<in> set ops" "ins_key N n k op" by blast
    from op(2,1) show ?r by (cases rule: sync_op.exhaust [of op]) auto
  next
    assume ?r
    then obtain v where v: "SetOp n v \<in> set ops \<or> AddOp n v \<in> set ops" "doc_bitmap_key (json_to_qvalue N v) = Some k" by blast
    then have "ins_key N n k (SetOp n v)" "ins_key N n k (AddOp n v)" by simp_all
    with v(1) show ?l by blast
  qed
  show "(\<exists>op \<in> set ops. rem_key N n k op) \<longleftrightarrow> (\<exists>v. RemoveOp n v \<in> set ops \<and> doc_bitmap_key (json_to_qvalue N v) = Some k)" (is "?l = ?r")
  proof
    assume ?l
    then obtain op where op: "op \<in> set ops" "rem_key N n k op" by blast
    from op(2,1) show ?r by (cases rule: sync_op.exhaust [of op]) auto
  next
    assume ?r
    then obtain v where v: "RemoveOp n v \<in> set ops" "doc_bitmap_key (json_to_qvalue N v) = Some k" by blast
    then have "rem_key N n k (RemoveOp n v)" by simp
    with v(1) show ?l by blast
  qed
qed

lemma qvalue_eq_key: "qvalue_eq x y \<Longrightarrow> doc_bitmap_key x = doc_bitmap_key y \<and> value_to_sort_u32 x = value_to_sort_u32 y"
  by (cases x; cases y) simp_all

lemma ex_bit:
  "(\<exists>op \<in> set ops. set_bit_op N st n j op) \<longleftrightarrow>
     (\<exists>v x. (SetOp n v \<in> set ops \<and> st x \<or> AddOp n v \<in> set ops) \<and> value_to_sort_u32 (json_to_qvalue N v) = Some x \<and> u32_bit x j)"
  "(\<exists>op \<in> set ops. clear_bit_op N st n j op) \<longleftrightarrow>
     (\<exists>v x. SetOp n v \<in> set ops \<and> value_to_sort_u32 (json_to_qvalue N v) = Some x \<and> st x \<and> \<not> u32_bit x j) \<or>
     (\<exists>v x. RemoveOp n v \<in> set ops \<and> value_to_sort_u32 (json_to_qvalue N v) = Some x \<and> u32_bit x j)"
proof -
  show "(\<exists>op \<in> set ops. set_bit_op N st n j op) \<longleftrightarrow>
     (\<exists>v x. (SetOp n v \<in> set ops \<and> st x \<or> AddOp n v \<in> set ops) \<and> value_to_sort_u32 (json_to_qvalue N v) = Some x \<and> u32_bit x j)" (is "?l = ?r")
  proof
    assume ?l
    then obtain op where op: "op \<in> set ops" "set_bit_op N st n j op" by blast
    from op(2,1) show ?r by (cases rule: sync_op.exhaust [of op]) auto
  next
    assume ?r
    then obtain v x where v: "SetOp n v \<in> set ops \<and> st x \<or> AddOp n v \<in> set ops"
      "value_to_sort_u32 (json_to_qvalue N v) = Some x \<and> u32_bit x j" by blast
    then have "st x \<Longrightarrow> set_bit_op N st n j (SetOp n v)" "set_bit_op N st n j (AddOp n v)" by auto
    with v(1) show ?l by blast
  qed
  show "(\<exists>op \<in> set ops. clear_bit_op N st n j op) \<longleftrightarrow>
     (\<exists>v x. SetOp n v \<in> set ops \<and> value_to_sort_u32 (json_to_qvalue N v) = Some x \<and> st x \<and> \<not> u32_bit x j) \<or>
     (\<exists>v x. RemoveOp n v \<in> set ops \<and> value_to_sort_u32 (json_to_qvalue N v) = Some x \<and> u32_bit x j)" (is "?l = ?r")
  proof
    assume ?l
    then obtain op where op: "op \<in> set ops" "clear_bit_op N st n j op" by blast
    from op(2,1) show ?r by (cases rule: sync_op.exhaust [of op]) auto
  next
    assume ?r
    then obtain v x where v: "value_to_sort_u32 (json_to_qvalue N v) = Some x"
      "SetOp n v \<in> set ops \<and> st x \<and> \<not> u32_bit x j \<or> RemoveOp n v \<in> set ops \<and> u32_bit x j" by blast
    then have "st x \<and> \<not> u32_bit x j \<Longrightarrow> clear_bit_op N st n j (SetOp n v)" "u32_bit x j \<Longrightarrow> clear_bit_op N st n j (RemoveOp n v)" by auto
    with v(2) show ?l by blast
  qed
qed

context json_laws
begin

lemma doc_ops_keys:
  assumes "doc_shape_ok cfg new" and "doc_shape_ok cfg (sd_fields old)" and "n \<in> indexed_names cfg" and "k \<noteq> NULL_BITMAP_KEY"
  defines "ops \<equiv> document_to_ops N \<lparr>doc_fields = new\<rparr> (Some old) cfg False"
  shows "k \<in> filter_keys (hm_get new n) \<longleftrightarrow>
    (k \<in> filter_keys (hm_get (sd_fields old) n) \<and> \<not> (\<exists>op \<in> set ops. rem_key N n k op)) \<or> (\<exists>op \<in> set ops. ins_key N n k op)"
proof -
  have ok: "hm_ok new" "hm_ok (sd_fields old)" using assms(1,2) by (simp_all add: doc_shape_ok_def)
  note mem = doc_ops_of_field [OF ok, of n _ N cfg, folded ops_def]
  note shape = doc_shape_get [OF assms(1) _ assms(3)] doc_shape_get [OF assms(2) _ assms(3)]
  show ?thesis
  proof (cases "is_multi_value cfg n")
    case True
    have keys: "k \<in> filter_keys (hm_get new n) \<longleftrightarrow> k \<in> set (extract_multi_ints (hm_get new n))"
      "k \<in> filter_keys (hm_get (sd_fields old) n) \<longleftrightarrow> k \<in> set (extract_multi_ints (hm_get (sd_fields old) n))"
      using int_filter_keys shape(1,3) True assms(4) by metis+
    have key: "doc_bitmap_key (json_to_qvalue N (json_int N i)) = Some k \<longleftrightarrow> i = k" for i
      using assms(4) by (auto simp: Let_def)
    show ?thesis unfolding ex_key mem keys using True key by auto
  next
    case False
    have key: "doc_bitmap_key (json_to_qvalue N (field_value_to_json N v)) = Some k \<longleftrightarrow> k \<in> filter_keys (Some v)"
      if "v = Single x" "value_finite x" for v x
      using that by (auto simp: qvalue_roundtrip)
    show ?thesis
    proof (cases "hm_get new n")
      case new: None
      then show ?thesis unfolding ex_key mem using False key shape(4) [OF _ False] by (cases "hm_get (sd_fields old) n") fastforce+
    next
      case new: (Some w)
      then obtain y where y: "w = Single y" "value_finite y" using shape(2) [OF _ False] by auto
      show ?thesis
      proof (cases "hm_get (sd_fields old) n")
        case None
        then show ?thesis unfolding ex_key mem using False new key [OF y] by auto
      next
        case (Some u)
        then obtain x where x: "u = Single x" "value_finite x" using shape(4) [OF _ False] by auto
        show ?thesis unfolding ex_key mem using False new Some key [OF y] key [OF x] qvalue_eq_key [of x y] x y by auto
      qed
    qed
  qed
qed


lemma doc_ops_bits:
  assumes "doc_shape_ok cfg new" and "doc_shape_ok cfg (sd_fields old)" and "n \<in> indexed_names cfg" and "\<not> is_multi_value cfg n"
  defines "ops \<equiv> document_to_ops N \<lparr>doc_fields = new\<rparr> (Some old) cfg False"
    and "u \<equiv> hm_get (sd_fields old) n" and "w \<equiv> hm_get new n"
  assumes "L \<longleftrightarrow> (case sort_of_value u of None \<Rightarrow> False | Some x \<Rightarrow> u32_bit x j)"
    and "\<And>y. sort_of_value w = Some y \<Longrightarrow> \<not> st y \<Longrightarrow>
      sort_of_value u = None \<and> \<not> u32_bit y j \<or> (\<exists>x z. u = Some x \<and> w = Some z \<and> field_value_eq x z)"
  shows "(case sort_of_value w of None \<Rightarrow> False | Some y \<Rightarrow> u32_bit y j) \<longleftrightarrow>
    (L \<and> \<not> (\<exists>op \<in> set ops. clear_bit_op N st n j op)) \<or> (\<exists>op \<in> set ops. set_bit_op N st n j op)"
proof -
  have ok: "hm_ok new" "hm_ok (sd_fields old)" using assms(1,2) by (simp_all add: doc_shape_ok_def)
  note mem = doc_ops_of_field [OF ok, of n _ N cfg, folded ops_def u_def w_def]
  have shape: "w = Some v \<Longrightarrow> \<exists>x. v = Single x \<and> value_finite x" "u = Some v \<Longrightarrow> \<exists>x. v = Single x \<and> value_finite x" for v
    using doc_shape_get(2) [OF assms(1) _ assms(3,4)] doc_shape_get(2) [OF assms(2) _ assms(3,4)] by (auto simp: u_def w_def)
  have key: "value_to_sort_u32 (json_to_qvalue N (field_value_to_json N (Single x))) = value_to_sort_u32 x" if "value_finite x" for x
    using that by (simp add: qvalue_roundtrip)
  show ?thesis
  proof (cases w)
    case None
    show ?thesis
    proof (cases u)
      case None
      then show ?thesis unfolding ex_bit mem using assms(4,8) \<open>w = None\<close> by auto
    next
      case (Some x)
      then obtain a where a: "x = Single a" "value_finite a" using shape(2) by blast
      show ?thesis unfolding ex_bit mem using assms(4,8) \<open>w = None\<close> Some a key [OF a(2)] by (auto split: option.splits)
    qed
  next
    case w: (Some z)
    then obtain b where b: "z = Single b" "value_finite b" using shape(1) by blast
    show ?thesis
    proof (cases u)
      case None
      then show ?thesis unfolding ex_bit mem using assms(4,8,9) w b key [OF b(2)] by (auto split: option.splits)
    next
      case (Some x)
      then obtain a where a: "x = Single a" "value_finite a" using shape(2) by blast
      let ?J = "\<lambda>x. field_value_to_json N (Single x)"
      have ops: "SetOp n v \<in> set ops \<longleftrightarrow> v = ?J b \<and> \<not> qvalue_eq a b" "AddOp n v \<notin> set ops"
        "RemoveOp n v \<in> set ops \<longleftrightarrow> v = ?J a \<and> \<not> qvalue_eq a b" for v
        unfolding mem using assms(4) w b Some a by auto
      have "(\<exists>op \<in> set ops. set_bit_op N st n j op) \<longleftrightarrow> \<not> qvalue_eq a b \<and> (\<exists>y. value_to_sort_u32 b = Some y \<and> st y \<and> u32_bit y j)"
        by (auto simp: ex_bit ops qvalue_roundtrip [OF b(2)])
      moreover have "(\<exists>op \<in> set ops. clear_bit_op N st n j op) \<longleftrightarrow> \<not> qvalue_eq a b \<and>
          ((\<exists>y. value_to_sort_u32 b = Some y \<and> st y \<and> \<not> u32_bit y j) \<or> (\<exists>x. value_to_sort_u32 a = Some x \<and> u32_bit x j))"
        by (auto simp: ex_bit ops qvalue_roundtrip [OF a(2)] qvalue_roundtrip [OF b(2)])
      ultimately show ?thesis using assms(8,9) w b Some a qvalue_eq_key [of a b]
        by (cases "qvalue_eq a b"; cases "value_to_sort_u32 a"; cases "value_to_sort_u32 b") auto
    qed
  qed
qed

end

lemma ops_not_null:
  assumes "json_laws N" and "doc_shape_ok cfg new" and "doc_shape_ok cfg (sd_fields old)" and "n \<in> indexed_names cfg"
    and "op \<in> set (document_to_ops N \<lparr>doc_fields = new\<rparr> (Some old) cfg False)"
  shows "\<not> null_op n op"
proof -
  have ok: "hm_ok new" "hm_ok (sd_fields old)" using assms(2,3) by (simp_all add: doc_shape_ok_def)
  note mem = doc_ops_of_field [OF ok, of n _ N cfg]
  have single: "\<not> json_is_null (field_value_to_json N v)" if "\<exists>x. v = Single x \<and> value_finite x" for v
    using that json_laws.qvalue_to_json_null [OF assms(1)] by auto
  note shape = doc_shape_get(2) [OF assms(2) _ assms(4)] doc_shape_get(2) [OF assms(3) _ assms(4)]
  have "\<not> json_is_null v" if "SetOp n v \<in> set (document_to_ops N \<lparr>doc_fields = new\<rparr> (Some old) cfg False)" for v
    using that unfolding mem using single shape by auto
  moreover have "\<not> json_is_null v" if "RemoveOp n v \<in> set (document_to_ops N \<lparr>doc_fields = new\<rparr> (Some old) cfg False)" for v
    using that unfolding mem using single shape by (auto split: if_splits)
  moreover have "\<not> json_is_null v" if "AddOp n v \<in> set (document_to_ops N \<lparr>doc_fields = new\<rparr> (Some old) cfg False)" for v
    using that unfolding mem by auto
  ultimately show ?thesis using assms(5) by (cases rule: sync_op.exhaust [of op]) auto
qed

text \<open>Sort values that fit into their field, and different values that stay different as sort values:
  the suppression of writes compares them with the published value.\<close>

definition sort_values_ok :: "config \<Rightarrow> field_map \<Rightarrow> field_map \<Rightarrow> bool" where
  "sort_values_ok cfg old new \<longleftrightarrow> (\<forall>sc \<in> set (cfg_sort_fields cfg). \<forall>x. sort_of_value (hm_get old (sfc_name sc)) = Some x \<longrightarrow>
     drop_bit (unat (sfc_bits sc)) x = 0 \<and>
     (sort_of_value (hm_get new (sfc_name sc)) = Some x \<longrightarrow>
       field_value_eq (the (hm_get old (sfc_name sc))) (the (hm_get new (sfc_name sc)))))"

lemma published_value:
  assumes "roaring R" and "state_ok R (en_snapshot e)" and "si_get_field (en_sorts e) (sfc_name sc) = Some f"
    and "sf_num_bits f = unat (sfc_bits sc)" and "layer_indexed (state_view R (en_snapshot e)) slot sc u"
    and "\<And>x. u = Some x \<Longrightarrow> drop_bit (unat (sfc_bits sc)) x = 0" and "\<not> stale R (Some e) (sfc_name sc) slot w"
  shows "w = (case u of Some x \<Rightarrow> x | None \<Rightarrow> 0)"
proof -
  have ok: "sf_ok R f" using assms(2,3) by (auto simp: state_ok_def split: prod.splits)
  have len: "length (sf_bit_layers f) = unat (sfc_bits sc)" "sf_num_bits f \<le> 32" using ok assms(4) by (simp_all add: sf_ok_def)
  have "w = sf_value R f slot"
    using assms(7,3) roaring.reconstruct_value_eq [OF assms(1) ok] by (simp add: stale_def reconstruct_sort_value_def)
  moreover have "bit (sf_value R f slot) k \<longleftrightarrow> k < unat (sfc_bits sc) \<and> (case u of Some x \<Rightarrow> u32_bit x k | None \<Rightarrow> False)" for k
  proof -
    have "iv_sort (state_view R (en_snapshot e)) (sfc_name sc) k = sf_sets R f k" if "k < unat (sfc_bits sc)"
      using that assms(3) len by (cases "en_snapshot e") (auto simp: state_view_def layer_slots_def)
    then show ?thesis using bit_sf_value [OF ok] assms(4,5) by (auto simp: layer_indexed_def split: option.splits)
  qed
  moreover have "bit x k \<longleftrightarrow> k < unat (sfc_bits sc) \<and> u32_bit x k" if "u = Some x" for x k
  proof (cases "k < unat (sfc_bits sc)")
    case True
    then show ?thesis using u32_bit_iff [of k x] len(2) assms(4) by simp
  next
    case False
    have "bit (drop_bit (unat (sfc_bits sc)) x) (k - unat (sfc_bits sc)) = bit x k" using False by (simp add: bit_drop_bit_eq)
    then show ?thesis using assms(6) [OF that] False by simp
  qed
  ultimately show ?thesis by (auto intro!: bit_word_eqI split: option.splits)
qed

lemma no_computed_deps:
  assumes "\<And>sc. sc \<in> set (cfg_sort_fields cfg) \<Longrightarrow> sfc_computed sc = None"
  shows "mt_computed_deps (meta_from_config cfg) = []"
proof -
  have "meta_computed_deps r cfg = []" for r
    unfolding meta_computed_deps_def by (rule fold_inv_in [where P = "\<lambda>m. m = []"]) (simp_all add: assms)
  then show ?thesis by (simp add: meta_from_config_def Let_def)
qed

text \<open>The index after the ops of a document, on a sink that was empty.\<close>

lemma doc_ops_indexed:
  fixes N :: "'n json_ops" and cfg :: config and old :: stored_doc and new :: field_map and mp :: msgpack
  assumes "roaring R" and "json_laws N" and "config_names_ok cfg"
    and "\<And>sc. sc \<in> set (cfg_sort_fields cfg) \<Longrightarrow> sfc_computed sc = None \<and> \<not> is_multi_value cfg (sfc_name sc) \<and>
      (\<exists>f. si_get_field (en_sorts e) (sfc_name sc) = Some f \<and> sf_num_bits f = unat (sfc_bits sc))"
    and "os_engine s = Some e" and "os_sink s = []" and "state_ok R (en_snapshot e)"
    and "doc_shape_ok cfg new" and "doc_shape_ok cfg (sd_fields old)" and "sort_values_ok cfg (sd_fields old) new"
    and "filter_indexed cfg (shadow_targets cfg @ map fst (en_dictionaries e)) (state_view R (en_snapshot e)) slot (sd_fields old)"
    and "sort_indexed cfg (state_view R (en_snapshot e)) slot (sd_fields old)"
  defines "ops \<equiv> document_to_ops N \<lparr>doc_fields = new\<rparr> (Some old) cfg False"
    and "excl \<equiv> shadow_targets cfg @ map fst (en_dictionaries e)"
  defines "iv \<equiv> batch_view (os_sink (fold (process_op R N mp (meta_from_config cfg) slot) ops s)) (state_view R (en_snapshot e))"
  shows "filter_indexed cfg excl iv slot new" "sort_indexed cfg iv slot new"
proof -
  let ?E = "os_sink (fold (process_op R N mp (meta_from_config cfg) slot) ops s)" and ?iv0 = "state_view R (en_snapshot e)"
  have dicts: "dict_fields (dicts_of s) = dom (hm_get (en_dictionaries e))" using assms(5) by (simp add: dict_fields_def)
  show "filter_indexed cfg excl iv slot new"
    unfolding filter_indexed_def
  proof (intro ballI allI impI)
    fix n k assume n: "n \<in> ffc_name ` set (cfg_filter_fields cfg) - set excl" and k: "k \<noteq> NULL_BITMAP_KEY"
    have idx: "n \<in> indexed_names cfg" using n by (simp add: indexed_names_def)
    have nd: "n \<notin> dom (hm_get (en_dictionaries e))" using n by (simp add: excl_def dom_map_of_conv_image_fst)
    note nn = ops_not_null [OF assms(2,8,9) idx, folded ops_def]
    have "slots_of (ins_sel n k) ?E = slots_of (ins_sel n k) (os_sink s) \<union> (if \<exists>op \<in> set ops. ins_key N n k op then {slot} else {})"
      by (rule process_ops_slots [OF emits_filter(1) dicts]) (use n nd k nn in \<open>auto simp: excl_def\<close>)
    moreover have "slots_of (rem_sel n k) ?E = slots_of (rem_sel n k) (os_sink s) \<union> (if \<exists>op \<in> set ops. rem_key N n k op then {slot} else {})"
      by (rule process_ops_slots [OF emits_filter(2) dicts]) (use n nd k nn in \<open>auto simp: excl_def\<close>)
    moreover have "slot \<in> iv_filter ?iv0 n k \<longleftrightarrow> k \<in> filter_keys (hm_get (sd_fields old) n)"
      using assms(11) n k by (simp add: filter_indexed_def excl_def)
    ultimately show "slot \<in> iv_filter iv n k \<longleftrightarrow> k \<in> filter_keys (hm_get new n)"
      using json_laws.doc_ops_keys [OF assms(2,8,9) idx k, folded ops_def] assms(6) unfolding iv_def in_filter_batch by simp
  qed
  show "sort_indexed cfg iv slot new"
    unfolding sort_indexed_def layer_indexed_def
  proof (intro ballI allI impI)
    fix sc j assume sc: "sc \<in> set (cfg_sort_fields cfg)" and j: "j < unat (sfc_bits sc)"
    let ?n = "sfc_name sc" and ?st = "stale R (Some e) (sfc_name sc) slot"
    have idx: "?n \<in> indexed_names cfg" using sc by (simp add: indexed_names_def)
    have dist: "distinct (map sfc_name (cfg_sort_fields cfg))" using assms(3) by (simp add: config_names_ok_def)
    note nn = ops_not_null [OF assms(2,8,9) idx, folded ops_def]
    have fresh: "fresh_sort sc flds = sort_of_value (hm_get flds ?n)" for flds using assms(4) [OF sc] by (simp add: fresh_sort_def)
    have old: "layer_indexed ?iv0 slot sc (sort_of_value (hm_get (sd_fields old) ?n))"
      using assms(12) sc fresh by (auto simp: sort_indexed_def)
    have "slots_of (set_sel ?n j) ?E = slots_of (set_sel ?n j) (os_sink s) \<union> (if \<exists>op \<in> set ops. set_bit_op N ?st ?n j op then {slot} else {})"
      unfolding assms(5) [symmetric] by (rule process_ops_slots [OF emits_sort(1) [OF dist sc j] dicts]) (rule nn)
    moreover have "slots_of (clear_sel ?n j) ?E = slots_of (clear_sel ?n j) (os_sink s) \<union> (if \<exists>op \<in> set ops. clear_bit_op N ?st ?n j op then {slot} else {})"
      unfolding assms(5) [symmetric] by (rule process_ops_slots [OF emits_sort(2) [OF dist sc j] dicts]) (rule nn)
    moreover have "slot \<in> iv_sort ?iv0 ?n j \<longleftrightarrow> (case sort_of_value (hm_get (sd_fields old) ?n) of None \<Rightarrow> False | Some x \<Rightarrow> u32_bit x j)"
      using old j by (simp add: layer_indexed_def)
    moreover have same: "sort_of_value (hm_get (sd_fields old) ?n) = None \<and> \<not> u32_bit y j \<or>
        (\<exists>x z. hm_get (sd_fields old) ?n = Some x \<and> hm_get new ?n = Some z \<and> field_value_eq x z)"
      if "sort_of_value (hm_get new ?n) = Some y" "\<not> ?st y" for y
    proof -
      obtain f where f: "si_get_field (en_sorts e) ?n = Some f" "sf_num_bits f = unat (sfc_bits sc)" using assms(4) [OF sc] by blast
      have ok: "drop_bit (unat (sfc_bits sc)) x = 0" "y = x \<Longrightarrow> field_value_eq (the (hm_get (sd_fields old) ?n)) (the (hm_get new ?n))"
        if "sort_of_value (hm_get (sd_fields old) ?n) = Some x" for x
        using assms(10) sc that \<open>sort_of_value (hm_get new ?n) = Some y\<close> unfolding sort_values_ok_def by blast+
      from published_value [OF assms(1,7) f old ok(1) that(2)]
      have y: "y = (case sort_of_value (hm_get (sd_fields old) ?n) of Some x \<Rightarrow> x | None \<Rightarrow> 0)" .
      show ?thesis
      proof (cases "sort_of_value (hm_get (sd_fields old) ?n)")
        case None
        then show ?thesis using y by (simp add: u32_bit_def)
      next
        case (Some x)
        then show ?thesis using y ok(2) [OF Some] that(1) by (cases "hm_get (sd_fields old) ?n"; cases "hm_get new ?n") auto
      qed
    qed
    ultimately show "slot \<in> iv_sort iv ?n j \<longleftrightarrow> (case fresh_sort sc new of None \<Rightarrow> False | Some w \<Rightarrow> u32_bit w j)"
      using json_laws.doc_ops_bits [OF assms(2,8,9) idx _ _ same, folded ops_def] assms(4) [OF sc] assms(6)
      unfolding iv_def fresh by (simp add: batch_view_def)
  qed
qed

lemma doc_ops_kind: "op \<in> set (document_to_ops N new old cfg is_patch) \<Longrightarrow> is_field_op op"
proof -
  have changed: "op \<in> set (changed_field_ops N cfg flds p) \<Longrightarrow> is_field_op op" for flds p
    by (cases p) (auto simp: changed_field_ops_def Let_def split: option.splits if_splits)
  have removed: "op \<in> set (removed_field_ops N cfg p) \<Longrightarrow> is_field_op op" for p
    by (cases p) (auto simp: removed_field_ops_def split: if_splits)
  assume "op \<in> set (document_to_ops N new old cfg is_patch)"
  then consider flds p where "op \<in> set (changed_field_ops N cfg flds p)" | p where "op \<in> set (removed_field_ops N cfg p)"
    unfolding document_to_ops_def Let_def by (fastforce split: if_splits)
  then show "is_field_op op" by cases (rule changed removed; assumption)+
qed

lemma field_ops_only:
  assumes "\<And>op. op \<in> set ops \<Longrightarrow> is_field_op op"
  shows "DeleteOp \<notin> set ops" "\<not> list_ex is_query_op ops" "fold (query_op_entry R C N mp crc meta now cap publish) ops s = s"
proof -
  show "DeleteOp \<notin> set ops" using assms by fastforce
  have "\<not> is_query_op op" if "is_field_op op" for op :: "'n json sync_op" using that by (cases op) simp_all
  then show "\<not> list_ex is_query_op ops" using assms by (auto simp: list_ex_iff)
  have "query_op_entry R C N mp crc meta now cap publish op s = s" if "is_field_op op" for op s using that by (cases op) simp_all
  then show "fold (query_op_entry R C N mp crc meta now cap publish) ops s = s" using assms by (induction ops) simp_all
qed

lemma live_field_entry:
  assumes "\<And>op. op \<in> set ops \<Longrightarrow> is_field_op op" and "mt_computed_deps meta = []"
  shows "os_sink (live_entry R C N mp crc meta now cap publish slot False ops s) = os_sink (fold (process_op R N mp meta slot) ops s)"
proof -
  have "fold (query_op_entry R C N mp crc meta now cap publish) ops s = s" by (rule field_ops_only(3)) (rule assms(1))
  then show ?thesis using assms(2) by (simp add: live_entry_def recompute_computed_sorts_for_slot_def Let_def)
qed


section \<open>Properties\<close>


definition entry_state :: "(u32 set, mutation_op list \<times> bool) batch_state" where
  "entry_state = batch_start (Some entry_engine) None (dv_open ''d'' [] [] []) [] []"

definition new_entry_doc :: field_map where
  "new_entry_doc = [(''tag'', Multi [VInteger 2, VInteger 5]), (''flag'', Single (VInteger 1)), (''count'', Single (VInteger 6))]"

lemma entry_config_simps:
  "cfg_sort_fields entry_config = [\<lparr>sfc_name = ''count'', sfc_source_type = ''uint32'', sfc_encoding = ''linear'', sfc_bits = 3,
       sfc_eager_load = True, sfc_computed = None\<rparr>]"
  "shadow_targets entry_config = []" "ffc_name ` set (cfg_filter_fields entry_config) = {''tag'', ''flag''}"
  "is_multi_value entry_config n \<longleftrightarrow> n = ''tag''" "en_dictionaries entry_engine = []"
  by (auto simp: entry_config_def shadow_targets_def is_multi_value_def tag_cfg_def entry_engine_def)

lemma entry_docs_ok:
  "doc_shape_ok entry_config new_entry_doc" "doc_shape_ok entry_config (sd_fields old_entry_doc)"
  "sort_values_ok entry_config (sd_fields old_entry_doc) new_entry_doc"
  "filter_indexed entry_config [] (state_view set_roaring (en_snapshot entry_engine)) 2 (sd_fields old_entry_doc)"
  "sort_indexed entry_config (state_view set_roaring (en_snapshot entry_engine)) 2 (sd_fields old_entry_doc)"
proof -
  show "doc_shape_ok entry_config new_entry_doc" "doc_shape_ok entry_config (sd_fields old_entry_doc)"
    by (simp_all add: doc_shape_ok_def hm_ok_def new_entry_doc_def old_entry_doc_def entry_config_simps)
  show "sort_values_ok entry_config (sd_fields old_entry_doc) new_entry_doc"
    by (simp add: sort_values_ok_def entry_config_simps old_entry_doc_def new_entry_doc_def)
  show "filter_indexed entry_config [] (state_view set_roaring (en_snapshot entry_engine)) 2 (sd_fields old_entry_doc)"
    by (auto simp: filter_indexed_def entry_config_simps entry_view old_entry_doc_def NULL_BITMAP_KEY_def u64_MAX_def Let_def)
  show "sort_indexed entry_config (state_view set_roaring (en_snapshot entry_engine)) 2 (sd_fields old_entry_doc)"
    by (auto simp: sort_indexed_def layer_indexed_def entry_config_simps entry_view fresh_sort_def old_entry_doc_def field3_layer
        u32_bit_iff)
qed


end
