(* ===== verification/Ops_Findings.thy ===== *)
theory Ops_Findings
  imports Ops_Maintenance
begin

text \<open>
  Behaviours of the ops processor (\<open>ops_processor.rs\<close>) that differ from what its comments and tests
  intend, each on a concrete input.  The flush thread applies the removes of a batch before its inserts,
  so an entry that flips a bit twice leaves both settings behind.
\<close>

section \<open>A schema with a publication time\<close>

definition feed_doc :: stored_doc where
  "feed_doc = \<lparr>sd_fields = [(''publishedAt'', Single (VInteger 3))], sd_schema_version = 1\<rparr>"

definition feed_engine :: "(u32 set, mutation_op list \<times> bool) engine" where
  "feed_engine = entry_engine\<lparr>en_config := doc_config, en_registry := fr_from_config doc_config, en_doc_cache := Some [(2, feed_doc)]\<rparr>"

definition feed_state :: "(u32 set, mutation_op list \<times> bool) batch_state" where
  "feed_state = batch_start (Some feed_engine) None (dv_open ''d'' [] [] []) [] []"

definition published_at :: "u64 \<Rightarrow> serde_number json" where
  "published_at t = JNumber (PosInt t)"

definition run_entry :: "serde_number json sync_op list \<Rightarrow> mutation_op list" where
  "run_entry ops = os_sink (process_entry set_roaring list_chan plain_json sample_msgpack (\<lambda>_. 0) (meta_from_config doc_config) 9 100
     (\<lambda>e. (e, True)) (eo_new (ucast (2 :: u32)) ops) feed_state)"

lemma feed_meta:
  "hm_get (mt_filter_fields (meta_from_config doc_config)) ''publishedAt'' = None"
  "hm_get (mt_sort_fields (meta_from_config doc_config)) ''publishedAt'' = None"
  "hm_get (mt_exists_boolean_shadows (meta_from_config doc_config)) ''publishedAt'' = Some [''published'']"
  "mt_deferred_alive_field (meta_from_config doc_config) = Some (''publishedAt'', False)"
  "hm_get (mt_computed_deps (meta_from_config doc_config)) ''publishedAt'' =
    Some [\<lparr>ci_target = ''sortAt'', ci_target_arc = ''sortAt'', ci_target_bits = 4, ci_op = Greatest, ci_source_fields = [''existedAt'', ''publishedAt'']\<rparr>]"
  "mt_computed_deps (meta_from_config doc_config) \<noteq> []"
  by code_simp+

lemma feed_alive: "is_slot_alive set_roaring feed_engine 2" "reconstruct_sort_value set_roaring feed_engine ''sortAt'' 2 = None"
  by (simp_all add: is_slot_alive_def feed_engine_def entry_engine_def sa_is_alive_def small_index_def qe_new_def sa_from_state_def
      vb_new_def vb_contains_def bd_new_def reconstruct_sort_value_def si_get_field_def)

abbreviation feed_meta_data :: field_meta where
  "feed_meta_data \<equiv> meta_from_config doc_config"

lemma feed_ops:
  "process_remove_op plain_json feed_meta_data 2 ''publishedAt'' (published_at 3) (Some []) =
    [FilterRemove ''published'' 1 [2], FilterInsert ''published'' 0 [2]]"
  "process_set_op set_roaring plain_json feed_meta_data (Some feed_engine) 2 ''publishedAt'' (published_at 5) (Some []) =
    ([FilterRemove ''published'' 0 [2], FilterInsert ''published'' 1 [2]], Some [])"
  by (simp_all add: process_remove_op_def process_set_op_def set_filter_ops_def set_sort_ops_def shadow_flip_ops_def feed_meta Let_def
      published_at_def)

lemma feed_values:
  "ops_sort_values plain_json feed_meta_data [RemoveOp ''publishedAt'' (published_at 3)] = []"
  "ops_old_sort_values plain_json feed_meta_data [RemoveOp ''publishedAt'' (published_at 3)] = [(''publishedAt'', 3)]"
  "changed_sources feed_meta_data [] [(''publishedAt'', 3)] = [''publishedAt'']"
  "stored_sort_values feed_meta_data 9 [] [(''publishedAt'', 3)] [''publishedAt''] [(''publishedAt'', Single (VInteger 3))] = []"
  "ops_sort_values plain_json feed_meta_data [RemoveOp ''publishedAt'' (published_at 3), SetOp ''publishedAt'' (published_at 5)] = [(''publishedAt'', 5)]"
  "ops_old_sort_values plain_json feed_meta_data [RemoveOp ''publishedAt'' (published_at 3), SetOp ''publishedAt'' (published_at 5)] = [(''publishedAt'', 3)]"
  "changed_sources feed_meta_data [(''publishedAt'', 5)] [(''publishedAt'', 3)] = [''publishedAt'']"
  "stored_sort_values feed_meta_data 9 [(''publishedAt'', 5)] [(''publishedAt'', 3)] [''publishedAt''] [(''publishedAt'', Single (VInteger 3))] = []"
  by code_simp+

lemma feed_read:
  "en_dictionaries feed_engine = []" "get_document (\<lambda>_. 0) st 2 feed_engine = (Inr (Some feed_doc), feed_engine)"
  "os_engine s = Some feed_engine \<Longrightarrow> read_document (\<lambda>_. 0) 2 s = (Some feed_doc, s)"
proof -
  show d: "get_document (\<lambda>_. 0) st 2 feed_engine = (Inr (Some feed_doc), feed_engine)" for st
    by (simp add: get_document_def feed_engine_def)
  show "en_dictionaries feed_engine = []" by (simp add: feed_engine_def entry_engine_def)
  show "os_engine s = Some feed_engine \<Longrightarrow> read_document (\<lambda>_. 0) 2 s = (Some feed_doc, s)" by (simp add: read_document_def d)
qed

lemma feed_times: "clamp_u32 3 = 3" "\<not> u32_bit 0 k"
  by (simp_all add: clamp_u32_def u32_bit_def)

text \<open>What the unpublishing entry of an alive slot pushes: the safety net for lost activations reads the
  stored document, which still has the old time, and publishes the slot again.\<close>

lemma unpublish_ops:
  "run_entry [RemoveOp ''publishedAt'' (published_at 3)] =
    [FilterRemove ''published'' 1 [2], FilterInsert ''published'' 0 [2],
     SortClear ''sortAt'' 0 [2], SortClear ''sortAt'' 1 [2], SortClear ''sortAt'' 2 [2], SortClear ''sortAt'' 3 [2],
     FilterRemove ''published'' 0 [2], FilterInsert ''published'' 1 [2]]"
  by (simp add: run_entry_def process_entry_def eo_new_def Let_def feed_state_def batch_start_def feed_alive live_entry_def
     with_writer_def recompute_computed_sorts_for_slot_def count_applied_def feed_ops feed_values feed_meta emit_def feed_read
     recompute_dep_def new_computed_def overwrite_changed_def complete_activation_def feed_doc_def source_secs_def feed_times upt_rec)

text \<open>An unpublished slot is still found by a query for published slots.\<close>

lemma unpublish_undone:
  "2 \<in> iv_filter (batch_view (run_entry [RemoveOp ''publishedAt'' (published_at 3)]) iv) ''published'' 1"
  by (simp add: unpublish_ops batch_view_def)

text \<open>A slot whose publication time changes is afterwards found as published and as unpublished.\<close>

lemma republish_sets_both:
  "2 \<in> iv_filter (batch_view (run_entry [RemoveOp ''publishedAt'' (published_at 3), SetOp ''publishedAt'' (published_at 5)]) iv) ''published'' k"
  if "k = 0 \<or> k = 1"
proof -
  let ?ops = "run_entry [RemoveOp ''publishedAt'' (published_at 3), SetOp ''publishedAt'' (published_at 5)]"
  have "FilterInsert ''published'' 0 [2] \<in> set ?ops \<and> FilterInsert ''published'' 1 [2] \<in> set ?ops"
    by (simp add: run_entry_def process_entry_def eo_new_def Let_def feed_state_def batch_start_def feed_alive live_entry_def
        with_writer_def with_dicts_def recompute_computed_sorts_for_slot_def count_applied_def feed_ops feed_values feed_meta emit_def feed_read
        recompute_dep_def complete_activation_def feed_doc_def source_secs_def feed_times)
  then have "2 \<in> slots_of (ins_sel ''published'' k) ?ops" using that by (force simp: slots_of_def)
  then show ?thesis by (simp add: in_filter_batch)
qed


section \<open>Documents that cannot be read\<close>

text \<open>A failed read counts as an absent document: a late op for a deleted slot creates it again.\<close>

lemma unreadable_document_recreates:
  assumes "\<not> is_slot_deferred e slot" and "slot < slot_counter e" and "get_future_schedule N meta ops now = None"
    and "slot \<notin> set (bs_memo s)" and "dv_get crc (os_store s) slot = Inl err"
  shows "not_alive_entry N mp crc meta now slot ops e s = Inr ()"
  using assms by (simp add: not_alive_entry_def)


section \<open>Post-validation\<close>

text \<open>A validated slot is looked up in the snapshot that produced the result, so no slot of an answer is
  ever dropped when the clauses need no time buckets.\<close>

lemma validated_page:
  assumes "roaring R" and "clauses_ok R (engine_executor e now) (bq_filters q)" and "en_time_buckets e = None"
    and "bq_sort q = Some srt" and "si_get_field (en_sorts e) (sc_field srt) = Some f" and "sf_ok R f" and "cursor_fits f (bq_cursor q)"
    and "slots = drop (query_offset q) (page_slots (sc_direction srt = Desc) (sf_reconstruct_value R f) (cursor32 (bq_cursor q))
      (min (usize_saturating_add (bq_limit q) (query_offset q)) (cfg_max_page_size (en_config e)))
      (query_set R (engine_executor e now) (bq_filters q)))"
  shows "fst (execute_query_uncached R now q e) =
    Inr \<lparr>qr_ids = map ucast slots, qr_cursor = last_cursor R f slots, qr_total_matched = card (query_set R (engine_executor e now) (bq_filters q))\<rparr>"
proof -
  let ?ex = "engine_executor e now" and ?cs = "bq_filters q"
  have cs: "?cs = snap_filters R (en_time_buckets e) now (snap_filters R (en_time_buckets e) now ?cs)"
    by (simp add: snap_filters_def assms(3))
  obtain sorts where s: "execute_query_uncached R now q e =
      (post_validate R (en_in_flight e) (?ex\<lparr>qe_sorts := sorts\<rparr>) ?cs
         \<lparr>qr_ids = map ucast slots, qr_cursor = last_cursor R f slots, qr_total_matched = card (query_set R ?ex ?cs)\<rparr>,
       e\<lparr>en_snapshot := (en_slots e, en_filters e, sorts)\<rparr>)"
    using uncached_page [OF assms(1) refl refl cs assms(2,4-7) refl] assms(8) by auto
  have "filters_ok R (?ex\<lparr>qe_sorts := sorts\<rparr>)" "list_all (clause_ok R (?ex\<lparr>qe_sorts := sorts\<rparr>)) ?cs"
    using assms(2) by (simp_all add: clauses_ok_def list_all_iff)
  then have ok: "slot_matches_filters R (?ex\<lparr>qe_sorts := sorts\<rparr>) s ?cs = Inr (exact_match R ?ex ?cs s)" for s
    using slot_matches_correct [OF assms(1)] by (simp add: exact_match_def)
  have "exact_match R ?ex ?cs s" if "s \<in> set slots" for s
  proof -
    have "set slots \<subseteq> query_set R ?ex ?cs"
      unfolding assms(8) page_slots_def
      by (intro order_trans [OF set_drop_subset] order_trans [OF set_take_subset]) (auto simp: after_cursor_def split: option.splits if_splits)
    with that show ?thesis by (auto simp: query_set_def exact_match_def)
  qed
  then have "filter (\<lambda>s. s \<in> set (en_in_flight e) \<longrightarrow> exact_match R ?ex ?cs s) slots = slots" by (simp add: filter_id_conv)
  with s show ?thesis by (simp add: post_validate_eq [OF ok])
qed

lemma post_validation_keeps_all:
  assumes "roaring R" and "clauses_ok R (engine_executor e now) (bq_filters q)" and "en_time_buckets e = None"
    and "bq_sort q = Some srt" and "si_get_field (en_sorts e) (sc_field srt) = Some f" and "sf_ok R f" and "cursor_fits f (bq_cursor q)"
  shows "fst (execute_query_uncached R now q e) = fst (execute_query_uncached R now q (e\<lparr>en_in_flight := []\<rparr>))"
proof -
  have ex: "engine_executor (e\<lparr>en_in_flight := []\<rparr>) now = engine_executor e now"
    by (simp add: engine_executor_def Let_def split: option.splits)
  show ?thesis
    using validated_page [OF assms refl] validated_page [of R "e\<lparr>en_in_flight := []\<rparr>" now q srt f, OF _ _ _ _ _ _ _ refl] assms
    by (simp add: ex)
qed

end
