(* ===== verification/Spec2Isabelle.thy ===== *)
theory Spec2Isabelle
  imports Executor_Page Ops_Wal Sync_Ops Doc_Stream Ops_Entry Ops_Findings
begin

text \<open>
  A verification library for the bitmap index engine under \<open>src/src\<close>.

  \<^bold>\<open>The program.\<close> Documents get a 32-bit slot each. The engine keeps an alive bitmap, one
  bitmap per filter field and value, and one bitmap per bit of every sort field; a query computes
  the set of slots that satisfy its filter clauses with bitmap operations and walks the sort layers
  from the most significant bit down to find a page. Writers turn documents into bit mutations that
  a flush thread applies in batches; readers see a base bitmap with a small diff on top.

  \<^bold>\<open>Theories and the code they model.\<close>
  \<^item> \<open>Prelude\<close>: lists, association lists, words, the result type and \<open>error.rs\<close>.
  \<^item> \<open>Roaring\<close>: the interface of the third-party roaring bitmap as a record of operations with
    the locale \<open>roaring\<close>, interpreted on finite sets of slots.
  \<^item> \<open>Versioned_Bitmap\<close> (\<open>versioned_bitmap.rs\<close>): base and diff bitmaps, unloading and reloading.
  \<^item> \<open>Bitdex_Config\<close> (\<open>config.rs\<close>): the configuration records and their validation.
  \<^item> \<open>Slot_Allocator\<close> (\<open>slot.rs\<close>): allocation, deletion, deferred activation.
  \<^item> \<open>Sort_Field\<close>, \<open>Filter_Field\<close> (\<open>sort.rs\<close>, \<open>filter.rs\<close>): the two kinds of index field.
  \<^item> \<open>Bucket_Diff_Log\<close>, \<open>Time_Buckets\<close> (\<open>bucket_diff_log.rs\<close>, \<open>time_buckets.rs\<close>): rolling
    time windows and their drift.
  \<^item> \<open>Query\<close>, \<open>Dictionary\<close>, \<open>Planner\<close> (\<open>query.rs\<close>, \<open>types.rs\<close>, \<open>dictionary.rs\<close>, \<open>planner.rs\<close>).
  \<^item> \<open>Executor\<close>, \<open>Radix_Sort\<close>, \<open>Executor_Page\<close> (\<open>executor.rs\<close>, \<open>radix_sort.rs\<close>): clause
    evaluation and the pages of sorted and unsorted queries.
  \<^item> \<open>Write_Coalescer\<close> (\<open>write_coalescer.rs\<close>): the batches of the flush thread and the channel
    that feeds them.
  \<^item> \<open>Mutation\<close> (\<open>mutation.rs\<close>): the bit mutations of a document.
  \<^item> \<open>Sync_Ops\<close> (\<open>pg_sync/ops.rs\<close>, \<open>pg_sync/op_dedup.rs\<close>): the ops of the sync pipeline and
    their deduplication.
  \<^item> \<open>Encoding\<close>, \<open>Ops_Wal\<close> (\<open>ops_wal.rs\<close>): byte encodings and the write-ahead log of ops.
  \<^item> \<open>Shard_Store\<close> (\<open>shard_store.rs\<close>): shard files of snapshots and ops over a codec;
    \<open>Utf8\<close>, \<open>Doc_Codec\<close>, \<open>Doc_Store\<close>, \<open>Doc_Stream\<close> (\<open>shard_store_doc.rs\<close>): the codec of documents,
    the document store and its bulk writers.
  \<^item> \<open>Json\<close>, \<open>Rust_Text\<close>: JSON values over the number type of \<open>serde_json\<close>, and the string
    functions of the standard library that the parsers use.
  \<^item> \<open>Engine\<close>, \<open>Engine_Query\<close> (\<open>concurrent_engine.rs\<close>, \<open>concurrency.rs\<close>): the engine as the
    state of one moment, its accessors, document reads through the cache, the clean delete, the marks
    for writes in flight and the queries that bypass the result cache.
  \<^item> \<open>Ops_Apply\<close>, \<open>Ops_Processor\<close> (\<open>ops_processor.rs\<close>, \<open>ingester.rs\<close>): batches of ops as mutation
    ops and document writes, schedules, fan-outs, the sweep over overdue activations and the
    verification of recent ones; \<open>Ops_Maintenance\<close>, \<open>Ops_Entry\<close> and \<open>Ops_Findings\<close> hold their lemmas.

  \<^bold>\<open>How the state corresponds.\<close> A struct is a record with the fields of the struct, an enum a
  datatype with its variants. A \<open>HashMap\<close> is an association list with distinct keys, a
  \<open>BTreeMap\<close> a sorted one, a \<open>HashSet\<close> a list; \<open>u32\<close>, \<open>u64\<close> and \<open>i64\<close> are words of that
  width, \<open>usize\<close> a natural number, an \<open>f64\<close> its bit pattern. Errors are the left side of
  \<open>bresult\<close>. \<open>Arc\<close> and \<open>RwLock\<close> are dropped where a component is used by one thread at a
  time; where the order of concurrent calls matters (the dictionary, the pending deferred set) the
  model interleaves the atomic steps explicitly. The wall clock is an argument. Timing records,
  metrics and log output are left out.

  \<^bold>\<open>What is shown.\<close>
  \<^item> Bitmaps: merging, fusing and unloading preserve the set that readers see; the diff never
    contradicts itself.
  \<^item> Slots: the allocator invariant holds in every reachable state, and the deferred index refines
    a map from slots to activation times.
  \<^item> Fields: writes and reads agree, values survive an unload, the top-n traversal returns the
    first entries of the page order that come after the cursor.
  \<^item> Queries: clause evaluation computes the set of slots whose document satisfies the clause, on
    the snapshot path and on the by-slot path; the planner only reorders; a page is the prefix of the
    ordered result after the cursor, and following the cursors enumerates every result once.
  \<^item> Writes: a flush has the effect of its ops one after the other whenever no op of the batch is
    reordered across a conflicting one; the ops of an upsert, an insert, a patch and a deferred
    document make the index agree with the stored document; deferred mutations counted before a
    read are applied once the applied count reaches the value read.
  \<^item> Logs and stores: the write-ahead log refines a queue in every history of appends, reads, clean-ups
    and restarts, and a crash keeps a prefix; the document store refines a map from slots to documents,
    a put document is the one read, and crashes lose no acknowledged write.
  \<^item> Engine: an uncached query returns the specified page with its offset and its validation.
  \<^item> Ops: deduplication keeps the meaning of a batch; a document put through ops makes the index agree
    with it; an entry with a future schedule pushes nothing but the schedule; a delete clears every bit
    of its slot; a fan-out reaches at most a page of slots; the sweep ends.
  \<^item> \<open>Ops_Findings\<close> has concrete inputs on which the ops processor does not do what its comments say.

  \<^bold>\<open>Parameters.\<close> Code outside the repository is an argument with its documented laws: roaring bitmaps
  (\<open>roaring\<close>, interpreted on sets), the channel (\<open>channel\<close>, interpreted on lists), the codecs of log
  and shards, MessagePack, the checksum, and \<open>serde_json\<close> (\<open>json_laws\<close>). Waiting for the flush thread
  is the argument \<open>publish\<close> of the ops processor.

  \<^bold>\<open>Bounds and fuel.\<close> Loops of the source over bits run over the configured number of layers; loops
  over the compare-and-swap of the dictionary are interleaving steps. Two loops have fuel:
  draining the channel, where one more than the number of queued ops is shown to be enough, and the
  sweep, whose fuel of one more than its limit is shown to be enough because every page that continues
  the loop raises the number of checked slots. The other loops have termination proofs.

  \<^bold>\<open>Not modelled.\<close> The threads of the concurrent engine, its result cache with its persistence, lazy
  loading and snapshots on disk; the HTTP server and the relay; the polling loops and the SQL generation
  of the Postgres sync; the dump pipeline; the parsers of the query syntaxes. They are I/O around the
  modelled core or rest on crates the repository does not contain. Metrics, captures and benchmarks do
  not influence results.
\<close>

end
